(* ===== verification/Proxy_Prelude.thy ===== *)
theory Proxy_Prelude
  imports
    Main
    "HOL-Library.Word"
    "HOL-Library.Sublist"
    "HOL-Library.Product_Lexorder"
begin

section \<open>Shared types, string operations and automation\<close>

text \<open>
  What every component uses: time as a number of nanoseconds, results as a sum type, the
  string operations of the Rust standard library the code calls, and the lemmas about lists
  the component proofs share.

  A Rust \<open>String\<close> is its UTF-8 byte sequence; here a \<open>string\<close> is a list of
  \<open>char\<close>, that is of bytes, so \<open>length\<close> is Rust's \<open>len()\<close>. A code point outside ASCII
  is a run of bytes of value 128 or more.
\<close>

named_theorems result_simps \<open>unfolding of result plumbing\<close>

subsection \<open>Time\<close>

type_synonym instant = nat
type_synonym duration = nat

definition secs :: "nat \<Rightarrow> duration" where
  "secs n = n * 1000000000"

definition millis :: "nat \<Rightarrow> duration" where
  "millis n = n * 1000000"

definition u64_max :: nat where
  "u64_max = 2 ^ 64 - 1"

definition sat_add64 :: "nat \<Rightarrow> nat \<Rightarrow> nat" where
  "sat_add64 a b = min (a + b) u64_max"

definition sat_mul64 :: "nat \<Rightarrow> nat \<Rightarrow> nat" where
  "sat_mul64 a b = min (a * b) u64_max"

subsection \<open>Results\<close>

abbreviation Err :: "'e \<Rightarrow> 'e + 'a" where "Err \<equiv> Inl"
abbreviation Ok :: "'a \<Rightarrow> 'e + 'a" where "Ok \<equiv> Inr"

text \<open>Rust's question-mark operator on a result, and a run of checks that stops at the first error.\<close>

definition bind_result :: "'e + 'a \<Rightarrow> ('a \<Rightarrow> 'e + 'b) \<Rightarrow> 'e + 'b" where
  "bind_result r f = (case r of Err e \<Rightarrow> Err e | Ok x \<Rightarrow> f x)"

definition fail_if :: "bool \<Rightarrow> 'e \<Rightarrow> 'e + unit" where
  "fail_if b e = (if b then Err e else Ok ())"

fun all_ok :: "('e + unit) list \<Rightarrow> 'e + unit" where
  "all_ok [] = Ok ()"
| "all_ok (c # cs) = (case c of Err e \<Rightarrow> Err e | Ok _ \<Rightarrow> all_ok cs)"

lemma bind_result_simps [simp, result_simps]:
  "bind_result (Ok x) f = f x"
  "bind_result (Err e) f = Err e"
  by (simp_all add: bind_result_def)

lemma bind_result_Ok_iff [result_simps]:
  "bind_result r f = Ok y \<longleftrightarrow> (\<exists>x. r = Ok x \<and> f x = Ok y)"
  by (cases r) simp_all

lemma fail_if_Ok [simp, result_simps]: "fail_if b e = Ok u \<longleftrightarrow> \<not> b"
  by (simp add: fail_if_def)

lemma fail_if_Err [simp, result_simps]: "fail_if b e = Err e' \<longleftrightarrow> b \<and> e' = e"
  by (auto simp: fail_if_def)

lemma all_ok_append: "all_ok (cs @ ds) = bind_result (all_ok cs) (\<lambda>_. all_ok ds)"
  by (induction cs) (auto split: sum.splits)

lemma all_ok_iff: "all_ok cs = Ok () \<longleftrightarrow> (\<forall>c \<in> set cs. c = Ok ())"
  by (induction cs) (auto split: sum.splits)

lemma all_ok_map_iff: "all_ok (map f xs) = Ok () \<longleftrightarrow> (\<forall>x \<in> set xs. f x = Ok ())"
  by (auto simp: all_ok_iff)

lemma result_unit_cases: obtains (ok) "r = Ok ()" | (err) e where "r = Err e"
  by (cases r) auto

subsection \<open>Bytes and ASCII classes\<close>

definition byte_of :: "char \<Rightarrow> nat" where
  "byte_of c = of_char c"

definition ascii_digit :: "char \<Rightarrow> bool" where
  "ascii_digit c \<longleftrightarrow> 48 \<le> byte_of c \<and> byte_of c \<le> 57"

definition ascii_upper :: "char \<Rightarrow> bool" where
  "ascii_upper c \<longleftrightarrow> 65 \<le> byte_of c \<and> byte_of c \<le> 90"

definition ascii_lower :: "char \<Rightarrow> bool" where
  "ascii_lower c \<longleftrightarrow> 97 \<le> byte_of c \<and> byte_of c \<le> 122"

definition ascii_alpha :: "char \<Rightarrow> bool" where
  "ascii_alpha c \<longleftrightarrow> ascii_upper c \<or> ascii_lower c"

definition ascii_alnum :: "char \<Rightarrow> bool" where
  "ascii_alnum c \<longleftrightarrow> ascii_alpha c \<or> ascii_digit c"

definition ascii_hexdigit :: "char \<Rightarrow> bool" where
  "ascii_hexdigit c \<longleftrightarrow> ascii_digit c \<or> (65 \<le> byte_of c \<and> byte_of c \<le> 70)
     \<or> (97 \<le> byte_of c \<and> byte_of c \<le> 102)"

definition ascii_space :: "char \<Rightarrow> bool" where
  "ascii_space c \<longleftrightarrow> byte_of c \<in> {9, 10, 12, 13, 32}"

definition is_ascii :: "string \<Rightarrow> bool" where
  "is_ascii s \<longleftrightarrow> list_all (\<lambda>c. byte_of c < 128) s"

definition to_lower_char :: "char \<Rightarrow> char" where
  "to_lower_char c = (if ascii_upper c then char_of (byte_of c + 32) else c)"

definition to_upper_char :: "char \<Rightarrow> char" where
  "to_upper_char c = (if ascii_lower c then char_of (byte_of c - 32) else c)"

definition to_ascii_lower :: "string \<Rightarrow> string" where
  "to_ascii_lower s = map to_lower_char s"

definition to_ascii_upper :: "string \<Rightarrow> string" where
  "to_ascii_upper s = map to_upper_char s"

lemmas ascii_defs = byte_of_def ascii_digit_def ascii_upper_def ascii_lower_def ascii_alpha_def
  ascii_alnum_def ascii_hexdigit_def ascii_space_def

lemma byte_of_less [simp]: "byte_of c < 256"
  by (simp add: byte_of_def)

lemma byte_of_char_of [simp]: "n < 256 \<Longrightarrow> byte_of (char_of n) = n"
  by (simp add: byte_of_def)

lemma byte_of_inject [simp]: "byte_of c = byte_of d \<longleftrightarrow> c = d"
  by (simp add: byte_of_def)

lemma byte_of_to_lower: "byte_of (to_lower_char c) = (if ascii_upper c then byte_of c + 32 else byte_of c)"
  by (simp add: to_lower_char_def ascii_upper_def)

lemma byte_of_to_upper: "byte_of (to_upper_char c) = (if ascii_lower c then byte_of c - 32 else byte_of c)"
  by (simp add: to_upper_char_def ascii_lower_def less_imp_diff_less)

lemma to_lower_char_idem [simp]: "to_lower_char (to_lower_char c) = to_lower_char c"
  by (auto simp: to_lower_char_def ascii_upper_def)

lemma to_upper_char_idem [simp]: "to_upper_char (to_upper_char c) = to_upper_char c"
  by (auto simp: to_upper_char_def ascii_lower_def)

lemma to_ascii_lower_idem [simp]: "to_ascii_lower (to_ascii_lower s) = to_ascii_lower s"
  by (simp add: to_ascii_lower_def)

lemma to_ascii_upper_idem [simp]: "to_ascii_upper (to_ascii_upper s) = to_ascii_upper s"
  by (simp add: to_ascii_upper_def)

lemma length_to_ascii_lower [simp]: "length (to_ascii_lower s) = length s"
  by (simp add: to_ascii_lower_def)

lemma length_to_ascii_upper [simp]: "length (to_ascii_upper s) = length s"
  by (simp add: to_ascii_upper_def)

subsection \<open>Prefixes, suffixes, splitting\<close>

definition str_strip_prefix :: "string \<Rightarrow> string \<Rightarrow> string option" where
  "str_strip_prefix p s = (if prefix p s then Some (drop (length p) s) else None)"

definition str_strip_suffix :: "string \<Rightarrow> string \<Rightarrow> string option" where
  "str_strip_suffix p s = (if suffix p s then Some (take (length s - length p) s) else None)"

fun str_contains :: "string \<Rightarrow> string \<Rightarrow> bool" where
  "str_contains p [] = (p = [])"
| "str_contains p (c # s) = (prefix p (c # s) \<or> str_contains p s)"

text \<open>\<open>trim_end_matches\<close>: drop the pattern from the end as long as it is there.\<close>

function trim_end_matches :: "string \<Rightarrow> string \<Rightarrow> string" where
  "trim_end_matches p s =
     (if p \<noteq> [] \<and> suffix p s then trim_end_matches p (take (length s - length p) s) else s)"
  by pat_completeness auto
termination
  by (relation "measure (\<lambda>(p, s). length s)") (auto dest: suffix_length_le simp: suffix_def)

declare trim_end_matches.simps [simp del]

fun split_on :: "char \<Rightarrow> string \<Rightarrow> string list" where
  "split_on d [] = [[]]"
| "split_on d (c # s) =
     (if c = d then [] # split_on d s
      else (case split_on d s of [] \<Rightarrow> [[c]] | w # ws \<Rightarrow> (c # w) # ws))"

fun split_once :: "char \<Rightarrow> string \<Rightarrow> (string \<times> string) option" where
  "split_once d [] = None"
| "split_once d (c # s) =
     (if c = d then Some ([], s)
      else map_option (\<lambda>(a, b). (c # a, b)) (split_once d s))"

fun join_with :: "string \<Rightarrow> string list \<Rightarrow> string" where
  "join_with d [] = []"
| "join_with d [s] = s"
| "join_with d (s # t # ss) = s @ d @ join_with d (t # ss)"

text \<open>
  \<open>trim\<close> removes Unicode white space at both ends. The encodings below are the UTF-8 bytes of
  the code points with the property \<open>White_Space\<close>; UTF-8 is self-synchronising, so a
  valid string ends with such a code point exactly when it ends with these bytes.
\<close>

definition white_space :: "string list" where
  "white_space = map (map char_of)
     ([[9], [10], [11], [12], [13], [32], [194, 133], [194, 160], [225, 154, 128],
       [226, 128, 128], [226, 128, 129], [226, 128, 130], [226, 128, 131], [226, 128, 132],
       [226, 128, 133], [226, 128, 134], [226, 128, 135], [226, 128, 136], [226, 128, 137],
       [226, 128, 138], [226, 128, 168], [226, 128, 169], [226, 128, 175], [226, 129, 159],
       [227, 128, 128]] :: nat list list)"

lemma white_space_nonempty: "w \<in> set white_space \<Longrightarrow> w \<noteq> []"
  by (auto simp: white_space_def)

function trim_start :: "string \<Rightarrow> string" where
  "trim_start s = (case List.find (\<lambda>w. prefix w s) white_space of
     None \<Rightarrow> s | Some w \<Rightarrow> trim_start (drop (length w) s))"
  by pat_completeness auto
termination
proof (relation "measure length", goal_cases)
  case (2 s w)
  then have "w \<in> set white_space" "prefix w s"
    by (auto simp: find_Some_iff)
  then show ?case
    using white_space_nonempty [of w] by (cases w; cases s) auto
qed simp

function trim_end :: "string \<Rightarrow> string" where
  "trim_end s = (case List.find (\<lambda>w. suffix w s) white_space of
     None \<Rightarrow> s | Some w \<Rightarrow> trim_end (take (length s - length w) s))"
  by pat_completeness auto
termination
proof (relation "measure length", goal_cases)
  case (2 s w)
  then have "w \<in> set white_space" "suffix w s"
    by (auto simp: find_Some_iff)
  then show ?case
    using white_space_nonempty [of w] by (cases w; cases s) auto
qed simp

declare trim_start.simps [simp del] trim_end.simps [simp del]

definition trim :: "string \<Rightarrow> string" where
  "trim s = trim_end (trim_start s)"

lemma str_strip_prefix_Some [simp]:
  "str_strip_prefix p s = Some r \<longleftrightarrow> s = p @ r"
  by (auto simp: str_strip_prefix_def prefix_def)

lemma str_strip_suffix_Some [simp]:
  "str_strip_suffix p s = Some r \<longleftrightarrow> s = r @ p"
  by (auto simp: str_strip_suffix_def suffix_def)

lemma str_contains_iff: "str_contains p s \<longleftrightarrow> sublist p s"
  by (induction s) (auto simp: sublist_Cons_right)

text \<open>The two unfoldings of the loop, as conditional rewrite rules that cannot repeat.\<close>

lemma trim_end_matches_fix [simp]: "\<not> suffix p s \<Longrightarrow> trim_end_matches p s = s"
  by (simp add: trim_end_matches.simps [of p s])

lemma trim_end_matches_Nil [simp]: "trim_end_matches [] s = s"
  by (simp add: trim_end_matches.simps [of "[]" s])

lemma trim_end_matches_snoc: "p \<noteq> [] \<Longrightarrow> trim_end_matches p (s @ p) = trim_end_matches p s"
  by (simp add: trim_end_matches.simps [of p "s @ p"] suffix_def)

lemma trim_end_matches_suffix:
  "p \<noteq> [] \<Longrightarrow> suffix p s \<Longrightarrow> trim_end_matches p s = trim_end_matches p (take (length s - length p) s)"
  by (auto simp: suffix_def trim_end_matches_snoc)

lemma trim_end_matches_end: "p \<noteq> [] \<Longrightarrow> \<not> suffix p (trim_end_matches p s)"
proof (induction p s rule: trim_end_matches.induct)
  case (1 p s)
  then show ?case
    by (cases "suffix p s") (simp_all add: trim_end_matches_suffix)
qed

lemma trim_end_matches_prefix: "prefix (trim_end_matches p s) s"
proof (induction p s rule: trim_end_matches.induct)
  case (1 p s)
  show ?case
  proof (cases "p \<noteq> [] \<and> suffix p s")
    case True
    with 1 have "prefix (trim_end_matches p (take (length s - length p) s)) (take (length s - length p) s)"
      by simp
    then have "prefix (trim_end_matches p (take (length s - length p) s)) s"
      by (rule prefix_order.trans) (rule take_is_prefix)
    with True show ?thesis
      by (simp add: trim_end_matches_suffix)
  next
    case False
    then show ?thesis by (cases "p = []") simp_all
  qed
qed

lemma trim_end_matches_idem [simp]:
  "trim_end_matches p (trim_end_matches p s) = trim_end_matches p s"
  by (cases "p = []") (simp_all add: trim_end_matches_end)

lemma split_on_nonempty [simp]: "split_on d s \<noteq> []"
  by (induction s) (auto split: list.splits)

lemma split_on_notin [simp]: "d \<notin> set s \<Longrightarrow> split_on d s = [s]"
  by (induction s) auto

lemma split_on_append: "d \<notin> set s \<Longrightarrow> split_on d (s @ d # t) = s # split_on d t"
  by (induction s) auto

lemma split_on_no_sep: "w \<in> set (split_on d s) \<Longrightarrow> d \<notin> set w"
  by (induction s arbitrary: w) (auto split: list.splits if_splits)

lemma join_with_Cons: "ws \<noteq> [] \<Longrightarrow> join_with d (w # ws) = w @ d @ join_with d ws"
  by (cases ws) auto

lemma join_with_hd: "join_with d ((c # w) # ws) = c # join_with d (w # ws)"
  by (cases ws) auto

lemma join_split_on: "join_with [d] (split_on d s) = s"
proof (induction s)
  case (Cons c s)
  then show ?case
    by (cases "split_on d s") (auto simp: join_with_Cons join_with_hd)
qed simp

lemma split_once_Some: "split_once d s = Some (a, b) \<longleftrightarrow> s = a @ d # b \<and> d \<notin> set a"
proof (induction s arbitrary: a b)
  case (Cons c s)
  then show ?case
    by (cases a) auto
qed simp

subsection \<open>Lists\<close>

fun position :: "('a \<Rightarrow> bool) \<Rightarrow> 'a list \<Rightarrow> nat option" where
  "position P [] = None"
| "position P (x # xs) = (if P x then Some 0 else map_option Suc (position P xs))"

fun rposition :: "('a \<Rightarrow> bool) \<Rightarrow> 'a list \<Rightarrow> nat option" where
  "rposition P [] = None"
| "rposition P (x # xs) = (case rposition P xs of
     Some i \<Rightarrow> Some (Suc i) | None \<Rightarrow> if P x then Some 0 else None)"

definition remove_nth :: "nat \<Rightarrow> 'a list \<Rightarrow> 'a list" where
  "remove_nth i xs = take i xs @ drop (Suc i) xs"

text \<open>Update the first element that satisfies a predicate, as \<open>iter_mut().find()\<close> followed by a write does.\<close>

fun update_first :: "('a \<Rightarrow> bool) \<Rightarrow> ('a \<Rightarrow> 'a) \<Rightarrow> 'a list \<Rightarrow> 'a list" where
  "update_first P f [] = []"
| "update_first P f (x # xs) = (if P x then f x # xs else x # update_first P f xs)"

lemma position_Some:
  "position P xs = Some i \<Longrightarrow> i < length xs \<and> P (xs ! i) \<and> (\<forall>j < i. \<not> P (xs ! j))"
proof (induction xs arbitrary: i)
  case (Cons x xs)
  then show ?case
    by (auto split: if_splits simp: nth_Cons split: nat.splits)
qed simp

lemma position_None [simp]: "position P xs = None \<longleftrightarrow> (\<forall>x \<in> set xs. \<not> P x)"
  by (induction xs) auto

lemma rposition_Some:
  "rposition P xs = Some i \<Longrightarrow> i < length xs \<and> P (xs ! i)"
  by (induction xs arbitrary: i) (auto split: option.splits if_splits)

lemma rposition_None [simp]: "rposition P xs = None \<longleftrightarrow> (\<forall>x \<in> set xs. \<not> P x)"
  by (induction xs) (auto split: option.splits)

lemma rposition_snoc: "P x \<Longrightarrow> rposition P (xs @ [x]) = Some (length xs)"
  by (induction xs) auto

lemma remove_nth_snoc [simp]: "remove_nth (length xs) (xs @ [x]) = xs"
  by (simp add: remove_nth_def)

lemma set_remove_nth_subset: "set (remove_nth i xs) \<subseteq> set xs"
  by (auto simp: remove_nth_def dest: in_set_takeD in_set_dropD)

lemma length_remove_nth: "i < length xs \<Longrightarrow> length (remove_nth i xs) = length xs - 1"
  by (simp add: remove_nth_def)

lemma remove_nth_split: "i < length xs \<Longrightarrow> xs = take i xs @ xs ! i # drop (Suc i) xs"
  by (rule id_take_nth_drop)

lemma sorted_remove_nth:
  assumes "sorted xs"
  shows "sorted (remove_nth i xs)"
proof (cases "i < length xs")
  case True
  with assms have "sorted (take i xs @ xs ! i # drop (Suc i) xs)"
    by (simp add: id_take_nth_drop [symmetric])
  then show ?thesis
    by (simp add: remove_nth_def sorted_append)
next
  case False
  with assms show ?thesis by (simp add: remove_nth_def)
qed

lemma length_update_first [simp]: "length (update_first P f xs) = length xs"
  by (induction xs) auto

lemma update_first_none [simp]: "\<forall>x \<in> set xs. \<not> P x \<Longrightarrow> update_first P f xs = xs"
  by (induction xs) auto

lemma map_update_first:
  "(\<And>x. P x \<Longrightarrow> g (f x) = g x) \<Longrightarrow> map g (update_first P f xs) = map g xs"
  by (induction xs) auto

end
