(* ===== verification/Interfaces.thy ===== *)
theory Interfaces
  imports Proxy_Prelude
begin

section \<open>Interfaces between components\<close>

text \<open>
  The contracts one component offers and another relies on. Each locale is interpreted on the
  model's own definitions in the theory of the component that provides it.
\<close>

subsection \<open>Timed state machines\<close>

text \<open>
  A component driven by operations that carry the clock value they read. An operation may panic
  (\<open>None\<close>). The invariant may depend on the time of the last operation.
\<close>

fun run_timed :: "('t \<Rightarrow> 'op \<Rightarrow> 's \<Rightarrow> 's option) \<Rightarrow> ('t \<times> 'op) list \<Rightarrow> 's \<Rightarrow> 's option" where
  "run_timed f [] s = Some s"
| "run_timed f ((now, x) # xs) s =
     (case f now x s of None \<Rightarrow> None | Some s' \<Rightarrow> run_timed f xs s')"

lemma run_timed_append:
  "run_timed f (xs @ ys) s = (case run_timed f xs s of None \<Rightarrow> None | Some s' \<Rightarrow> run_timed f ys s')"
  by (induction xs arbitrary: s) (auto split: option.splits)

locale timed_machine =
  fixes exec :: "('t :: linorder) \<Rightarrow> 'op \<Rightarrow> 's \<Rightarrow> 's option"
    and allowed :: "'op \<Rightarrow> bool"
    and inv :: "'t \<Rightarrow> 's \<Rightarrow> bool"
  assumes inv_step: "inv t s \<Longrightarrow> t \<le> now \<Longrightarrow> allowed x \<Longrightarrow> exec now x s = Some s' \<Longrightarrow> inv now s'"
    and inv_later: "inv t s \<Longrightarrow> t \<le> now \<Longrightarrow> inv now s"
begin

lemma inv_run:
  assumes "inv t s" "sorted (t # map fst xs)" "\<forall>x \<in> set xs. allowed (snd x)"
    and "run_timed exec xs s = Some s'"
  shows "inv (last (t # map fst xs)) s'"
  using assms
proof (induction xs arbitrary: t s)
  case (Cons x xs)
  obtain now y where x: "x = (now, y)" by (cases x)
  with Cons.prems obtain s1 where s1: "exec now y s = Some s1" "run_timed exec xs s1 = Some s'"
    by (auto split: option.splits)
  have "inv now s1"
    using Cons.prems s1(1) by (intro inv_step [of t s now y]) (auto simp: x)
  then have "inv (last (now # map fst xs)) s'"
    using Cons.prems s1(2) by (intro Cons.IH) (auto simp: x)
  then show ?case by (simp add: x)
qed simp

lemma inv_run_later:
  assumes "inv t s" "sorted (t # map fst xs)" "\<forall>x \<in> set xs. allowed (snd x)"
    and "run_timed exec xs s = Some s'" "\<forall>x \<in> set xs. fst x \<le> u" "t \<le> u"
  shows "inv u s'"
proof -
  have "last (t # map fst xs) \<le> u"
    using assms(5,6) by (cases "map fst xs" rule: rev_cases) (auto simp: map_eq_append_conv)
  with inv_run [OF assms(1-4)] show ?thesis by (rule inv_later)
qed

end

subsection \<open>Slot sources\<close>

text \<open>
  What the dispatcher relies on: a source of request slots that never loses the well-formedness
  of its state, whose grants can be undone, and whose refusals leave it as it was. States are
  compared by an equivalence \<open>eqv\<close> at a time: the two differ in nothing that still matters then.
\<close>

datatype reservation =
    Ready (rv_lane: nat) (rv_key: string) (rv_stamp: instant) (rv_sticky: bool)
  | Wait duration

locale slot_source =
  fixes wf :: "instant \<Rightarrow> 'p \<Rightarrow> bool"
    and eqv :: "instant \<Rightarrow> 'p \<Rightarrow> 'p \<Rightarrow> bool"
    and take_slot :: "'p \<Rightarrow> instant \<Rightarrow> nat option \<Rightarrow> nat list option \<Rightarrow> 'p \<times> reservation"
    and give_back :: "'p \<Rightarrow> nat \<Rightarrow> instant \<Rightarrow> 'p option"
  assumes wf_take: "wf now p \<Longrightarrow> take_slot p now prefer allowed = (q, r) \<Longrightarrow> wf now q"
    and wf_later: "wf now p \<Longrightarrow> now \<le> t \<Longrightarrow> wf t p"
    and wf_give: "wf now p \<Longrightarrow> give_back p i stamp = Some q \<Longrightarrow> wf now q"
    and eqv_refl: "eqv now p p"
    and eqv_trans: "eqv now p q \<Longrightarrow> eqv now q p1 \<Longrightarrow> eqv now p p1"
    and eqv_sym: "eqv now p q \<Longrightarrow> eqv now q p"
    and refused_same: "wf now p \<Longrightarrow> take_slot p now prefer allowed = (q, Wait w) \<Longrightarrow> eqv now p q"
    and undo: "wf now p \<Longrightarrow> take_slot p now prefer allowed = (q, Ready i k stamp st) \<Longrightarrow>
      \<exists>p1. give_back q i stamp = Some p1 \<and> eqv now p p1"
begin

text \<open>
  Taking a slot and returning it when nobody wants it: no panic, a well-formed source, and
  nothing spent.
\<close>

lemma take_and_return:
  assumes "wf now p" "take_slot p now prefer allowed = (q, r)"
  shows "\<exists>p'. (case r of Ready i k stamp st \<Rightarrow> give_back q i stamp | Wait w \<Rightarrow> Some q) = Some p'
    \<and> wf now p' \<and> eqv now p p'"
proof (cases r)
  case (Ready i k stamp st)
  with undo [OF assms(1)] assms(2) obtain r' where "give_back q i stamp = Some r'" "eqv now p r'"
    by blast
  with Ready show ?thesis
    using wf_give [OF wf_take [OF assms]] by auto
next
  case (Wait w)
  then show ?thesis
    using assms refused_same wf_take by auto
qed

end

subsection \<open>Text codecs\<close>

text \<open>An encoder whose output the decoder reads back, for the values in its domain.\<close>

locale text_codec =
  fixes ok :: "'a \<Rightarrow> bool" and enc :: "'a \<Rightarrow> string" and dec :: "string \<Rightarrow> 'a option"
  assumes dec_enc: "ok x \<Longrightarrow> dec (enc x) = Some x"
begin

lemma enc_inject: "ok x \<Longrightarrow> ok y \<Longrightarrow> enc x = enc y \<longleftrightarrow> x = y"
  by (metis dec_enc option.inject)

lemma dec_enc_all: "\<forall>x \<in> set xs. ok x \<Longrightarrow> those (map (\<lambda>x. dec (enc x)) xs) = Some xs"
  by (induction xs) (simp_all add: dec_enc)

lemma enc_map_inject:
  assumes "\<forall>x \<in> set xs. ok x" "\<forall>y \<in> set ys. ok y" "map enc xs = map enc ys"
  shows "xs = ys"
proof -
  have "map dec (map enc xs) = map dec (map enc ys)" by (simp only: assms(3))
  then have "map (\<lambda>x. dec (enc x)) xs = map (\<lambda>y. dec (enc y)) ys" by (simp only: map_map o_def)
  then have "those (map (\<lambda>x. dec (enc x)) xs) = those (map (\<lambda>y. dec (enc y)) ys)"
    by (rule arg_cong)
  then show ?thesis
    unfolding dec_enc_all [OF assms(1)] dec_enc_all [OF assms(2)] by (rule option.inject [THEN iffD1])
qed

end

end
