(* ===== verification/Key_Pool.thy ===== *)
theory Key_Pool
  imports Interfaces "HOL-Library.Multiset"
begin

section \<open>The key pool (src/pool.rs)\<close>

text \<open>
  One lane per API key, each with an exact sliding-window limiter. The lane's deque of send
  times is a list, oldest first; the two mutexes of a lane are its two fields. The clock the
  code reads with \<open>Instant::now()\<close> is the argument \<open>now\<close>; every operation reads it once.
  \<open>Instant\<close> subtraction saturates at zero, as subtraction on \<open>nat\<close> does. An operation
  that indexes the lanes with a caller's number panics when it is out of range: such an
  operation returns an option, \<open>None\<close> for the panic.
\<close>

definition WINDOW :: duration where
  "WINDOW = secs 61"

record lane_spec =
  sp_key :: string
  sp_rpm :: nat
  sp_enabled :: bool
  sp_endpoint :: nat
  sp_base_url :: string
  sp_upstream :: string
  sp_stream_options :: bool

record lane =
  ln_key :: string
  ln_rpm :: nat
  ln_endpoint :: nat
  ln_base_url :: string
  ln_upstream :: string
  ln_stream_options :: bool
  ln_sent :: "instant list"
  ln_cooldown :: instant

record pool =
  pl_lanes :: "lane list"
  pl_active :: nat

record lane_stat =
  st_key :: string
  st_rpm :: nat
  st_in_window :: nat
  st_cooldown_ms :: nat

subsection \<open>Building and rebuilding\<close>

definition lane_of_spec :: "lane_spec \<Rightarrow> instant list \<Rightarrow> instant \<Rightarrow> lane" where
  "lane_of_spec s sent cd =
     \<lparr>ln_key = sp_key s, ln_rpm = sp_rpm s, ln_endpoint = sp_endpoint s,
      ln_base_url = sp_base_url s, ln_upstream = sp_upstream s,
      ln_stream_options = sp_stream_options s, ln_sent = sent, ln_cooldown = cd\<rparr>"

definition assemble :: "instant \<Rightarrow> lane_spec list \<Rightarrow> pool option \<Rightarrow> pool" where
  "assemble now specs old =
     (let specs = sort_key (\<lambda>s. \<not> sp_enabled s) specs;
          active = length (filter sp_enabled specs)
      in \<lparr>pl_lanes = map (\<lambda>s.
             case (case old of None \<Rightarrow> None
                   | Some p \<Rightarrow> List.find (\<lambda>l. ln_key l = sp_key s) (pl_lanes p)) of
               Some prev \<Rightarrow> lane_of_spec s (ln_sent prev) (ln_cooldown prev)
             | None \<Rightarrow> lane_of_spec s [] now) specs,
          pl_active = active\<rparr>)"

definition new_pool :: "instant \<Rightarrow> lane_spec list \<Rightarrow> pool" where
  "new_pool now specs = assemble now specs None"

definition rebuild :: "instant \<Rightarrow> pool \<Rightarrow> lane_spec list \<Rightarrow> pool" where
  "rebuild now p specs = assemble now specs (Some p)"

subsection \<open>Read-only views\<close>

definition active_lanes :: "pool \<Rightarrow> lane list" where
  "active_lanes p = take (pl_active p) (pl_lanes p)"

definition pool_len :: "pool \<Rightarrow> nat" where
  "pool_len p = pl_active p"

definition capacity_rpm :: "pool \<Rightarrow> nat" where
  "capacity_rpm p = sum_list (map ln_rpm (active_lanes p))"

definition rpms :: "pool \<Rightarrow> nat list" where
  "rpms p = map ln_rpm (active_lanes p)"

definition active_endpoints :: "pool \<Rightarrow> nat list" where
  "active_endpoints p =
     foldl (\<lambda>out l. if ln_endpoint l \<in> set out then out else out @ [ln_endpoint l]) []
       (active_lanes p)"

definition lane_stats :: "instant \<Rightarrow> pool \<Rightarrow> lane_stat list" where
  "lane_stats now p = map (\<lambda>l.
     \<lparr>st_key = ln_key l, st_rpm = ln_rpm l,
      st_in_window = length (filter (\<lambda>t. now - t < WINDOW) (ln_sent l)),
      st_cooldown_ms = (ln_cooldown l - now) div 1000000\<rparr>) (active_lanes p)"

definition lane_endpoint :: "pool \<Rightarrow> nat \<Rightarrow> (string \<times> string \<times> nat \<times> bool) option" where
  "lane_endpoint p i =
     (if i < length (pl_lanes p)
      then let l = pl_lanes p ! i
           in Some (ln_base_url l, ln_upstream l, ln_endpoint l, ln_stream_options l)
      else None)"

subsection \<open>Taking a slot\<close>

definition purge :: "instant \<Rightarrow> instant list \<Rightarrow> instant list" where
  "purge now sent = dropWhile (\<lambda>t. WINDOW \<le> now - t) sent"

definition set_sent :: "pool \<Rightarrow> nat \<Rightarrow> instant list \<Rightarrow> pool" where
  "set_sent p i sent = p\<lparr>pl_lanes := (pl_lanes p)[i := (pl_lanes p ! i)\<lparr>ln_sent := sent\<rparr>]\<rparr>"

text \<open>A lane in cooldown is left alone; otherwise expired stamps go, whether or not a slot is free.\<close>

definition try_take :: "pool \<Rightarrow> nat \<Rightarrow> instant \<Rightarrow> bool \<Rightarrow> pool \<times> reservation option" where
  "try_take p i now sticky =
     (let l = pl_lanes p ! i in
      if now < ln_cooldown l then (p, None)
      else let sent = purge now (ln_sent l) in
        if length sent < ln_rpm l
        then (set_sent p i (sent @ [now]), Some (Ready i (ln_key l) now sticky))
        else (set_sent p i sent, None))"

definition lane_ok :: "pool \<Rightarrow> nat list option \<Rightarrow> nat \<Rightarrow> bool" where
  "lane_ok p allowed i =
     (case allowed of None \<Rightarrow> True | Some es \<Rightarrow> ln_endpoint (pl_lanes p ! i) \<in> set es)"

definition window_ready :: "instant \<Rightarrow> nat \<Rightarrow> instant list \<Rightarrow> instant" where
  "window_ready now rpm sent =
     (if length sent < rpm then now
      else if rpm = 0 then now + WINDOW
      else sent ! (length sent - rpm) + WINDOW)"

text \<open>The first loop: collect the ready lanes with their load, and the shortest wait of the others.\<close>

fun scan_lanes ::
  "instant \<Rightarrow> nat list option \<Rightarrow> nat list \<Rightarrow> pool \<Rightarrow> (nat \<times> nat) list \<Rightarrow> duration \<Rightarrow> bool
   \<Rightarrow> pool \<times> (nat \<times> nat) list \<times> duration \<times> bool" where
  "scan_lanes now allowed [] p ready best any = (p, ready, best, any)"
| "scan_lanes now allowed (i # is) p ready best any =
     (if \<not> lane_ok p allowed i then scan_lanes now allowed is p ready best any
      else
        let l = pl_lanes p ! i;
            sent = purge now (ln_sent l);
            ready_at = max (window_ready now (ln_rpm l) sent) (ln_cooldown l);
            p' = set_sent p i sent
        in if ready_at \<le> now
           then scan_lanes now allowed is p' (ready @ [(length sent, i)]) best True
           else scan_lanes now allowed is p' ready (min best (ready_at - now)) True)"

text \<open>The second loop: the first of the sorted ready lanes that grants.\<close>

fun take_first :: "instant \<Rightarrow> (nat \<times> nat) list \<Rightarrow> pool \<Rightarrow> pool \<times> reservation option" where
  "take_first now [] p = (p, None)"
| "take_first now ((_, i) # rs) p =
     (case try_take p i now False of
        (p', Some r) \<Rightarrow> (p', Some r)
      | (p', None) \<Rightarrow> take_first now rs p')"

definition reserve_spread :: "pool \<Rightarrow> instant \<Rightarrow> nat list option \<Rightarrow> pool \<times> reservation" where
  "reserve_spread p now allowed =
     (case scan_lanes now allowed [0..<pl_active p] p [] WINDOW False of
        (p1, ready, best, any) \<Rightarrow>
          (case take_first now (sort ready) p1 of
             (p2, Some r) \<Rightarrow> (p2, r)
           | (p2, None) \<Rightarrow> (p2, Wait (if any then best else WINDOW))))"

definition reserve_filtered ::
  "pool \<Rightarrow> instant \<Rightarrow> nat option \<Rightarrow> nat list option \<Rightarrow> pool \<times> reservation" where
  "reserve_filtered p now prefer allowed =
     (case prefer of
        None \<Rightarrow> reserve_spread p now allowed
      | Some i \<Rightarrow>
          if i < pl_active p \<and> lane_ok p allowed i
          then (case try_take p i now True of
                  (p', Some r) \<Rightarrow> (p', r)
                | (p', None) \<Rightarrow> reserve_spread p' now allowed)
          else reserve_spread p now allowed)"

definition reserve :: "pool \<Rightarrow> instant \<Rightarrow> nat option \<Rightarrow> pool \<times> reservation" where
  "reserve p now prefer = reserve_filtered p now prefer None"

subsection \<open>Giving a slot back, cooling a lane down\<close>

definition release :: "pool \<Rightarrow> nat \<Rightarrow> instant \<Rightarrow> pool option" where
  "release p i stamp =
     (if i < length (pl_lanes p)
      then let sent = ln_sent (pl_lanes p ! i)
           in Some (case rposition (\<lambda>t. t = stamp) sent of
                Some k \<Rightarrow> set_sent p i (remove_nth k sent) | None \<Rightarrow> p)
      else None)"

definition penalize :: "pool \<Rightarrow> instant \<Rightarrow> nat \<Rightarrow> duration \<Rightarrow> pool option" where
  "penalize p now i backoff =
     (if i < length (pl_lanes p)
      then let l = pl_lanes p ! i; until = now + backoff
           in Some (if ln_cooldown l < until
                    then p\<lparr>pl_lanes := (pl_lanes p)[i := l\<lparr>ln_cooldown := until\<rparr>]\<rparr> else p)
      else None)"

subsection \<open>The window of a lane\<close>

text \<open>
  The stamps that still count at a time, the load they make, and the earliest time at which a
  lane can take a request: what the scan computes, as functions of the lane alone.
\<close>

definition live :: "instant \<Rightarrow> instant list \<Rightarrow> instant list" where
  "live now sent = filter (\<lambda>t. now < t + WINDOW) sent"

definition lane_load :: "instant \<Rightarrow> lane \<Rightarrow> nat" where
  "lane_load now l = length (live now (ln_sent l))"

definition lane_free :: "instant \<Rightarrow> lane \<Rightarrow> bool" where
  "lane_free now l \<longleftrightarrow> ln_cooldown l \<le> now \<and> lane_load now l < ln_rpm l"

definition lane_ready_at :: "instant \<Rightarrow> lane \<Rightarrow> instant" where
  "lane_ready_at now l = max (window_ready now (ln_rpm l) (live now (ln_sent l))) (ln_cooldown l)"

definition lane_wf :: "instant \<Rightarrow> lane \<Rightarrow> bool" where
  "lane_wf now l \<longleftrightarrow> sorted (ln_sent l) \<and> (\<forall>t \<in> set (ln_sent l). t \<le> now)"

definition pool_wf :: "instant \<Rightarrow> pool \<Rightarrow> bool" where
  "pool_wf now p \<longleftrightarrow> pl_active p \<le> length (pl_lanes p) \<and> (\<forall>l \<in> set (pl_lanes p). lane_wf now l)"

definition purge_lane :: "instant \<Rightarrow> lane \<Rightarrow> lane" where
  "purge_lane now l = l\<lparr>ln_sent := live now (ln_sent l)\<rparr>"

text \<open>Two pools that differ only in stamps that no longer count at \<open>now\<close>.\<close>

definition same_pool :: "instant \<Rightarrow> pool \<Rightarrow> pool \<Rightarrow> bool" where
  "same_pool now p q \<longleftrightarrow> pl_active p = pl_active q \<and>
     map (purge_lane now) (pl_lanes p) = map (purge_lane now) (pl_lanes q)"

lemma WINDOW_pos [simp]: "0 < WINDOW"
  by (simp add: WINDOW_def secs_def)

lemma in_window_iff [simp]: "now - t < WINDOW \<longleftrightarrow> now < t + WINDOW"
  using WINDOW_pos by linarith

lemma expired_iff [simp]: "WINDOW \<le> now - t \<longleftrightarrow> t + WINDOW \<le> now"
  using in_window_iff [of now t] by linarith

lemma live_simps [simp]:
  "live now [] = []"
  "live now (t # ts) = (if now < t + WINDOW then t # live now ts else live now ts)"
  "live now (xs @ ys) = live now xs @ live now ys"
  by (simp_all add: live_def)

lemma set_live [simp]: "set (live now ts) = {t \<in> set ts. now < t + WINDOW}"
  by (simp add: live_def)

lemma sorted_live [intro, simp]: "sorted ts \<Longrightarrow> sorted (live now ts)"
  unfolding live_def by (rule sorted_wrt_filter)

lemma live_live: "now \<le> t \<Longrightarrow> live t (live now ts) = live t ts"
  by (auto simp: live_def intro: filter_cong)

lemma length_live_le: "length (live now ts) \<le> length ts"
  by (simp add: live_def)

lemma length_live_mono: "now \<le> t \<Longrightarrow> length (live t ts) \<le> length (live now ts)"
  by (metis length_live_le live_live)

lemma live_all: "\<forall>t \<in> set ts. now < t + WINDOW \<Longrightarrow> live now ts = ts"
  by (simp add: live_def)

lemma purge_sorted: "sorted ts \<Longrightarrow> purge now ts = live now ts"
proof (induction ts)
  case (Cons t ts)
  then show ?case
  proof (cases "now < t + WINDOW")
    case True
    with Cons.prems have "\<forall>u \<in> set ts. now < u + WINDOW" by auto
    with True show ?thesis by (simp add: purge_def live_all)
  qed (simp add: purge_def)
qed (simp add: purge_def)

text \<open>
  The arithmetic behind the reported wait: of a full window the entry at index
  \<open>len - rpm\<close> is the one whose expiry frees a slot.
\<close>

lemma full_window_expiry:
  assumes "sorted ts" "0 < rpm" "rpm \<le> length ts"
  shows "length (live t ts) < rpm \<longleftrightarrow> ts ! (length ts - rpm) + WINDOW \<le> t"
  using assms
proof (induction ts)
  case (Cons x ts)
  show ?case
  proof (cases "t < x + WINDOW")
    case True
    with Cons.prems have all: "live t ts = ts"
      by (intro live_all) auto
    have "x \<le> (x # ts) ! (length (x # ts) - rpm)"
      using Cons.prems by (auto simp: nth_Cons split: nat.splits)
    with True all Cons.prems show ?thesis by simp
  next
    case False
    show ?thesis
    proof (cases "rpm \<le> length ts")
      case True
      then have "Suc (length ts) - rpm = Suc (length ts - rpm)" by simp
      with False True Cons show ?thesis by simp
    next
      case small: False
      with Cons.prems have "rpm = Suc (length ts)" by simp
      with False show ?thesis
        using length_live_le [of t ts] by simp
    qed
  qed
qed simp

lemma window_ready_le:
  assumes "\<forall>t \<in> set ts. now < t + WINDOW"
  shows "window_ready now rpm ts \<le> now \<longleftrightarrow> length ts < rpm"
proof (cases "rpm \<le> length ts \<and> 0 < rpm")
  case True
  then have "ts ! (length ts - rpm) \<in> set ts"
    by (intro nth_mem) linarith
  with assms have "now < ts ! (length ts - rpm) + WINDOW" by blast
  with True show ?thesis by (simp add: window_ready_def)
next
  case False
  then show ?thesis
    by (auto simp: window_ready_def)
qed

lemma lane_ready_at_le: "lane_ready_at now l \<le> now \<longleftrightarrow> lane_free now l"
  by (auto simp: lane_ready_at_def lane_free_def lane_load_def window_ready_le)

lemma lane_ready_at_later:
  assumes "lane_wf now l" "now \<le> t" "0 < ln_rpm l"
  shows "lane_free t l \<longleftrightarrow> lane_ready_at now l \<le> t"
proof (cases "lane_load now l < ln_rpm l")
  case True
  with length_live_mono [OF assms(2)] have "lane_load t l < ln_rpm l"
    by (metis lane_load_def le_less_trans)
  with True assms(2) show ?thesis
    by (simp add: lane_free_def lane_ready_at_def window_ready_def lane_load_def)
next
  case False
  let ?ts = "live now (ln_sent l)"
  have "lane_load t l = length (live t ?ts)"
    by (simp add: lane_load_def live_live [OF assms(2)])
  moreover have "length (live t ?ts) < ln_rpm l \<longleftrightarrow> ?ts ! (length ?ts - ln_rpm l) + WINDOW \<le> t"
    using False assms by (intro full_window_expiry) (auto simp: lane_wf_def lane_load_def)
  ultimately show ?thesis
    using False assms(3) by (auto simp: lane_free_def lane_ready_at_def window_ready_def lane_load_def)
qed

subsection \<open>The operations on the window\<close>

lemma set_sent_simps [simp]:
  "pl_active (set_sent p i ts) = pl_active p"
  "length (pl_lanes (set_sent p i ts)) = length (pl_lanes p)"
  "i < length (pl_lanes p) \<Longrightarrow> pl_lanes (set_sent p i ts) ! j =
     (if j = i then (pl_lanes p ! i)\<lparr>ln_sent := ts\<rparr> else pl_lanes p ! j)"
  by (simp_all add: set_sent_def)

lemma purge_lane_eq_iff:
  "purge_lane now l = purge_lane now m \<longleftrightarrow>
     ln_key l = ln_key m \<and> ln_rpm l = ln_rpm m \<and> ln_endpoint l = ln_endpoint m \<and>
     ln_base_url l = ln_base_url m \<and> ln_upstream l = ln_upstream m \<and>
     ln_stream_options l = ln_stream_options m \<and> ln_cooldown l = ln_cooldown m \<and>
     live now (ln_sent l) = live now (ln_sent m)"
  by (cases l; cases m) (auto simp: purge_lane_def)

lemma purge_lane_simps [simp]:
  "lane_load now (purge_lane now l) = lane_load now l"
  "lane_free now (purge_lane now l) = lane_free now l"
  "lane_ready_at now (purge_lane now l) = lane_ready_at now l"
  "purge_lane now (l\<lparr>ln_sent := live now (ln_sent l)\<rparr>) = purge_lane now l"
  by (simp_all add: purge_lane_def lane_load_def lane_free_def lane_ready_at_def live_live)

lemma same_pool_refl [simp]: "same_pool now p p"
  by (simp add: same_pool_def)

lemma same_pool_sym: "same_pool now p q \<Longrightarrow> same_pool now q p"
  by (simp add: same_pool_def)

lemma same_pool_trans: "same_pool now p q \<Longrightarrow> same_pool now q r \<Longrightarrow> same_pool now p r"
  by (simp add: same_pool_def)

lemma same_poolI:
  assumes "pl_active p = pl_active q" "length (pl_lanes p) = length (pl_lanes q)"
    and "\<And>i. i < length (pl_lanes p) \<Longrightarrow>
      purge_lane now (pl_lanes p ! i) = purge_lane now (pl_lanes q ! i)"
  shows "same_pool now p q"
  using assms by (auto simp: same_pool_def intro: nth_equalityI)

lemma same_pool_length: "same_pool now p q \<Longrightarrow> length (pl_lanes q) = length (pl_lanes p)"
  by (metis length_map same_pool_def)

lemma same_pool_nth:
  assumes "same_pool now p q" "i < length (pl_lanes p)"
  shows "purge_lane now (pl_lanes p ! i) = purge_lane now (pl_lanes q ! i)"
proof -
  have "map (purge_lane now) (pl_lanes p) ! i = map (purge_lane now) (pl_lanes q) ! i"
    using assms(1) by (simp only: same_pool_def)
  then show ?thesis
    using assms(2) same_pool_length [OF assms(1)] by (simp only: nth_map)
qed

lemma same_pool_views:
  assumes "same_pool now p q" "i < length (pl_lanes p)"
  shows "lane_load now (pl_lanes q ! i) = lane_load now (pl_lanes p ! i)"
    "lane_free now (pl_lanes q ! i) = lane_free now (pl_lanes p ! i)"
    "lane_ready_at now (pl_lanes q ! i) = lane_ready_at now (pl_lanes p ! i)"
    "ln_key (pl_lanes q ! i) = ln_key (pl_lanes p ! i)"
    "ln_rpm (pl_lanes q ! i) = ln_rpm (pl_lanes p ! i)"
    "live now (ln_sent (pl_lanes q ! i)) = live now (ln_sent (pl_lanes p ! i))"
    "lane_ok q allowed i = lane_ok p allowed i"
proof -
  note eqs = same_pool_nth [OF assms, unfolded purge_lane_eq_iff]
  then show load: "lane_load now (pl_lanes q ! i) = lane_load now (pl_lanes p ! i)"
    by (simp only: lane_load_def)
  show "lane_free now (pl_lanes q ! i) = lane_free now (pl_lanes p ! i)"
    using eqs by (simp only: lane_free_def load)
  show "lane_ready_at now (pl_lanes q ! i) = lane_ready_at now (pl_lanes p ! i)"
    using eqs by (simp only: lane_ready_at_def)
  show "ln_key (pl_lanes q ! i) = ln_key (pl_lanes p ! i)"
    "ln_rpm (pl_lanes q ! i) = ln_rpm (pl_lanes p ! i)"
    "live now (ln_sent (pl_lanes q ! i)) = live now (ln_sent (pl_lanes p ! i))"
    "lane_ok q allowed i = lane_ok p allowed i"
    using eqs by (simp_all only: lane_ok_def)
qed

lemma pool_wf_nth: "pool_wf now p \<Longrightarrow> i < length (pl_lanes p) \<Longrightarrow> lane_wf now (pl_lanes p ! i)"
  by (simp add: pool_wf_def)

lemma pool_wf_set_sent:
  assumes "pool_wf now p" "i < length (pl_lanes p)" "sorted ts" "\<forall>t \<in> set ts. t \<le> now"
  shows "pool_wf now (set_sent p i ts)"
  using assms by (auto simp: pool_wf_def set_sent_def lane_wf_def dest!: set_update_subset_insert [THEN subsetD])

lemma pool_wf_later: "pool_wf now p \<Longrightarrow> now \<le> t \<Longrightarrow> pool_wf t p"
  by (fastforce simp: pool_wf_def lane_wf_def)

definition grant :: "instant \<Rightarrow> pool \<Rightarrow> nat \<Rightarrow> pool" where
  "grant now p i = set_sent p i (live now (ln_sent (pl_lanes p ! i)) @ [now])"

lemma grant_simps [simp]:
  "pl_active (grant now p i) = pl_active p"
  "length (pl_lanes (grant now p i)) = length (pl_lanes p)"
  by (simp_all add: grant_def)

lemma purge_wf [simp]:
  assumes "pool_wf now p" "i < length (pl_lanes p)"
  shows "purge now (ln_sent (pl_lanes p ! i)) = live now (ln_sent (pl_lanes p ! i))"
  using pool_wf_nth [OF assms] by (simp add: purge_sorted lane_wf_def)

lemma pool_wf_live:
  assumes "pool_wf now p" "i < length (pl_lanes p)"
  shows "pool_wf now (set_sent p i (live now (ln_sent (pl_lanes p ! i))))"
    and "same_pool now p (set_sent p i (live now (ln_sent (pl_lanes p ! i))))"
  using assms pool_wf_nth [OF assms]
  by (auto intro!: pool_wf_set_sent same_poolI simp: lane_wf_def)

lemma pool_wf_grant: "pool_wf now p \<Longrightarrow> i < length (pl_lanes p) \<Longrightarrow> pool_wf now (grant now p i)"
  unfolding grant_def using pool_wf_nth [of now p i]
  by (auto intro!: pool_wf_set_sent simp: lane_wf_def sorted_append)

lemma same_pool_grant:
  assumes "same_pool now p q" "i < length (pl_lanes p)"
  shows "same_pool now (grant now p i) (grant now q i)"
proof (rule same_poolI)
  fix j assume "j < length (pl_lanes (grant now p i))"
  then have j: "j < length (pl_lanes p)" by simp
  have i': "i < length (pl_lanes q)"
    using assms same_pool_length by metis
  show "purge_lane now (pl_lanes (grant now p i) ! j) = purge_lane now (pl_lanes (grant now q i) ! j)"
    using same_pool_nth [OF assms(1) j] assms(2) i'
    by (auto simp: grant_def purge_lane_eq_iff live_live)
qed (use assms same_pool_length in \<open>auto simp: same_pool_def\<close>)

lemma try_take_free:
  assumes "pool_wf now p" "i < length (pl_lanes p)" "lane_free now (pl_lanes p ! i)"
  shows "try_take p i now st = (grant now p i, Some (Ready i (ln_key (pl_lanes p ! i)) now st))"
  using assms by (simp add: try_take_def Let_def lane_free_def lane_load_def grant_def)

lemma try_take_busy:
  assumes "pool_wf now p" "i < length (pl_lanes p)" "\<not> lane_free now (pl_lanes p ! i)"
  obtains q where "try_take p i now st = (q, None)" "same_pool now p q" "pool_wf now q"
proof (cases "now < ln_cooldown (pl_lanes p ! i)")
  case True
  then show ?thesis
    using assms(1) by (intro that [of p]) (auto simp: try_take_def Let_def)
next
  case False
  let ?q = "set_sent p i (live now (ln_sent (pl_lanes p ! i)))"
  have "try_take p i now st = (?q, None)"
    using assms False by (simp add: try_take_def Let_def lane_free_def lane_load_def)
  then show ?thesis
    using pool_wf_live [OF assms(1,2)] by (intro that [of ?q])
qed

lemma foldl_min_set: "foldl min (b :: nat) xs = Min (insert b (set xs))"
proof (induction xs arbitrary: b)
  case (Cons a xs)
  have "foldl min b (a # xs) = Min (insert (min b a) (set xs))"
    using Cons.IH by simp
  also have "\<dots> = Min (insert b (set (a # xs)))"
    by (cases "xs = []") (simp_all add: min.assoc)
  finally show ?case .
qed simp

lemma foldl_min_le: "foldl min (b :: nat) xs \<le> b" "x \<in> set xs \<Longrightarrow> foldl min b xs \<le> x"
  by (simp_all add: foldl_min_set)

lemma foldl_min_cases: "foldl min (b :: nat) xs = b \<or> foldl min b xs \<in> set xs"
  using Min_in [of "insert b (set xs)"] by (simp add: foldl_min_set)

subsection \<open>What a reservation does, in closed form\<close>

text \<open>
  The contract of \<open>reserve_filtered\<close>, stated on the lanes of the given pool without loops or
  intermediate pools: the preferred lane if it is active, allowed and free; else the allowed free
  lane with the smallest load, the smallest index among equals; else the shortest time until an
  allowed lane is free, never more than the window.
\<close>

definition free_lanes :: "instant \<Rightarrow> nat list option \<Rightarrow> pool \<Rightarrow> nat list" where
  "free_lanes now allowed p =
     filter (\<lambda>i. lane_ok p allowed i \<and> lane_free now (pl_lanes p ! i)) [0..<pl_active p]"

definition busy_lanes :: "instant \<Rightarrow> nat list option \<Rightarrow> pool \<Rightarrow> nat list" where
  "busy_lanes now allowed p =
     filter (\<lambda>i. lane_ok p allowed i \<and> \<not> lane_free now (pl_lanes p ! i)) [0..<pl_active p]"

definition least_loaded :: "instant \<Rightarrow> nat list option \<Rightarrow> pool \<Rightarrow> nat" where
  "least_loaded now allowed p =
     snd (Min (set (map (\<lambda>i. (lane_load now (pl_lanes p ! i), i)) (free_lanes now allowed p))))"

definition soonest_wait :: "instant \<Rightarrow> nat list option \<Rightarrow> pool \<Rightarrow> duration" where
  "soonest_wait now allowed p =
     Min (insert WINDOW
       (set (map (\<lambda>i. lane_ready_at now (pl_lanes p ! i) - now) (busy_lanes now allowed p))))"

definition spread_spec :: "pool \<Rightarrow> instant \<Rightarrow> nat list option \<Rightarrow> reservation" where
  "spread_spec p now allowed =
     (if free_lanes now allowed p = [] then Wait (soonest_wait now allowed p)
      else let i = least_loaded now allowed p in Ready i (ln_key (pl_lanes p ! i)) now False)"

definition reserve_spec :: "pool \<Rightarrow> instant \<Rightarrow> nat option \<Rightarrow> nat list option \<Rightarrow> reservation" where
  "reserve_spec p now prefer allowed =
     (case prefer of
        None \<Rightarrow> spread_spec p now allowed
      | Some i \<Rightarrow>
          if i \<in> set (free_lanes now allowed p) then Ready i (ln_key (pl_lanes p ! i)) now True
          else spread_spec p now allowed)"

definition after_reservation :: "instant \<Rightarrow> pool \<Rightarrow> reservation \<Rightarrow> pool" where
  "after_reservation now p r = (case r of Ready i _ _ _ \<Rightarrow> grant now p i | Wait _ \<Rightarrow> p)"

lemma same_pool_lists:
  assumes "same_pool now p q" "pool_wf now p"
  shows "free_lanes now allowed q = free_lanes now allowed p"
    and "busy_lanes now allowed q = busy_lanes now allowed p"
proof -
  have len: "pl_active q = pl_active p" "pl_active p \<le> length (pl_lanes p)"
    using assms by (simp_all add: same_pool_def pool_wf_def)
  have views: "lane_ok q allowed i = lane_ok p allowed i"
    "lane_free now (pl_lanes q ! i) = lane_free now (pl_lanes p ! i)" if "i < pl_active p" for i
    using same_pool_views [OF assms(1), of i] len that by simp_all
  show "free_lanes now allowed q = free_lanes now allowed p"
    "busy_lanes now allowed q = busy_lanes now allowed p"
    unfolding free_lanes_def busy_lanes_def len using views by (auto intro!: filter_cong)
qed

lemma scan_lanes_spec:
  assumes "pool_wf now p" "\<forall>i \<in> set ks. i < length (pl_lanes p)"
  shows "\<exists>q. scan_lanes now allowed ks p ready best any =
      (q, ready @ map (\<lambda>i. (lane_load now (pl_lanes p ! i), i))
                   (filter (\<lambda>i. lane_ok p allowed i \<and> lane_free now (pl_lanes p ! i)) ks),
       foldl min best (map (\<lambda>i. lane_ready_at now (pl_lanes p ! i) - now)
                   (filter (\<lambda>i. lane_ok p allowed i \<and> \<not> lane_free now (pl_lanes p ! i)) ks)),
       any \<or> (\<exists>i \<in> set ks. lane_ok p allowed i)) \<and> same_pool now p q \<and> pool_wf now q"
  using assms
proof (induction ks arbitrary: p ready best any)
  case (Cons i ks)
  show ?case
  proof (cases "lane_ok p allowed i")
    case False
    with Cons.IH [OF Cons.prems(1)] Cons.prems(2) show ?thesis by simp
  next
    case True
    let ?l = "pl_lanes p ! i"
    let ?p' = "set_sent p i (live now (ln_sent ?l))"
    have i: "i < length (pl_lanes p)" using Cons.prems(2) by simp
    note p' = pool_wf_live [OF Cons.prems(1) i]
    have views: "lane_load now (pl_lanes ?p' ! j) = lane_load now (pl_lanes p ! j)"
      "lane_free now (pl_lanes ?p' ! j) = lane_free now (pl_lanes p ! j)"
      "lane_ready_at now (pl_lanes ?p' ! j) = lane_ready_at now (pl_lanes p ! j)"
      "lane_ok ?p' allowed j = lane_ok p allowed j" if "j \<in> set ks" for j
      using same_pool_views [OF p'(2), of j] Cons.prems(2) that by simp_all
    have len: "\<forall>j \<in> set ks. j < length (pl_lanes ?p')"
      using Cons.prems(2) by simp
    have at: "max (window_ready now (ln_rpm ?l) (live now (ln_sent ?l))) (ln_cooldown ?l)
        = lane_ready_at now ?l"
      by (simp add: lane_ready_at_def)
    have load: "length (live now (ln_sent ?l)) = lane_load now ?l"
      by (simp add: lane_load_def)
    note IH = Cons.IH [OF p'(1) len]
    have eqs: "filter (\<lambda>i. lane_ok ?p' allowed i \<and> lane_free now (pl_lanes ?p' ! i)) ks =
        filter (\<lambda>i. lane_ok p allowed i \<and> lane_free now (pl_lanes p ! i)) ks"
      "filter (\<lambda>i. lane_ok ?p' allowed i \<and> \<not> lane_free now (pl_lanes ?p' ! i)) ks =
        filter (\<lambda>i. lane_ok p allowed i \<and> \<not> lane_free now (pl_lanes p ! i)) ks"
      using views by (auto intro!: filter_cong)
    have eqs': "map (\<lambda>i. (lane_load now (pl_lanes ?p' ! i), i))
        (filter (\<lambda>i. lane_ok p allowed i \<and> lane_free now (pl_lanes p ! i)) ks) =
        map (\<lambda>i. (lane_load now (pl_lanes p ! i), i))
        (filter (\<lambda>i. lane_ok p allowed i \<and> lane_free now (pl_lanes p ! i)) ks)"
      "map (\<lambda>i. lane_ready_at now (pl_lanes ?p' ! i) - now)
        (filter (\<lambda>i. lane_ok p allowed i \<and> \<not> lane_free now (pl_lanes p ! i)) ks) =
       map (\<lambda>i. lane_ready_at now (pl_lanes p ! i) - now)
        (filter (\<lambda>i. lane_ok p allowed i \<and> \<not> lane_free now (pl_lanes p ! i)) ks)"
      using views by auto
    show ?thesis
    proof (cases "lane_free now ?l")
      case free: True
      then have "scan_lanes now allowed (i # ks) p ready best any =
          scan_lanes now allowed ks ?p' (ready @ [(lane_load now ?l, i)]) best True"
        using True purge_wf [OF Cons.prems(1) i] by (simp add: Let_def at load lane_ready_at_le del: max.bounded_iff)
      then show ?thesis
        using IH [of "ready @ [(lane_load now ?l, i)]" best True] True free
        by (auto simp only: eqs eqs' filter.simps list.map append_assoc append.simps list.set bex_simps simp_thms if_True if_False prod.inject
            intro: same_pool_trans [OF p'(2)])
    next
      case busy: False
      then have "scan_lanes now allowed (i # ks) p ready best any =
          scan_lanes now allowed ks ?p' ready (min best (lane_ready_at now ?l - now)) True"
        using True purge_wf [OF Cons.prems(1) i] by (simp add: Let_def at load lane_ready_at_le del: max.bounded_iff)
      then show ?thesis
        using IH [of ready "min best (lane_ready_at now ?l - now)" True] True busy
        by (auto simp only: eqs eqs' filter.simps list.map foldl.simps list.set bex_simps simp_thms if_True if_False prod.inject
            intro: same_pool_trans [OF p'(2)])
    qed
  qed
qed simp

lemma sort_hd_Min:
  fixes xs :: "('a :: linorder) list"
  assumes "xs \<noteq> []"
  shows "\<exists>ys. sort xs = Min (set xs) # ys"
proof (cases "sort xs")
  case (Cons y ys)
  then have set: "set xs = insert y (set ys)"
    by (metis list.simps(15) set_sort)
  have "sorted (y # ys)"
    using Cons by (metis sorted_sort)
  then have "Min (set xs) = y"
    unfolding set by (intro Min_eqI) auto
  with Cons show ?thesis by blast
next
  case Nil
  then have "set xs = {}"
    by (metis set_sort set_empty)
  with assms show ?thesis by simp
qed

lemma least_loaded_pair:
  assumes "free_lanes now allowed p \<noteq> []"
  shows "Min (set (map (\<lambda>i. (lane_load now (pl_lanes p ! i), i)) (free_lanes now allowed p))) =
    (lane_load now (pl_lanes p ! least_loaded now allowed p), least_loaded now allowed p)"
    (is "Min ?S = _")
proof -
  have "Min ?S \<in> ?S"
    using assms by (intro Min_in) auto
  then show ?thesis by (auto simp: least_loaded_def)
qed

lemma least_loaded_in:
  assumes "free_lanes now allowed p \<noteq> []"
  shows "least_loaded now allowed p \<in> set (free_lanes now allowed p)"
proof -
  let ?S = "set (map (\<lambda>i. (lane_load now (pl_lanes p ! i), i)) (free_lanes now allowed p))"
  have "Min ?S \<in> ?S"
    using assms by (intro Min_in) auto
  then show ?thesis by (auto simp: least_loaded_def)
qed

lemma least_loaded_le:
  assumes "j \<in> set (free_lanes now allowed p)"
  shows "(lane_load now (pl_lanes p ! least_loaded now allowed p), least_loaded now allowed p)
    \<le> (lane_load now (pl_lanes p ! j), j)"
proof -
  have ne: "free_lanes now allowed p \<noteq> []" using assms by auto
  show ?thesis
    unfolding least_loaded_pair [OF ne, symmetric] using assms by (intro Min_le) auto
qed

lemma free_lanesD:
  assumes "i \<in> set (free_lanes now allowed p)"
  shows "i < pl_active p" "lane_ok p allowed i" "lane_free now (pl_lanes p ! i)"
  using assms by (simp_all add: free_lanes_def)

lemma pool_wf_active: "pool_wf now p \<Longrightarrow> i < pl_active p \<Longrightarrow> i < length (pl_lanes p)"
  by (simp add: pool_wf_def)

lemma same_pool_choice:
  assumes "same_pool now p q" "pool_wf now p"
  shows "least_loaded now allowed q = least_loaded now allowed p"
    and "soonest_wait now allowed q = soonest_wait now allowed p"
proof -
  have views: "lane_load now (pl_lanes q ! i) = lane_load now (pl_lanes p ! i)"
    "lane_ready_at now (pl_lanes q ! i) = lane_ready_at now (pl_lanes p ! i)" if "i < pl_active p" for i
    using same_pool_views [OF assms(1) pool_wf_active [OF assms(2) that]] by simp_all
  have "map (\<lambda>i. (lane_load now (pl_lanes q ! i), i)) (free_lanes now allowed p) =
      map (\<lambda>i. (lane_load now (pl_lanes p ! i), i)) (free_lanes now allowed p)"
    "map (\<lambda>i. lane_ready_at now (pl_lanes q ! i) - now) (busy_lanes now allowed p) =
      map (\<lambda>i. lane_ready_at now (pl_lanes p ! i) - now) (busy_lanes now allowed p)"
    using views by (simp_all add: free_lanes_def busy_lanes_def)
  then show "least_loaded now allowed q = least_loaded now allowed p"
    "soonest_wait now allowed q = soonest_wait now allowed p"
    by (simp_all only: least_loaded_def soonest_wait_def same_pool_lists [OF assms])
qed

lemma spread_spec_same:
  assumes "same_pool now p q" "pool_wf now p"
  shows "spread_spec q now allowed = spread_spec p now allowed"
proof (cases "free_lanes now allowed p = []")
  case False
  then have "least_loaded now allowed p < length (pl_lanes p)"
    using free_lanesD(1) [OF least_loaded_in] pool_wf_active [OF assms(2)] by blast
  then show ?thesis
    using same_pool_views(4) [OF assms(1)]
    by (simp add: spread_spec_def same_pool_lists [OF assms] same_pool_choice [OF assms] Let_def)
qed (simp add: spread_spec_def same_pool_lists [OF assms] same_pool_choice [OF assms])

lemma after_reservation_same:
  assumes "same_pool now p q" "pool_wf now p"
  shows "same_pool now (after_reservation now p (spread_spec p now allowed))
    (after_reservation now q (spread_spec p now allowed))"
proof (cases "free_lanes now allowed p = []")
  case False
  then have "least_loaded now allowed p < length (pl_lanes p)"
    using free_lanesD(1) [OF least_loaded_in] pool_wf_active [OF assms(2)] by blast
  with False show ?thesis
    by (simp add: spread_spec_def after_reservation_def Let_def same_pool_grant [OF assms(1)])
qed (simp add: spread_spec_def after_reservation_def assms(1))

lemma reserve_spread_spec:
  assumes "pool_wf now p"
  shows "\<exists>q. reserve_spread p now allowed = (q, spread_spec p now allowed) \<and>
    same_pool now (after_reservation now p (spread_spec p now allowed)) q \<and> pool_wf now q"
proof -
  let ?loads = "map (\<lambda>i. (lane_load now (pl_lanes p ! i), i)) (free_lanes now allowed p)"
  obtain q where scan: "scan_lanes now allowed [0..<pl_active p] p [] WINDOW False =
      (q, ?loads, soonest_wait now allowed p, \<exists>i \<in> set [0..<pl_active p]. lane_ok p allowed i)"
    and q: "same_pool now p q" "pool_wf now q"
    using scan_lanes_spec [OF assms, of "[0..<pl_active p]" allowed "[]" WINDOW False] assms
    by (auto simp: free_lanes_def busy_lanes_def soonest_wait_def foldl_min_set pool_wf_def)
  show ?thesis
  proof (cases "free_lanes now allowed p = []")
    case True
    have "Wait (if \<exists>i \<in> set [0..<pl_active p]. lane_ok p allowed i then soonest_wait now allowed p
        else WINDOW) = spread_spec p now allowed"
    proof (cases "\<exists>i \<in> set [0..<pl_active p]. lane_ok p allowed i")
      case none: False
      then have "busy_lanes now allowed p = []"
        by (auto simp: busy_lanes_def)
      with True none show ?thesis by (simp add: spread_spec_def soonest_wait_def)
    qed (simp add: True spread_spec_def)
    with True q show ?thesis
      by (simp add: reserve_spread_def scan after_reservation_def spread_spec_def)
  next
    case False
    let ?i = "least_loaded now allowed p"
    note i = free_lanesD [OF least_loaded_in [OF False]]
    have i': "?i < length (pl_lanes p)" "?i < length (pl_lanes q)"
      using pool_wf_active [OF assms i(1)] same_pool_length [OF q(1)] by simp_all
    obtain ys where "sort ?loads = Min (set ?loads) # ys"
      using sort_hd_Min [of ?loads] False by auto
    then have srt: "sort ?loads = (lane_load now (pl_lanes p ! ?i), ?i) # ys"
      by (simp only: least_loaded_pair [OF False])
    have "lane_free now (pl_lanes q ! ?i)"
      using i same_pool_views(2) [OF q(1) i'(1)] by simp
    then have "take_first now (sort ?loads) q =
        (grant now q ?i, Some (Ready ?i (ln_key (pl_lanes p ! ?i)) now False))"
      using same_pool_views(4) [OF q(1) i'(1)] by (simp add: srt try_take_free [OF q(2) i'(2)])
    then show ?thesis
      using False same_pool_grant [OF q(1) i'(1)] pool_wf_grant [OF q(2) i'(2)]
      by (simp add: reserve_spread_def scan spread_spec_def after_reservation_def Let_def)
  qed
qed

lemma reserve_filtered_spec:
  assumes "pool_wf now p"
  shows "\<exists>q. reserve_filtered p now prefer allowed = (q, reserve_spec p now prefer allowed) \<and>
    same_pool now (after_reservation now p (reserve_spec p now prefer allowed)) q \<and> pool_wf now q"
proof (cases "\<exists>i. prefer = Some i \<and> i < pl_active p \<and> lane_ok p allowed i")
  case False
  then have "reserve_filtered p now prefer allowed = reserve_spread p now allowed"
    "reserve_spec p now prefer allowed = spread_spec p now allowed"
    by (auto simp: reserve_filtered_def reserve_spec_def free_lanes_def split: option.splits)
  then show ?thesis using reserve_spread_spec [OF assms] by simp
next
  case True
  then obtain i where i: "prefer = Some i" "i < pl_active p" "lane_ok p allowed i" by blast
  note i' = pool_wf_active [OF assms i(2)]
  show ?thesis
  proof (cases "lane_free now (pl_lanes p ! i)")
    case True
    then have "i \<in> set (free_lanes now allowed p)" using i by (simp add: free_lanes_def)
    with i show ?thesis
      using try_take_free [OF assms i' True, of True] pool_wf_grant [OF assms i']
      by (simp add: reserve_filtered_def reserve_spec_def after_reservation_def)
  next
    case False
    then have notin: "i \<notin> set (free_lanes now allowed p)" by (simp add: free_lanes_def)
    obtain p' where p': "try_take p i now True = (p', None)" "same_pool now p p'" "pool_wf now p'"
      using try_take_busy [OF assms i' False] by metis
    have spec: "spread_spec p' now allowed = spread_spec p now allowed"
      using spread_spec_same [OF p'(2) assms] .
    have after: "same_pool now (after_reservation now p (spread_spec p now allowed))
        (after_reservation now p' (spread_spec p now allowed))"
      using after_reservation_same [OF p'(2) assms] .
    show ?thesis
      using reserve_spread_spec [OF p'(3), of allowed] i notin p'(1)
      by (auto simp: reserve_filtered_def reserve_spec_def spec intro: same_pool_trans [OF after])
  qed
qed

subsection \<open>Release and penalize\<close>

lemma reserve_filtered_result:
  assumes "pool_wf now p" "reserve_filtered p now prefer allowed = (q, r)"
  shows "r = reserve_spec p now prefer allowed"
    and "same_pool now (after_reservation now p r) q" and "pool_wf now q"
  using reserve_filtered_spec [OF assms(1), of "prefer" allowed] assms(2) by auto

lemma reserve_spec_Ready:
  assumes "reserve_spec p now prefer allowed = Ready i k stamp st"
  shows "i \<in> set (free_lanes now allowed p)" "k = ln_key (pl_lanes p ! i)" "stamp = now"
    "st \<Longrightarrow> prefer = Some i" "\<not> st \<Longrightarrow> i = least_loaded now allowed p"
    "\<not> st \<Longrightarrow> prefer = Some j \<Longrightarrow> j \<notin> set (free_lanes now allowed p)"
  using assms
  by (auto simp: reserve_spec_def spread_spec_def Let_def least_loaded_in
      split: option.splits if_splits)

lemma reserve_spec_Wait:
  assumes "reserve_spec p now prefer allowed = Wait w"
  shows "free_lanes now allowed p = []" "w = soonest_wait now allowed p"
  using assms
  by (auto simp: reserve_spec_def spread_spec_def Let_def split: option.splits if_splits)

lemma grant_lane:
  assumes "i < length (pl_lanes p)"
  shows "pl_lanes (grant now p i) ! i =
      (pl_lanes p ! i)\<lparr>ln_sent := live now (ln_sent (pl_lanes p ! i)) @ [now]\<rparr>"
    and "j \<noteq> i \<Longrightarrow> pl_lanes (grant now p i) ! j = pl_lanes p ! j"
  using assms by (simp_all add: grant_def)

lemma rposition_same:
  "rposition (\<lambda>t. t = x) xs = Some k \<Longrightarrow> k < length xs \<and> xs ! k = x"
  using rposition_Some [of "\<lambda>t. t = x" xs k] by simp

lemma mset_remove_nth:
  "k < length xs \<Longrightarrow> mset (remove_nth k xs) = mset xs - {#xs ! k#}"
  by (subst (2) remove_nth_split [of k xs]) (simp_all add: remove_nth_def)

lemma release_wf:
  assumes "pool_wf now p" "release p i stamp = Some q"
  shows "pool_wf now q"
proof -
  have i: "i < length (pl_lanes p)"
    using assms(2) by (simp add: release_def split: if_splits)
  note wf = pool_wf_nth [OF assms(1) i]
  show ?thesis
  proof (cases "rposition (\<lambda>t. t = stamp) (ln_sent (pl_lanes p ! i))")
    case None
    with assms i show ?thesis by (simp add: release_def Let_def)
  next
    case (Some k)
    then have q: "q = set_sent p i (remove_nth k (ln_sent (pl_lanes p ! i)))"
      using assms(2) i by (simp add: release_def Let_def)
    show ?thesis
      unfolding q using wf
      by (intro pool_wf_set_sent [OF assms(1) i] sorted_remove_nth)
        (auto simp: lane_wf_def dest: set_remove_nth_subset [THEN subsetD])
  qed
qed

lemma penalize_wf:
  assumes "pool_wf now p" "penalize p now i backoff = Some q"
  shows "pool_wf now q"
  using assms pool_wf_nth [OF assms(1), of i]
  by (auto simp: penalize_def Let_def pool_wf_def lane_wf_def split: if_splits
      dest!: set_update_subset_insert [THEN subsetD])

lemma assemble_wf:
  assumes "case old of None \<Rightarrow> True | Some p \<Rightarrow> pool_wf now p"
  shows "pool_wf now (assemble now specs old)"
proof -
  have active: "length (filter sp_enabled (sort_key (\<lambda>s. \<not> sp_enabled s) specs)) \<le> length specs"
    using length_filter_le [of sp_enabled "sort_key (\<lambda>s. \<not> sp_enabled s) specs"] by simp
  have "lane_wf now (case (case old of None \<Rightarrow> None
          | Some p \<Rightarrow> List.find (\<lambda>l. ln_key l = sp_key s) (pl_lanes p)) of
       Some prev \<Rightarrow> lane_of_spec s (ln_sent prev) (ln_cooldown prev)
     | None \<Rightarrow> lane_of_spec s [] now)" for s
    using assms
    by (auto simp: lane_of_spec_def lane_wf_def pool_wf_def find_Some_iff split: option.splits)
  with active show ?thesis
    by (auto simp: assemble_def Let_def pool_wf_def)
qed

lemma rposition_append:
  "rposition P (xs @ ys) = (case rposition P ys of Some k \<Rightarrow> Some (length xs + k) | None \<Rightarrow> rposition P xs)"
  by (induction xs) (auto split: option.splits simp del: rposition_None)

text \<open>Removing the last occurrence of a stamp that counts, from a window that ends with it.\<close>

lemma live_remove_last:
  assumes "rposition (\<lambda>t. t = now) ts = Some k" "live now ts = us @ [now]"
  shows "live now (remove_nth k ts) = us"
proof -
  note k = rposition_same [OF assms(1)]
  have split: "ts = take k ts @ now # drop (Suc k) ts"
    using remove_nth_split [of k ts] k by simp
  have "rposition (\<lambda>t. t = now) (drop (Suc k) ts) = None"
  proof (rule ccontr)
    assume "rposition (\<lambda>t. t = now) (drop (Suc k) ts) \<noteq> None"
    then obtain m where "rposition (\<lambda>t. t = now) (drop (Suc k) ts) = Some m" by blast
    then have "rposition (\<lambda>t. t = now) ts = Some (k + Suc m)"
      using k by (subst split) (simp add: rposition_append)
    with assms(1) show False by simp
  qed
  then have notin: "now \<notin> set (live now (drop (Suc k) ts))" by auto
  have "live now ts = live now (take k ts) @ now # live now (drop (Suc k) ts)"
    by (subst split) simp
  with assms(2) have eq: "live now (take k ts) @ now # live now (drop (Suc k) ts) = us @ [now]"
    by simp
  have "live now (drop (Suc k) ts) = []"
    using eq notin by (cases "live now (drop (Suc k) ts)" rule: rev_cases) auto
  with eq show ?thesis by (simp add: remove_nth_def)
qed

lemma undo_grant:
  assumes "pool_wf now p" "i < length (pl_lanes p)" "same_pool now (grant now p i) q"
  shows "\<exists>r. release q i now = Some r \<and> same_pool now p r"
proof -
  let ?sent = "ln_sent (pl_lanes q ! i)"
  have i: "i < length (pl_lanes (grant now p i))" using assms(2) by simp
  have iq: "i < length (pl_lanes q)" using same_pool_length [OF assms(3)] i by simp
  have lv: "live now ?sent = live now (ln_sent (pl_lanes p ! i)) @ [now]"
    using same_pool_views(6) [OF assms(3) i] assms(2) by (simp add: grant_lane live_live)
  obtain k where k: "rposition (\<lambda>t. t = now) ?sent = Some k"
  proof (cases "rposition (\<lambda>t. t = now) ?sent")
    case None
    then have "now \<notin> set (live now ?sent)" by auto
    with lv show ?thesis by simp
  qed blast
  have r: "release q i now = Some (set_sent q i (remove_nth k ?sent))"
    using iq k by (simp add: release_def Let_def)
  have "same_pool now p (set_sent q i (remove_nth k ?sent))"
  proof (rule same_poolI)
    fix j assume j: "j < length (pl_lanes p)"
    show "purge_lane now (pl_lanes p ! j) = purge_lane now (pl_lanes (set_sent q i (remove_nth k ?sent)) ! j)"
    proof (cases "j = i")
      case False
      then show ?thesis
        using same_pool_nth [OF assms(3), of j] j iq by (simp add: grant_lane [OF assms(2)])
    next
      case True
      have "live now (remove_nth k ?sent) = live now (ln_sent (pl_lanes p ! i))"
        using live_remove_last [OF k lv] .
      then show ?thesis
        using same_pool_nth [OF assms(3) i] True iq assms(2)
        by (simp add: purge_lane_eq_iff grant_lane)
    qed
  qed (use assms same_pool_length [OF assms(3)] in \<open>simp_all add: same_pool_def\<close>)
  with r show ?thesis by blast
qed

interpretation ps: slot_source pool_wf same_pool reserve_filtered release
proof (unfold_locales, goal_cases)
  case (1 now p "prefer" allowed q r)
  then show ?case by (rule reserve_filtered_result(3))
next
  case (2 now p t)
  then show ?case by (rule pool_wf_later)
next
  case (3 now p i stamp q)
  then show ?case by (rule release_wf)
next
  case (4 now p)
  show ?case by (rule same_pool_refl)
next
  case (5 now p q p1)
  then show ?case by (rule same_pool_trans)
next
  case (6 now p q)
  then show ?case by (rule same_pool_sym)
next
  case (7 now p "prefer" allowed q w)
  then show ?case
    using reserve_filtered_result(2) [OF 7] by (simp add: after_reservation_def)
next
  case (8 now p "prefer" allowed q i k stamp st)
  note res = reserve_filtered_result [OF 8]
  note rdy = reserve_spec_Ready [OF res(1) [symmetric]]
  have "i < length (pl_lanes p)"
    using free_lanesD(1) [OF rdy(1)] pool_wf_active [OF 8(1)] by blast
  then show ?case
    using undo_grant [OF 8(1), of i q] res(2) rdy(3) by (simp add: after_reservation_def)
qed

subsection \<open>Runs of the pool\<close>

text \<open>
  The pool under its four state-changing operations, with a ghost log of the grants that were
  not given back: one entry per upstream request, with the key it spent and the time. A release
  of a stamp the lane no longer holds changes neither.
\<close>

datatype pool_op =
    PReserve "nat option" "nat list option"
  | PRelease nat instant
  | PPenalize nat duration
  | PRebuild "lane_spec list"

type_synonym grant_log = "(string \<times> instant) list"

fun pool_exec :: "instant \<Rightarrow> pool_op \<Rightarrow> pool \<times> grant_log \<Rightarrow> (pool \<times> grant_log) option" where
  "pool_exec now (PReserve pref allowed) (p, log) =
     (case reserve_filtered p now pref allowed of
        (q, Ready i k stamp st) \<Rightarrow> Some (q, (k, stamp) # log)
      | (q, Wait w) \<Rightarrow> Some (q, log))"
| "pool_exec now (PRelease i stamp) (p, log) =
     (case release p i stamp of None \<Rightarrow> None
      | Some q \<Rightarrow> Some (q, if stamp \<in> set (ln_sent (pl_lanes p ! i))
                        then remove1 (ln_key (pl_lanes p ! i), stamp) log else log))"
| "pool_exec now (PPenalize i backoff) (p, log) =
     (case penalize p now i backoff of None \<Rightarrow> None | Some q \<Rightarrow> Some (q, log))"
| "pool_exec now (PRebuild specs) (p, log) = Some (rebuild now p specs, log)"

text \<open>
  What is asked of a configuration for key \<open>k\<close>: no key twice, \<open>k\<close> present (enabled or not) with
  a budget of at most \<open>R\<close>.
\<close>

definition keeps_key :: "string \<Rightarrow> nat \<Rightarrow> lane_spec list \<Rightarrow> bool" where
  "keeps_key k R specs \<longleftrightarrow> distinct (map sp_key specs) \<and>
     list_ex (\<lambda>s. sp_key s = k \<and> sp_rpm s \<le> R) specs"

fun op_keeps_key :: "string \<Rightarrow> nat \<Rightarrow> pool_op \<Rightarrow> bool" where
  "op_keeps_key k R (PRebuild specs) = keeps_key k R specs"
| "op_keeps_key k R _ = True"

definition key_log :: "string \<Rightarrow> grant_log \<Rightarrow> instant list" where
  "key_log k log = map snd (filter (\<lambda>e. fst e = k) log)"

definition in_span :: "instant \<Rightarrow> instant list \<Rightarrow> nat" where
  "in_span T ts = length (filter (\<lambda>t. t \<le> T \<and> T < t + WINDOW) ts)"

definition tracks :: "instant \<Rightarrow> string \<Rightarrow> nat \<Rightarrow> pool \<Rightarrow> instant list \<Rightarrow> bool" where
  "tracks now k R p ts \<longleftrightarrow> (\<exists>j < length (pl_lanes p). ln_key (pl_lanes p ! j) = k \<and>
     ln_rpm (pl_lanes p ! j) \<le> R \<and> mset (live now (ln_sent (pl_lanes p ! j))) = mset (live now ts))"

fun window_inv :: "string \<Rightarrow> nat \<Rightarrow> instant \<Rightarrow> pool \<times> grant_log \<Rightarrow> bool" where
  "window_inv k R now (p, log) \<longleftrightarrow> pool_wf now p \<and> distinct (map ln_key (pl_lanes p)) \<and>
     tracks now k R p (key_log k log) \<and> (\<forall>t \<in> set (key_log k log). t \<le> now) \<and>
     (\<forall>T. in_span T (key_log k log) \<le> R)"

lemma key_log_simps [simp]:
  "key_log k [] = []"
  "key_log k ((k', t) # log) = (if k' = k then t # key_log k log else key_log k log)"
  by (simp_all add: key_log_def)

lemma key_log_remove1:
  "mset (key_log k (remove1 (k', t) log)) =
     (if k' = k then mset (key_log k log) - {#t#} else mset (key_log k log))"
  by (induction log) (auto simp: key_log_def)

lemma in_span_size: "in_span T ts = size (filter_mset (\<lambda>t. t \<le> T \<and> T < t + WINDOW) (mset ts))"
  unfolding in_span_def mset_filter [symmetric] size_mset by (rule refl)

lemma in_span_sub: "mset ts \<subseteq># mset us \<Longrightarrow> in_span T ts \<le> in_span T us"
  unfolding in_span_size by (intro size_mset_mono multiset_filter_mono)

lemma mset_live: "mset (live now ts) = filter_mset (\<lambda>t. now < t + WINDOW) (mset ts)"
  by (simp add: live_def)

lemma mset_live_later:
  assumes "now \<le> t" "mset (live now xs) = mset (live now ys)"
  shows "mset (live t xs) = mset (live t ys)"
proof -
  have "mset (live t (live now xs)) = mset (live t (live now ys))"
    by (simp only: mset_live [of t] assms(2))
  with assms(1) show ?thesis by (simp add: live_live)
qed

lemma tracks_later: "tracks now k R p ts \<Longrightarrow> now \<le> t \<Longrightarrow> tracks t k R p ts"
  unfolding tracks_def using mset_live_later by blast

lemma same_pool_keys:
  assumes "same_pool now p q"
  shows "map ln_key (pl_lanes q) = map ln_key (pl_lanes p)"
  using same_pool_length [OF assms] same_pool_views(4) [OF assms]
  by (auto intro: nth_equalityI)

lemma tracks_same:
  assumes "same_pool now p q" "tracks now k R p ts"
  shows "tracks now k R q ts"
proof -
  obtain j where j: "j < length (pl_lanes p)" "ln_key (pl_lanes p ! j) = k"
    "ln_rpm (pl_lanes p ! j) \<le> R" "mset (live now (ln_sent (pl_lanes p ! j))) = mset (live now ts)"
    using assms(2) by (auto simp: tracks_def)
  have "j < length (pl_lanes q)"
    using same_pool_length [OF assms(1)] j(1) by simp
  then show ?thesis
    unfolding tracks_def using same_pool_views [OF assms(1) j(1)] j by metis
qed

lemma set_sent_keys [simp]: "map ln_key (pl_lanes (set_sent p i ts)) = map ln_key (pl_lanes p)"
proof -
  have "(map ln_key (pl_lanes p))[i := ln_key (pl_lanes p ! i)] = map ln_key (pl_lanes p)"
    by (metis list_update_id map_update)
  then show ?thesis by (simp add: set_sent_def map_update)
qed

lemma grant_keys [simp]: "map ln_key (pl_lanes (grant now p i)) = map ln_key (pl_lanes p)"
  by (simp add: grant_def)

lemma window_inv_same:
  assumes "same_pool now p q" "pool_wf now q" "window_inv k R now (p, log)"
  shows "window_inv k R now (q, log)"
  using assms same_pool_keys [OF assms(1)] tracks_same [OF assms(1)] by simp

lemma in_span_past: "\<forall>t \<in> set ts. t \<le> now \<Longrightarrow> now \<le> T \<Longrightarrow> in_span T ts \<le> length (live now ts)"
  by (induction ts) (auto simp: in_span_def)

lemma in_span_Cons: "in_span T (t # ts) = (if t \<le> T \<and> T < t + WINDOW then Suc (in_span T ts) else in_span T ts)"
  by (simp add: in_span_def)

text \<open>One grant: the lane had room, so the log entry it adds leaves every span within the budget.\<close>

lemma window_inv_grant:
  assumes inv: "window_inv k R now (p, log)" and i: "i < length (pl_lanes p)"
    and free: "lane_free now (pl_lanes p ! i)"
  shows "window_inv k R now (grant now p i, (ln_key (pl_lanes p ! i), now) # log)"
proof -
  have wf: "pool_wf now p" and dist: "distinct (map ln_key (pl_lanes p))"
    and past: "\<forall>t \<in> set (key_log k log). t \<le> now"
    and span: "in_span T (key_log k log) \<le> R" for T
    using inv by auto
  obtain j where j: "j < length (pl_lanes p)" "ln_key (pl_lanes p ! j) = k" "ln_rpm (pl_lanes p ! j) \<le> R"
    "mset (live now (ln_sent (pl_lanes p ! j))) = mset (live now (key_log k log))"
    using inv by (auto simp: tracks_def)
  let ?log = "(ln_key (pl_lanes p ! i), now) # log"
  have key: "ln_key (pl_lanes p ! i) = k \<longleftrightarrow> i = j"
    using nth_eq_iff_index_eq [OF dist, of i j] i j(1,2) by simp
  have "tracks now k R (grant now p i) (key_log k ?log)"
  proof (cases "i = j")
    case True
    with j key show ?thesis
      unfolding tracks_def by (intro exI [of _ j]) (simp add: grant_lane live_live)
  next
    case False
    with i j key show ?thesis
      unfolding tracks_def by (intro exI [of _ j]) (simp add: grant_lane)
  qed
  moreover have "in_span T (key_log k ?log) \<le> R" for T
  proof (cases "i = j \<and> now \<le> T")
    case True
    have "in_span T (key_log k log) \<le> length (live now (key_log k log))"
      using in_span_past [OF past] True by blast
    also have "\<dots> = lane_load now (pl_lanes p ! i)"
      using j(4) True by (metis lane_load_def size_mset)
    also have "\<dots> < R"
      using free True j(3) by (simp add: lane_free_def)
    finally show ?thesis
      using True key by (simp add: in_span_Cons)
  next
    case False
    then show ?thesis using span [of T] key by (simp add: in_span_Cons)
  qed
  ultimately show ?thesis
    using pool_wf_grant [OF wf i] dist past by simp
qed

lemma window_inv_release:
  assumes inv: "window_inv k R now (p, log)" and rel: "release p i stamp = Some q"
  shows "window_inv k R now (q, if stamp \<in> set (ln_sent (pl_lanes p ! i))
    then remove1 (ln_key (pl_lanes p ! i), stamp) log else log)"
proof -
  have i: "i < length (pl_lanes p)"
    using rel by (simp add: release_def split: if_splits)
  let ?sent = "ln_sent (pl_lanes p ! i)"
  show ?thesis
  proof (cases "rposition (\<lambda>t. t = stamp) ?sent")
    case None
    then have "stamp \<notin> set ?sent" by auto
    moreover have "q = p"
      using None rel i by (simp add: release_def Let_def del: rposition_None)
    ultimately show ?thesis using inv by simp
  next
    case (Some m)
    note m = rposition_same [OF Some]
    then have mem: "stamp \<in> set ?sent" by (metis nth_mem)
    have q: "q = set_sent p i (remove_nth m ?sent)"
      using rel i Some by (simp add: release_def Let_def)
    have dist: "distinct (map ln_key (pl_lanes p))" using inv by simp
    obtain j where j: "j < length (pl_lanes p)" "ln_key (pl_lanes p ! j) = k" "ln_rpm (pl_lanes p ! j) \<le> R"
      "mset (live now (ln_sent (pl_lanes p ! j))) = mset (live now (key_log k log))"
      using inv by (auto simp: tracks_def)
    have key: "ln_key (pl_lanes p ! i) = k \<longleftrightarrow> i = j"
      using nth_eq_iff_index_eq [OF dist, of i j] i j(1,2) by simp
    have keys: "map ln_key (pl_lanes q) = map ln_key (pl_lanes p)"
      by (simp add: q)
    let ?log = "remove1 (ln_key (pl_lanes p ! i), stamp) log"
    have sub: "mset (key_log k ?log) \<subseteq># mset (key_log k log)"
      by (simp add: key_log_remove1)
    have "tracks now k R q (key_log k ?log)"
    proof (cases "i = j")
      case True
      have "mset (live now (remove_nth m ?sent)) = mset (live now (key_log k ?log))"
        using j(4) True key m by (simp add: mset_live mset_remove_nth key_log_remove1 filter_diff_mset)
      with j True i show ?thesis
        unfolding tracks_def by (intro exI [of _ j]) (simp add: q)
    next
      case False
      then have "mset (live now (key_log k ?log)) = mset (live now (key_log k log))"
        using key by (simp add: mset_live key_log_remove1)
      with j False i show ?thesis
        unfolding tracks_def by (intro exI [of _ j]) (simp add: q)
    qed
    moreover have "in_span T (key_log k ?log) \<le> R" for T
      using in_span_sub [OF sub, of T] inv by (meson le_trans window_inv.simps)
    moreover have "set (key_log k ?log) \<subseteq> set (key_log k log)"
      using set_mset_mono [OF sub] by simp
    ultimately show ?thesis
      using inv release_wf [OF _ rel] mem by (auto simp: keys)
  qed
qed

lemma penalize_lanes:
  assumes "penalize p now i backoff = Some q"
  shows "i < length (pl_lanes p)" "pl_active q = pl_active p" "length (pl_lanes q) = length (pl_lanes p)"
    "j \<noteq> i \<Longrightarrow> pl_lanes q ! j = pl_lanes p ! j"
    "pl_lanes q ! i = (pl_lanes p ! i)\<lparr>ln_cooldown := max (ln_cooldown (pl_lanes p ! i)) (now + backoff)\<rparr>"
  using assms by (auto simp: penalize_def Let_def max_def split: if_splits)

lemma window_inv_penalize:
  assumes inv: "window_inv k R now (p, log)" and pen: "penalize p now i backoff = Some q"
  shows "window_inv k R now (q, log)"
proof -
  note pl = penalize_lanes [OF pen]
  have same: "ln_key (pl_lanes q ! j) = ln_key (pl_lanes p ! j)"
    "ln_rpm (pl_lanes q ! j) = ln_rpm (pl_lanes p ! j)"
    "ln_sent (pl_lanes q ! j) = ln_sent (pl_lanes p ! j)" for j
    using pl(4) [of j] pl(5) by (cases "j = i"; simp)+
  have "map ln_key (pl_lanes q) = map ln_key (pl_lanes p)"
    by (rule nth_equalityI) (simp_all add: pl(3) same)
  moreover have "tracks now k R q (key_log k log) = tracks now k R p (key_log k log)"
    by (simp add: tracks_def pl(3) same)
  ultimately show ?thesis
    using inv penalize_wf [OF _ pen] by simp
qed

lemma assemble_keys:
  "map ln_key (pl_lanes (assemble now specs old)) = map sp_key (sort_key (\<lambda>s. \<not> sp_enabled s) specs)"
  by (auto simp: assemble_def Let_def lane_of_spec_def split: option.splits)

lemma assemble_length [simp]: "length (pl_lanes (assemble now specs old)) = length specs"
  by (simp add: assemble_def Let_def)

lemma find_distinct:
  assumes "distinct (map f xs)" "j < length xs"
  shows "List.find (\<lambda>x. f x = f (xs ! j)) xs = Some (xs ! j)"
proof -
  have "\<forall>i < j. f (xs ! i) \<noteq> f (xs ! j)"
    using nth_eq_iff_index_eq [OF assms(1)] assms(2) by force
  with assms(2) show ?thesis
    by (auto simp: find_Some_iff)
qed

text \<open>A kept key keeps its window and its cooldown, whatever else changes about its lane.\<close>

lemma rebuild_keeps:
  assumes "distinct (map ln_key (pl_lanes p))" "j < length (pl_lanes p)"
    and "s \<in> set specs" "sp_key s = ln_key (pl_lanes p ! j)"
  shows "lane_of_spec s (ln_sent (pl_lanes p ! j)) (ln_cooldown (pl_lanes p ! j)) \<in> set (pl_lanes (rebuild now p specs))"
proof -
  have "List.find (\<lambda>l. ln_key l = sp_key s) (pl_lanes p) = Some (pl_lanes p ! j)"
    using find_distinct [OF assms(1,2)] assms(4) by simp
  then show ?thesis
    using assms(3) by (force simp: rebuild_def assemble_def Let_def)
qed

lemma distinct_sort_key: "distinct (map f (sort_key g xs)) = distinct (map f xs)"
proof -
  have "mset (map f (sort_key g xs)) = mset (map f xs)"
    by (simp add: mset_map)
  then show ?thesis by (rule mset_eq_imp_distinct_iff)
qed

lemma window_inv_rebuild:
  assumes inv: "window_inv k R now (p, log)" and keeps: "keeps_key k R specs"
  shows "window_inv k R now (rebuild now p specs, log)"
proof -
  have wf: "pool_wf now (rebuild now p specs)"
    unfolding rebuild_def using inv by (intro assemble_wf) simp
  have dist: "distinct (map ln_key (pl_lanes (rebuild now p specs)))"
    using keeps by (simp add: rebuild_def assemble_keys keeps_key_def distinct_sort_key)
  obtain s where s: "s \<in> set specs" "sp_key s = k" "sp_rpm s \<le> R"
    using keeps by (auto simp: keeps_key_def list_ex_iff)
  obtain j where j: "j < length (pl_lanes p)" "ln_key (pl_lanes p ! j) = k"
    "mset (live now (ln_sent (pl_lanes p ! j))) = mset (live now (key_log k log))"
    using inv by (auto simp: tracks_def)
  have "lane_of_spec s (ln_sent (pl_lanes p ! j)) (ln_cooldown (pl_lanes p ! j)) \<in> set (pl_lanes (rebuild now p specs))"
    using inv j s by (intro rebuild_keeps) simp_all
  then obtain m where "m < length (pl_lanes (rebuild now p specs))"
    "pl_lanes (rebuild now p specs) ! m = lane_of_spec s (ln_sent (pl_lanes p ! j)) (ln_cooldown (pl_lanes p ! j))"
    by (auto simp: in_set_conv_nth)
  then have "tracks now k R (rebuild now p specs) (key_log k log)"
    unfolding tracks_def using s j by (intro exI [of _ m]) (simp add: lane_of_spec_def)
  with wf dist inv show ?thesis by simp
qed

lemma window_inv_new:
  assumes "keeps_key k R specs"
  shows "window_inv k R now (new_pool now specs, [])"
proof -
  obtain s where s: "s \<in> set specs" "sp_key s = k" "sp_rpm s \<le> R"
    using assms by (auto simp: keeps_key_def list_ex_iff)
  then have "lane_of_spec s [] now \<in> set (pl_lanes (new_pool now specs))"
    by (force simp: new_pool_def assemble_def Let_def)
  then obtain m where "m < length (pl_lanes (new_pool now specs))"
    "pl_lanes (new_pool now specs) ! m = lane_of_spec s [] now"
    by (auto simp: in_set_conv_nth)
  then have "tracks now k R (new_pool now specs) []"
    unfolding tracks_def using s by (intro exI [of _ m]) (simp add: lane_of_spec_def)
  then show ?thesis
    using assms assemble_wf [where old = None and now = now and specs = specs]
    by (simp add: new_pool_def assemble_keys keeps_key_def distinct_sort_key in_span_def)
qed

lemma window_inv_reserve:
  assumes inv: "window_inv k R now (p, log)" and res: "reserve_filtered p now pref allowed = (q, r)"
  shows "window_inv k R now (q, case r of Ready i k' stamp st \<Rightarrow> (k', stamp) # log | Wait w \<Rightarrow> log)"
proof -
  have wf: "pool_wf now p" using inv by simp
  note rr = reserve_filtered_result [OF wf res]
  show ?thesis
  proof (cases r)
    case (Ready i k' stamp st)
    note rdy = reserve_spec_Ready [OF rr(1) [symmetric, unfolded Ready]]
    note free = free_lanesD [OF rdy(1)]
    have "window_inv k R now (grant now p i, (k', stamp) # log)"
      using window_inv_grant [OF inv pool_wf_active [OF wf free(1)] free(3)] rdy by simp
    moreover have "same_pool now (grant now p i) q"
      using rr(2) by (simp add: Ready after_reservation_def)
    ultimately show ?thesis
      using window_inv_same rr(3) by (simp add: Ready del: window_inv.simps)
  next
    case (Wait w)
    then have "same_pool now p q"
      using rr(2) by (simp add: after_reservation_def)
    with Wait rr(3) inv show ?thesis
      using window_inv_same by (simp del: window_inv.simps)
  qed
qed

interpretation pm: timed_machine pool_exec "op_keeps_key k R" "window_inv k R" for k R
proof (unfold_locales, goal_cases)
  case (1 t s now x s')
  obtain p log where s: "s = (p, log)" by (cases s)
  have inv: "window_inv k R now (p, log)"
    using 1 pool_wf_later tracks_later by (force simp: s)
  show ?case
  proof (cases x)
    case (PReserve pref allowed)
    then show ?thesis
      using 1(4) window_inv_reserve [OF inv]
      by (auto simp: s simp del: window_inv.simps split: prod.splits reservation.splits) fastforce+
  next
    case (PRelease i stamp)
    then show ?thesis
      using 1(4) window_inv_release [OF inv] by (auto simp: s simp del: window_inv.simps split: option.splits)
  next
    case (PPenalize i backoff)
    then show ?thesis
      using 1(4) window_inv_penalize [OF inv] by (auto simp: s simp del: window_inv.simps split: option.splits)
  next
    case (PRebuild specs)
    then show ?thesis
      using 1(3,4) window_inv_rebuild [OF inv] by (auto simp: s simp del: window_inv.simps)
  qed
next
  case (2 t s now)
  then show ?case
    using pool_wf_later tracks_later by (cases s) force
qed

text \<open>Sorting by a flag is a stable partition.\<close>

lemma sort_key_bool: "sort_key (\<lambda>s. \<not> P s) xs = filter P xs @ filter (\<lambda>s. \<not> P s) xs"
proof (induction xs)
  case (Cons x xs)
  have front: "insort_key (\<lambda>s. \<not> P s) x ys = x # ys" if "P x" for ys
    using that by (cases ys) auto
  have rear: "insort_key (\<lambda>s. \<not> P s) x (filter P ys @ zs) = filter P ys @ insort_key (\<lambda>s. \<not> P s) x zs"
    if "\<not> P x" for ys zs
    using that by (induction ys) auto
  have new: "insort_key (\<lambda>s. \<not> P s) x (filter (\<lambda>s. \<not> P s) ys) = x # filter (\<lambda>s. \<not> P s) ys"
    if "\<not> P x" for ys
    using that by (induction ys) auto
  show ?case
    using Cons front rear new by (cases "P x") simp_all
qed simp

lemma find_by_key:
  assumes "distinct (map f xs)" "x \<in> set xs"
  shows "List.find (\<lambda>y. f y = f x) xs = Some x"
  using assms find_distinct [OF assms(1)] by (metis in_set_conv_nth)

lemma grant_is_fair_cooldown:
  assumes "pool_wf now p" "reserve_filtered p now pref allowed = (q, Ready i k stamp sticky)"
  shows "ln_cooldown (pl_lanes p ! i) \<le> now"
  using free_lanesD(3) [OF reserve_spec_Ready(1) [OF reserve_filtered_result(1) [OF assms, symmetric]]]
  by (simp add: lane_free_def)

text \<open>The shortest wait, lane by lane.\<close>

lemma soonest_wait_cases:
  assumes "free_lanes now allowed p = []"
  shows "0 < soonest_wait now allowed p" "soonest_wait now allowed p \<le> WINDOW"
    "i < pl_active p \<Longrightarrow> lane_ok p allowed i \<Longrightarrow> now + soonest_wait now allowed p \<le> lane_ready_at now (pl_lanes p ! i)"
    "soonest_wait now allowed p < WINDOW \<Longrightarrow>
      \<exists>i < pl_active p. lane_ok p allowed i \<and> lane_ready_at now (pl_lanes p ! i) = now + soonest_wait now allowed p"
proof -
  let ?wait = "\<lambda>i. lane_ready_at now (pl_lanes p ! i) - now"
  let ?W = "insert WINDOW (?wait ` set (busy_lanes now allowed p))"
  have w: "soonest_wait now allowed p = Min ?W"
    by (simp add: soonest_wait_def)
  have busy: "i \<in> set (busy_lanes now allowed p)" if "i < pl_active p" "lane_ok p allowed i" for i
    using assms that by (auto simp: busy_lanes_def free_lanes_def filter_empty_conv)
  have busyD: "i < pl_active p" "lane_ok p allowed i" "now < lane_ready_at now (pl_lanes p ! i)"
    if "i \<in> set (busy_lanes now allowed p)" for i
    using that lane_ready_at_le [of now "pl_lanes p ! i"] by (auto simp: busy_lanes_def)
  show "0 < soonest_wait now allowed p" "soonest_wait now allowed p \<le> WINDOW"
    unfolding w by (auto simp: Min_gr_iff dest: busyD)
  show "now + soonest_wait now allowed p \<le> lane_ready_at now (pl_lanes p ! i)"
    if i: "i < pl_active p" "lane_ok p allowed i"
  proof -
    have "soonest_wait now allowed p \<le> ?wait i"
      unfolding w using busy [OF i] by (intro Min_le) auto
    with busyD(3) [OF busy [OF i]] show ?thesis by simp
  qed
  have "Min ?W \<in> ?W" by (rule Min_in) auto
  then show "soonest_wait now allowed p < WINDOW \<Longrightarrow>
      \<exists>i < pl_active p. lane_ok p allowed i \<and> lane_ready_at now (pl_lanes p ! i) = now + soonest_wait now allowed p"
    unfolding w [symmetric] using busyD by fastforce
qed

lemma never_free_early:
  assumes "pool_wf now p" "i < pl_active p" "now \<le> t" "t < lane_ready_at now (pl_lanes p ! i)"
  shows "\<not> lane_free t (pl_lanes p ! i)"
proof (cases "ln_rpm (pl_lanes p ! i)")
  case (Suc r)
  then show ?thesis
    using lane_ready_at_later [OF pool_wf_nth [OF assms(1) pool_wf_active [OF assms(1,2)]] assms(3)] assms(4)
    by simp
qed (simp add: lane_free_def)

lemma refused_until:
  assumes "pool_wf now p" "reserve_filtered p now pref allowed = (q, Wait w)"
  shows "0 < w" "w \<le> WINDOW"
    "i < pl_active p \<Longrightarrow> lane_ok p allowed i \<Longrightarrow> now \<le> t \<Longrightarrow> t < now + w \<Longrightarrow> \<not> lane_free t (pl_lanes p ! i)"
proof -
  note rr = reserve_spec_Wait [OF reserve_filtered_result(1) [OF assms, symmetric]]
  show "0 < w" "w \<le> WINDOW"
    using soonest_wait_cases(1,2) [OF rr(1)] rr(2) by simp_all
  show "\<not> lane_free t (pl_lanes p ! i)"
    if "i < pl_active p" "lane_ok p allowed i" "now \<le> t" "t < now + w"
    using never_free_early [OF assms(1) that(1,3)] soonest_wait_cases(3) [OF rr(1) that(1,2)] that(4) rr(2)
    by simp
qed

subsection \<open>Properties\<close>

text \<open>
  No 61-second window overspends a key. Start from a fresh pool and run any sequence of
  reservations, releases, penalties and configuration swaps, in time order, without a panic. As
  long as every configuration lists key \<open>k\<close> (enabled or disabled), lists no key twice and budgets
  \<open>k\<close> at most \<open>R\<close>, the grants on \<open>k\<close> that were not given back number at most \<open>R\<close> in every span
  of 61 seconds, wherever it lies and whichever swaps it straddles.
\<close>

theorem window_never_exceeded:
  assumes "keeps_key k R specs"
    and "sorted (t0 # map fst ops)" and "\<forall>x \<in> set ops. op_keeps_key k R (snd x)"
    and "run_timed pool_exec ops (new_pool t0 specs, []) = Some (p, log)"
  shows "length (filter (\<lambda>(k', t). k' = k \<and> t \<le> T \<and> T < t + WINDOW) log) \<le> R"
proof -
  have "window_inv k R (last (t0 # map fst ops)) (p, log)"
    using pm.inv_run [OF window_inv_new [OF assms(1)] assms(2-4)] .
  then have "in_span T (key_log k log) \<le> R" by simp
  moreover have "in_span T (key_log k log) = length (filter (\<lambda>(k', t). k' = k \<and> t \<le> T \<and> T < t + WINDOW) log)"
    by (induction log) (auto simp: in_span_Cons in_span_def split: prod.splits)
  ultimately show ?thesis by simp
qed


text \<open>
  A refused caller is told the truth about when to come back. When \<open>reserve_filtered\<close> answers
  \<open>Wait w\<close>, then \<open>w\<close> is positive and at most the window, no lane the caller may use takes a request
  before \<open>w\<close> has passed, and if \<open>w\<close> is less than the window some such lane can take one then.
\<close>

theorem wait_is_exact:
  assumes wf: "pool_wf now p" and res: "reserve_filtered p now pref allowed = (q, Wait w)"
  shows "0 < w \<and> w \<le> WINDOW \<and>
    (\<forall>i t. i < pl_active p \<longrightarrow> lane_ok p allowed i \<longrightarrow> now \<le> t \<longrightarrow> t < now + w \<longrightarrow>
       \<not> lane_free t (pl_lanes p ! i)) \<and>
    (w < WINDOW \<longrightarrow> (\<exists>i < pl_active p. lane_ok p allowed i \<and> lane_free (now + w) (pl_lanes p ! i)))"
proof -
  note rr = reserve_spec_Wait [OF reserve_filtered_result(1) [OF wf res, symmetric]]
  have "\<exists>i < pl_active p. lane_ok p allowed i \<and> lane_free (now + w) (pl_lanes p ! i)" if small: "w < WINDOW"
  proof -
    obtain i where i: "i < pl_active p" "lane_ok p allowed i" "lane_ready_at now (pl_lanes p ! i) = now + w"
      using soonest_wait_cases(4) [OF rr(1) small [unfolded rr(2)]] rr(2) by blast
    have "0 < ln_rpm (pl_lanes p ! i)"
      using i(3) small by (auto simp: lane_ready_at_def window_ready_def split: if_splits)
    then show ?thesis
      using i lane_ready_at_later [OF pool_wf_nth [OF wf pool_wf_active [OF wf i(1)]]] by auto
  qed
  with refused_until [OF wf res] show ?thesis by blast
qed

text \<open>
  Who gets the slot. A grant names an active, allowed lane that is out of cooldown and below
  its budget, carries that lane's key and the current time, and is marked sticky only for the
  caller's preferred lane; a free preferred lane always wins. A grant that is not sticky goes to
  the free lane with the least load, the lowest index among equals. The lane's load goes up by one.
\<close>

theorem grant_is_fair:
  assumes wf: "pool_wf now p"
    and res: "reserve_filtered p now pref allowed = (q, Ready i k stamp sticky)"
  shows "i < pl_active p \<and> lane_ok p allowed i \<and> ln_cooldown (pl_lanes p ! i) \<le> now \<and>
    lane_load now (pl_lanes p ! i) < ln_rpm (pl_lanes p ! i) \<and>
    k = ln_key (pl_lanes p ! i) \<and> stamp = now \<and>
    (sticky \<longleftrightarrow> (\<exists>j < pl_active p. pref = Some j \<and> lane_ok p allowed j \<and> lane_free now (pl_lanes p ! j))) \<and>
    (sticky \<longrightarrow> pref = Some i) \<and>
    (\<not> sticky \<longrightarrow> (\<forall>j < pl_active p. lane_ok p allowed j \<longrightarrow> lane_free now (pl_lanes p ! j) \<longrightarrow>
       (lane_load now (pl_lanes p ! i), i) \<le> (lane_load now (pl_lanes p ! j), j))) \<and>
    lane_load now (pl_lanes q ! i) = Suc (lane_load now (pl_lanes p ! i))"
proof -
  note rr = reserve_filtered_result [OF wf res]
  note rdy = reserve_spec_Ready [OF rr(1) [symmetric]]
  note free = free_lanesD [OF rdy(1)]
  have len: "i < length (pl_lanes p)" by (rule pool_wf_active [OF wf free(1)])
  have "lane_load now (pl_lanes q ! i) = Suc (lane_load now (pl_lanes p ! i))"
    using same_pool_views(1) [OF rr(2), of i] len
    by (simp add: after_reservation_def rdy(3) grant_lane lane_load_def live_live)
  moreover have "sticky \<longleftrightarrow> (\<exists>j < pl_active p. pref = Some j \<and> lane_ok p allowed j \<and> lane_free now (pl_lanes p ! j))"
    using rdy(1,4,6) by (auto simp: free_lanes_def)
  moreover have "\<not> sticky \<longrightarrow> (\<forall>j < pl_active p. lane_ok p allowed j \<longrightarrow> lane_free now (pl_lanes p ! j) \<longrightarrow>
       (lane_load now (pl_lanes p ! i), i) \<le> (lane_load now (pl_lanes p ! j), j))"
    using rdy(5) least_loaded_le [of _ now allowed p] by (auto simp: free_lanes_def)
  ultimately show ?thesis
    using free rdy(2-4) by (simp add: lane_free_def)
qed

text \<open>
  A slot that nobody wants is not spent. On a well-formed pool, reserving and then releasing
  the granted lane and stamp does not panic and gives back a well-formed pool whose lanes agree
  with the original ones on everything that still counts at that time.
\<close>

theorem reserve_release_restores:
  assumes "pool_wf now p" "reserve_filtered p now pref allowed = (q, Ready i k stamp sticky)"
  shows "\<exists>p'. release q i stamp = Some p' \<and> pool_wf now p' \<and>
    map (purge_lane now) (pl_lanes p') = map (purge_lane now) (pl_lanes p)"
  using ps.take_and_return [OF assms] by (auto simp: same_pool_def)

text \<open>
  A configuration swap. The new pool's granted lanes are the enabled specs in their order and
  the others follow as carriers; each lane takes everything but its history from its spec. A key
  the old pool had, enabled or carrier, keeps its stamps and its cooldown; a new key starts empty.
\<close>

theorem rebuild_carries_over:
  assumes "distinct (map ln_key (pl_lanes p))"
  shows "list_all2 (\<lambda>s n.
        (\<forall>l \<in> set (pl_lanes p). ln_key l = sp_key s \<longrightarrow> n = lane_of_spec s (ln_sent l) (ln_cooldown l)) \<and>
        ((\<forall>l \<in> set (pl_lanes p). ln_key l \<noteq> sp_key s) \<longrightarrow> n = lane_of_spec s [] now))
      (filter sp_enabled specs @ filter (\<lambda>s. \<not> sp_enabled s) specs) (pl_lanes (rebuild now p specs))
    \<and> pl_active (rebuild now p specs) = length (filter sp_enabled specs)"
proof -
  have kept: "List.find (\<lambda>m. ln_key m = sp_key s) (pl_lanes p) = Some l"
    if "l \<in> set (pl_lanes p)" "ln_key l = sp_key s" for l s
    using find_by_key [OF assms that(1)] that(2) by simp
  have new: "List.find (\<lambda>m. ln_key m = sp_key s) (pl_lanes p) = None"
    if "\<forall>l \<in> set (pl_lanes p). ln_key l \<noteq> sp_key s" for s
    using that by (simp add: find_None_iff)
  have active: "length (filter sp_enabled (sort_key (\<lambda>s. \<not> sp_enabled s) specs)) = length (filter sp_enabled specs)"
    by (simp add: sort_key_bool)
  show ?thesis
    unfolding sort_key_bool [of sp_enabled specs, symmetric]
    using active by (simp add: rebuild_def assemble_def Let_def list_all2_map2 list_all2_same kept new)
qed

text \<open>
  Cooling a lane down. A penalty on an existing lane never shortens its cooldown and touches
  nothing else; until the back-off has passed, no reservation is granted on that lane, preferred or
  not, while every other lane is free exactly when it was.
\<close>

theorem penalty_blocks_lane:
  assumes wf: "pool_wf now p" and pen: "penalize p now i backoff = Some q" and t: "now \<le> t"
  shows "ln_cooldown (pl_lanes p ! i) \<le> ln_cooldown (pl_lanes q ! i) \<and>
    (\<forall>j. j \<noteq> i \<longrightarrow> pl_lanes q ! j = pl_lanes p ! j) \<and>
    (t < now + backoff \<longrightarrow> (case reserve_filtered q t pref allowed of
       (_, Ready l k stamp sticky) \<Rightarrow> l \<noteq> i | (_, Wait w) \<Rightarrow> True))"
proof -
  note pl = penalize_lanes [OF pen]
  have wf': "pool_wf t q"
    using pool_wf_later [OF penalize_wf [OF wf pen] t] .
  obtain q' r where res: "reserve_filtered q t pref allowed = (q', r)" by (cases "reserve_filtered q t pref allowed")
  have "l \<noteq> i" if r: "r = Ready l k stamp sticky" and early: "t < now + backoff" for l k stamp sticky
    using grant_is_fair_cooldown [OF wf' res [unfolded r]] pl(5) early by auto
  then show ?thesis
    using pl res by (cases r) auto
qed

subsection \<open>The properties at concrete inputs\<close>

definition demo_spec :: "string \<Rightarrow> nat \<Rightarrow> lane_spec" where
  "demo_spec k rpm = \<lparr>sp_key = k, sp_rpm = rpm, sp_enabled = True, sp_endpoint = 0,
     sp_base_url = ''u'', sp_upstream = ''nvidia'', sp_stream_options = True\<rparr>"

lemmas demo_simps = demo_spec_def new_pool_def rebuild_def assemble_def lane_of_spec_def pool_wf_def
  lane_wf_def reserve_filtered_def reserve_spread_def try_take_def purge_def set_sent_def
  window_ready_def lane_ok_def WINDOW_def secs_def release_def penalize_def remove_nth_def
  keeps_key_def lane_free_def lane_load_def live_def purge_lane_def

definition demo_pool :: pool where
  "demo_pool = new_pool 0 [demo_spec ''a'' 1, demo_spec ''b'' 2]"

lemma demo_pool_wf: "pool_wf 5 demo_pool"
  by (simp add: demo_pool_def demo_simps)

lemma window_never_exceeded_witness:
  "\<exists>p log. run_timed pool_exec [(1, PReserve None None), (2, PReserve (Some 0) None), (3, PReserve None None)]
       (new_pool 0 [demo_spec ''a'' 1, demo_spec ''b'' 2], []) = Some (p, log) \<and> length log = 3 \<and>
     length (filter (\<lambda>(k', t). k' = ''b'' \<and> t \<le> 5 \<and> 5 < t + WINDOW) log) \<le> 2"
proof -
  let ?ops = "[(1, PReserve None None), (2, PReserve (Some 0) None), (3, PReserve None None)]"
  let ?specs = "[demo_spec ''a'' 1, demo_spec ''b'' 2]"
  obtain p where run: "run_timed pool_exec ?ops (new_pool 0 ?specs, []) =
      Some (p, [(''b'', 3), (''b'', 2), (''a'', 1)])"
    by (simp add: demo_simps)
  show ?thesis
    using run window_never_exceeded [of "''b''" 2 ?specs 0 ?ops p _ 5] 
    by (intro exI [of _ p] exI [of _ "[(''b'', 3), (''b'', 2), (''a'', 1)]"]) (simp add: keeps_key_def demo_spec_def)
qed


lemma wait_is_exact_witness:
  "\<exists>q. reserve_filtered demo_pool 5 None (Some [3]) = (q, Wait WINDOW) \<and> 0 < WINDOW \<and> WINDOW \<le> WINDOW"
proof -
  obtain q where "reserve_filtered demo_pool 5 None (Some [3]) = (q, Wait WINDOW)"
    by (simp add: demo_pool_def demo_simps)
  with wait_is_exact [OF demo_pool_wf this] show ?thesis by blast
qed

lemma grant_is_fair_witness:
  "\<exists>q. reserve_filtered demo_pool 5 None None = (q, Ready 0 ''a'' 5 False) \<and>
     lane_load 5 (pl_lanes q ! 0) = Suc (lane_load 5 (pl_lanes demo_pool ! 0))"
proof -
  obtain q where q: "reserve_filtered demo_pool 5 None None = (q, Ready 0 ''a'' 5 False)"
    by (simp add: demo_pool_def demo_simps)
  with grant_is_fair [OF demo_pool_wf q] show ?thesis by blast
qed

lemma reserve_release_restores_witness:
  "\<exists>q p'. reserve_filtered demo_pool 5 None None = (q, Ready 0 ''a'' 5 False) \<and> release q 0 5 = Some p' \<and>
     map (purge_lane 5) (pl_lanes p') = map (purge_lane 5) (pl_lanes demo_pool)"
proof -
  obtain q where q: "reserve_filtered demo_pool 5 None None = (q, Ready 0 ''a'' 5 False)"
    by (simp add: demo_pool_def demo_simps)
  with reserve_release_restores [OF demo_pool_wf q] show ?thesis by blast
qed

lemma rebuild_carries_over_witness:
  "pl_active (rebuild 5 demo_pool [demo_spec ''c'' 1]) = 1"
proof -
  have "distinct (map ln_key (pl_lanes demo_pool))"
    by (simp add: demo_pool_def demo_simps)
  from rebuild_carries_over [OF this, of 5 "[demo_spec ''c'' 1]"] show ?thesis
    by (simp add: demo_spec_def)
qed

lemma penalty_blocks_lane_witness:
  "\<exists>q. penalize demo_pool 5 0 10 = Some q \<and>
     (case reserve_filtered q 6 None None of (_, Ready l k stamp sticky) \<Rightarrow> l \<noteq> 0 | (_, Wait w) \<Rightarrow> True)"
proof -
  obtain q where q: "penalize demo_pool 5 0 10 = Some q"
    by (simp add: demo_pool_def demo_simps)
  with penalty_blocks_lane [OF demo_pool_wf q, of 6 None None] show ?thesis by simp
qed

end
