(* ===== verification/Locale_Tags.thy ===== *)
theory Locale_Tags
  imports Interfaces
begin

section \<open>Locale tags and embedded assets (src/presentation.rs)\<close>

text \<open>
  The locale-v1 grammar: language, then an optional script, then an optional region, as a parser
  that returns the canonical spelling. The asset tables map a path to its content type; the
  embedded bytes are not modelled.
\<close>

datatype locale_error = Invalid | NotInstalled string

definition DEFAULT_LOCALE :: string where
  "DEFAULT_LOCALE = ''en-US''"

definition INSTALLED_LOCALES :: "string list" where
  "INSTALLED_LOCALES = [DEFAULT_LOCALE]"

definition title_case :: "string \<Rightarrow> string" where
  "title_case s = (case to_ascii_lower s of [] \<Rightarrow> [] | c # cs \<Rightarrow> to_upper_char c # cs)"

definition is_script :: "string \<Rightarrow> bool" where
  "is_script s \<longleftrightarrow> length s = 4 \<and> list_all ascii_alpha s"

definition is_alpha_region :: "string \<Rightarrow> bool" where
  "is_alpha_region s \<longleftrightarrow> length s = 2 \<and> list_all ascii_alpha s"

definition is_num_region :: "string \<Rightarrow> bool" where
  "is_num_region s \<longleftrightarrow> length s = 3 \<and> list_all ascii_digit s"

definition is_language :: "string \<Rightarrow> bool" where
  "is_language s \<longleftrightarrow> length s \<in> {2, 3} \<and> list_all ascii_alpha s"

text \<open>The script and the region are taken from the front of the remaining parts, as the running index does.\<close>

definition take_script :: "string list \<Rightarrow> string \<times> string list" where
  "take_script parts = (case parts of
      [] \<Rightarrow> ([], [])
    | s # rest \<Rightarrow> if is_script s then (CHR ''-'' # title_case s, rest) else ([], s # rest))"

definition take_region :: "string list \<Rightarrow> locale_error + string \<times> string list" where
  "take_region parts = (case parts of
      [] \<Rightarrow> Ok ([], [])
    | r # rest \<Rightarrow>
        if is_alpha_region r then Ok (CHR ''-'' # to_ascii_upper r, rest)
        else if is_num_region r then Ok (CHR ''-'' # r, rest)
        else Err Invalid)"

definition canonical_locale :: "string \<Rightarrow> locale_error + string" where
  "canonical_locale locale =
     (if locale = [] \<or> trim locale \<noteq> locale \<or> \<not> is_ascii locale then Err Invalid
      else case split_on (CHR ''-'') locale of
        [] \<Rightarrow> Err Invalid
      | language # parts \<Rightarrow>
          if \<not> is_language language then Err Invalid
          else (case take_script parts of (script, parts) \<Rightarrow>
            bind_result (take_region parts) (\<lambda>(region, parts).
              if parts \<noteq> [] then Err Invalid
              else Ok (to_ascii_lower language @ script @ region))))"

definition installed_locale :: "string \<Rightarrow> locale_error + string" where
  "installed_locale locale =
     bind_result (canonical_locale locale) (\<lambda>canonical.
       if list_ex (\<lambda>l. l = canonical) INSTALLED_LOCALES then Ok canonical
       else Err (NotInstalled canonical))"

subsection \<open>Assets\<close>

definition public_asset :: "string \<Rightarrow> string option" where
  "public_asset path =
     (if path = ''/assets/public/public.css'' then Some ''text/css; charset=utf-8''
      else if path = ''/assets/public/noscript.css'' then Some ''text/css; charset=utf-8''
      else if path = ''/assets/public/setup.js'' then Some ''text/javascript; charset=utf-8''
      else if path = ''/assets/public/login.js'' then Some ''text/javascript; charset=utf-8''
      else None)"

definition operator_asset :: "string \<Rightarrow> string option" where
  "operator_asset path =
     (if path = ''/assets/operator/operator.css'' then Some ''text/css; charset=utf-8''
      else if path = ''/assets/operator/shared.js'' then Some ''text/javascript; charset=utf-8''
      else if path = ''/assets/operator/dashboard.js'' then Some ''text/javascript; charset=utf-8''
      else if path = ''/assets/operator/settings.js'' then Some ''text/javascript; charset=utf-8''
      else None)"

definition catalog_locale :: "string \<Rightarrow> string option" where
  "catalog_locale locale = (case installed_locale locale of Err _ \<Rightarrow> None | Ok l \<Rightarrow> Some l)"

subsection \<open>Canonical spelling\<close>

text \<open>The three parts of a tag, spelled canonically.\<close>

definition canonical_tag :: "string \<Rightarrow> string option \<Rightarrow> string option \<Rightarrow> string" where
  "canonical_tag lang script region = to_ascii_lower lang @
     (case script of None \<Rightarrow> [] | Some s \<Rightarrow> CHR ''-'' # title_case s) @
     (case region of None \<Rightarrow> [] | Some r \<Rightarrow> CHR ''-'' # to_ascii_upper r)"

definition tag_parts :: "string \<Rightarrow> string option \<Rightarrow> string option \<Rightarrow> string list" where
  "tag_parts lang script region = lang # (case script of None \<Rightarrow> [] | Some s \<Rightarrow> [s]) @
     (case region of None \<Rightarrow> [] | Some r \<Rightarrow> [r])"

definition tag_ok :: "string \<Rightarrow> string option \<Rightarrow> string option \<Rightarrow> bool" where
  "tag_ok lang script region \<longleftrightarrow> is_language lang \<and> (\<forall>s \<in> set_option script. is_script s) \<and>
     (\<forall>r \<in> set_option region. is_alpha_region r \<or> is_num_region r)"

lemma upper_digits: "list_all ascii_digit r \<Longrightarrow> to_ascii_upper r = r"
  unfolding to_ascii_upper_def
  by (rule map_idI) (auto simp: list_all_iff to_upper_char_def ascii_digit_def ascii_lower_def)

lemma alpha_lower [simp]: "ascii_alpha (to_lower_char c) = ascii_alpha c"
  by (auto simp: ascii_alpha_def ascii_upper_def ascii_lower_def byte_of_to_lower)

lemma alpha_upper [simp]: "ascii_alpha (to_upper_char c) = ascii_alpha c"
  by (auto simp: ascii_alpha_def ascii_upper_def ascii_lower_def byte_of_to_upper)

lemma alnum_chars: "ascii_alpha c \<or> ascii_digit c \<Longrightarrow> c \<noteq> CHR ''-'' \<and> byte_of c < 128 \<and> 33 \<le> byte_of c"
  by (auto simp: ascii_defs)

lemma script_not_region: "is_script s \<Longrightarrow> \<not> is_alpha_region s \<and> \<not> is_num_region s"
  by (simp add: is_script_def is_alpha_region_def is_num_region_def)

lemma upper_lower [simp]: "to_upper_char (to_lower_char c) = to_upper_char c"
  unfolding byte_of_inject [symmetric]
  by (auto simp: byte_of_to_upper byte_of_to_lower ascii_lower_def ascii_upper_def)

lemma lower_upper [simp]: "to_lower_char (to_upper_char c) = to_lower_char c"
  unfolding byte_of_inject [symmetric]
  by (auto simp: byte_of_to_upper byte_of_to_lower ascii_lower_def ascii_upper_def)

lemma title_case_idem [simp]: "title_case (title_case s) = title_case s"
  by (cases s) (simp_all add: title_case_def to_ascii_lower_def)

lemma list_all_map_iff: "(\<And>c. P (f c) = P c) \<Longrightarrow> list_all P (map f s) = list_all P s"
  by (induction s) auto

lemma part_kinds [simp]:
  "is_language (to_ascii_lower s) = is_language s"
  "is_script (title_case s) = is_script s"
  "is_alpha_region (to_ascii_upper s) = is_alpha_region s"
  by (auto simp: is_language_def is_script_def is_alpha_region_def title_case_def to_ascii_lower_def
      to_ascii_upper_def list_all_map_iff split: list.splits)

lemma white_space_ends:
  assumes "w \<in> set white_space"
  shows "byte_of (hd w) < 33 \<or> 128 \<le> byte_of (hd w)" "byte_of (last w) < 33 \<or> 128 \<le> byte_of (last w)"
  using assms by (auto simp: white_space_def)

text \<open>Nothing to trim in a string of visible ASCII characters.\<close>

lemma trim_visible:
  assumes "list_all (\<lambda>c. 33 \<le> byte_of c \<and> byte_of c < 128) s"
  shows "trim s = s"
proof -
  have no: "\<not> prefix w s" "\<not> suffix w s" if w: "w \<in> set white_space" for w
  proof -
    have ne: "w \<noteq> []" using w by (rule white_space_nonempty)
    show "\<not> prefix w s"
    proof
      assume "prefix w s"
      then have "hd w \<in> set s" using ne by (auto simp: prefix_def)
      with assms white_space_ends(1) [OF w] show False by (auto simp: list_all_iff)
    qed
    show "\<not> suffix w s"
    proof
      assume "suffix w s"
      then have "last w \<in> set s" using ne by (auto simp: suffix_def)
      with assms white_space_ends(2) [OF w] show False by (auto simp: list_all_iff)
    qed
  qed
  have "List.find (\<lambda>w. prefix w s) white_space = None" "List.find (\<lambda>w. suffix w s) white_space = None"
    using no by (simp_all add: find_None_iff)
  then show ?thesis
    by (simp add: trim_def trim_start.simps [of s] trim_end.simps [of s])
qed

lemma tag_chars:
  assumes "tag_ok lang script region" "p \<in> set (tag_parts lang script region)" "c \<in> set p"
  shows "ascii_alpha c \<or> ascii_digit c"
  using assms
  by (auto simp: tag_ok_def tag_parts_def is_language_def is_script_def is_alpha_region_def
      is_num_region_def list_all_iff split: option.splits)

lemma set_join_with: "set (join_with d ws) \<subseteq> set d \<union> \<Union> (set ` set ws)"
  by (induction d ws rule: join_with.induct) auto

lemma split_join:
  assumes "ws \<noteq> []" "\<forall>w \<in> set ws. d \<notin> set w"
  shows "split_on d (join_with [d] ws) = ws"
  using assms
proof (induction ws)
  case (Cons w ws)
  then show ?case
    by (cases ws) (simp_all add: split_on_append)
qed simp

lemma tag_string:
  assumes "tag_ok lang script region"
  defines "s \<equiv> join_with ''-'' (tag_parts lang script region)"
  shows "split_on (CHR ''-'') s = tag_parts lang script region" "trim s = s" "is_ascii s" "s \<noteq> []"
proof -
  have no: "\<forall>p \<in> set (tag_parts lang script region). CHR ''-'' \<notin> set p"
    using tag_chars [OF assms(1)] alnum_chars by blast
  show "split_on (CHR ''-'') s = tag_parts lang script region"
    unfolding s_def using no by (intro split_join) (simp_all add: tag_parts_def)
  have "33 \<le> byte_of c \<and> byte_of c < 128" if "c \<in> set s" for c
  proof -
    have "c = CHR ''-'' \<or> (\<exists>p \<in> set (tag_parts lang script region). c \<in> set p)"
      using that set_join_with [of "''-''" "tag_parts lang script region"] by (auto simp: s_def)
    then show ?thesis
      using tag_chars [OF assms(1)] alnum_chars by (auto simp: byte_of_def)
  qed
  then have vis: "list_all (\<lambda>c. 33 \<le> byte_of c \<and> byte_of c < 128) s"
    by (simp add: list_all_iff)
  then show "trim s = s" by (rule trim_visible)
  show "is_ascii s" using vis by (auto simp: is_ascii_def list_all_iff)
  have "lang \<noteq> []" using assms(1) by (auto simp: tag_ok_def is_language_def)
  then show "s \<noteq> []"
    by (cases lang) (auto simp: s_def tag_parts_def join_with_hd split: option.splits)
qed

lemma canonical_complete:
  assumes "tag_ok lang script region"
  shows "canonical_locale (join_with ''-'' (tag_parts lang script region)) = Ok (canonical_tag lang script region)"
proof -
  obtain s rest where s: "s = join_with ''-'' (tag_parts lang script region)"
    and rest: "rest = (case script of None \<Rightarrow> [] | Some s \<Rightarrow> [s]) @ (case region of None \<Rightarrow> [] | Some r \<Rightarrow> [r])"
    by blast
  have "split_on (CHR ''-'') s = lang # rest" "trim s = s" "is_ascii s" "s \<noteq> []"
    using tag_string [OF assms] by (simp_all add: s rest tag_parts_def)
  then have "canonical_locale s = (case take_script rest of (script, parts) \<Rightarrow>
      bind_result (take_region parts) (\<lambda>(region, parts).
        if parts \<noteq> [] then Err Invalid else Ok (to_ascii_lower lang @ script @ region)))"
    using assms by (simp add: canonical_locale_def tag_ok_def)
  moreover have "region = Some r \<Longrightarrow> \<not> is_script r" for r
    using assms script_not_region by (auto simp: tag_ok_def)
  moreover have "is_num_region r \<Longrightarrow> to_ascii_upper r = r" for r
    by (simp add: is_num_region_def upper_digits)
  ultimately show ?thesis
    using assms unfolding s [symmetric]
    by (auto simp: rest canonical_tag_def tag_ok_def take_script_def take_region_def split: option.splits)
qed

lemma canonical_sound:
  assumes "canonical_locale s = Ok c"
  shows "\<exists>lang script region. tag_ok lang script region \<and>
    s = join_with ''-'' (tag_parts lang script region) \<and> c = canonical_tag lang script region"
proof -
  obtain lang parts where split: "split_on (CHR ''-'') s = lang # parts" and lang: "is_language lang"
    using assms by (auto simp: canonical_locale_def split: if_splits list.splits)
  obtain sc rest where script: "take_script parts = (sc, rest)" by fastforce
  obtain rg where region: "take_region rest = Ok (rg, [])" and c: "c = to_ascii_lower lang @ sc @ rg"
    using assms lang split script by (auto simp: canonical_locale_def result_simps split: if_splits)
  have s: "s = join_with ''-'' (lang # parts)"
    using join_split_on [of "CHR ''-''" s] split by simp
  obtain script' where sc: "\<forall>x \<in> set_option script'. is_script x"
    "parts = (case script' of None \<Rightarrow> [] | Some x \<Rightarrow> [x]) @ rest"
    "sc = (case script' of None \<Rightarrow> [] | Some x \<Rightarrow> CHR ''-'' # title_case x)"
  proof (cases "\<exists>x xs. parts = x # xs \<and> is_script x")
    case True
    then obtain x xs where "parts = x # xs" "is_script x" by blast
    with script that [of "Some x"] show ?thesis by (auto simp: take_script_def)
  next
    case False
    with script that [of None] show ?thesis by (auto simp: take_script_def split: list.splits if_splits)
  qed
  obtain region' where rg: "\<forall>x \<in> set_option region'. is_alpha_region x \<or> is_num_region x"
    "rest = (case region' of None \<Rightarrow> [] | Some x \<Rightarrow> [x])"
    "rg = (case region' of None \<Rightarrow> [] | Some x \<Rightarrow> CHR ''-'' # to_ascii_upper x)"
  proof (cases rest)
    case Nil
    with region that [of None] show ?thesis by (auto simp: take_region_def)
  next
    case (Cons x xs)
    with region that [of "Some x"] show ?thesis
      by (auto simp: take_region_def is_num_region_def upper_digits split: if_splits)
  qed
  have "tag_ok lang script' region'" using lang sc rg by (simp add: tag_ok_def)
  moreover have "s = join_with ''-'' (tag_parts lang script' region')"
    using s sc(2) rg(2) by (simp add: tag_parts_def)
  moreover have "c = canonical_tag lang script' region'"
    using c sc(3) rg(3) by (simp add: canonical_tag_def)
  ultimately show ?thesis by blast
qed

lemma canonical_tag_join:
  "canonical_tag lang script region =
     join_with ''-'' (tag_parts (to_ascii_lower lang) (map_option title_case script) (map_option to_ascii_upper region))"
  by (auto simp: canonical_tag_def tag_parts_def split: option.splits)

subsection \<open>Properties\<close>

text \<open>
  C38: \<open>canonical_locale\<close> accepts exactly the locale-v1 grammar. It succeeds on a string if and only
  if that is a language of two or three letters, optionally a script of four letters, optionally a
  region of two letters or three digits, joined by hyphens, and then returns the lower-case
  language, the title-case script and the upper-case region.
\<close>

theorem canonical_locale_grammar:
  "canonical_locale s = Ok c \<longleftrightarrow> (\<exists>lang script region. tag_ok lang script region \<and>
     s = join_with ''-'' (tag_parts lang script region) \<and> c = canonical_tag lang script region)"
  using canonical_sound canonical_complete by blast

text \<open>
  The canonical spelling is canonical: parsing it again gives itself, so a stored locale that
  passed the check once is never rejected for its spelling.
\<close>

theorem canonical_locale_idempotent:
  assumes "canonical_locale s = Ok c"
  shows "canonical_locale c = Ok c"
proof -
  obtain lang script region where ok: "tag_ok lang script region" and c: "c = canonical_tag lang script region"
    using canonical_sound [OF assms] by blast
  let ?l = "to_ascii_lower lang" and ?s = "map_option title_case script" and ?r = "map_option to_ascii_upper region"
  have nums: "is_num_region r \<Longrightarrow> to_ascii_upper r = r" for r
    by (simp add: is_num_region_def upper_digits)
  have "tag_ok ?l ?s ?r"
    using ok nums by (auto simp: tag_ok_def)
  from canonical_complete [OF this] have "canonical_locale c = Ok (canonical_tag ?l ?s ?r)"
    by (simp add: c canonical_tag_join [symmetric])
  moreover have "canonical_tag ?l ?s ?r = c"
    by (auto simp: c canonical_tag_def split: option.splits)
  ultimately show ?thesis by simp
qed

lemma canonical_locale_idempotent_witness:
  "canonical_locale ''EN-us'' = Ok ''en-US'' \<and> canonical_locale ''en-US'' = Ok ''en-US''"
proof -
  have "canonical_locale ''EN-us'' = Ok ''en-US''" by code_simp
  with canonical_locale_idempotent [OF this] show ?thesis by simp
qed

end
