(* ===== verification/Json_Value.thy ===== *)
theory Json_Value
  imports Interfaces "HOL-Library.List_Lexorder" "HOL-Library.Monad_Syntax" "HOL-Library.Char_ord"
begin

section \<open>JSON values, floating-point bits and ordered maps\<close>

text \<open>
  The values the code exchanges through \<open>serde_json\<close>, \<open>f64\<close> as its 64 bits with the IEEE
  comparisons, and \<open>BTreeMap\<close> as an association list in ascending key order. The
  derived deserializers of the configuration structs are written with the combinators here: an
  object with each field at most once, or an array giving the fields in declaration order; an
  absent field takes its declared default.
\<close>

unbundle bit_operations_syntax

subsection \<open>f64\<close>

type_synonym f64 = "64 word"

definition f64_negative :: "f64 \<Rightarrow> bool" where
  "f64_negative x \<longleftrightarrow> bit x 63"

definition f64_magnitude :: "f64 \<Rightarrow> nat" where
  "f64_magnitude x = unat (take_bit 63 x)"

definition f64_infinity :: nat where
  "f64_infinity = 0x7FF0000000000000"

definition f64_is_nan :: "f64 \<Rightarrow> bool" where
  "f64_is_nan x \<longleftrightarrow> f64_infinity < f64_magnitude x"

definition f64_is_finite :: "f64 \<Rightarrow> bool" where
  "f64_is_finite x \<longleftrightarrow> f64_magnitude x < f64_infinity"

text \<open>The value's place on the number line: the magnitude bits order as the magnitudes do.\<close>

definition f64_rank :: "f64 \<Rightarrow> int" where
  "f64_rank x = (if f64_negative x then - int (f64_magnitude x) else int (f64_magnitude x))"

definition f64_less :: "f64 \<Rightarrow> f64 \<Rightarrow> bool" where
  "f64_less x y \<longleftrightarrow> \<not> f64_is_nan x \<and> \<not> f64_is_nan y \<and> f64_rank x < f64_rank y"

definition f64_less_eq :: "f64 \<Rightarrow> f64 \<Rightarrow> bool" where
  "f64_less_eq x y \<longleftrightarrow> \<not> f64_is_nan x \<and> \<not> f64_is_nan y \<and> f64_rank x \<le> f64_rank y"

definition f64_eq :: "f64 \<Rightarrow> f64 \<Rightarrow> bool" where
  "f64_eq x y \<longleftrightarrow> \<not> f64_is_nan x \<and> \<not> f64_is_nan y \<and> f64_rank x = f64_rank y"

text \<open>An unsigned integer as \<open>f64\<close>, rounded to nearest, ties to even.\<close>

fun bit_length :: "nat \<Rightarrow> nat" where
  "bit_length n = (if n = 0 then 0 else Suc (bit_length (n div 2)))"

declare bit_length.simps [simp del]

definition f64_of_nat :: "nat \<Rightarrow> f64" where
  "f64_of_nat n =
     (if n = 0 then 0
      else let e = bit_length n - 1 in
        if e \<le> 52 then word_of_nat ((e + 1022) * 2 ^ 52 + n * 2 ^ (52 - e))
        else let d = 2 ^ (e - 52); q = n div d; r = n mod d;
                 q = (if d < 2 * r \<or> (2 * r = d \<and> odd q) then q + 1 else q)
             in word_of_nat ((e + 1022) * 2 ^ 52 + q))"

definition f64_of_int :: "int \<Rightarrow> f64" where
  "f64_of_int i = (if i < 0 then set_bit 63 (f64_of_nat (nat (- i))) else f64_of_nat (nat i))"

subsection \<open>Values\<close>

datatype json_number = PosInt nat | NegInt int | Float f64

datatype json =
    JNull
  | JBool bool
  | JNumber json_number
  | JString string
  | JArr "json list"
  | JObject "(string \<times> json) list"

fun as_str :: "json \<Rightarrow> string option" where
  "as_str (JString s) = Some s"
| "as_str _ = None"

fun as_bool :: "json \<Rightarrow> bool option" where
  "as_bool (JBool b) = Some b"
| "as_bool _ = None"

fun as_u64 :: "json \<Rightarrow> nat option" where
  "as_u64 (JNumber (PosInt n)) = Some n"
| "as_u64 _ = None"

fun as_f64 :: "json \<Rightarrow> f64 option" where
  "as_f64 (JNumber (PosInt n)) = Some (f64_of_nat n)"
| "as_f64 (JNumber (NegInt i)) = Some (f64_of_int i)"
| "as_f64 (JNumber (Float x)) = Some x"
| "as_f64 _ = None"

fun as_array :: "json \<Rightarrow> json list option" where
  "as_array (JArr xs) = Some xs"
| "as_array _ = None"

text \<open>Member access on a parsed value: the last member of that name, as the map it was collected into holds.\<close>

fun get :: "string \<Rightarrow> json \<Rightarrow> json option" where
  "get k (JObject ms) = map_of (rev ms) k"
| "get k _ = None"

subsection \<open>Ordered maps\<close>

type_synonym 'v btree = "(string \<times> 'v) list"

fun bt_insert :: "'k :: linorder \<Rightarrow> 'v \<Rightarrow> ('k \<times> 'v) list \<Rightarrow> ('k \<times> 'v) list" where
  "bt_insert k v [] = [(k, v)]"
| "bt_insert k v ((k', v') # m) =
     (if k < k' then (k, v) # (k', v') # m
      else if k = k' then (k, v) # m
      else (k', v') # bt_insert k v m)"

definition bt_remove :: "'k \<Rightarrow> ('k \<times> 'v) list \<Rightarrow> ('k \<times> 'v) list" where
  "bt_remove k m = filter (\<lambda>e. fst e \<noteq> k) m"

definition bt_wf :: "('k :: linorder \<times> 'v) list \<Rightarrow> bool" where
  "bt_wf m \<longleftrightarrow> sorted_wrt (<) (map fst m)"

definition bt_of_list :: "('k :: linorder \<times> 'v) list \<Rightarrow> ('k \<times> 'v) list" where
  "bt_of_list es = foldl (\<lambda>m e. bt_insert (fst e) (snd e) m) [] es"

lemma bt_insert_keys: "fst ` set (bt_insert k v m) = insert k (fst ` set m)"
  by (induction k v m rule: bt_insert.induct) (simp_all add: insert_commute)

lemma bt_insert_wf: "bt_wf m \<Longrightarrow> bt_wf (bt_insert k v m)"
proof (induction m)
  case (Cons e m)
  obtain k' v' where e: "e = (k', v')" by (cases e)
  have "bt_wf m" using Cons.prems by (simp add: bt_wf_def)
  with Cons.IH have "bt_wf (bt_insert k v m)" by blast
  with Cons.prems bt_insert_keys [of k v m] show ?case
    by (auto simp: e bt_wf_def)
qed (simp add: bt_wf_def)

lemma bt_insert_lookup: "bt_wf m \<Longrightarrow> map_of (bt_insert k v m) = (map_of m)(k \<mapsto> v)"
proof (induction m)
  case (Cons e m)
  have "bt_wf m" using Cons.prems by (simp add: bt_wf_def)
  with Cons show ?case by (cases e) (auto simp: fun_eq_iff)
qed auto

lemma bt_remove_wf: "bt_wf m \<Longrightarrow> bt_wf (bt_remove k m)"
  by (induction m) (auto simp: bt_wf_def bt_remove_def)

lemma bt_remove_lookup: "map_of (bt_remove k m) = (map_of m)(k := None)"
  by (induction m) (auto simp: bt_remove_def fun_eq_iff)

lemma bt_of_list_wf: "bt_wf (bt_of_list es)"
proof -
  have "bt_wf m \<Longrightarrow> bt_wf (foldl (\<lambda>m e. bt_insert (fst e) (snd e) m) m es)" for m
    by (induction es arbitrary: m) (auto intro: bt_insert_wf)
  then show ?thesis by (simp add: bt_of_list_def bt_wf_def)
qed

lemma bt_insert_last: "\<forall>k' \<in> set (map fst m). k' < k \<Longrightarrow> bt_insert k v m = m @ [(k, v)]"
  by (induction m) (auto simp: order_less_imp_not_less)

lemma bt_of_list_sorted: "bt_wf m \<Longrightarrow> bt_of_list m = m"
proof (induction m rule: rev_induct)
  case (snoc e m)
  then have "bt_wf m" "\<forall>k' \<in> set (map fst m). k' < fst e"
    by (auto simp: bt_wf_def sorted_wrt_append)
  with snoc.IH show ?case
    by (simp add: bt_of_list_def bt_insert_last)
qed (simp add: bt_of_list_def)

text \<open>The laws of a keyed table, which clients of the map rely on.\<close>

locale keyed_table =
  fixes ok :: "'m \<Rightarrow> bool"
    and look :: "'m \<Rightarrow> 'k \<Rightarrow> 'v option"
    and put :: "'k \<Rightarrow> 'v \<Rightarrow> 'm \<Rightarrow> 'm"
    and del :: "'k \<Rightarrow> 'm \<Rightarrow> 'm"
  assumes ok_put: "ok m \<Longrightarrow> ok (put k v m)"
    and ok_del: "ok m \<Longrightarrow> ok (del k m)"
    and look_put: "ok m \<Longrightarrow> look (put k v m) = (look m)(k \<mapsto> v)"
    and look_del: "ok m \<Longrightarrow> look (del k m) = (look m)(k := None)"
begin

lemma look_put_other: "ok m \<Longrightarrow> j \<noteq> k \<Longrightarrow> look (put k v m) j = look m j"
  by (simp add: look_put)

lemma del_put: "ok m \<Longrightarrow> look m k = None \<Longrightarrow> look (del k (put k v m)) = look m"
  by (auto simp: look_put look_del ok_put)

lemma put_swap: "ok m \<Longrightarrow> j \<noteq> k \<Longrightarrow> look (put j u (put k v m)) = look (put k v (put j u m))"
  by (auto simp: look_put ok_put fun_eq_iff)

end

interpretation bt: keyed_table bt_wf map_of bt_insert bt_remove
  by unfold_locales (simp_all add: bt_insert_wf bt_remove_wf bt_insert_lookup bt_remove_lookup)

subsection \<open>Derived deserializers\<close>

definition dec_fields :: "string list \<Rightarrow> json \<Rightarrow> (string \<times> json) list option" where
  "dec_fields names j = (case j of
      JObject ms \<Rightarrow>
        let known = filter (\<lambda>e. fst e \<in> set names) ms
        in if distinct (map fst known) then Some known else None
    | JArr xs \<Rightarrow> if length xs \<le> length names then Some (zip names xs) else None
    | _ \<Rightarrow> None)"

definition required :: "(json \<Rightarrow> 'a option) \<Rightarrow> string \<Rightarrow> (string \<times> json) list \<Rightarrow> 'a option" where
  "required dec k fs = (case map_of fs k of None \<Rightarrow> None | Some j \<Rightarrow> dec j)"

definition defaulted :: "(json \<Rightarrow> 'a option) \<Rightarrow> 'a \<Rightarrow> string \<Rightarrow> (string \<times> json) list \<Rightarrow> 'a option" where
  "defaulted dec d k fs = (case map_of fs k of None \<Rightarrow> Some d | Some j \<Rightarrow> dec j)"

definition dec_uint :: "nat \<Rightarrow> json \<Rightarrow> nat option" where
  "dec_uint limit j = (case as_u64 j of Some n \<Rightarrow> if n < limit then Some n else None | None \<Rightarrow> None)"

definition dec_list :: "(json \<Rightarrow> 'a option) \<Rightarrow> json \<Rightarrow> 'a list option" where
  "dec_list dec j = (case j of JArr xs \<Rightarrow> those (map dec xs) | _ \<Rightarrow> None)"

definition dec_option :: "(json \<Rightarrow> 'a option) \<Rightarrow> json \<Rightarrow> 'a option option" where
  "dec_option dec j = (if j = JNull then Some None else map_option Some (dec j))"

definition dec_btree :: "(json \<Rightarrow> 'v option) \<Rightarrow> json \<Rightarrow> 'v btree option" where
  "dec_btree dec j = (case j of
      JObject ms \<Rightarrow> map_option bt_of_list (those (map (\<lambda>e. map_option (Pair (fst e)) (dec (snd e))) ms))
    | _ \<Rightarrow> None)"

text \<open>A unit variant is its name, or an object with the name as only member and \<open>null\<close> as value.\<close>

definition dec_enum :: "(string \<times> 'a) list \<Rightarrow> json \<Rightarrow> 'a option" where
  "dec_enum variants j = (case j of
      JString s \<Rightarrow> map_of variants s
    | JObject [(s, v)] \<Rightarrow> if v = JNull then map_of variants s else None
    | _ \<Rightarrow> None)"

lemma those_map_Some: "\<forall>x \<in> set xs. dec (enc x) = Some x \<Longrightarrow> those (map dec (map enc xs)) = Some xs"
  by (induction xs) auto

lemma dec_list_enc [simp]:
  "\<forall>x \<in> set xs. dec (enc x) = Some x \<Longrightarrow> dec_list dec (JArr (map enc xs)) = Some xs"
  by (simp add: dec_list_def those_map_Some del: map_map)

lemma dec_btree_enc:
  assumes "bt_wf m" "\<forall>v \<in> snd ` set m. dec (enc v) = Some v"
  shows "dec_btree dec (JObject (map (\<lambda>e. (fst e, enc (snd e))) m)) = Some m"
proof -
  have "those (map (\<lambda>e. map_option (Pair (fst e)) (dec (snd e))) (map (\<lambda>e. (fst e, enc (snd e))) m)) = Some m"
    using assms(2) by (induction m) auto
  then show ?thesis
    using assms(1) by (simp add: dec_btree_def bt_of_list_sorted del: map_map)
qed

end
