(* ===== verification/Config_Store.thy ===== *)
theory Config_Store
  imports Key_Pool Locale_Tags Json_Value
begin

section \<open>The configuration store (src/config.rs)\<close>

text \<open>
  The stored configuration with its defaults, its JSON form, its derived views (lane specs,
  endpoint list, runtime snapshot), the validation rulebook, and the atomic save on a file system
  that may crash. Error messages are constructors carrying what the message quotes.
\<close>

definition PRIMARY_UPSTREAM :: string where
  "PRIMARY_UPSTREAM = ''nvidia''"

definition valid_model_id :: "string \<Rightarrow> bool" where
  "valid_model_id s \<longleftrightarrow> s \<noteq> [] \<and> length s \<le> 128 \<and>
     list_all (\<lambda>c. ascii_alnum c \<or> c \<in> set ''._-/:'') s"

subsection \<open>The stored data\<close>

datatype mode = Open | Keyed

datatype role = Superuser | Admin | User

record nim_key =
  nk_key :: string
  nk_owner :: string
  nk_enabled :: bool
  nk_rpm :: nat

record upstream =
  up_base_url :: string
  up_nim_keys :: "nim_key list"
  up_enabled :: bool
  up_models :: "string list"
  up_stream_options :: bool

record upstream_endpoint =
  ue_name :: string
  ue_base_url :: string
  ue_enabled :: bool
  ue_keys :: "nim_key list"
  ue_models :: "string list"
  ue_stream_options :: bool

record endpoint_view =
  ev_name :: string
  ev_base_url :: string
  ev_enabled :: bool
  ev_models :: "string list"
  ev_stream_options :: bool

record client_key =
  ck_name :: string
  ck_secret_sha256 :: string
  ck_last4 :: string
  ck_owner :: string

record client_auth =
  ca_mode :: mode
  ca_keys :: "client_key list"

record limits =
  li_heartbeat_secs :: nat
  li_max_inflight :: nat
  li_max_wait_secs :: nat
  li_models_ttl_secs :: nat
  li_request_timeout_secs :: nat
  li_stream_idle_secs :: nat
  li_strict_passthrough :: bool

record dashboard_cfg =
  dc_default_window_days :: nat
  dc_slo_target_percent :: f64

record governor_cfg =
  gc_enabled :: bool
  gc_overrides :: "nat btree"

record user =
  us_username :: string
  us_password_hash :: string
  us_role :: role
  us_locale :: "string option"

record stored_config =
  sc_version :: nat
  sc_default_locale :: string
  sc_upstream :: upstream
  sc_upstreams :: "upstream_endpoint list"
  sc_disabled_models :: "string list"
  sc_client_auth :: client_auth
  sc_limits :: limits
  sc_history_days :: nat
  sc_dashboard :: dashboard_cfg
  sc_governor :: governor_cfg
  sc_users :: "user list"

definition is_admin :: "role \<Rightarrow> bool" where
  "is_admin r \<longleftrightarrow> r = Superuser \<or> r = Admin"

subsection \<open>Defaults\<close>

definition default_rpm :: nat where "default_rpm = 40"

definition default_base_url :: string where
  "default_base_url = ''https://integrate.api.nvidia.com''"

definition default_slo_target_percent :: f64 where
  "default_slo_target_percent = 0x4058F9999999999A"

definition default_upstream :: upstream where
  "default_upstream = \<lparr>up_base_url = default_base_url, up_nim_keys = [], up_enabled = True,
     up_models = [], up_stream_options = True\<rparr>"

definition default_limits :: limits where
  "default_limits = \<lparr>li_heartbeat_secs = 10, li_max_inflight = 512, li_max_wait_secs = 900,
     li_models_ttl_secs = 600, li_request_timeout_secs = 300, li_stream_idle_secs = 300,
     li_strict_passthrough = False\<rparr>"

definition default_dashboard :: dashboard_cfg where
  "default_dashboard = \<lparr>dc_default_window_days = 30, dc_slo_target_percent = default_slo_target_percent\<rparr>"

definition default_governor :: governor_cfg where
  "default_governor = \<lparr>gc_enabled = True, gc_overrides = []\<rparr>"

definition default_config :: stored_config where
  "default_config = \<lparr>sc_version = 1, sc_default_locale = DEFAULT_LOCALE, sc_upstream = default_upstream,
     sc_upstreams = [], sc_disabled_models = [], sc_client_auth = \<lparr>ca_mode = Keyed, ca_keys = []\<rparr>,
     sc_limits = default_limits, sc_history_days = 30, sc_dashboard = default_dashboard,
     sc_governor = default_governor, sc_users = []\<rparr>"

subsection \<open>Reading the store\<close>

definition dec_u64 :: "json \<Rightarrow> nat option" where
  "dec_u64 = dec_uint (2 ^ 64)"

text \<open>A JSON number is finite; \<open>NaN\<close> and the infinities have no spelling and are written as \<open>null\<close>.\<close>

definition dec_f64 :: "json \<Rightarrow> f64 option" where
  "dec_f64 j = (case as_f64 j of Some x \<Rightarrow> if f64_is_finite x then Some x else None | None \<Rightarrow> None)"

definition enc_f64 :: "f64 \<Rightarrow> json" where
  "enc_f64 x = (if f64_is_finite x then JNumber (Float x) else JNull)"

definition dec_nim_key :: "json \<Rightarrow> nim_key option" where
  "dec_nim_key j = do {
     fs \<leftarrow> dec_fields [''key'', ''owner'', ''enabled'', ''rpm''] j;
     key \<leftarrow> required as_str ''key'' fs;
     owner \<leftarrow> required as_str ''owner'' fs;
     enabled \<leftarrow> defaulted as_bool True ''enabled'' fs;
     rpm \<leftarrow> defaulted dec_u64 default_rpm ''rpm'' fs;
     Some \<lparr>nk_key = key, nk_owner = owner, nk_enabled = enabled, nk_rpm = rpm\<rparr>}"

definition dec_upstream :: "json \<Rightarrow> upstream option" where
  "dec_upstream j = do {
     fs \<leftarrow> dec_fields [''base_url'', ''nim_keys'', ''enabled'', ''models'', ''supports_stream_options''] j;
     url \<leftarrow> defaulted as_str default_base_url ''base_url'' fs;
     keys \<leftarrow> defaulted (dec_list dec_nim_key) [] ''nim_keys'' fs;
     enabled \<leftarrow> defaulted as_bool True ''enabled'' fs;
     models \<leftarrow> defaulted (dec_list as_str) [] ''models'' fs;
     so \<leftarrow> defaulted as_bool True ''supports_stream_options'' fs;
     Some \<lparr>up_base_url = url, up_nim_keys = keys, up_enabled = enabled, up_models = models,
       up_stream_options = so\<rparr>}"

definition dec_upstream_endpoint :: "json \<Rightarrow> upstream_endpoint option" where
  "dec_upstream_endpoint j = do {
     fs \<leftarrow> dec_fields [''name'', ''base_url'', ''enabled'', ''keys'', ''models'', ''supports_stream_options''] j;
     name \<leftarrow> required as_str ''name'' fs;
     url \<leftarrow> required as_str ''base_url'' fs;
     enabled \<leftarrow> defaulted as_bool True ''enabled'' fs;
     keys \<leftarrow> defaulted (dec_list dec_nim_key) [] ''keys'' fs;
     models \<leftarrow> defaulted (dec_list as_str) [] ''models'' fs;
     so \<leftarrow> defaulted as_bool True ''supports_stream_options'' fs;
     Some \<lparr>ue_name = name, ue_base_url = url, ue_enabled = enabled, ue_keys = keys,
       ue_models = models, ue_stream_options = so\<rparr>}"

definition dec_client_key :: "json \<Rightarrow> client_key option" where
  "dec_client_key j = do {
     fs \<leftarrow> dec_fields [''name'', ''secret_sha256'', ''last4'', ''owner''] j;
     name \<leftarrow> required as_str ''name'' fs;
     secret \<leftarrow> required as_str ''secret_sha256'' fs;
     last4 \<leftarrow> defaulted as_str [] ''last4'' fs;
     owner \<leftarrow> required as_str ''owner'' fs;
     Some \<lparr>ck_name = name, ck_secret_sha256 = secret, ck_last4 = last4, ck_owner = owner\<rparr>}"

definition dec_mode :: "json \<Rightarrow> mode option" where
  "dec_mode = dec_enum [(''open'', Open), (''keyed'', Keyed)]"

definition dec_role :: "json \<Rightarrow> role option" where
  "dec_role = dec_enum [(''superuser'', Superuser), (''admin'', Admin), (''user'', User)]"

definition dec_client_auth :: "json \<Rightarrow> client_auth option" where
  "dec_client_auth j = do {
     fs \<leftarrow> dec_fields [''mode'', ''keys''] j;
     mode \<leftarrow> defaulted dec_mode Keyed ''mode'' fs;
     keys \<leftarrow> defaulted (dec_list dec_client_key) [] ''keys'' fs;
     Some \<lparr>ca_mode = mode, ca_keys = keys\<rparr>}"

definition dec_limits :: "json \<Rightarrow> limits option" where
  "dec_limits j = do {
     fs \<leftarrow> dec_fields [''heartbeat_secs'', ''max_inflight'', ''max_wait_secs'', ''models_ttl_secs'',
       ''request_timeout_secs'', ''stream_idle_secs'', ''strict_passthrough''] j;
     hb \<leftarrow> defaulted dec_u64 10 ''heartbeat_secs'' fs;
     mi \<leftarrow> defaulted dec_u64 512 ''max_inflight'' fs;
     mw \<leftarrow> defaulted dec_u64 900 ''max_wait_secs'' fs;
     ttl \<leftarrow> defaulted dec_u64 600 ''models_ttl_secs'' fs;
     rt \<leftarrow> defaulted dec_u64 300 ''request_timeout_secs'' fs;
     si \<leftarrow> defaulted dec_u64 300 ''stream_idle_secs'' fs;
     sp \<leftarrow> defaulted as_bool False ''strict_passthrough'' fs;
     Some \<lparr>li_heartbeat_secs = hb, li_max_inflight = mi, li_max_wait_secs = mw, li_models_ttl_secs = ttl,
       li_request_timeout_secs = rt, li_stream_idle_secs = si, li_strict_passthrough = sp\<rparr>}"

definition dec_history :: "json \<Rightarrow> nat option" where
  "dec_history j = do {
     fs \<leftarrow> dec_fields [''days''] j;
     defaulted dec_u64 30 ''days'' fs}"

definition dec_dashboard :: "json \<Rightarrow> dashboard_cfg option" where
  "dec_dashboard j = do {
     fs \<leftarrow> dec_fields [''default_window_days'', ''slo_target_percent''] j;
     days \<leftarrow> defaulted dec_u64 30 ''default_window_days'' fs;
     slo \<leftarrow> defaulted dec_f64 default_slo_target_percent ''slo_target_percent'' fs;
     Some \<lparr>dc_default_window_days = days, dc_slo_target_percent = slo\<rparr>}"

definition dec_governor :: "json \<Rightarrow> governor_cfg option" where
  "dec_governor j = do {
     fs \<leftarrow> dec_fields [''enabled'', ''overrides''] j;
     enabled \<leftarrow> defaulted as_bool True ''enabled'' fs;
     ovr \<leftarrow> defaulted (dec_btree dec_u64) [] ''overrides'' fs;
     Some \<lparr>gc_enabled = enabled, gc_overrides = ovr\<rparr>}"

definition dec_user :: "json \<Rightarrow> user option" where
  "dec_user j = do {
     fs \<leftarrow> dec_fields [''username'', ''password_hash'', ''role'', ''locale''] j;
     name \<leftarrow> required as_str ''username'' fs;
     hash \<leftarrow> required as_str ''password_hash'' fs;
     role \<leftarrow> required dec_role ''role'' fs;
     locale \<leftarrow> defaulted (dec_option as_str) None ''locale'' fs;
     Some \<lparr>us_username = name, us_password_hash = hash, us_role = role, us_locale = locale\<rparr>}"

definition dec_config :: "json \<Rightarrow> stored_config option" where
  "dec_config j = do {
     fs \<leftarrow> dec_fields [''version'', ''default_locale'', ''upstream'', ''upstreams'', ''disabled_models'',
       ''client_auth'', ''limits'', ''history'', ''dashboard'', ''governor'', ''users''] j;
     version \<leftarrow> defaulted (dec_uint (2 ^ 32)) 1 ''version'' fs;
     loc \<leftarrow> defaulted as_str DEFAULT_LOCALE ''default_locale'' fs;
     up \<leftarrow> defaulted dec_upstream default_upstream ''upstream'' fs;
     ups \<leftarrow> defaulted (dec_list dec_upstream_endpoint) [] ''upstreams'' fs;
     disabled \<leftarrow> defaulted (dec_list as_str) [] ''disabled_models'' fs;
     ca \<leftarrow> defaulted dec_client_auth \<lparr>ca_mode = Keyed, ca_keys = []\<rparr> ''client_auth'' fs;
     li \<leftarrow> defaulted dec_limits default_limits ''limits'' fs;
     days \<leftarrow> defaulted dec_history 30 ''history'' fs;
     dash \<leftarrow> defaulted dec_dashboard default_dashboard ''dashboard'' fs;
     gov \<leftarrow> defaulted dec_governor default_governor ''governor'' fs;
     users \<leftarrow> defaulted (dec_list dec_user) [] ''users'' fs;
     Some \<lparr>sc_version = version, sc_default_locale = loc, sc_upstream = up, sc_upstreams = ups,
       sc_disabled_models = disabled, sc_client_auth = ca, sc_limits = li, sc_history_days = days,
       sc_dashboard = dash, sc_governor = gov, sc_users = users\<rparr>}"

subsection \<open>Writing the store\<close>

definition enc_nim_key :: "nim_key \<Rightarrow> json" where
  "enc_nim_key k = JObject [(''key'', JString (nk_key k)), (''owner'', JString (nk_owner k)),
     (''enabled'', JBool (nk_enabled k)), (''rpm'', JNumber (PosInt (nk_rpm k)))]"

definition enc_upstream :: "upstream \<Rightarrow> json" where
  "enc_upstream u = JObject [(''base_url'', JString (up_base_url u)),
     (''nim_keys'', JArr (map enc_nim_key (up_nim_keys u))), (''enabled'', JBool (up_enabled u)),
     (''models'', JArr (map JString (up_models u))), (''supports_stream_options'', JBool (up_stream_options u))]"

definition enc_upstream_endpoint :: "upstream_endpoint \<Rightarrow> json" where
  "enc_upstream_endpoint u = JObject [(''name'', JString (ue_name u)), (''base_url'', JString (ue_base_url u)),
     (''enabled'', JBool (ue_enabled u)), (''keys'', JArr (map enc_nim_key (ue_keys u))),
     (''models'', JArr (map JString (ue_models u))), (''supports_stream_options'', JBool (ue_stream_options u))]"

definition enc_client_key :: "client_key \<Rightarrow> json" where
  "enc_client_key k = JObject [(''name'', JString (ck_name k)), (''secret_sha256'', JString (ck_secret_sha256 k)),
     (''last4'', JString (ck_last4 k)), (''owner'', JString (ck_owner k))]"

fun enc_mode :: "mode \<Rightarrow> json" where
  "enc_mode Open = JString ''open''"
| "enc_mode Keyed = JString ''keyed''"

fun enc_role :: "role \<Rightarrow> json" where
  "enc_role Superuser = JString ''superuser''"
| "enc_role Admin = JString ''admin''"
| "enc_role User = JString ''user''"

definition enc_client_auth :: "client_auth \<Rightarrow> json" where
  "enc_client_auth c = JObject [(''mode'', enc_mode (ca_mode c)), (''keys'', JArr (map enc_client_key (ca_keys c)))]"

definition enc_limits :: "limits \<Rightarrow> json" where
  "enc_limits l = JObject [(''heartbeat_secs'', JNumber (PosInt (li_heartbeat_secs l))),
     (''max_inflight'', JNumber (PosInt (li_max_inflight l))),
     (''max_wait_secs'', JNumber (PosInt (li_max_wait_secs l))),
     (''models_ttl_secs'', JNumber (PosInt (li_models_ttl_secs l))),
     (''request_timeout_secs'', JNumber (PosInt (li_request_timeout_secs l))),
     (''stream_idle_secs'', JNumber (PosInt (li_stream_idle_secs l))),
     (''strict_passthrough'', JBool (li_strict_passthrough l))]"

definition enc_dashboard :: "dashboard_cfg \<Rightarrow> json" where
  "enc_dashboard d = JObject [(''default_window_days'', JNumber (PosInt (dc_default_window_days d))),
     (''slo_target_percent'', enc_f64 (dc_slo_target_percent d))]"

definition enc_governor :: "governor_cfg \<Rightarrow> json" where
  "enc_governor g = JObject [(''enabled'', JBool (gc_enabled g)),
     (''overrides'', JObject (map (\<lambda>e. (fst e, JNumber (PosInt (snd e)))) (gc_overrides g)))]"

definition enc_user :: "user \<Rightarrow> json" where
  "enc_user u = JObject ([(''username'', JString (us_username u)), (''password_hash'', JString (us_password_hash u)),
     (''role'', enc_role (us_role u))] @
     (case us_locale u of None \<Rightarrow> [] | Some l \<Rightarrow> [(''locale'', JString l)]))"

definition enc_config :: "stored_config \<Rightarrow> json" where
  "enc_config c = JObject [(''version'', JNumber (PosInt (sc_version c))),
     (''default_locale'', JString (sc_default_locale c)), (''upstream'', enc_upstream (sc_upstream c)),
     (''upstreams'', JArr (map enc_upstream_endpoint (sc_upstreams c))),
     (''disabled_models'', JArr (map JString (sc_disabled_models c))),
     (''client_auth'', enc_client_auth (sc_client_auth c)), (''limits'', enc_limits (sc_limits c)),
     (''history'', JObject [(''days'', JNumber (PosInt (sc_history_days c)))]),
     (''dashboard'', enc_dashboard (sc_dashboard c)), (''governor'', enc_governor (sc_governor c)),
     (''users'', JArr (map enc_user (sc_users c)))]"

subsection \<open>What is saved is what is loaded\<close>

text \<open>The ranges a parsed value has by its Rust type; \<open>BTreeMap\<close> keeps its keys sorted.\<close>

definition key_in_range :: "nim_key \<Rightarrow> bool" where
  "key_in_range k \<longleftrightarrow> nk_rpm k < 2 ^ 64"

definition config_in_range :: "stored_config \<Rightarrow> bool" where
  "config_in_range c \<longleftrightarrow> sc_version c < 2 ^ 32 \<and> list_all key_in_range (up_nim_keys (sc_upstream c)) \<and>
     list_all (\<lambda>u. list_all key_in_range (ue_keys u)) (sc_upstreams c) \<and>
     li_heartbeat_secs (sc_limits c) < 2 ^ 64 \<and> li_max_inflight (sc_limits c) < 2 ^ 64 \<and>
     li_max_wait_secs (sc_limits c) < 2 ^ 64 \<and> li_models_ttl_secs (sc_limits c) < 2 ^ 64 \<and>
     li_request_timeout_secs (sc_limits c) < 2 ^ 64 \<and> li_stream_idle_secs (sc_limits c) < 2 ^ 64 \<and>
     sc_history_days c < 2 ^ 64 \<and> dc_default_window_days (sc_dashboard c) < 2 ^ 64 \<and>
     f64_is_finite (dc_slo_target_percent (sc_dashboard c)) \<and> bt_wf (gc_overrides (sc_governor c)) \<and> list_all (\<lambda>e. snd e < 2 ^ 64) (gc_overrides (sc_governor c))"

lemmas dec_simps = dec_fields_def required_def defaulted_def dec_u64_def dec_uint_def Let_def

lemma dec_enc_str [simp]: "dec_list as_str (JArr (map JString xs)) = Some xs"
  by (rule dec_list_enc) simp

lemma dec_enc_nim_key: "key_in_range k \<Longrightarrow> dec_nim_key (enc_nim_key k) = Some k"
  by (simp add: dec_nim_key_def enc_nim_key_def dec_simps key_in_range_def)

lemma dec_enc_nim_keys: "list_all key_in_range ks \<Longrightarrow> dec_list dec_nim_key (JArr (map enc_nim_key ks)) = Some ks"
  by (rule dec_list_enc) (simp add: list_all_iff dec_enc_nim_key)

lemma dec_enc_upstream: "list_all key_in_range (up_nim_keys u) \<Longrightarrow> dec_upstream (enc_upstream u) = Some u"
  by (simp add: dec_upstream_def enc_upstream_def dec_simps dec_enc_nim_keys)

lemma dec_enc_upstream_endpoint:
  "list_all key_in_range (ue_keys u) \<Longrightarrow> dec_upstream_endpoint (enc_upstream_endpoint u) = Some u"
  by (simp add: dec_upstream_endpoint_def enc_upstream_endpoint_def dec_simps dec_enc_nim_keys)

lemma dec_enc_client_key: "dec_client_key (enc_client_key k) = Some k"
  by (simp add: dec_client_key_def enc_client_key_def dec_simps)

lemma dec_enc_mode [simp]: "dec_mode (enc_mode m) = Some m"
  by (cases m) (simp_all add: dec_mode_def dec_enum_def)

lemma dec_enc_role [simp]: "dec_role (enc_role r) = Some r"
  by (cases r) (simp_all add: dec_role_def dec_enum_def)

lemma dec_enc_client_auth: "dec_client_auth (enc_client_auth c) = Some c"
proof -
  have "dec_list dec_client_key (JArr (map enc_client_key (ca_keys c))) = Some (ca_keys c)"
    by (rule dec_list_enc) (simp add: dec_enc_client_key)
  then show ?thesis
    by (simp add: dec_client_auth_def enc_client_auth_def dec_simps)
qed

lemma dec_enc_dashboard:
  "dc_default_window_days d < 2 ^ 64 \<Longrightarrow> f64_is_finite (dc_slo_target_percent d) \<Longrightarrow>
     dec_dashboard (enc_dashboard d) = Some d"
  by (simp add: dec_dashboard_def enc_dashboard_def dec_simps dec_f64_def enc_f64_def)

lemma dec_enc_governor:
  assumes "bt_wf (gc_overrides g)" "list_all (\<lambda>e. snd e < 2 ^ 64) (gc_overrides g)"
  shows "dec_governor (enc_governor g) = Some g"
proof -
  have "dec_btree dec_u64 (JObject (map (\<lambda>e. (fst e, JNumber (PosInt (snd e)))) (gc_overrides g))) = Some (gc_overrides g)"
    using assms by (intro dec_btree_enc) (auto simp: list_all_iff dec_simps)
  then show ?thesis
    by (simp add: dec_governor_def enc_governor_def dec_simps)
qed

lemma dec_enc_user: "dec_user (enc_user u) = Some u"
  by (auto simp: dec_user_def enc_user_def dec_simps dec_option_def split: option.splits)

lemma dec_enc_limits:
  assumes "li_heartbeat_secs l < 2 ^ 64" "li_max_inflight l < 2 ^ 64" "li_max_wait_secs l < 2 ^ 64"
    "li_models_ttl_secs l < 2 ^ 64" "li_request_timeout_secs l < 2 ^ 64" "li_stream_idle_secs l < 2 ^ 64"
  shows "dec_limits (enc_limits l) = Some l"
  using assms by (simp add: dec_limits_def enc_limits_def dec_simps)

lemma dec_enc_config:
  assumes "config_in_range c"
  shows "dec_config (enc_config c) = Some c"
proof -
  have ups: "dec_list dec_upstream_endpoint (JArr (map enc_upstream_endpoint (sc_upstreams c))) = Some (sc_upstreams c)"
    using assms by (intro dec_list_enc) (simp add: config_in_range_def list_all_iff dec_enc_upstream_endpoint)
  have users: "dec_list dec_user (JArr (map enc_user (sc_users c))) = Some (sc_users c)"
    by (intro dec_list_enc) (simp add: dec_enc_user)
  have parts: "dec_upstream (enc_upstream (sc_upstream c)) = Some (sc_upstream c)"
    "dec_limits (enc_limits (sc_limits c)) = Some (sc_limits c)"
    "dec_dashboard (enc_dashboard (sc_dashboard c)) = Some (sc_dashboard c)"
    "dec_governor (enc_governor (sc_governor c)) = Some (sc_governor c)"
    "dec_history (JObject [(''days'', JNumber (PosInt (sc_history_days c)))]) = Some (sc_history_days c)"
    using assms
    by (simp_all add: config_in_range_def dec_enc_upstream dec_enc_limits dec_enc_dashboard dec_enc_governor
        dec_history_def dec_simps)
  show ?thesis
    using assms
    by (simp add: dec_config_def enc_config_def dec_fields_def required_def defaulted_def Let_def dec_uint_def
        ups users parts dec_enc_client_auth config_in_range_def)
qed

text \<open>Whatever the decoder returns is in range.\<close>

lemma defaulted_prop:
  "defaulted dec d k fs = Some x \<Longrightarrow> P d \<Longrightarrow> (\<And>j y. dec j = Some y \<Longrightarrow> P y) \<Longrightarrow> P x"
  by (auto simp: defaulted_def split: option.splits)

lemma those_prop: "those ys = Some xs \<Longrightarrow> (\<And>x. Some x \<in> set ys \<Longrightarrow> P x) \<Longrightarrow> list_all P xs"
  by (induction ys arbitrary: xs) (auto split: option.splits)

lemma dec_list_prop: "dec_list dec j = Some xs \<Longrightarrow> (\<And>j y. dec j = Some y \<Longrightarrow> P y) \<Longrightarrow> list_all P xs"
  by (cases j) (auto simp: dec_list_def elim!: those_prop)

lemma dec_u64_bound: "dec_u64 j = Some n \<Longrightarrow> n < 2 ^ 64"
  by (auto simp: dec_u64_def dec_uint_def split: option.splits if_splits)

lemma u64_field: "defaulted dec_u64 d k fs = Some n \<Longrightarrow> d < 2 ^ 64 \<Longrightarrow> n < 2 ^ 64"
  by (erule defaulted_prop) (auto dest: dec_u64_bound)

lemma dec_nim_key_range: "dec_nim_key j = Some k \<Longrightarrow> key_in_range k"
  by (auto simp: dec_nim_key_def key_in_range_def default_rpm_def bind_eq_Some_conv dest!: u64_field)

lemma dec_nim_keys_range: "defaulted (dec_list dec_nim_key) [] k fs = Some ks \<Longrightarrow> list_all key_in_range ks"
  by (erule defaulted_prop) (auto elim: dec_list_prop dec_nim_key_range)

lemma dec_upstream_range: "dec_upstream j = Some u \<Longrightarrow> list_all key_in_range (up_nim_keys u)"
  by (auto simp: dec_upstream_def bind_eq_Some_conv dest: dec_nim_keys_range)

lemma dec_upstream_endpoint_range: "dec_upstream_endpoint j = Some u \<Longrightarrow> list_all key_in_range (ue_keys u)"
  by (auto simp: dec_upstream_endpoint_def bind_eq_Some_conv dest: dec_nim_keys_range)

lemma dec_limits_range:
  assumes "dec_limits j = Some l"
  shows "li_heartbeat_secs l < 2 ^ 64 \<and> li_max_inflight l < 2 ^ 64 \<and>
     li_max_wait_secs l < 2 ^ 64 \<and> li_models_ttl_secs l < 2 ^ 64 \<and>
     li_request_timeout_secs l < 2 ^ 64 \<and> li_stream_idle_secs l < 2 ^ 64"
proof -
  obtain fs where
    "defaulted dec_u64 10 ''heartbeat_secs'' fs = Some (li_heartbeat_secs l)"
    "defaulted dec_u64 512 ''max_inflight'' fs = Some (li_max_inflight l)"
    "defaulted dec_u64 900 ''max_wait_secs'' fs = Some (li_max_wait_secs l)"
    "defaulted dec_u64 600 ''models_ttl_secs'' fs = Some (li_models_ttl_secs l)"
    "defaulted dec_u64 300 ''request_timeout_secs'' fs = Some (li_request_timeout_secs l)"
    "defaulted dec_u64 300 ''stream_idle_secs'' fs = Some (li_stream_idle_secs l)"
    using assms by (auto simp: dec_limits_def bind_eq_Some_conv)
  from this [THEN u64_field] show ?thesis by simp
qed

lemma default_slo_finite: "f64_is_finite default_slo_target_percent"
  by (simp add: f64_is_finite_def f64_magnitude_def default_slo_target_percent_def f64_infinity_def)

lemma dec_dashboard_range:
  "dec_dashboard j = Some d \<Longrightarrow> dc_default_window_days d < 2 ^ 64 \<and> f64_is_finite (dc_slo_target_percent d)"
  using default_slo_finite
  by (auto simp: dec_dashboard_def bind_eq_Some_conv dest!: u64_field)
    (auto simp: defaulted_def dec_f64_def split: option.splits if_splits)

lemma bt_insert_vals: "P v \<Longrightarrow> list_all (\<lambda>e. P (snd e)) m \<Longrightarrow> list_all (\<lambda>e. P (snd e)) (bt_insert k v m)"
  by (induction k v m rule: bt_insert.induct) auto

lemma bt_of_list_vals: "list_all (\<lambda>e. P (snd e)) es \<Longrightarrow> list_all (\<lambda>e. P (snd e)) (bt_of_list es)"
proof -
  assume "list_all (\<lambda>e. P (snd e)) es"
  then have "list_all (\<lambda>e. P (snd e)) m \<Longrightarrow>
      list_all (\<lambda>e. P (snd e)) (foldl (\<lambda>m e. bt_insert (fst e) (snd e) m) m es)" for m
    by (induction es arbitrary: m) (auto intro: bt_insert_vals)
  then show ?thesis by (simp add: bt_of_list_def)
qed

lemma dec_btree_u64:
  assumes "dec_btree dec_u64 j = Some m"
  shows "sorted_wrt (<) (map fst m)" "list_all (\<lambda>e. snd e < 2 ^ 64) m"
proof -
  obtain ms es where j: "j = JObject ms" and es: "those (map (\<lambda>e. map_option (Pair (fst e)) (dec_u64 (snd e))) ms) = Some es"
    and m: "m = bt_of_list es"
    using assms by (cases j) (auto simp: dec_btree_def)
  show "sorted_wrt (<) (map fst m)"
    using bt_of_list_wf [of es] by (simp add: m bt_wf_def)
  have "list_all (\<lambda>e. snd e < 2 ^ 64) es"
    using es by (rule those_prop) (auto dest!: sym [of "Some _"] dec_u64_bound)
  then show "list_all (\<lambda>e. snd e < 2 ^ 64) m"
    unfolding m by (rule bt_of_list_vals)
qed

lemma dec_governor_range:
  assumes "dec_governor j = Some g"
  shows "bt_wf (gc_overrides g) \<and> list_all (\<lambda>e. snd e < 2 ^ 64) (gc_overrides g)"
proof -
  obtain fs where "defaulted (dec_btree dec_u64) [] ''overrides'' fs = Some (gc_overrides g)"
    using assms by (auto simp: dec_governor_def bind_eq_Some_conv)
  then show ?thesis
    by (rule defaulted_prop) (simp add: bt_wf_def, simp only: bt_wf_def dec_btree_u64 simp_thms)
qed

lemma dec_config_range:
  assumes "dec_config j = Some c"
  shows "config_in_range c"
proof -
  obtain fs where
    "defaulted (dec_uint (2 ^ 32)) 1 ''version'' fs = Some (sc_version c)"
    "defaulted dec_upstream default_upstream ''upstream'' fs = Some (sc_upstream c)"
    "defaulted (dec_list dec_upstream_endpoint) [] ''upstreams'' fs = Some (sc_upstreams c)"
    "defaulted dec_limits default_limits ''limits'' fs = Some (sc_limits c)"
    "defaulted dec_history 30 ''history'' fs = Some (sc_history_days c)"
    "defaulted dec_dashboard default_dashboard ''dashboard'' fs = Some (sc_dashboard c)"
    "defaulted dec_governor default_governor ''governor'' fs = Some (sc_governor c)"
    using assms by (auto simp: dec_config_def bind_eq_Some_conv)
  note fs = this
  have "sc_version c < 2 ^ 32"
    using fs(1) by (rule defaulted_prop) (auto simp: dec_uint_def split: option.splits if_splits)
  moreover have "list_all key_in_range (up_nim_keys (sc_upstream c))"
    using fs(2) by (rule defaulted_prop) (auto simp: default_upstream_def dest: dec_upstream_range)
  moreover have "list_all (\<lambda>u. list_all key_in_range (ue_keys u)) (sc_upstreams c)"
    using fs(3) by (rule defaulted_prop) (auto elim: dec_list_prop dec_upstream_endpoint_range)
  moreover have "li_heartbeat_secs (sc_limits c) < 2 ^ 64 \<and> li_max_inflight (sc_limits c) < 2 ^ 64 \<and>
     li_max_wait_secs (sc_limits c) < 2 ^ 64 \<and> li_models_ttl_secs (sc_limits c) < 2 ^ 64 \<and>
     li_request_timeout_secs (sc_limits c) < 2 ^ 64 \<and> li_stream_idle_secs (sc_limits c) < 2 ^ 64"
    using fs(4) by (rule defaulted_prop) (simp add: default_limits_def, rule dec_limits_range)
  moreover have "sc_history_days c < 2 ^ 64"
    using fs(5) by (rule defaulted_prop) (auto simp: dec_history_def bind_eq_Some_conv dest!: u64_field)
  moreover have "dc_default_window_days (sc_dashboard c) < 2 ^ 64 \<and> f64_is_finite (dc_slo_target_percent (sc_dashboard c))"
    using fs(6) by (rule defaulted_prop)
      (simp add: default_dashboard_def default_slo_finite, rule dec_dashboard_range)
  moreover have "bt_wf (gc_overrides (sc_governor c)) \<and> list_all (\<lambda>e. snd e < 2 ^ 64) (gc_overrides (sc_governor c))"
    using fs(7) by (rule defaulted_prop) (simp add: default_governor_def bt_wf_def, rule dec_governor_range)
  ultimately show ?thesis by (simp add: config_in_range_def)
qed

subsection \<open>Views\<close>

definition superuser :: "stored_config \<Rightarrow> user option" where
  "superuser c = List.find (\<lambda>u. us_role u = Superuser) (sc_users c)"

definition user_of :: "stored_config \<Rightarrow> string \<Rightarrow> user option" where
  "user_of c name = List.find (\<lambda>u. us_username u = name) (sc_users c)"

definition update_user :: "string \<Rightarrow> (user \<Rightarrow> user) \<Rightarrow> stored_config \<Rightarrow> stored_config" where
  "update_user name f c = c\<lparr>sc_users := update_first (\<lambda>u. us_username u = name) f (sc_users c)\<rparr>"

definition group_specs :: "nat \<Rightarrow> string \<Rightarrow> string \<Rightarrow> bool \<Rightarrow> nim_key list \<Rightarrow> bool \<Rightarrow> lane_spec list" where
  "group_specs idx name url group_enabled keys so =
     map (\<lambda>k. \<lparr>sp_key = nk_key k, sp_rpm = nk_rpm k, sp_enabled = nk_enabled k \<and> group_enabled,
       sp_endpoint = idx, sp_base_url = trim_end_matches ''/'' url, sp_upstream = name,
       sp_stream_options = so\<rparr>) keys"

definition pool_specs :: "stored_config \<Rightarrow> lane_spec list" where
  "pool_specs c =
     group_specs 0 PRIMARY_UPSTREAM (up_base_url (sc_upstream c)) (up_enabled (sc_upstream c))
       (up_nim_keys (sc_upstream c)) (up_stream_options (sc_upstream c)) @
     concat (map (\<lambda>(i, ep). group_specs (i + 1) (ue_name ep) (ue_base_url ep) (ue_enabled ep)
       (ue_keys ep) (ue_stream_options ep)) (enumerate 0 (sc_upstreams c)))"

definition endpoints :: "stored_config \<Rightarrow> endpoint_view list" where
  "endpoints c =
     \<lparr>ev_name = PRIMARY_UPSTREAM, ev_base_url = trim_end_matches ''/'' (up_base_url (sc_upstream c)),
      ev_enabled = up_enabled (sc_upstream c), ev_models = up_models (sc_upstream c),
      ev_stream_options = up_stream_options (sc_upstream c)\<rparr> #
     map (\<lambda>ep. \<lparr>ev_name = ue_name ep, ev_base_url = trim_end_matches ''/'' (ue_base_url ep),
       ev_enabled = ue_enabled ep, ev_models = ue_models ep,
       ev_stream_options = ue_stream_options ep\<rparr>) (sc_upstreams c)"

definition endpoint_index :: "stored_config \<Rightarrow> string \<Rightarrow> nat option" where
  "endpoint_index c name =
     (if name = PRIMARY_UPSTREAM then Some 0
      else map_option Suc (position (\<lambda>ep. ue_name ep = name) (sc_upstreams c)))"

definition key_groups :: "stored_config \<Rightarrow> (string \<times> nim_key list) list" where
  "key_groups c = (PRIMARY_UPSTREAM, up_nim_keys (sc_upstream c)) #
     map (\<lambda>ep. (ue_name ep, ue_keys ep)) (sc_upstreams c)"

definition group_keys :: "stored_config \<Rightarrow> string \<Rightarrow> nim_key list option" where
  "group_keys c name =
     (if name = PRIMARY_UPSTREAM then Some (up_nim_keys (sc_upstream c))
      else map_option ue_keys (List.find (\<lambda>ep. ue_name ep = name) (sc_upstreams c)))"

definition set_group_keys :: "string \<Rightarrow> nim_key list \<Rightarrow> stored_config \<Rightarrow> stored_config" where
  "set_group_keys name keys c =
     (if name = PRIMARY_UPSTREAM then c\<lparr>sc_upstream := (sc_upstream c)\<lparr>up_nim_keys := keys\<rparr>\<rparr>
      else c\<lparr>sc_upstreams := update_first (\<lambda>ep. ue_name ep = name) (\<lambda>ep. ep\<lparr>ue_keys := keys\<rparr>) (sc_upstreams c)\<rparr>)"

text \<open>The immutable snapshot the request path reads (\<open>Config\<close> of src/lib.rs).\<close>

record endpoint_runtime =
  er_name :: string
  er_base_url :: string
  er_enabled :: bool
  er_models :: "string list"

record runtime_config =
  cf_base_url :: string
  cf_endpoints :: "endpoint_runtime list"
  cf_disabled_models :: "string list"
  cf_max_wait :: duration
  cf_heartbeat :: duration
  cf_models_ttl :: duration
  cf_stream_idle :: duration
  cf_request_timeout :: duration
  cf_strict_passthrough :: bool
  cf_clients :: "(string \<rightharpoonup> string) option"
  cf_max_inflight :: nat
  cf_governor_enabled :: bool
  cf_governor_overrides :: "nat btree"

definition runtime :: "stored_config \<Rightarrow> runtime_config" where
  "runtime c = \<lparr>cf_base_url = trim_end_matches ''/'' (up_base_url (sc_upstream c)),
     cf_endpoints = map (\<lambda>e. \<lparr>er_name = ev_name e, er_base_url = ev_base_url e,
       er_enabled = ev_enabled e, er_models = ev_models e\<rparr>) (endpoints c),
     cf_disabled_models = sc_disabled_models c,
     cf_max_wait = secs (li_max_wait_secs (sc_limits c)),
     cf_heartbeat = secs (li_heartbeat_secs (sc_limits c)),
     cf_models_ttl = secs (li_models_ttl_secs (sc_limits c)),
     cf_stream_idle = secs (li_stream_idle_secs (sc_limits c)),
     cf_request_timeout = secs (li_request_timeout_secs (sc_limits c)),
     cf_strict_passthrough = li_strict_passthrough (sc_limits c),
     cf_clients = (case ca_mode (sc_client_auth c) of Open \<Rightarrow> None
       | Keyed \<Rightarrow> Some (map_of (rev (map (\<lambda>k. (ck_secret_sha256 k, ck_name k)) (ca_keys (sc_client_auth c)))))),
     cf_max_inflight = li_max_inflight (sc_limits c),
     cf_governor_enabled = gc_enabled (sc_governor c),
     cf_governor_overrides = gc_overrides (sc_governor c)\<rparr>"

definition normalize_base_url :: "string \<Rightarrow> string" where
  "normalize_base_url url = trim_end_matches ''/'' (trim_end_matches ''/v1'' url)"

subsection \<open>The rulebook\<close>

datatype locale_label = Default_locale_field | User_locale string

datatype models_label = Upstream_models | Group_models string | Disabled_models

datatype config_error =
    Version_not_1 nat
  | Not_canonical locale_label string
  | Locale_not_installed locale_label string
  | Locale_invalid locale_label
  | Heartbeat_zero | Max_wait_not_above_heartbeat | Request_timeout_zero | Max_inflight_zero
  | Window_days_zero | History_shorter_than_window | Slo_out_of_range
  | Url_scheme | Url_link_local
  | Model_shape models_label string | Model_duplicate models_label string | Too_many_disabled
  | Upstream_name_shape string | Upstream_name_reserved | Upstream_name_duplicate string
  | Username_shape string | Username_duplicate string | Password_hash_empty string
  | Several_superusers
  | Nim_key_empty string | Nim_key_duplicate | Rpm_out_of_range nat
  | Client_name_shape string | Client_name_duplicate string | Client_digest_shape string
  | Override_out_of_range string
  | Nim_owner_unknown string | Group_owner_unknown string string | Client_owner_unknown string string
  | Pool_floor

definition label_ok :: "string \<Rightarrow> nat \<Rightarrow> bool" where
  "label_ok s limit \<longleftrightarrow> s \<noteq> [] \<and> length s \<le> limit \<and>
     list_all (\<lambda>c. ascii_alnum c \<or> c \<in> set ''._-'') s"

definition url_host :: "string \<Rightarrow> string" where
  "url_host rest =
     (let authority = hd (split_on (CHR ''/'') rest)
      in to_ascii_lower (case str_strip_prefix ''['' authority of
           Some inner \<Rightarrow> hd (split_on (CHR '']'') inner)
         | None \<Rightarrow> hd (split_on (CHR '':'') authority)))"

definition check_base_url :: "string \<Rightarrow> config_error + unit" where
  "check_base_url base =
     (case (case str_strip_prefix ''http://'' base of
              Some rest \<Rightarrow> Some rest | None \<Rightarrow> str_strip_prefix ''https://'' base) of
        None \<Rightarrow> Err Url_scheme
      | Some rest \<Rightarrow>
          if prefix ''169.254.'' (url_host rest) \<or> prefix ''fe80:'' (url_host rest)
          then Err Url_link_local else Ok ())"

text \<open>
  The loops over a list with a \<open>HashSet\<close> of the names seen: the checks before the insertion, the
  insertion, the checks after it, element by element.
\<close>

fun check_unique ::
  "('a \<Rightarrow> 'k) \<Rightarrow> ('a \<Rightarrow> 'e + unit) \<Rightarrow> ('a \<Rightarrow> 'e) \<Rightarrow> ('a \<Rightarrow> 'e + unit) \<Rightarrow> 'k list \<Rightarrow> 'a list \<Rightarrow> 'e + unit" where
  "check_unique key before dup after seen [] = Ok ()"
| "check_unique key before dup after seen (x # xs) =
     all_ok [before x, fail_if (key x \<in> set seen) (dup x), after x,
       check_unique key before dup after (key x # seen) xs]"

definition validate_models_list :: "models_label \<Rightarrow> string list \<Rightarrow> config_error + unit" where
  "validate_models_list label models =
     check_unique (\<lambda>m. m) (\<lambda>m. fail_if (\<not> valid_model_id m) (Model_shape label m))
       (Model_duplicate label) (\<lambda>_. Ok ()) [] models"

definition validate_disabled_models :: "string list \<Rightarrow> config_error + unit" where
  "validate_disabled_models models =
     (if 256 < length models then Err Too_many_disabled else validate_models_list Disabled_models models)"

definition validate_stored_locale :: "locale_label \<Rightarrow> string \<Rightarrow> config_error + unit" where
  "validate_stored_locale label locale =
     (case canonical_locale locale of
        Ok canonical \<Rightarrow>
          if canonical \<noteq> locale then Err (Not_canonical label canonical)
          else (case installed_locale canonical of
                  Ok _ \<Rightarrow> Ok () | Err _ \<Rightarrow> Err (Locale_not_installed label canonical))
      | Err _ \<Rightarrow> Err (Locale_invalid label))"

definition check_limits :: "stored_config \<Rightarrow> config_error + unit" where
  "check_limits c =
     (let l = sc_limits c; d = sc_dashboard c in all_ok [
        fail_if (li_heartbeat_secs l = 0) Heartbeat_zero,
        fail_if (li_max_wait_secs l \<le> li_heartbeat_secs l) Max_wait_not_above_heartbeat,
        fail_if (li_request_timeout_secs l = 0) Request_timeout_zero,
        fail_if (li_max_inflight l = 0) Max_inflight_zero,
        fail_if (dc_default_window_days d = 0) Window_days_zero,
        fail_if (sc_history_days c \<noteq> 0 \<and> sc_history_days c < dc_default_window_days d) History_shorter_than_window,
        fail_if (\<not> (f64_is_finite (dc_slo_target_percent d) \<and> f64_less 0 (dc_slo_target_percent d) \<and>
          f64_less_eq (dc_slo_target_percent d) 0x4059000000000000)) Slo_out_of_range])"

definition check_endpoints :: "stored_config \<Rightarrow> config_error + unit" where
  "check_endpoints c =
     check_unique ue_name
       (\<lambda>ep. all_ok [fail_if (\<not> label_ok (ue_name ep) 64) (Upstream_name_shape (ue_name ep)),
                     fail_if (ue_name ep = PRIMARY_UPSTREAM) Upstream_name_reserved])
       (\<lambda>ep. Upstream_name_duplicate (ue_name ep))
       (\<lambda>ep. all_ok [check_base_url (ue_base_url ep), validate_models_list (Group_models (ue_name ep)) (ue_models ep)])
       [PRIMARY_UPSTREAM] (sc_upstreams c)"

definition check_users :: "stored_config \<Rightarrow> config_error + unit" where
  "check_users c = all_ok [
     check_unique us_username
       (\<lambda>u. fail_if (\<not> label_ok (us_username u) 32) (Username_shape (us_username u)))
       (\<lambda>u. Username_duplicate (us_username u))
       (\<lambda>u. all_ok [fail_if (us_password_hash u = []) (Password_hash_empty (us_username u)),
                    (case us_locale u of None \<Rightarrow> Ok ()
                     | Some l \<Rightarrow> validate_stored_locale (User_locale (us_username u)) l)])
       [] (sc_users c),
     fail_if (1 < length (filter (\<lambda>u. us_role u = Superuser) (sc_users c))) Several_superusers]"

definition grouped_keys :: "stored_config \<Rightarrow> (string \<times> nim_key) list" where
  "grouped_keys c = concat (map (\<lambda>(g, ks). map (Pair g) ks) (key_groups c))"

definition check_keys :: "stored_config \<Rightarrow> config_error + unit" where
  "check_keys c =
     check_unique (\<lambda>(g, k). nk_key k)
       (\<lambda>(g, k). fail_if (trim (nk_key k) = []) (Nim_key_empty g))
       (\<lambda>_. Nim_key_duplicate)
       (\<lambda>(g, k). fail_if (\<not> (1 \<le> nk_rpm k \<and> nk_rpm k \<le> 10000)) (Rpm_out_of_range (nk_rpm k)))
       [] (grouped_keys c)"

definition check_clients :: "stored_config \<Rightarrow> config_error + unit" where
  "check_clients c =
     check_unique ck_name
       (\<lambda>k. fail_if (\<not> label_ok (ck_name k) 64) (Client_name_shape (ck_name k)))
       (\<lambda>k. Client_name_duplicate (ck_name k))
       (\<lambda>k. fail_if (length (ck_secret_sha256 k) \<noteq> 64 \<or> \<not> list_all ascii_hexdigit (ck_secret_sha256 k))
          (Client_digest_shape (ck_name k)))
       [] (ca_keys (sc_client_auth c))"

definition check_overrides :: "stored_config \<Rightarrow> config_error + unit" where
  "check_overrides c = all_ok (map (\<lambda>(m, cap).
     fail_if (trim m = [] \<or> \<not> (1 \<le> cap \<and> cap \<le> 10000)) (Override_out_of_range m)) (gc_overrides (sc_governor c)))"

definition owns_floor :: "string \<Rightarrow> nim_key list \<Rightarrow> bool" where
  "owns_floor name keys \<longleftrightarrow> list_ex (\<lambda>k. nk_enabled k \<and> nk_owner k = name) keys"

definition check_ownership :: "stored_config \<Rightarrow> config_error + unit" where
  "check_ownership c =
     (case superuser c of None \<Rightarrow> Ok ()
      | Some su \<Rightarrow> all_ok [
          all_ok (map (\<lambda>k. fail_if (user_of c (nk_owner k) = None) (Nim_owner_unknown (nk_owner k)))
            (up_nim_keys (sc_upstream c))),
          all_ok (concat (map (\<lambda>ep. map (\<lambda>k. fail_if (user_of c (nk_owner k) = None)
            (Group_owner_unknown (ue_name ep) (nk_owner k))) (ue_keys ep)) (sc_upstreams c))),
          all_ok (map (\<lambda>k. fail_if (user_of c (ck_owner k) = None) (Client_owner_unknown (ck_name k) (ck_owner k)))
            (ca_keys (sc_client_auth c))),
          fail_if (\<not> ((up_enabled (sc_upstream c) \<and> owns_floor (us_username su) (up_nim_keys (sc_upstream c))) \<or>
            list_ex (\<lambda>ep. ue_enabled ep \<and> owns_floor (us_username su) (ue_keys ep)) (sc_upstreams c))) Pool_floor])"

definition validate :: "stored_config \<Rightarrow> config_error + unit" where
  "validate c = all_ok [
     fail_if (sc_version c \<noteq> 1) (Version_not_1 (sc_version c)),
     validate_stored_locale Default_locale_field (sc_default_locale c),
     check_limits c,
     check_base_url (up_base_url (sc_upstream c)),
     validate_models_list Upstream_models (up_models (sc_upstream c)),
     check_endpoints c,
     validate_disabled_models (sc_disabled_models c),
     check_users c, check_keys c, check_clients c, check_overrides c, check_ownership c]"

subsection \<open>The rulebook as a predicate\<close>

definition locale_ok :: "string \<Rightarrow> bool" where
  "locale_ok l \<longleftrightarrow> canonical_locale l = Ok l \<and> l \<in> set INSTALLED_LOCALES"

definition models_ok :: "string list \<Rightarrow> bool" where
  "models_ok ms \<longleftrightarrow> distinct ms \<and> (\<forall>m \<in> set ms. valid_model_id m)"

definition url_ok :: "string \<Rightarrow> bool" where
  "url_ok u \<longleftrightarrow> (\<exists>rest. u \<in> {''http://'' @ rest, ''https://'' @ rest} \<and>
     \<not> prefix ''169.254.'' (url_host rest) \<and> \<not> prefix ''fe80:'' (url_host rest))"

definition slo_ok :: "f64 \<Rightarrow> bool" where
  "slo_ok x \<longleftrightarrow> f64_is_finite x \<and> f64_less 0 x \<and> f64_less_eq x 0x4059000000000000"

definition limits_ok :: "stored_config \<Rightarrow> bool" where
  "limits_ok c \<longleftrightarrow> (let l = sc_limits c; d = sc_dashboard c in
     1 \<le> li_heartbeat_secs l \<and> li_heartbeat_secs l < li_max_wait_secs l \<and> 1 \<le> li_request_timeout_secs l \<and>
     1 \<le> li_max_inflight l \<and> 1 \<le> dc_default_window_days d \<and>
     (sc_history_days c = 0 \<or> dc_default_window_days d \<le> sc_history_days c) \<and> slo_ok (dc_slo_target_percent d))"

definition all_nim_keys :: "stored_config \<Rightarrow> nim_key list" where
  "all_nim_keys c = up_nim_keys (sc_upstream c) @ concat (map ue_keys (sc_upstreams c))"

definition keys_ok :: "stored_config \<Rightarrow> bool" where
  "keys_ok c \<longleftrightarrow> distinct (map nk_key (all_nim_keys c)) \<and>
     (\<forall>k \<in> set (all_nim_keys c). trim (nk_key k) \<noteq> [] \<and> 1 \<le> nk_rpm k \<and> nk_rpm k \<le> 10000)"

definition users_ok :: "stored_config \<Rightarrow> bool" where
  "users_ok c \<longleftrightarrow> distinct (map us_username (sc_users c)) \<and>
     (\<forall>u \<in> set (sc_users c). label_ok (us_username u) 32 \<and> us_password_hash u \<noteq> [] \<and>
        (\<forall>l \<in> set_option (us_locale u). locale_ok l)) \<and>
     length (filter (\<lambda>u. us_role u = Superuser) (sc_users c)) \<le> 1"

definition clients_ok :: "stored_config \<Rightarrow> bool" where
  "clients_ok c \<longleftrightarrow> distinct (map ck_name (ca_keys (sc_client_auth c))) \<and>
     (\<forall>k \<in> set (ca_keys (sc_client_auth c)). label_ok (ck_name k) 64 \<and>
        length (ck_secret_sha256 k) = 64 \<and> list_all ascii_hexdigit (ck_secret_sha256 k))"

definition groups_ok :: "stored_config \<Rightarrow> bool" where
  "groups_ok c \<longleftrightarrow> url_ok (up_base_url (sc_upstream c)) \<and> models_ok (up_models (sc_upstream c)) \<and>
     distinct (PRIMARY_UPSTREAM # map ue_name (sc_upstreams c)) \<and>
     (\<forall>ep \<in> set (sc_upstreams c). label_ok (ue_name ep) 64 \<and> url_ok (ue_base_url ep) \<and> models_ok (ue_models ep))"

text \<open>Once claimed: every owner is a user, and the superuser owns an enabled key of an enabled group.\<close>

definition owned_ok :: "stored_config \<Rightarrow> bool" where
  "owned_ok c \<longleftrightarrow> (\<forall>su. superuser c = Some su \<longrightarrow>
     (\<forall>k \<in> set (all_nim_keys c). nk_owner k \<in> us_username ` set (sc_users c)) \<and>
     (\<forall>k \<in> set (ca_keys (sc_client_auth c)). ck_owner k \<in> us_username ` set (sc_users c)) \<and>
     (\<exists>s \<in> set (pool_specs c). sp_enabled s \<and>
        (\<exists>k \<in> set (all_nim_keys c). nk_key k = sp_key s \<and> nk_owner k = us_username su)))"

definition config_valid :: "stored_config \<Rightarrow> bool" where
  "config_valid c \<longleftrightarrow> sc_version c = 1 \<and> locale_ok (sc_default_locale c) \<and> limits_ok c \<and> groups_ok c \<and>
     length (sc_disabled_models c) \<le> 256 \<and> models_ok (sc_disabled_models c) \<and> users_ok c \<and> keys_ok c \<and>
     clients_ok c \<and> (\<forall>e \<in> set (gc_overrides (sc_governor c)). trim (fst e) \<noteq> [] \<and> 1 \<le> snd e \<and> snd e \<le> 10000) \<and>
     owned_ok c"

lemma check_unique_iff:
  "check_unique key before dup after seen xs = Ok () \<longleftrightarrow>
     (\<forall>x \<in> set xs. before x = Ok () \<and> after x = Ok () \<and> key x \<notin> set seen) \<and> distinct (map key xs)"
proof (induction xs arbitrary: seen)
  case (Cons x xs)
  show ?case
    unfolding check_unique.simps all_ok_iff by (auto simp: Cons.IH) (metis imageI)
qed simp

lemma validate_models_list_iff: "validate_models_list label ms = Ok () \<longleftrightarrow> models_ok ms"
  by (auto simp: validate_models_list_def check_unique_iff models_ok_def)

lemma validate_stored_locale_iff: "validate_stored_locale label l = Ok () \<longleftrightarrow> locale_ok l"
  by (auto simp: validate_stored_locale_def locale_ok_def installed_locale_def list_ex_iff split: sum.splits)

lemma check_base_url_iff: "check_base_url u = Ok () \<longleftrightarrow> url_ok u"
proof -
  have "''http://'' @ r \<noteq> ''https://'' @ s" for r s by simp
  then show ?thesis
    by (auto simp: check_base_url_def url_ok_def split: option.splits) (auto simp: str_strip_prefix_def split: if_splits)
qed

lemma grouped_keys_map: "map snd (grouped_keys c) = all_nim_keys c"
  by (simp add: grouped_keys_def all_nim_keys_def key_groups_def map_concat o_def case_prod_beta)

lemma check_keys_iff: "check_keys c = Ok () \<longleftrightarrow> keys_ok c"
proof -
  have keys: "map (\<lambda>(g, k). nk_key k) (grouped_keys c) = map nk_key (all_nim_keys c)"
    by (simp add: grouped_keys_map [symmetric] o_def case_prod_beta)
  have "(\<forall>x \<in> set (grouped_keys c). P (snd x)) \<longleftrightarrow> (\<forall>k \<in> set (all_nim_keys c). P k)" for P
    by (simp add: grouped_keys_map [symmetric])
  from this [of "\<lambda>k. trim (nk_key k) \<noteq> [] \<and> 1 \<le> nk_rpm k \<and> nk_rpm k \<le> 10000"] show ?thesis
    unfolding check_keys_def check_unique_iff keys by (auto simp: keys_ok_def case_prod_beta)
qed

lemma user_of_None: "user_of c name = None \<longleftrightarrow> name \<notin> us_username ` set (sc_users c)"
  by (auto simp: user_of_def find_None_iff)

lemma specs_of_keys:
  "set (pool_specs c) = set (group_specs 0 PRIMARY_UPSTREAM (up_base_url (sc_upstream c)) (up_enabled (sc_upstream c))
       (up_nim_keys (sc_upstream c)) (up_stream_options (sc_upstream c))) \<union>
     (\<Union>i < length (sc_upstreams c). let ep = sc_upstreams c ! i in
       set (group_specs (i + 1) (ue_name ep) (ue_base_url ep) (ue_enabled ep) (ue_keys ep) (ue_stream_options ep)))"
  by (fastforce simp: pool_specs_def in_set_enumerate_eq Let_def)

lemma group_specs_mem:
  "s \<in> set (group_specs i name url en ks so) \<longleftrightarrow>
     (\<exists>k \<in> set ks. s = \<lparr>sp_key = nk_key k, sp_rpm = nk_rpm k, sp_enabled = nk_enabled k \<and> en,
       sp_endpoint = i, sp_base_url = trim_end_matches ''/'' url, sp_upstream = name, sp_stream_options = so\<rparr>)"
  by (auto simp: group_specs_def)

lemma pool_specs_keys: "map sp_key (pool_specs c) = map nk_key (all_nim_keys c)"
proof -
  have "map sp_key (concat (map (\<lambda>(i, ep). group_specs (i + 1) (ue_name ep) (ue_base_url ep) (ue_enabled ep)
      (ue_keys ep) (ue_stream_options ep)) (enumerate n eps))) = map nk_key (concat (map ue_keys eps))" for n eps
    by (induction eps arbitrary: n) (simp_all add: group_specs_def o_def)
  then show ?thesis
    by (simp add: pool_specs_def all_nim_keys_def group_specs_def o_def)
qed

lemma pool_specs_rpms: "map sp_rpm (pool_specs c) = map nk_rpm (all_nim_keys c)"
proof -
  have "map sp_rpm (concat (map (\<lambda>(i, ep). group_specs (i + 1) (ue_name ep) (ue_base_url ep) (ue_enabled ep)
      (ue_keys ep) (ue_stream_options ep)) (enumerate n eps))) = map nk_rpm (concat (map ue_keys eps))" for n eps
    by (induction eps arbitrary: n) (simp_all add: group_specs_def o_def)
  then show ?thesis
    by (simp add: pool_specs_def all_nim_keys_def group_specs_def o_def)
qed

lemma floor_iff:
  assumes "distinct (map nk_key (all_nim_keys c))"
  shows "(\<exists>s \<in> set (pool_specs c). sp_enabled s \<and> (\<exists>k \<in> set (all_nim_keys c). nk_key k = sp_key s \<and> nk_owner k = name)) \<longleftrightarrow>
    (up_enabled (sc_upstream c) \<and> owns_floor name (up_nim_keys (sc_upstream c))) \<or>
    list_ex (\<lambda>ep. ue_enabled ep \<and> owns_floor name (ue_keys ep)) (sc_upstreams c)"
proof -
  have same: "k = k'" if "k \<in> set (all_nim_keys c)" "k' \<in> set (all_nim_keys c)" "nk_key k = nk_key k'" for k k'
    using assms that by (auto simp: distinct_map dest: inj_onD)
  have prim: "set (up_nim_keys (sc_upstream c)) \<subseteq> set (all_nim_keys c)"
    and extra: "i < length (sc_upstreams c) \<Longrightarrow> set (ue_keys (sc_upstreams c ! i)) \<subseteq> set (all_nim_keys c)" for i
    by (auto simp: all_nim_keys_def)
  let ?P = "\<lambda>s. sp_enabled s \<and> (\<exists>k \<in> set (all_nim_keys c). nk_key k = sp_key s \<and> nk_owner k = name)"
  have group: "(\<exists>s \<in> set (group_specs j n url en ks so). ?P s) \<longleftrightarrow> en \<and> owns_floor name ks"
    if sub: "set ks \<subseteq> set (all_nim_keys c)" for j n url en ks so
  proof
    assume "\<exists>s \<in> set (group_specs j n url en ks so). ?P s"
    then obtain s k where s: "s \<in> set (group_specs j n url en ks so)" "sp_enabled s"
      and k: "k \<in> set (all_nim_keys c)" "nk_key k = sp_key s" "nk_owner k = name" by blast
    obtain k0 where k0: "k0 \<in> set ks" "sp_key s = nk_key k0" "nk_enabled k0" "en"
      using s by (auto simp: group_specs_mem)
    have "k = k0" using same [OF k(1)] k0(1,2) k(2) sub by auto
    with k0 k(3) show "en \<and> owns_floor name ks" by (auto simp: owns_floor_def list_ex_iff)
  next
    assume "en \<and> owns_floor name ks"
    then obtain k where k: "k \<in> set ks" "nk_enabled k" "nk_owner k = name" "en"
      by (auto simp: owns_floor_def list_ex_iff)
    let ?s = "\<lparr>sp_key = nk_key k, sp_rpm = nk_rpm k, sp_enabled = nk_enabled k \<and> en,
       sp_endpoint = j, sp_base_url = trim_end_matches ''/'' url, sp_upstream = n, sp_stream_options = so\<rparr>"
    have "?s \<in> set (group_specs j n url en ks so)" using k(1) by (auto simp: group_specs_mem)
    moreover have "?P ?s" using k sub by auto
    ultimately show "\<exists>s \<in> set (group_specs j n url en ks so). ?P s" by blast
  qed
  let ?g = "\<lambda>i. let ep = sc_upstreams c ! i in
       set (group_specs (i + 1) (ue_name ep) (ue_base_url ep) (ue_enabled ep) (ue_keys ep) (ue_stream_options ep))"
  have each: "(\<exists>s \<in> ?g i. ?P s) \<longleftrightarrow> ue_enabled (sc_upstreams c ! i) \<and> owns_floor name (ue_keys (sc_upstreams c ! i))"
    if "i < length (sc_upstreams c)" for i
    unfolding Let_def by (rule group [OF extra [OF that]])
  have split: "(\<exists>s \<in> set (pool_specs c). ?P s) \<longleftrightarrow>
      (up_enabled (sc_upstream c) \<and> owns_floor name (up_nim_keys (sc_upstream c))) \<or>
      (\<exists>i < length (sc_upstreams c). \<exists>s \<in> ?g i. ?P s)"
    unfolding specs_of_keys bex_Un group [OF prim] by blast
  also have "\<dots> \<longleftrightarrow> (up_enabled (sc_upstream c) \<and> owns_floor name (up_nim_keys (sc_upstream c))) \<or>
      (\<exists>i < length (sc_upstreams c). ue_enabled (sc_upstreams c ! i) \<and> owns_floor name (ue_keys (sc_upstreams c ! i)))"
    using each by blast
  also have "(\<exists>i < length (sc_upstreams c). ue_enabled (sc_upstreams c ! i) \<and> owns_floor name (ue_keys (sc_upstreams c ! i)))
      \<longleftrightarrow> list_ex (\<lambda>ep. ue_enabled ep \<and> owns_floor name (ue_keys ep)) (sc_upstreams c)"
    by (simp add: list_ex_length)
  finally show ?thesis .
qed

lemma check_ownership_iff:
  assumes "keys_ok c"
  shows "check_ownership c = Ok () \<longleftrightarrow> owned_ok c"
proof (cases "superuser c")
  case (Some su)
  have "owned_ok c \<longleftrightarrow>
     (\<forall>k \<in> set (all_nim_keys c). nk_owner k \<in> us_username ` set (sc_users c)) \<and>
     (\<forall>k \<in> set (ca_keys (sc_client_auth c)). ck_owner k \<in> us_username ` set (sc_users c)) \<and>
     ((up_enabled (sc_upstream c) \<and> owns_floor (us_username su) (up_nim_keys (sc_upstream c))) \<or>
      list_ex (\<lambda>ep. ue_enabled ep \<and> owns_floor (us_username su) (ue_keys ep)) (sc_upstreams c))"
    using floor_iff [of c "us_username su"] assms unfolding owned_ok_def Some keys_ok_def by simp
  moreover have "check_ownership c = Ok () \<longleftrightarrow>
     (\<forall>k \<in> set (up_nim_keys (sc_upstream c)). nk_owner k \<in> us_username ` set (sc_users c)) \<and>
     (\<forall>ep \<in> set (sc_upstreams c). \<forall>k \<in> set (ue_keys ep). nk_owner k \<in> us_username ` set (sc_users c)) \<and>
     (\<forall>k \<in> set (ca_keys (sc_client_auth c)). ck_owner k \<in> us_username ` set (sc_users c)) \<and>
     ((up_enabled (sc_upstream c) \<and> owns_floor (us_username su) (up_nim_keys (sc_upstream c))) \<or>
      list_ex (\<lambda>ep. ue_enabled ep \<and> owns_floor (us_username su) (ue_keys ep)) (sc_upstreams c))"
    unfolding check_ownership_def Some option.case all_ok_iff
    by (simp add: all_ok_iff user_of_None del: all_ok.simps)
  ultimately show ?thesis
    by (auto simp: all_nim_keys_def)
next
  case None
  then show ?thesis by (simp add: check_ownership_def owned_ok_def)
qed

lemma check_endpoints_iff:
  "check_endpoints c = Ok () \<longleftrightarrow> distinct (PRIMARY_UPSTREAM # map ue_name (sc_upstreams c)) \<and>
     (\<forall>ep \<in> set (sc_upstreams c). label_ok (ue_name ep) 64 \<and> url_ok (ue_base_url ep) \<and> models_ok (ue_models ep))"
  unfolding check_endpoints_def check_unique_iff all_ok_iff
  by (auto simp: check_base_url_iff validate_models_list_iff) (metis imageI)+

lemma check_users_iff: "check_users c = Ok () \<longleftrightarrow> users_ok c"
  unfolding check_users_def all_ok_iff users_ok_def
  by (auto simp: check_unique_iff all_ok_iff validate_stored_locale_iff not_less simp del: all_ok.simps
      split: option.splits)

lemma check_clients_iff: "check_clients c = Ok () \<longleftrightarrow> clients_ok c"
  by (auto simp: check_clients_def check_unique_iff clients_ok_def)

lemma check_overrides_iff:
  "check_overrides c = Ok () \<longleftrightarrow>
     (\<forall>e \<in> set (gc_overrides (sc_governor c)). trim (fst e) \<noteq> [] \<and> 1 \<le> snd e \<and> snd e \<le> 10000)"
  unfolding check_overrides_def all_ok_map_iff by (auto simp: case_prod_beta)

lemma check_limits_iff: "check_limits c = Ok () \<longleftrightarrow> limits_ok c"
  unfolding check_limits_def Let_def all_ok_iff limits_ok_def slo_ok_def by auto

lemma position_distinct:
  assumes "distinct (map f xs)" "i < length xs"
  shows "position (\<lambda>x. f x = f (xs ! i)) xs = Some i"
proof -
  obtain j where j: "position (\<lambda>x. f x = f (xs ! i)) xs = Some j"
    using assms(2) by (cases "position (\<lambda>x. f x = f (xs ! i)) xs") auto
  then have "j < length xs" "f (xs ! j) = f (xs ! i)"
    by (auto dest: position_Some)
  with assms nth_eq_iff_index_eq [OF assms(1), of j i] j show ?thesis by simp
qed

text \<open>The endpoint tag of a lane spec is an index into the endpoint list.\<close>

lemma spec_endpoint:
  assumes dist: "distinct (PRIMARY_UPSTREAM # map ue_name (sc_upstreams c))" and s: "s \<in> set (pool_specs c)"
  shows "sp_endpoint s < length (endpoints c) \<and>
    sp_base_url s = ev_base_url (endpoints c ! sp_endpoint s) \<and>
    sp_upstream s = ev_name (endpoints c ! sp_endpoint s) \<and>
    endpoint_index c (sp_upstream s) = Some (sp_endpoint s) \<and>
    (sp_enabled s \<longrightarrow> ev_enabled (endpoints c ! sp_endpoint s))"
proof -
  have ne: "ue_name (sc_upstreams c ! i) \<noteq> PRIMARY_UPSTREAM" if "i < length (sc_upstreams c)" for i
    using dist that by (metis distinct.simps(2) in_set_conv_nth length_map nth_map)
  have pos: "position (\<lambda>ep. ue_name ep = ue_name (sc_upstreams c ! i)) (sc_upstreams c) = Some i"
    if "i < length (sc_upstreams c)" for i
    using dist that by (intro position_distinct) simp_all
  show ?thesis
    using s unfolding specs_of_keys
    by (auto simp: group_specs_mem Let_def endpoints_def endpoint_index_def ne pos)
qed

lemma zip_map_map_pairs:
  "map f xs = map g ys \<Longrightarrow> map h xs = map k ys \<Longrightarrow> map (\<lambda>x. (f x, h x)) xs = map (\<lambda>y. (g y, k y)) ys"
  by (induction xs arbitrary: ys) auto

lemma validate_valid: "validate c = Ok () \<longleftrightarrow> config_valid c"
proof -
  have "validate c = Ok () \<longleftrightarrow> sc_version c = 1 \<and> locale_ok (sc_default_locale c) \<and> limits_ok c \<and>
     url_ok (up_base_url (sc_upstream c)) \<and> models_ok (up_models (sc_upstream c)) \<and> check_endpoints c = Ok () \<and>
     (length (sc_disabled_models c) \<le> 256 \<and> models_ok (sc_disabled_models c)) \<and> users_ok c \<and> keys_ok c \<and>
     clients_ok c \<and> check_overrides c = Ok () \<and> check_ownership c = Ok ()"
    unfolding validate_def all_ok_iff
    by (simp add: validate_stored_locale_iff check_limits_iff check_base_url_iff validate_models_list_iff
        validate_disabled_models_def check_users_iff check_keys_iff check_clients_iff not_less)
  then show ?thesis
    unfolding config_valid_def groups_ok_def check_endpoints_iff check_overrides_iff
    using check_ownership_iff by auto
qed

subsection \<open>Properties of validation and of the views\<close>

text \<open>
  C6: the rulebook accepts exactly the valid configurations. The sequence of early returns, loops
  and hash sets of \<open>validate\<close> succeeds if and only if the declarative predicate holds: version,
  limits, unique and well-formed group names, URLs, allowlists, users, keys (unique over all
  groups), client keys and overrides, and, once there is a superuser, known owners and the pool
  floor: one enabled lane spec whose key the superuser owns.
\<close>

theorem validate_iff_valid: "validate c = Ok () \<longleftrightarrow> config_valid c"
  by (rule validate_valid)

text \<open>
  C40: a saved configuration parses back. Whatever JSON value the store was read from, what is
  written for the configuration read from it is read as the same configuration, so saving is a
  fixpoint.
\<close>

theorem config_roundtrip:
  assumes "dec_config j = Some c"
  shows "dec_config (enc_config c) = Some c"
  using dec_enc_config [OF dec_config_range [OF assms]] .

lemma config_roundtrip_witness: "dec_config (enc_config default_config) = Some default_config"
proof -
  have "dec_config (JObject []) = Some default_config"
    by (simp add: dec_config_def dec_simps default_config_def)
  then show ?thesis by (rule config_roundtrip)
qed

text \<open>
  A valid configuration feeds the pool what the pool relies on. Its lane specs list no key
  twice, with the budget stored for it, between 1 and 10000, so every key is kept in the sense of
  the window theorems; a spec is enabled only with its key and its group; and its endpoint tag and
  base URL are those of the endpoint list.
\<close>

theorem valid_config_feeds_pool:
  assumes "validate c = Ok ()"
  shows "(\<forall>k \<in> set (all_nim_keys c). keeps_key (nk_key k) (nk_rpm k) (pool_specs c)) \<and>
    (\<forall>s \<in> set (pool_specs c). 1 \<le> sp_rpm s \<and> sp_rpm s \<le> 10000 \<and> sp_endpoint s < length (endpoints c) \<and>
       sp_base_url s = ev_base_url (endpoints c ! sp_endpoint s) \<and>
       sp_upstream s = ev_name (endpoints c ! sp_endpoint s) \<and>
       endpoint_index c (sp_upstream s) = Some (sp_endpoint s) \<and>
       (sp_enabled s \<longrightarrow> ev_enabled (endpoints c ! sp_endpoint s)))"
proof -
  have valid: "config_valid c" using assms validate_valid by blast
  have dist: "distinct (map sp_key (pool_specs c))"
    using valid by (simp add: pool_specs_keys config_valid_def keys_ok_def)
  have pairs: "map (\<lambda>s. (sp_key s, sp_rpm s)) (pool_specs c) = map (\<lambda>k. (nk_key k, nk_rpm k)) (all_nim_keys c)"
    using pool_specs_keys [of c] pool_specs_rpms [of c] by (simp add: zip_map_map_pairs)
  have "keeps_key (nk_key k) (nk_rpm k) (pool_specs c)" if "k \<in> set (all_nim_keys c)" for k
  proof -
    have "(nk_key k, nk_rpm k) \<in> set (map (\<lambda>s. (sp_key s, sp_rpm s)) (pool_specs c))"
      unfolding pairs using that by simp
    with dist show ?thesis by (auto simp: keeps_key_def list_ex_iff)
  qed
  moreover have "1 \<le> sp_rpm s \<and> sp_rpm s \<le> 10000" if "s \<in> set (pool_specs c)" for s
  proof -
    have "sp_rpm s \<in> set (map nk_rpm (all_nim_keys c))"
      using that by (simp add: pool_specs_rpms [symmetric])
    with valid show ?thesis by (auto simp: config_valid_def keys_ok_def)
  qed
  moreover have "distinct (PRIMARY_UPSTREAM # map ue_name (sc_upstreams c))"
    using valid by (simp add: config_valid_def groups_ok_def)
  note spec_endpoint [OF this]
  ultimately show ?thesis by blast
qed

definition demo_config :: stored_config where
  "demo_config = default_config
     \<lparr>sc_upstream := default_upstream\<lparr>up_nim_keys := [\<lparr>nk_key = ''nvapi-one'', nk_owner = ''root'', nk_enabled = True, nk_rpm = 40\<rparr>]\<rparr>,
      sc_upstreams := [\<lparr>ue_name = ''other'', ue_base_url = ''https://api.example.com/'', ue_enabled = True,
        ue_keys = [\<lparr>nk_key = ''sk-two'', nk_owner = ''root'', nk_enabled = True, nk_rpm = 3\<rparr>],
        ue_models = [''m1''], ue_stream_options = False\<rparr>],
      sc_users := [\<lparr>us_username = ''root'', us_password_hash = ''h'', us_role = Superuser, us_locale = None\<rparr>]\<rparr>"


lemma default_slo_ok: "slo_ok default_slo_target_percent"
  using default_slo_finite
  by (simp add: slo_ok_def f64_less_def f64_less_eq_def f64_is_nan_def f64_rank_def f64_negative_def
      f64_magnitude_def f64_infinity_def default_slo_target_percent_def)

lemma demo_url: "url_ok default_base_url" "url_ok ''https://api.example.com/''"
  unfolding check_base_url_iff [symmetric] by code_simp+

lemma demo_locale: "locale_ok DEFAULT_LOCALE" by code_simp

lemma demo_trim: "trim ''nvapi-one'' = ''nvapi-one''" "trim ''sk-two'' = ''sk-two''"
  by (rule trim_visible; code_simp)+

lemma demo_labels: "label_ok ''root'' 32" "label_ok ''other'' 64" "valid_model_id ''m1''"
  by code_simp+

lemma demo_config_ok: "validate demo_config = Ok ()"
proof -
  let ?c = demo_config
  have "limits_ok ?c"
    by (simp add: limits_ok_def demo_config_def default_config_def default_limits_def default_dashboard_def default_slo_ok)
  moreover have "groups_ok ?c"
    by (simp add: groups_ok_def models_ok_def demo_config_def default_config_def default_upstream_def demo_url demo_labels PRIMARY_UPSTREAM_def)
  moreover have "users_ok ?c" "keys_ok ?c" "clients_ok ?c"
    by (simp_all add: users_ok_def keys_ok_def clients_ok_def all_nim_keys_def demo_config_def default_config_def
        default_upstream_def demo_labels demo_trim)
  moreover have "owned_ok ?c"
    by (simp add: owned_ok_def superuser_def all_nim_keys_def pool_specs_def group_specs_def demo_config_def default_config_def
        default_upstream_def)
  ultimately show ?thesis
    by (simp add: validate_valid config_valid_def demo_config_def default_config_def default_governor_def models_ok_def demo_locale)
qed

lemma valid_config_feeds_pool_witness:
  "keeps_key ''sk-two'' 3 (pool_specs demo_config) \<and> validate demo_config = Ok ()"
proof -
  have "\<lparr>nk_key = ''sk-two'', nk_owner = ''root'', nk_enabled = True, nk_rpm = 3\<rparr> \<in> set (all_nim_keys demo_config)"
    by (simp add: all_nim_keys_def demo_config_def default_config_def default_upstream_def)
  with valid_config_feeds_pool [OF demo_config_ok] show ?thesis
    using demo_config_ok by fastforce
qed

text \<open>
  Where the URL helpers fall short of their comments: a base URL that ends in \<open>/v1/\<close> keeps its
  \<open>/v1\<close>, and a link-local host behind user information, or one of the addresses of fe80::/10
  that does not begin with fe80, passes the check.
\<close>

lemma normalize_keeps_v1: "normalize_base_url ''https://x/v1/'' = ''https://x/v1''"
  by code_simp

lemma link_local_passes:
  "check_base_url ''http://u@169.254.169.254/'' = Ok ()"
  "check_base_url ''http://[fe90::1]/'' = Ok ()"
  by code_simp+

subsection \<open>Saving\<close>

text \<open>
  The data directory: the store file and the temporary file, each with its text, its mode and
  whether its data has reached the disk, and the older store a crash may bring back while the
  rename has not reached the disk. \<open>save\<close> is a list of system calls; it may stop after any of them,
  by an error or by a crash. Serialization and parsing of the text are parameters.
\<close>

record disk_file =
  fl_text :: string
  fl_mode :: nat
  fl_synced :: bool

record data_dir =
  dd_store :: "disk_file option"
  dd_tmp :: "disk_file option"
  dd_before :: "disk_file option option"

datatype syscall =
    Create_dir_all
  | Remove_tmp
  | Create_new_tmp nat
  | Write_tmp string
  | Sync_tmp
  | Rename_tmp
  | Sync_dir

fun syscall_exec :: "syscall \<Rightarrow> data_dir \<Rightarrow> data_dir option" where
  "syscall_exec Create_dir_all d = Some d"
| "syscall_exec Remove_tmp d = Some (d\<lparr>dd_tmp := None\<rparr>)"
| "syscall_exec (Create_new_tmp mode) d =
     (if dd_tmp d = None then Some (d\<lparr>dd_tmp := Some \<lparr>fl_text = [], fl_mode = mode, fl_synced = False\<rparr>\<rparr>) else None)"
| "syscall_exec (Write_tmp text) d =
     (case dd_tmp d of None \<Rightarrow> None | Some f \<Rightarrow> Some (d\<lparr>dd_tmp := Some (f\<lparr>fl_text := text, fl_synced := False\<rparr>)\<rparr>))"
| "syscall_exec Sync_tmp d =
     (case dd_tmp d of None \<Rightarrow> None | Some f \<Rightarrow> Some (d\<lparr>dd_tmp := Some (f\<lparr>fl_synced := True\<rparr>)\<rparr>))"
| "syscall_exec Rename_tmp d =
     (case dd_tmp d of None \<Rightarrow> None
      | Some f \<Rightarrow> Some (d\<lparr>dd_store := Some f, dd_tmp := None,
          dd_before := Some (case dd_before d of None \<Rightarrow> dd_store d | Some old \<Rightarrow> old)\<rparr>))"
| "syscall_exec Sync_dir d = Some (d\<lparr>dd_before := None\<rparr>)"

definition save_calls :: "string \<Rightarrow> syscall list" where
  "save_calls text = [Create_dir_all, Remove_tmp, Create_new_tmp 384, Write_tmp text, Sync_tmp, Rename_tmp, Sync_dir]"

fun run_calls :: "syscall list \<Rightarrow> data_dir \<Rightarrow> data_dir option" where
  "run_calls [] d = Some d"
| "run_calls (x # xs) d = (case syscall_exec x d of None \<Rightarrow> None | Some d' \<Rightarrow> run_calls xs d')"

definition save :: "(stored_config \<Rightarrow> string) \<Rightarrow> stored_config \<Rightarrow> data_dir \<Rightarrow> data_dir option" where
  "save ser c d = run_calls (save_calls (ser c)) d"

text \<open>
  What a restart finds after the process stopped: the temporary file in any state; the store as it
  is or, while the rename is not on disk, as it was; and in either case any text at all if the data
  had not reached the disk.
\<close>

definition survives :: "disk_file option \<Rightarrow> disk_file option \<Rightarrow> bool" where
  "survives f g \<longleftrightarrow> g = f \<or> (\<exists>x. f = Some x \<and> \<not> fl_synced x)"

definition after_crash :: "data_dir \<Rightarrow> data_dir \<Rightarrow> bool" where
  "after_crash d d' \<longleftrightarrow> survives (dd_store d) (dd_store d') \<or>
     (\<exists>old. dd_before d = Some old \<and> survives old (dd_store d'))"

datatype load_error = Corrupt | Version_too_new nat | Rejected config_error

definition load :: "(string \<Rightarrow> stored_config option) \<Rightarrow> data_dir \<Rightarrow> load_error + stored_config option" where
  "load parse d =
     (case dd_store d of
        None \<Rightarrow> Ok None
      | Some f \<Rightarrow>
          (case parse (fl_text f) of
             None \<Rightarrow> Err Corrupt
           | Some c \<Rightarrow>
               if 1 < sc_version c then Err (Version_too_new (sc_version c))
               else (case validate c of Err e \<Rightarrow> Err (Rejected e) | Ok _ \<Rightarrow> Ok (Some c))))"

lemma load_store: "dd_store d = dd_store e \<Longrightarrow> load parse d = load parse e"
  by (simp add: load_def)

text \<open>Loading also drops the temporary file of a save that never committed.\<close>

definition load_tidy :: "data_dir \<Rightarrow> data_dir" where
  "load_tidy d = d\<lparr>dd_tmp := None\<rparr>"

lemma load_after_tidy: "load parse (load_tidy d) = load parse d"
  by (rule load_store) (simp add: load_tidy_def)

text \<open>The directory at rest: its store is on disk, and no rename is pending.\<close>

definition at_rest :: "data_dir \<Rightarrow> bool" where
  "at_rest d \<longleftrightarrow> dd_before d = None \<and> (\<forall>f \<in> set_option (dd_store d). fl_synced f)"

lemma save_progress:
  assumes "at_rest d" "n \<le> 7"
  shows "\<exists>d'. run_calls (take n (save_calls text)) d = Some d' \<and>
    (if n < 6 then dd_store d' = dd_store d \<and> dd_before d' = None
     else dd_store d' = Some \<lparr>fl_text = text, fl_mode = 384, fl_synced = True\<rparr> \<and>
          dd_before d' = (if n = 6 then Some (dd_store d) else None))"
proof -
  have "n \<in> {0, 1, 2, 3, 4, 5, 6, 7}" using assms(2) by auto
  then show ?thesis
    using assms(1) by (auto simp: save_calls_def at_rest_def)
qed

lemma survives_synced: "\<forall>x \<in> set_option f. fl_synced x \<Longrightarrow> survives f g \<longleftrightarrow> g = f"
  by (auto simp: survives_def)

text \<open>
  C11: a save never tears the store. Let the directory hold a loadable configuration or none, and
  save a valid one. If the process stops after any of the system calls, by an error or a crash,
  the next start loads the old configuration or the new one: the old one before the rename, the
  new one once the directory is synced; and from the rename on the store has mode 0600. The parser
  is assumed to read back what the serializer wrote for this configuration.
\<close>

theorem save_is_atomic:
  assumes "at_rest d" and "load parse d = Ok old" and "validate c = Ok ()" and "parse (ser c) = Some c"
    and "n \<le> 7" and "run_calls (take n (save_calls (ser c))) d = Some d1" and "after_crash d1 d2"
  shows "(load parse d2 = Ok old \<or> load parse d2 = Ok (Some c)) \<and>
    (n < 6 \<longrightarrow> load parse d2 = Ok old) \<and> (n = 7 \<longrightarrow> load parse d2 = Ok (Some c)) \<and>
    (6 \<le> n \<longrightarrow> (\<exists>f. dd_store d1 = Some f \<and> fl_mode f = 384))"
proof -
  let ?new = "\<lparr>fl_text = ser c, fl_mode = 384, fl_synced = True\<rparr>"
  have st: "if n < 6 then dd_store d1 = dd_store d \<and> dd_before d1 = None
     else dd_store d1 = Some ?new \<and> dd_before d1 = (if n = 6 then Some (dd_store d) else None)"
    using save_progress [OF assms(1,5), of "ser c"] assms(6) by auto
  have "sc_version c = 1"
    using assms(3) by (simp add: validate_valid config_valid_def)
  then have new: "load parse e = Ok (Some c)" if "dd_store e = Some ?new" for e
    using that assms(3,4) by (simp add: load_def)
  have same: "load parse e = Ok old" if "dd_store e = dd_store d" for e
    using load_store [OF that] assms(2) by simp
  have cases: "dd_store d2 = dd_store d1 \<or> (n = 6 \<and> dd_store d2 = dd_store d)"
    using assms(1,7) st by (auto simp: after_crash_def at_rest_def survives_synced split: if_splits)
  show ?thesis
    using st cases new same by (auto split: if_splits)
qed

lemma save_is_atomic_witness:
  "\<exists>d1. run_calls (take 6 (save_calls ''text'')) \<lparr>dd_store = None, dd_tmp = None, dd_before = None\<rparr> = Some d1 \<and>
     load (\<lambda>_. Some demo_config) d1 = Ok (Some demo_config)"
proof -
  let ?d = "\<lparr>dd_store = None, dd_tmp = None, dd_before = None\<rparr> :: data_dir"
  obtain d1 where d1: "run_calls (take 6 (save_calls ''text'')) ?d = Some d1" "dd_store d1 \<noteq> None"
    by (simp add: save_calls_def)
  have "after_crash d1 d1" by (simp add: after_crash_def survives_def)
  with save_is_atomic [of ?d "\<lambda>_. Some demo_config" None demo_config "\<lambda>_. ''text''" 6 d1 d1] d1 demo_config_ok
  show ?thesis by (auto simp: at_rest_def load_def split: option.splits)
qed

end
