(* ===== verification/Auth.thy ===== *)
theory Auth
  imports Config_Store
begin

section \<open>Authentication (src/auth.rs)\<close>

text \<open>
  Password hashes, signed sessions, the failed-attempt throttle, the header-credential memo and
  the session gate. Byte strings are lists of \<open>char\<close>. The two hash functions of the installed
  crates are parameters: \<open>sha\<close> maps bytes to the 32 bytes of SHA-256, \<open>mac\<close> a key and a message to
  the 32 bytes of HMAC-SHA-256; everything built on them here is the source's. Random bytes and
  the clock are arguments.
\<close>

type_synonym bytes = string

definition COOKIE :: string where "COOKIE = ''nimproxy_session''"

definition SESSION_TTL_SECS :: nat where "SESSION_TTL_SECS = 12 * 3600"

definition PBKDF2_ITERS :: nat where "PBKDF2_ITERS = 600000"

definition THROTTLE_WINDOW_SECS :: nat where "THROTTLE_WINDOW_SECS = 60"

definition THROTTLE_MAX_FAILURES :: nat where "THROTTLE_MAX_FAILURES = 10"

subsection \<open>Hexadecimal, base64, form fields\<close>

definition hex_digit :: "nat \<Rightarrow> char" where
  "hex_digit n = char_of (if n < 10 then 48 + n else 87 + n)"

definition hex :: "bytes \<Rightarrow> string" where
  "hex bs = concat (map (\<lambda>b. [hex_digit (byte_of b div 16), hex_digit (byte_of b mod 16)]) bs)"

definition hex_val :: "char \<Rightarrow> nat option" where
  "hex_val c =
     (let b = byte_of c in
      if 48 \<le> b \<and> b \<le> 57 then Some (b - 48)
      else if 97 \<le> b \<and> b \<le> 102 then Some (b - 97 + 10)
      else if 65 \<le> b \<and> b \<le> 70 then Some (b - 65 + 10)
      else None)"

fun unhex :: "string \<Rightarrow> bytes option" where
  "unhex [] = Some []"
| "unhex [c] = None"
| "unhex (c # d # s) =
     (case (hex_val c, hex_val d) of
        (Some h, Some l) \<Rightarrow> map_option ((#) (char_of (h * 16 + l))) (unhex s)
      | _ \<Rightarrow> None)"

text \<open>The lower-case hexadecimal of a number, without leading zeros, and its reading back.\<close>

fun hex_nat :: "nat \<Rightarrow> string" where
  "hex_nat n = (if n < 16 then [hex_digit n] else hex_nat (n div 16) @ [hex_digit (n mod 16)])"

declare hex_nat.simps [simp del]

fun hex_digits_value :: "nat \<Rightarrow> string \<Rightarrow> nat option" where
  "hex_digits_value acc [] = Some acc"
| "hex_digits_value acc (c # s) =
     (case hex_val c of None \<Rightarrow> None | Some d \<Rightarrow> hex_digits_value (acc * 16 + d) s)"

text \<open>\<open>u64::from_str_radix(_, 16)\<close>: an optional plus sign, at least one digit, no overflow.\<close>

definition parse_hex_u64 :: "string \<Rightarrow> nat option" where
  "parse_hex_u64 s =
     (let t = (case s of c # cs \<Rightarrow> if c = CHR ''+'' then cs else s | [] \<Rightarrow> s) in
      if t = [] then None
      else (case hex_digits_value 0 t of Some n \<Rightarrow> if n < 2 ^ 64 then Some n else None | None \<Rightarrow> None))"

fun dec_digits_value :: "nat \<Rightarrow> string \<Rightarrow> nat option" where
  "dec_digits_value acc [] = Some acc"
| "dec_digits_value acc (c # s) =
     (if ascii_digit c then dec_digits_value (acc * 10 + (byte_of c - 48)) s else None)"

definition parse_dec :: "nat \<Rightarrow> string \<Rightarrow> nat option" where
  "parse_dec limit s =
     (let t = (case s of c # cs \<Rightarrow> if c = CHR ''+'' then cs else s | [] \<Rightarrow> s) in
      if t = [] then None
      else (case dec_digits_value 0 t of Some n \<Rightarrow> if n < limit then Some n else None | None \<Rightarrow> None))"

fun dec_nat :: "nat \<Rightarrow> string" where
  "dec_nat n = (if n < 10 then [char_of (48 + n)] else dec_nat (n div 10) @ [char_of (48 + n mod 10)])"

declare dec_nat.simps [simp del]

definition base64_val :: "char \<Rightarrow> nat option" where
  "base64_val c =
     (let b = byte_of c in
      if 65 \<le> b \<and> b \<le> 90 then Some (b - 65)
      else if 97 \<le> b \<and> b \<le> 122 then Some (b - 97 + 26)
      else if 48 \<le> b \<and> b \<le> 57 then Some (b - 48 + 52)
      else if b = 43 then Some 62
      else if b = 47 then Some 63
      else None)"

text \<open>One group of at most four characters: 24 bits, of which 3, 2 or 1 bytes are real.\<close>

fun base64_acc :: "nat \<Rightarrow> string \<Rightarrow> nat option" where
  "base64_acc acc [] = Some acc"
| "base64_acc acc (c # s) =
     (case base64_val c of None \<Rightarrow> None | Some v \<Rightarrow> base64_acc (acc * 64 + v) s)"

definition base64_group :: "string \<Rightarrow> bytes option" where
  "base64_group chunk =
     (case base64_acc 0 chunk of
        None \<Rightarrow> None
      | Some acc \<Rightarrow>
          let acc = acc * 64 ^ (4 - length chunk) in
          if length chunk < 2 then None
          else Some (map (\<lambda>i. char_of ((acc div 2 ^ (16 - i * 8)) mod 256)) [0..<length chunk - 1]))"

fun base64_chunks :: "string \<Rightarrow> bytes option" where
  "base64_chunks s =
     (if s = [] then Some []
      else (case base64_group (take 4 s) of
              None \<Rightarrow> None
            | Some bs \<Rightarrow> map_option ((@) bs) (base64_chunks (drop 4 s))))"

declare base64_chunks.simps [simp del]

definition base64_decode :: "string \<Rightarrow> bytes option" where
  "base64_decode s = base64_chunks (filter (\<lambda>c. c \<noteq> CHR ''='' \<and> \<not> ascii_space c) s)"

fun url_decode_bytes :: "bytes \<Rightarrow> bytes" where
  "url_decode_bytes (p # h # l # s) =
     (if p = CHR ''%'' then
        (case (hex_val h, hex_val l) of
           (Some a, Some b) \<Rightarrow> char_of (a * 16 + b) # url_decode_bytes s
         | _ \<Rightarrow> p # url_decode_bytes (h # l # s))
      else p # url_decode_bytes (h # l # s))"
| "url_decode_bytes (p # s) = p # url_decode_bytes s"
| "url_decode_bytes [] = []"

text \<open>
  UTF-8 as the standard library reads it: the next unit is a code point of some length, or an
  invalid run of some length (overlong forms, surrogates and values above U+10FFFF are invalid).
\<close>

definition byte_at :: "bytes \<Rightarrow> nat \<Rightarrow> nat \<Rightarrow> nat \<Rightarrow> bool" where
  "byte_at s i lo hi \<longleftrightarrow> i < length s \<and> lo \<le> byte_of (s ! i) \<and> byte_of (s ! i) \<le> hi"

definition utf8_unit :: "bytes \<Rightarrow> bool \<times> nat" where
  "utf8_unit s =
     (let n = byte_of (hd s) in
      if n < 128 then (True, 1)
      else if 194 \<le> n \<and> n < 224 then (if byte_at s 1 128 191 then (True, 2) else (False, 1))
      else if 224 \<le> n \<and> n < 240 then
        (if \<not> byte_at s 1 (if n = 224 then 160 else 128) (if n = 237 then 159 else 191) then (False, 1)
         else if \<not> byte_at s 2 128 191 then (False, 2) else (True, 3))
      else if 240 \<le> n \<and> n < 245 then
        (if \<not> byte_at s 1 (if n = 240 then 144 else 128) (if n = 244 then 143 else 191) then (False, 1)
         else if \<not> byte_at s 2 128 191 then (False, 2)
         else if \<not> byte_at s 3 128 191 then (False, 3) else (True, 4))
      else (False, 1))"

lemma utf8_unit_pos: "0 < snd (utf8_unit s)"
  by (simp add: utf8_unit_def Let_def)

function utf8_valid :: "bytes \<Rightarrow> bool" where
  "utf8_valid s = (if s = [] then True
     else if fst (utf8_unit s) then utf8_valid (drop (snd (utf8_unit s)) s) else False)"
  by pat_completeness auto
termination
  by (relation "measure length") (auto simp: utf8_unit_pos)

function utf8_lossy :: "bytes \<Rightarrow> string" where
  "utf8_lossy s = (if s = [] then []
     else (if fst (utf8_unit s) then take (snd (utf8_unit s)) s else map char_of [239, 191, 189 :: nat])
       @ utf8_lossy (drop (snd (utf8_unit s)) s))"
  by pat_completeness auto
termination
  by (relation "measure length") (auto simp: utf8_unit_pos)

declare utf8_valid.simps [simp del] utf8_lossy.simps [simp del]

definition url_decode :: "string \<Rightarrow> string" where
  "url_decode s = utf8_lossy (url_decode_bytes (map (\<lambda>c. if c = CHR ''+'' then CHR '' '' else c) s))"

definition form_field :: "string \<Rightarrow> string \<Rightarrow> string option" where
  "form_field body field =
     (case List.find (\<lambda>pair. \<exists>v. split_once (CHR ''='') pair = Some (field, v)) (split_on (CHR ''&'') body) of
        None \<Rightarrow> None
      | Some pair \<Rightarrow> map_option (\<lambda>(k, v). url_decode v) (split_once (CHR ''='') pair))"

subsection \<open>Password hashes\<close>

type_synonym hmac = "bytes \<Rightarrow> bytes \<Rightarrow> bytes"

definition xor_bytes :: "bytes \<Rightarrow> bytes \<Rightarrow> bytes" where
  "xor_bytes a b = map2 (\<lambda>x y. char_of (byte_of x XOR byte_of y)) a b"

fun pbkdf2_rounds :: "hmac \<Rightarrow> bytes \<Rightarrow> nat \<Rightarrow> bytes \<Rightarrow> bytes \<Rightarrow> bytes" where
  "pbkdf2_rounds mac password 0 u out = out"
| "pbkdf2_rounds mac password (Suc n) u out =
     (let u' = mac password u in pbkdf2_rounds mac password n u' (xor_bytes out u'))"

definition pbkdf2_sha256 :: "hmac \<Rightarrow> bytes \<Rightarrow> bytes \<Rightarrow> nat \<Rightarrow> bytes" where
  "pbkdf2_sha256 mac password salt iters =
     (let u = mac password (salt @ map char_of [0, 0, 0, 1 :: nat])
      in pbkdf2_rounds mac password (iters - 1) u u)"

definition hash_password :: "hmac \<Rightarrow> bytes \<Rightarrow> string \<Rightarrow> string" where
  "hash_password mac salt password =
     ''pbkdf2-sha256$'' @ dec_nat PBKDF2_ITERS @ ''$'' @ hex salt @ ''$'' @
     hex (pbkdf2_sha256 mac password salt PBKDF2_ITERS)"

definition verify_password :: "hmac \<Rightarrow> string \<Rightarrow> string \<Rightarrow> bool" where
  "verify_password mac password stored =
     (case split_on (CHR ''$'') stored of
        [tag, iters, salt, hash] \<Rightarrow>
          tag = ''pbkdf2-sha256'' \<and>
          (case parse_dec (2 ^ 32) iters of
             None \<Rightarrow> False
           | Some n \<Rightarrow> 1 \<le> n \<and>
               (case unhex salt of
                  None \<Rightarrow> False
                | Some s \<Rightarrow> hex (pbkdf2_sha256 mac password s n) = hash))
      | _ \<Rightarrow> False)"

definition sha256_hex :: "(bytes \<Rightarrow> bytes) \<Rightarrow> string \<Rightarrow> string" where
  "sha256_hex sha s = hex (sha s)"

definition pw_fragment :: "(bytes \<Rightarrow> bytes) \<Rightarrow> string \<Rightarrow> string" where
  "pw_fragment sha password_hash = take 8 (sha256_hex sha password_hash)"

subsection \<open>Sessions\<close>

record throttle =
  th_window_start :: nat
  th_failures :: nat

record admin =
  ad_signing_key :: bytes
  ad_trust_proxy :: bool
  ad_throttle :: throttle
  ad_memo :: "(bytes \<times> string) option"

definition new_admin :: "nat \<Rightarrow> bytes \<Rightarrow> bool \<Rightarrow> admin" where
  "new_admin now key trust = \<lparr>ad_signing_key = key, ad_trust_proxy = trust,
     ad_throttle = \<lparr>th_window_start = now, th_failures = 0\<rparr>, ad_memo = None\<rparr>"

definition be64 :: "nat \<Rightarrow> bytes" where
  "be64 n = map (\<lambda>i. char_of (n div 256 ^ (7 - i) mod 256)) [0..<8]"

definition mac_input :: "bytes list \<Rightarrow> bytes" where
  "mac_input parts = concat (map (\<lambda>p. be64 (length p) @ p) parts)"

definition mac_parts :: "hmac \<Rightarrow> admin \<Rightarrow> bytes list \<Rightarrow> bytes" where
  "mac_parts mac ad parts = mac (ad_signing_key ad) (mac_input parts)"

definition sign_session :: "hmac \<Rightarrow> (bytes \<Rightarrow> bytes) \<Rightarrow> admin \<Rightarrow> nat \<Rightarrow> string \<Rightarrow> string \<Rightarrow> string" where
  "sign_session mac sha ad expiry username password_hash =
     (let frag = pw_fragment sha password_hash;
          tag = mac_parts mac ad [be64 expiry, username, frag]
      in hex_nat expiry @ ''.'' @ hex username @ ''.'' @ frag @ ''.'' @ hex tag)"

definition verify_session ::
  "hmac \<Rightarrow> (bytes \<Rightarrow> bytes) \<Rightarrow> nat \<Rightarrow> admin \<Rightarrow> string \<Rightarrow> stored_config \<Rightarrow> string option" where
  "verify_session mac sha now ad token c =
     (case split_on (CHR ''.'') token of
        [exp_hex, user_hex, frag, tag_hex] \<Rightarrow> do {
          expiry \<leftarrow> parse_hex_u64 exp_hex;
          if expiry < now then None else do {
            username \<leftarrow> unhex user_hex;
            if \<not> utf8_valid username then None
            else if tag_hex \<noteq> hex (mac_parts mac ad [be64 expiry, username, frag]) then None
            else do {
              u \<leftarrow> user_of c username;
              if frag = pw_fragment sha (us_password_hash u) then Some username else None}}}
      | _ \<Rightarrow> None)"

subsection \<open>The throttle and the memo\<close>

definition reset_throttle_window :: "nat \<Rightarrow> throttle \<Rightarrow> throttle" where
  "reset_throttle_window now t =
     (if THROTTLE_WINDOW_SECS \<le> now - th_window_start t then \<lparr>th_window_start = now, th_failures = 0\<rparr> else t)"

definition note_failure :: "nat \<Rightarrow> admin \<Rightarrow> admin \<times> bool" where
  "note_failure now ad =
     (let t = reset_throttle_window now (ad_throttle ad); t = t\<lparr>th_failures := th_failures t + 1\<rparr>
      in (ad\<lparr>ad_throttle := t\<rparr>, THROTTLE_MAX_FAILURES < th_failures t))"

definition is_throttled :: "nat \<Rightarrow> admin \<Rightarrow> bool" where
  "is_throttled now ad \<longleftrightarrow> now - th_window_start (ad_throttle ad) < THROTTLE_WINDOW_SECS \<and>
     THROTTLE_MAX_FAILURES < th_failures (ad_throttle ad)"

definition admit_pre_auth_attempt :: "nat \<Rightarrow> admin \<Rightarrow> admin \<times> bool" where
  "admit_pre_auth_attempt now ad =
     (let t = reset_throttle_window now (ad_throttle ad)
      in if THROTTLE_MAX_FAILURES < th_failures t then (ad\<lparr>ad_throttle := t\<rparr>, False)
         else (ad\<lparr>ad_throttle := t\<lparr>th_failures := th_failures t + 1\<rparr>\<rparr>, True))"

definition clear_scraper_memo :: "admin \<Rightarrow> admin" where
  "clear_scraper_memo ad = ad\<lparr>ad_memo := None\<rparr>"

definition memo_hit :: "hmac \<Rightarrow> admin \<Rightarrow> string \<Rightarrow> string option" where
  "memo_hit mac ad cred =
     (case ad_memo ad of None \<Rightarrow> None
      | Some (t, user) \<Rightarrow> if mac_parts mac ad [cred] = t then Some user else None)"

definition memoize :: "hmac \<Rightarrow> string \<Rightarrow> string \<Rightarrow> admin \<Rightarrow> admin" where
  "memoize mac cred username ad = ad\<lparr>ad_memo := Some (mac_parts mac ad [cred], username)\<rparr>"

subsection \<open>Cookies and identity\<close>

text \<open>
  The request headers that matter here, as the text \<open>to_str\<close> gives; absent or not text is
  \<open>None\<close>.
\<close>

record headers =
  hd_cookie :: "string option"
  hd_authorization :: "string option"
  hd_accept :: "string option"
  hd_forwarded_proto :: "string option"

definition set_cookie :: "admin \<Rightarrow> headers \<Rightarrow> string \<Rightarrow> nat \<Rightarrow> string" where
  "set_cookie ad h token max_age =
     (let secure = ad_trust_proxy ad \<and>
            (case hd_forwarded_proto h of None \<Rightarrow> False | Some p \<Rightarrow> to_ascii_lower p = ''https'')
      in COOKIE @ ''='' @ token @ ''; HttpOnly; SameSite=Strict; Path=/; Max-Age='' @ dec_nat max_age @
         (if secure then ''; Secure'' else []))"

definition cookie_token :: "headers \<Rightarrow> string option" where
  "cookie_token h =
     (case hd_cookie h of None \<Rightarrow> None
      | Some raw \<Rightarrow>
          (case List.find (\<lambda>part. prefix (COOKIE @ ''='') (trim part)) (split_on (CHR '';'') raw) of
             None \<Rightarrow> None
           | Some part \<Rightarrow> str_strip_prefix (COOKIE @ ''='') (trim part)))"

definition mint_session_cookie ::
  "hmac \<Rightarrow> (bytes \<Rightarrow> bytes) \<Rightarrow> nat \<Rightarrow> admin \<Rightarrow> headers \<Rightarrow> string \<Rightarrow> string \<Rightarrow> string" where
  "mint_session_cookie mac sha now ad h username password_hash =
     set_cookie ad h (sign_session mac sha ad (now + SESSION_TTL_SECS) username password_hash) SESSION_TTL_SECS"

text \<open>The credential of an \<open>Authorization\<close> header: a bearer text or decoded Basic.\<close>

definition header_credential :: "headers \<Rightarrow> string option" where
  "header_credential h = do {
     auth \<leftarrow> hd_authorization h;
     case str_strip_prefix ''Bearer '' auth of
       Some bearer \<Rightarrow> Some (trim bearer)
     | None \<Rightarrow> do {
         basic \<leftarrow> str_strip_prefix ''Basic '' auth;
         raw \<leftarrow> base64_decode (trim basic);
         if utf8_valid raw then Some raw else None}}"

text \<open>
  \<open>identify\<close> up to the slow verification: the identity, or the credential with the user name, the
  password and the stored hash to verify; then the end of it, when the verification is done. The
  store and the memo may change in between.
\<close>

datatype identity_step = Known string | Verify string string string string | Nobody

definition identify_start ::
  "hmac \<Rightarrow> (bytes \<Rightarrow> bytes) \<Rightarrow> nat \<Rightarrow> admin \<Rightarrow> stored_config \<Rightarrow> headers \<Rightarrow> identity_step" where
  "identify_start mac sha now ad c h =
     (case (case cookie_token h of None \<Rightarrow> None | Some tok \<Rightarrow> verify_session mac sha now ad tok c) of
        Some user \<Rightarrow> Known user
      | None \<Rightarrow>
          (case header_credential h of
             None \<Rightarrow> Nobody
           | Some cred \<Rightarrow>
               (case memo_hit mac ad cred of
                  Some user \<Rightarrow> Known user
                | None \<Rightarrow>
                    (case split_once (CHR '':'') cred of
                       None \<Rightarrow> Nobody
                     | Some (username, password) \<Rightarrow>
                         (case user_of c username of
                            None \<Rightarrow> Nobody
                          | Some u \<Rightarrow> Verify cred username password (us_password_hash u))))))"

fun identify_finish :: "hmac \<Rightarrow> identity_step \<Rightarrow> admin \<Rightarrow> admin \<times> string option" where
  "identify_finish mac (Known user) ad = (ad, Some user)"
| "identify_finish mac Nobody ad = (ad, None)"
| "identify_finish mac (Verify cred username password stored) ad =
     (if verify_password mac password stored then (memoize mac cred username ad, Some username)
      else (ad, None))"

definition wants_html :: "headers \<Rightarrow> bool" where
  "wants_html h = (case hd_accept h of None \<Rightarrow> False | Some a \<Rightarrow> str_contains ''text/html'' a)"

datatype gate =
    Pass string
  | Redirect string
  | Setup_required_json
  | Unauthorized_json

text \<open>The session gate, given what \<open>identify\<close> answered.\<close>

definition require_session :: "bool \<Rightarrow> headers \<Rightarrow> string option \<Rightarrow> gate" where
  "require_session setup_required h who =
     (if setup_required then (if wants_html h then Redirect ''/setup'' else Setup_required_json)
      else (case who of
              Some username \<Rightarrow> Pass username
            | None \<Rightarrow> if wants_html h then Redirect ''/login'' else Unauthorized_json))"

text \<open>\<open>POST /login\<close>, from the throttle to the answer.\<close>

datatype login_result =
    Login_setup
  | Login_throttled
  | Login_ok string
  | Login_invalid

definition burner_hash :: string where
  "burner_hash = ''pbkdf2-sha256$600000$'' @ replicate 32 (CHR ''0'') @ ''$'' @ replicate 64 (CHR ''0'')"

definition login_submit ::
  "hmac \<Rightarrow> (bytes \<Rightarrow> bytes) \<Rightarrow> nat \<Rightarrow> bool \<Rightarrow> stored_config \<Rightarrow> headers \<Rightarrow> string \<Rightarrow> admin \<Rightarrow> admin \<times> login_result" where
  "login_submit mac sha now setup_required c h body ad =
     (if setup_required then (ad, Login_setup)
      else if is_throttled now ad then (ad, Login_throttled)
      else
        let username = (case form_field body ''username'' of None \<Rightarrow> [] | Some u \<Rightarrow> u);
            password = (case form_field body ''password'' of None \<Rightarrow> [] | Some p \<Rightarrow> p);
            stored = map_option us_password_hash (user_of c username);
            hash = (case stored of None \<Rightarrow> burner_hash | Some s \<Rightarrow> s);
            ok = verify_password mac password hash \<and> stored \<noteq> None
        in if ok then (ad, Login_ok (mint_session_cookie mac sha now ad h username hash))
           else (fst (note_failure now ad), Login_invalid))"

definition logout :: "admin \<Rightarrow> headers \<Rightarrow> string" where
  "logout ad h = set_cookie ad h [] 0"

subsection \<open>The encodings\<close>

lemma hex_val_digit [simp]: "n < 16 \<Longrightarrow> hex_val (hex_digit n) = Some n"
  by (auto simp: hex_val_def hex_digit_def Let_def)

lemma hex_simps [simp]:
  "hex [] = []" "hex (b # bs) = hex_digit (byte_of b div 16) # hex_digit (byte_of b mod 16) # hex bs"
  by (simp_all add: hex_def)

lemma nibbles [simp]: "byte_of b div 16 < 16" "byte_of b mod 16 < 16"
  using byte_of_less [of b] by linarith+

lemma char_of_byte_of [simp]: "char_of (byte_of b) = b"
  by (simp add: byte_of_def)

lemma byte_of_char_of_mod: "byte_of (char_of (n :: nat)) = n mod 256"
  by (simp add: byte_of_def)

lemma unhex_hex: "unhex (hex bs) = Some bs"
  by (induction bs) simp_all

lemma hex_digit_range: "n < 16 \<Longrightarrow> byte_of (hex_digit n) \<in> {48..57} \<union> {97..102}"
  by (auto simp: hex_digit_def)

definition hex_char :: "char \<Rightarrow> bool" where
  "hex_char c \<longleftrightarrow> byte_of c \<in> {48..57} \<union> {97..102}"

lemma hex_char_digit [simp]: "n < 16 \<Longrightarrow> hex_char (hex_digit n)"
  using hex_digit_range by (simp add: hex_char_def)

lemma hex_char_not [simp]: "\<not> hex_char (CHR ''.'')" "\<not> hex_char (CHR ''$'')" "\<not> hex_char (CHR ''+'')"
  by (simp_all add: hex_char_def byte_of_def)

lemma hex_chars: "list_all hex_char (hex bs)"
  by (induction bs) simp_all

lemma hex_nat_chars: "list_all hex_char (hex_nat n) \<and> hex_nat n \<noteq> []"
proof (induction n rule: hex_nat.induct)
  case (1 n)
  then show ?case by (simp add: hex_nat.simps [of n])
qed

lemma dec_nat_chars: "list_all ascii_digit (dec_nat n) \<and> dec_nat n \<noteq> []"
proof (induction n rule: dec_nat.induct)
  case (1 n)
  have "ascii_digit (char_of (48 + n mod 10))" "n < 10 \<Longrightarrow> ascii_digit (char_of (48 + n))"
    by (simp_all add: ascii_digit_def)
  with 1 show ?case by (simp add: dec_nat.simps [of n])
qed

lemma not_in_hex: "\<not> hex_char c \<Longrightarrow> c \<notin> set (hex bs)" "\<not> hex_char c \<Longrightarrow> c \<notin> set (hex_nat n)"
  "\<not> hex_char c \<Longrightarrow> c \<notin> set (take m (hex bs))"
  using hex_chars [of bs] hex_nat_chars [of n] by (auto simp: list_all_iff dest: in_set_takeD)

lemma not_in_dec: "\<not> ascii_digit c \<Longrightarrow> c \<notin> set (dec_nat n)"
  using dec_nat_chars [of n] by (auto simp: list_all_iff)

lemma hex_digits_append:
  "hex_digits_value acc (xs @ ys) =
     (case hex_digits_value acc xs of None \<Rightarrow> None | Some a \<Rightarrow> hex_digits_value a ys)"
  by (induction xs arbitrary: acc) (auto split: option.splits)

lemma hex_digits_hex_nat: "hex_digits_value 0 (hex_nat n) = Some n"
proof (induction n rule: hex_nat.induct)
  case (1 n)
  show ?case
  proof (cases "n < 16")
    case False
    then have "hex_digits_value 0 (hex_nat n) = hex_digits_value (n div 16) [hex_digit (n mod 16)]"
      using 1 by (subst hex_nat.simps) (simp add: hex_digits_append)
    then show ?thesis by simp
  qed (simp add: hex_nat.simps [of n])
qed

lemma dec_digits_append:
  "dec_digits_value acc (xs @ ys) =
     (case dec_digits_value acc xs of None \<Rightarrow> None | Some a \<Rightarrow> dec_digits_value a ys)"
  by (induction xs arbitrary: acc) (auto split: option.splits)

lemma dec_digits_dec_nat: "dec_digits_value 0 (dec_nat n) = Some n"
proof (induction n rule: dec_nat.induct)
  case (1 n)
  have digit: "ascii_digit (char_of (48 + m))" if "m < 10" for m :: nat
    using that by (simp add: ascii_digit_def)
  show ?case
  proof (cases "n < 10")
    case False
    then have "dec_digits_value 0 (dec_nat n) = dec_digits_value (n div 10) [char_of (48 + n mod 10)]"
      using 1 by (subst dec_nat.simps) (simp add: dec_digits_append)
    then show ?thesis using digit [of "n mod 10"] by simp
  qed (simp add: dec_nat.simps [of n] digit)
qed

lemma plus_not_first: "list_all P s \<Longrightarrow> \<not> P (CHR ''+'') \<Longrightarrow>
  (case s of c # cs \<Rightarrow> if c = CHR ''+'' then cs else s | [] \<Rightarrow> s) = s"
  by (cases s) auto

interpretation hx: text_codec "\<lambda>_. True" hex unhex
  by unfold_locales (rule unhex_hex)

interpretation hn: text_codec "\<lambda>n. n < 2 ^ 64" hex_nat parse_hex_u64
proof (unfold_locales, goal_cases)
  case (1 n)
  then show ?case
    using hex_nat_chars [of n] plus_not_first [of hex_char "hex_nat n"]
    by (simp add: parse_hex_u64_def hex_digits_hex_nat)
qed

interpretation dn: text_codec "\<lambda>n. n < 2 ^ 32" dec_nat "parse_dec (2 ^ 32)"
proof (unfold_locales, goal_cases)
  case (1 n)
  have "\<not> ascii_digit (CHR ''+'')" by (simp add: ascii_digit_def byte_of_def)
  with 1 show ?case
    using dec_nat_chars [of n] plus_not_first [of ascii_digit "dec_nat n"]
    by (simp add: parse_dec_def dec_digits_dec_nat)
qed

lemma be64_length [simp]: "length (be64 n) = 8"
  by (simp add: be64_def)

fun of_be :: "bytes \<Rightarrow> nat" where
  "of_be bs = foldl (\<lambda>acc b. acc * 256 + byte_of b) 0 bs"

lemma be_digits:
  "foldl (\<lambda>acc b. acc * 256 + byte_of b) (n div 256 ^ m) (map (\<lambda>i. char_of (n div 256 ^ (m - Suc i) mod 256)) [0..<m]) = n"
proof (induction m)
  case (Suc m)
  have step: "n div 256 ^ Suc m * 256 + n div 256 ^ m mod 256 = n div 256 ^ m"
    using div_mult_mod_eq [of "n div 256 ^ m" 256] by (simp add: power_Suc2 div_mult2_eq del: power_Suc)
  have "map (\<lambda>i. char_of (n div 256 ^ (Suc m - Suc i) mod 256)) [0..<Suc m] =
      char_of (n div 256 ^ m mod 256) # map (\<lambda>i. char_of (n div 256 ^ (m - Suc i) mod 256)) [0..<m]"
    unfolding upt_conv_Cons [OF zero_less_Suc] map_Suc_upt [symmetric] by simp
  then show ?case
    using Suc step by (simp add: byte_of_char_of_mod del: upt_Suc)
qed simp

lemma be64_value: "n < 2 ^ 64 \<Longrightarrow> of_be (be64 n) = n"
  using be_digits [of n 8] by (simp add: be64_def del: upt_Suc)

lemma be64_inject: "m < 2 ^ 64 \<Longrightarrow> n < 2 ^ 64 \<Longrightarrow> be64 m = be64 n \<longleftrightarrow> m = n"
  using be64_value by metis

text \<open>Length prefixes make the message of a MAC determine its parts.\<close>

lemma mac_input_inject:
  assumes "length ps = length qs" "\<forall>p \<in> set ps. length p < 2 ^ 64" "\<forall>q \<in> set qs. length q < 2 ^ 64"
    and "mac_input ps = mac_input qs"
  shows "ps = qs"
  using assms
proof (induction ps qs rule: list_induct2)
  case (Cons p ps q qs)
  from Cons.prems(3) have eq: "be64 (length p) @ p @ mac_input ps = be64 (length q) @ q @ mac_input qs"
    by (simp add: mac_input_def)
  then have "be64 (length p) = be64 (length q)" "p @ mac_input ps = q @ mac_input qs"
    by (simp_all add: append_eq_append_conv)
  then have "length p = length q"
    using be64_inject Cons.prems by simp
  with \<open>p @ mac_input ps = q @ mac_input qs\<close> have "p = q" "mac_input ps = mac_input qs"
    by simp_all
  with Cons show ?case by simp
qed simp

subsection \<open>Properties\<close>

lemma split_on_four:
  assumes "d \<notin> set a" "d \<notin> set b" "d \<notin> set c" "d \<notin> set e"
  shows "split_on d (a @ d # b @ d # c @ d # e) = [a, b, c, e]"
  using assms by (simp add: split_on_append)

lemma split_on_four_iff:
  "split_on d s = [a, b, c, e] \<longleftrightarrow>
     s = a @ d # b @ d # c @ d # e \<and> d \<notin> set a \<and> d \<notin> set b \<and> d \<notin> set c \<and> d \<notin> set e"
proof
  assume sp: "split_on d s = [a, b, c, e]"
  then have "d \<notin> set a" "d \<notin> set b" "d \<notin> set c" "d \<notin> set e"
    using split_on_no_sep [of _ d s] by auto
  moreover have "s = a @ d # b @ d # c @ d # e"
    using join_split_on [of d s] sp by simp
  ultimately show "s = a @ d # b @ d # c @ d # e \<and> d \<notin> set a \<and> d \<notin> set b \<and> d \<notin> set c \<and> d \<notin> set e"
    by blast
qed (auto simp: split_on_append)

lemma dollar_not_digit: "\<not> ascii_digit (CHR ''$'')"
  by (simp add: ascii_digit_def byte_of_def)

text \<open>
  A stored password hash accepts exactly the passwords with the same derived key. Verifying
  any password against the hash produced for another one parses the four fields back, and answers
  whether PBKDF2 with the stored salt and count derives the same key; in particular the password
  itself is accepted.
\<close>

theorem password_hash_verifies:
  "verify_password mac p (hash_password mac salt p') \<longleftrightarrow>
     pbkdf2_sha256 mac p salt PBKDF2_ITERS = pbkdf2_sha256 mac p' salt PBKDF2_ITERS"
proof -
  have "hash_password mac salt p' = ''pbkdf2-sha256'' @ CHR ''$'' # dec_nat PBKDF2_ITERS @ CHR ''$'' # hex salt @
      CHR ''$'' # hex (pbkdf2_sha256 mac p' salt PBKDF2_ITERS)"
    by (simp add: hash_password_def)
  then have "split_on (CHR ''$'') (hash_password mac salt p') =
      [''pbkdf2-sha256'', dec_nat PBKDF2_ITERS, hex salt, hex (pbkdf2_sha256 mac p' salt PBKDF2_ITERS)]"
    using not_in_hex(1) [of "CHR ''$''"] not_in_dec [OF dollar_not_digit] by (simp only: split_on_four_iff) simp
  moreover have "parse_dec (2 ^ 32) (dec_nat PBKDF2_ITERS) = Some PBKDF2_ITERS"
    by (rule dn.dec_enc) (simp add: PBKDF2_ITERS_def)
  moreover have "1 \<le> PBKDF2_ITERS" by (simp add: PBKDF2_ITERS_def)
  ultimately show ?thesis
    by (auto simp: verify_password_def unhex_hex hx.enc_inject)
qed

lemma sign_session_split:
  "split_on (CHR ''.'') (sign_session mac sha ad e u h) =
     [hex_nat e, hex u, pw_fragment sha h, hex (mac_parts mac ad [be64 e, u, pw_fragment sha h])]"
proof -
  have "sign_session mac sha ad e u h = hex_nat e @ CHR ''.'' # hex u @ CHR ''.'' # pw_fragment sha h @
      CHR ''.'' # hex (mac_parts mac ad [be64 e, u, pw_fragment sha h])"
    by (simp add: sign_session_def Let_def)
  then show ?thesis
    unfolding split_on_four_iff
    by (simp add: pw_fragment_def sha256_hex_def not_in_hex)
qed

text \<open>
  C37: a session lives exactly as long as its user, its password generation and its expiry. A token
  signed for a user is accepted if and only if it has not expired, the user still exists in the
  live store and the fragment of the user's current password hash is the one signed; so deleting
  the user or changing the password to a hash with another fragment ends the session at once.
\<close>

theorem session_roundtrip:
  assumes "e < 2 ^ 64" "utf8_valid u"
  shows "verify_session mac sha now ad (sign_session mac sha ad e u h) c =
    (if e < now then None
     else case user_of c u of
       None \<Rightarrow> None
     | Some usr \<Rightarrow> if pw_fragment sha (us_password_hash usr) = pw_fragment sha h then Some u else None)"
proof -
  have "parse_hex_u64 (hex_nat e) = Some e"
    using assms(1) by (rule hn.dec_enc)
  with assms(2) show ?thesis
    by (auto simp: verify_session_def sign_session_split unhex_hex split: option.splits)
qed

lemma user_of_name: "user_of c u = Some usr \<Longrightarrow> us_username usr = u \<and> usr \<in> set (sc_users c)"
  by (auto simp: user_of_def find_Some_iff)

text \<open>
  Nothing but a signed token is accepted. A token accepted for user \<open>u\<close> at time \<open>now\<close> carries,
  in its last field, the MAC under the boot's signing key of an unexpired expiry, of \<open>u\<close> and of the
  fragment of \<open>u\<close>'s current hash, and \<open>u\<close> is in the store; and no other expiry, user or fragment
  has the same MAC input.
\<close>

theorem session_is_signed:
  assumes "verify_session mac sha now ad tok c = Some u"
  shows "\<exists>e usr. now \<le> e \<and> e < 2 ^ 64 \<and> usr \<in> set (sc_users c) \<and> us_username usr = u \<and>
    last (split_on (CHR ''.'') tok) =
      hex (mac (ad_signing_key ad) (mac_input [be64 e, u, pw_fragment sha (us_password_hash usr)])) \<and>
    (\<forall>e' u' f'. e' < 2 ^ 64 \<longrightarrow> length u < 2 ^ 64 \<longrightarrow> length u' < 2 ^ 64 \<longrightarrow> length f' < 2 ^ 64 \<longrightarrow>
       mac_input [be64 e', u', f'] = mac_input [be64 e, u, pw_fragment sha (us_password_hash usr)] \<longrightarrow>
       e' = e \<and> u' = u \<and> f' = pw_fragment sha (us_password_hash usr))"
proof -
  obtain a b f t where sp: "split_on (CHR ''.'') tok = [a, b, f, t]"
    using assms by (auto simp: verify_session_def split: list.splits)
  then obtain e usr where e: "parse_hex_u64 a = Some e" "now \<le> e"
    and usr: "user_of c u = Some usr" "f = pw_fragment sha (us_password_hash usr)"
    and t: "t = hex (mac_parts mac ad [be64 e, u, f])"
    using assms by (auto simp: verify_session_def bind_eq_Some_conv split: if_splits)
  have e64: "e < 2 ^ 64"
    using e(1) by (auto simp: parse_hex_u64_def Let_def split: if_splits option.splits list.splits)
  have "length (pw_fragment sha x) < 2 ^ 64" for x
    by (rule le_less_trans [of _ 8]) (simp_all add: pw_fragment_def)
  then have "mac_input [be64 e', u', f'] = mac_input [be64 e, u, f] \<Longrightarrow> e' = e \<and> u' = u \<and> f' = f"
    if "e' < 2 ^ 64" "length u < 2 ^ 64" "length u' < 2 ^ 64" "length f' < 2 ^ 64" for e' u' f'
    using that e64 mac_input_inject [of "[be64 e', u', f']" "[be64 e, u, f]"]
    by (simp add: usr(2) be64_inject)
  with e e64 usr user_of_name [OF usr(1)] t sp show ?thesis
    by (intro exI [of _ e] exI [of _ usr]) (auto simp: mac_parts_def)
qed

subsection \<open>The throttle\<close>

text \<open>The attempts and failures a limiter sees, and how many attempts it admits.\<close>

datatype throttle_op = Attempt | Failure

fun admitted :: "(nat \<times> throttle_op) list \<Rightarrow> admin \<Rightarrow> nat" where
  "admitted [] ad = 0"
| "admitted ((now, Attempt) # xs) ad =
     (case admit_pre_auth_attempt now ad of (ad', ok) \<Rightarrow> (if ok then 1 else 0) + admitted xs ad')"
| "admitted ((now, Failure) # xs) ad = admitted xs (fst (note_failure now ad))"

fun throttle_step :: "nat \<Rightarrow> throttle_op \<Rightarrow> admin \<Rightarrow> admin" where
  "throttle_step now Attempt ad = fst (admit_pre_auth_attempt now ad)"
| "throttle_step now Failure ad = fst (note_failure now ad)"

text \<open>One operation inside the window, and one that opens a new one.\<close>

lemma throttle_inside:
  assumes "now - th_window_start (ad_throttle ad) < THROTTLE_WINDOW_SECS"
  shows "admitted ((now, x) # xs) ad \<le> admitted xs (throttle_step now x ad) +
      (th_failures (ad_throttle (throttle_step now x ad)) - th_failures (ad_throttle ad))"
    and "th_window_start (ad_throttle (throttle_step now x ad)) = th_window_start (ad_throttle ad)"
    and "th_failures (ad_throttle ad) \<le> th_failures (ad_throttle (throttle_step now x ad))"
    and "admitted ((now, x) # xs) ad = admitted xs (throttle_step now x ad) \<or>
      (th_failures (ad_throttle ad) \<le> THROTTLE_MAX_FAILURES \<and>
       th_failures (ad_throttle (throttle_step now x ad)) = Suc (th_failures (ad_throttle ad)))"
  using assms
  by (cases x; simp add: admit_pre_auth_attempt_def note_failure_def reset_throttle_window_def Let_def)+

lemma throttle_new_window:
  assumes "THROTTLE_WINDOW_SECS \<le> now - th_window_start (ad_throttle ad)"
  shows "admitted ((now, x) # xs) ad \<le> 1 + admitted xs (throttle_step now x ad)"
    and "th_window_start (ad_throttle (throttle_step now x ad)) = now"
    and "th_failures (ad_throttle (throttle_step now x ad)) = 1"
  using assms
  by (cases x; simp add: admit_pre_auth_attempt_def note_failure_def reset_throttle_window_def Let_def)+

lemma admitted_in_window:
  assumes "\<forall>x \<in> set xs. fst x - th_window_start (ad_throttle ad) < THROTTLE_WINDOW_SECS"
  shows "admitted xs ad \<le> THROTTLE_MAX_FAILURES + 1 - th_failures (ad_throttle ad)"
  using assms
proof (induction xs arbitrary: ad)
  case (Cons y xs)
  obtain now x where y: "y = (now, x)" by (cases y)
  have now: "now - th_window_start (ad_throttle ad) < THROTTLE_WINDOW_SECS"
    using Cons.prems by (simp add: y)
  have "admitted xs (throttle_step now x ad) \<le>
      THROTTLE_MAX_FAILURES + 1 - th_failures (ad_throttle (throttle_step now x ad))"
    using Cons.prems by (intro Cons.IH) (simp add: throttle_inside(2) [OF now])
  with throttle_inside(1) [OF now, of x xs] throttle_inside(4) [OF now, of x xs] throttle_inside(3) [OF now, of x] show ?case
    unfolding y by linarith
qed simp

lemma admitted_two_windows:
  assumes "\<forall>x \<in> set xs. a \<le> fst x \<and> fst x < a + THROTTLE_WINDOW_SECS" "sorted (map fst xs)"
  shows "admitted xs ad \<le> (THROTTLE_MAX_FAILURES + 1 - th_failures (ad_throttle ad)) + (THROTTLE_MAX_FAILURES + 1)"
  using assms
proof (induction xs arbitrary: ad)
  case (Cons y xs)
  obtain now x where y: "y = (now, x)" by (cases y)
  show ?case
  proof (cases "THROTTLE_WINDOW_SECS \<le> now - th_window_start (ad_throttle ad)")
    case True
    have "admitted xs (throttle_step now x ad) \<le>
        THROTTLE_MAX_FAILURES + 1 - th_failures (ad_throttle (throttle_step now x ad))"
      using Cons.prems by (intro admitted_in_window) (force simp: y throttle_new_window(2) [OF True])
    then show ?thesis
      using throttle_new_window(1) [OF True, of x xs] throttle_new_window(3) [OF True, of x] unfolding y by linarith
  next
    case False
    then have now: "now - th_window_start (ad_throttle ad) < THROTTLE_WINDOW_SECS" by simp
    have "admitted xs (throttle_step now x ad) \<le>
        THROTTLE_MAX_FAILURES + 1 - th_failures (ad_throttle (throttle_step now x ad)) + (THROTTLE_MAX_FAILURES + 1)"
      using Cons.prems by (intro Cons.IH) (simp_all add: y)
    with throttle_inside(1) [OF now, of x xs] throttle_inside(4) [OF now, of x xs] throttle_inside(3) [OF now, of x] show ?thesis
      unfolding y by linarith
  qed
qed simp

text \<open>
  Pre-auth work is bounded. Whatever attempts and failed logins arrive in time order, at most 22
  attempts are admitted to costly work in any span of 60 seconds (11 for each of the two fixed
  windows it can touch), and at most 11 while no window ends.
\<close>

theorem pre_auth_work_is_bounded:
  assumes "\<forall>x \<in> set xs. a \<le> fst x \<and> fst x < a + 60" "sorted (map fst xs)"
  shows "admitted xs ad \<le> 22 \<and>
    ((\<forall>x \<in> set xs. fst x < th_window_start (ad_throttle ad) + 60) \<longrightarrow> admitted xs ad \<le> 11)"
proof
  show "admitted xs ad \<le> 22"
    using admitted_two_windows [of xs a ad] assms
    by (simp add: THROTTLE_WINDOW_SECS_def THROTTLE_MAX_FAILURES_def)
  show "(\<forall>x \<in> set xs. fst x < th_window_start (ad_throttle ad) + 60) \<longrightarrow> admitted xs ad \<le> 11"
  proof
    assume "\<forall>x \<in> set xs. fst x < th_window_start (ad_throttle ad) + 60"
    then have "\<forall>x \<in> set xs. fst x - th_window_start (ad_throttle ad) < THROTTLE_WINDOW_SECS"
      by (auto simp: THROTTLE_WINDOW_SECS_def)
    from admitted_in_window [OF this] show "admitted xs ad \<le> 11"
      by (simp add: THROTTLE_MAX_FAILURES_def)
  qed
qed

theorem session_roundtrip_witness:
  "verify_session (\<lambda>_ m. m) (\<lambda>x. x) 5 (new_admin 0 [] False)
     (sign_session (\<lambda>_ m. m) (\<lambda>x. x) (new_admin 0 [] False) 9 ''root'' ''h'') demo_config = Some ''root''"
  using session_roundtrip [of 9 "''root''" "\<lambda>_ m. m" "\<lambda>x. x" 5 "new_admin 0 [] False" "''h''" demo_config]
  by (simp add: utf8_valid.simps utf8_unit_def byte_of_def user_of_def demo_config_def)

theorem session_is_signed_witness:
  "last (split_on (CHR ''.'') ''9.726f6f74.7778797a.78'') = ''78''"
  using session_is_signed [of "\<lambda>_ _. ''x''" "\<lambda>_. ''wxyz''" 5 "new_admin 0 [] False" "''9.726f6f74.7778797a.78''"
      demo_config "''root''"]
  by (simp add: verify_session_def parse_hex_u64_def hex_val_def)

theorem pre_auth_work_is_bounded_witness:
  "admitted [(100, Attempt), (130, Failure), (159, Attempt)] (new_admin 90 [] False) \<le> 22"
  using pre_auth_work_is_bounded [of "[(100, Attempt), (130, Failure), (159, Attempt)]" 100 "new_admin 90 [] False"]
  by simp

subsection \<open>The gate\<close>

text \<open>The end-to-end gate of a request: \<open>identify\<close> against one store, then \<open>require_session\<close>.\<close>

definition gated ::
  "hmac \<Rightarrow> (bytes \<Rightarrow> bytes) \<Rightarrow> nat \<Rightarrow> bool \<Rightarrow> stored_config \<Rightarrow> headers \<Rightarrow> admin \<Rightarrow> admin \<times> gate" where
  "gated mac sha now setup_required c h ad =
     (if setup_required then (ad, require_session True h None)
      else (case identify_finish mac (identify_start mac sha now ad c h) ad of
              (ad', who) \<Rightarrow> (ad', require_session False h who)))"

lemma require_session_Pass [simp]:
  "require_session setup h who = Pass u \<longleftrightarrow> \<not> setup \<and> who = Some u"
  by (auto simp: require_session_def split: option.splits)

lemma identify_start_cases:
  "identify_start mac sha now ad c h = Known u \<Longrightarrow>
     (\<exists>tok. cookie_token h = Some tok \<and> verify_session mac sha now ad tok c = Some u) \<or>
     (\<exists>cred. header_credential h = Some cred \<and> memo_hit mac ad cred = Some u)"
  "identify_start mac sha now ad c h = Verify cred u pw stored \<Longrightarrow>
     header_credential h = Some cred \<and> split_once (CHR '':'') cred = Some (u, pw) \<and>
     (\<exists>usr. user_of c u = Some usr \<and> us_password_hash usr = stored)"
  by (auto simp: identify_start_def split: option.splits prod.splits)

lemma gated_cases:
  assumes "gated mac sha now setup c h ad = (ad', Pass u)"
  shows "\<not> setup \<and>
    (ad' = ad \<and> (\<exists>tok. cookie_token h = Some tok \<and> verify_session mac sha now ad tok c = Some u) \<or>
     ad' = ad \<and> (\<exists>cred. header_credential h = Some cred \<and> memo_hit mac ad cred = Some u) \<or>
     (\<exists>cred pw usr. header_credential h = Some cred \<and> split_once (CHR '':'') cred = Some (u, pw) \<and>
        user_of c u = Some usr \<and> verify_password mac pw (us_password_hash usr) \<and> ad' = memoize mac cred u ad))"
proof -
  from assms have not_setup: "\<not> setup" and fin: "identify_finish mac (identify_start mac sha now ad c h) ad = (ad', Some u)"
    by (auto simp: gated_def split: if_splits prod.splits)
  show ?thesis
  proof (cases "identify_start mac sha now ad c h")
    case (Known v)
    with fin identify_start_cases(1) [OF Known] not_setup show ?thesis by auto
  next
    case (Verify cred v pw stored)
    with fin identify_start_cases(2) [OF Verify] not_setup show ?thesis by (auto split: if_splits)
  qed (use fin in simp)
qed

text \<open>
  C38: the gate lets nobody in without a proof of identity. A request passes as user \<open>u\<close> only once
  setup is complete, and only with a session cookie verified for \<open>u\<close>, a header credential that the
  memo holds for \<open>u\<close>, or a header credential whose user part is \<open>u\<close>, a user of the store, and whose
  password part matches that user's stored hash; only the last of them changes the memo.
\<close>

theorem gate_needs_identity:
  assumes "gated mac sha now setup c h ad = (ad', Pass u)"
  shows "\<not> setup \<and>
    (ad' = ad \<and> (\<exists>tok. cookie_token h = Some tok \<and> verify_session mac sha now ad tok c = Some u) \<or>
     ad' = ad \<and> (\<exists>cred. header_credential h = Some cred \<and> memo_hit mac ad cred = Some u) \<or>
     (\<exists>cred pw usr. header_credential h = Some cred \<and> split_once (CHR '':'') cred = Some (u, pw) \<and>
        user_of c u = Some usr \<and> verify_password mac pw (us_password_hash usr) \<and> ad' = memoize mac cred u ad))"
  using assms by (rule gated_cases)

definition no_headers :: headers where
  "no_headers = \<lparr>hd_cookie = None, hd_authorization = None, hd_accept = None, hd_forwarded_proto = None\<rparr>"

lemma memo_hit_memoize [simp]: "memo_hit mac (memoize mac cred u ad) cred = Some u"
  by (simp add: memo_hit_def memoize_def mac_parts_def)

lemma memo_hit_cleared [simp]: "memo_hit mac (clear_scraper_memo ad) cred = None"
  by (simp add: memo_hit_def clear_scraper_memo_def)

theorem gate_needs_identity_witness:
  "\<exists>cred. header_credential (no_headers\<lparr>hd_authorization := Some ''Bearer root:pw''\<rparr>) = Some cred"
proof -
  let ?h = "no_headers\<lparr>hd_authorization := Some ''Bearer root:pw''\<rparr>"
  let ?ad = "memoize (\<lambda>_ m. m) ''root:pw'' ''root'' (new_admin 0 [] False)"
  have "trim ''root:pw'' = ''root:pw''"
    by (rule trim_visible; code_simp)
  then have "header_credential ?h = Some ''root:pw''"
    by (simp add: header_credential_def no_headers_def str_strip_prefix_def)
  then have "gated (\<lambda>_ m. m) (\<lambda>x. x) 0 False demo_config ?h ?ad = (?ad, Pass ''root'')"
    by (simp add: gated_def identify_start_def cookie_token_def no_headers_def)
  from gate_needs_identity [OF this] show ?thesis
    by (auto simp: cookie_token_def no_headers_def)
qed

lemma verify_session_user: "verify_session mac sha now ad tok c = Some u \<Longrightarrow> user_of c u \<noteq> None"
  by (auto simp: verify_session_def bind_eq_Some_conv split: list.splits if_splits)

text \<open>
  Revoking a memoized credential takes effect at once. After the memo is cleared and a user is
  gone from the store, no header credential of that user passes the gate (until a new verification
  is finished against a store that has the user).
\<close>

theorem cleared_memo_revokes:
  assumes "user_of c u = None" "gated mac sha now setup c h (clear_scraper_memo ad) = (ad', Pass v)"
  shows "v \<noteq> u"
  using assms(1) gated_cases [OF assms(2)] by (auto dest: verify_session_user)

theorem cleared_memo_revokes_witness:
  "\<exists>ad' v. gated (\<lambda>_ _. ''x'') (\<lambda>x. x) 5 False
     (demo_config\<lparr>sc_users := [\<lparr>us_username = ''root'', us_password_hash = ''pbkdf2-sha256$1$00$78'',
        us_role = Superuser, us_locale = None\<rparr>]\<rparr>)
     (no_headers\<lparr>hd_authorization := Some ''Bearer root:pw''\<rparr>) (clear_scraper_memo (new_admin 0 [] False))
     = (ad', Pass v) \<and> v \<noteq> ''ghost''"
proof -
  let ?c = "demo_config\<lparr>sc_users := [\<lparr>us_username = ''root'', us_password_hash = ''pbkdf2-sha256$1$00$78'',
        us_role = Superuser, us_locale = None\<rparr>]\<rparr>"
  let ?h = "no_headers\<lparr>hd_authorization := Some ''Bearer root:pw''\<rparr>"
  let ?ad = "clear_scraper_memo (new_admin 0 [] False)"
  have "trim ''root:pw'' = ''root:pw''"
    by (rule trim_visible; code_simp)
  then have cred: "header_credential ?h = Some ''root:pw''"
    by (simp add: header_credential_def no_headers_def str_strip_prefix_def)
  have no_cookie: "cookie_token ?h = None"
    by (simp add: cookie_token_def no_headers_def)
  have digits: "char_of (55 :: nat) = CHR ''7''" "char_of (56 :: nat) = CHR ''8''"
    by code_simp+
  have pw: "verify_password (\<lambda>_ _. ''x'') ''pw'' ''pbkdf2-sha256$1$00$78''"
    by (simp add: verify_password_def parse_dec_def ascii_digit_def byte_of_def pbkdf2_sha256_def hex_def
        hex_digit_def hex_val_def digits)
  have "gated (\<lambda>_ _. ''x'') (\<lambda>x. x) 5 False ?c ?h ?ad = (memoize (\<lambda>_ _. ''x'') ''root:pw'' ''root'' ?ad, Pass ''root'')"
    by (simp add: gated_def identify_start_def no_cookie cred user_of_def pw)
  moreover from this have "''root'' \<noteq> ''ghost''"
    by (rule cleared_memo_revokes [rotated]) (simp add: user_of_def)
  ultimately show ?thesis by blast
qed

text \<open>
  Where revocation falls short: a verification that read the store before the user was removed
  finishes after the memo was cleared and stores the credential again, and the memo does not look
  at the store. So the removed user keeps passing the gate.
\<close>

lemma stale_memo:
  assumes "identify_start mac sha now ad c h = Verify cred u pw stored" "verify_password mac pw stored"
    and "user_of c' u = None" "cookie_token h = None"
  shows "identify_start mac sha now' (fst (identify_finish mac (Verify cred u pw stored) (clear_scraper_memo ad))) c' h = Known u"
  using assms identify_start_cases(2) [OF assms(1)]
  by (simp add: identify_start_def)

end
