(* ===== verification/Settings_Commit.thy ===== *)
theory Settings_Commit
  imports Auth
begin

section \<open>The commit pipeline of the settings (src/settings.rs)\<close>

text \<open>
  The application state the settings handlers write, and the one way they write it: build a
  candidate from the stored configuration, then validate, persist, swap the runtime snapshot,
  rebuild the pool and publish. A handler is a pure edit of the stored configuration, under the
  store lock, put through \<open>commit\<close> by \<open>transact\<close>. What the outside decides is in the environment
  of a step: the clocks, the hash functions, the serializer and the system call a save fails at.
\<close>

subsection \<open>State, environment, answers\<close>

record app_state =
  ap_store :: stored_config
  ap_disk :: data_dir
  ap_cfg :: runtime_config
  ap_pool :: pool
  ap_retention :: nat
  ap_revision :: "64 word"
  ap_setup_required :: bool
  ap_admin :: admin
  ap_models_cache :: "(instant \<times> bytes) option"
  ap_no_inject :: "string set"

record env =
  en_ser :: "stored_config \<Rightarrow> string"
  en_fault :: "nat option"
  en_instant :: instant
  en_now :: nat
  en_mac :: hmac
  en_sha :: "bytes \<Rightarrow> bytes"

datatype settings_error = Invalid_config config_error | Store_not_written

datatype denial =
    Not_your_key_to_remove | Not_your_key_to_change | Not_your_client_key
  | Mode_needs_admin | Server_needs_admin | Users_need_admin
  | Superuser_not_deletable | Superuser_password_own | Superuser_role_fixed

datatype complaint =
    Refused settings_error
  | No_such_key | No_such_client_key | No_such_user
  | No_such_upstream string
  | Primary_not_removable
  | Bad_mode | Bad_role
  | Not_one_action

datatype reply =
    Applied
  | Clients_applied "string option"
  | Claimed string "(string \<times> string) option" bool
  | Password_applied string
  | Probe string string
  | Setup_complete
  | Weak_password
  | Throttled
  | Stale_session
  | Forbidden denial
  | Bad_request complaint
  | Wrong_password
  | Password_changed
  | Invalid_action
  | Invalid_locale
  | Locale_not_available string
  | Unknown_upstream_before_setup
  | Invalid_base_url config_error

subsection \<open>Commit\<close>

text \<open>
  A save runs up to the system call it fails at. Errors of the removal of an old temporary file
  and of the final directory sync are ignored by the code, so the save counts as done once the
  rename is.
\<close>

definition try_save :: "(stored_config \<Rightarrow> string) \<Rightarrow> nat option \<Rightarrow> stored_config \<Rightarrow> data_dir \<Rightarrow> data_dir \<times> bool" where
  "try_save ser fault c d =
     (let n = (case fault of None \<Rightarrow> 7 | Some n \<Rightarrow> n) in
      case run_calls (take n (save_calls (ser c))) d of
        None \<Rightarrow> (d, False)
      | Some d' \<Rightarrow> (d', 6 \<le> n))"

definition commit :: "env \<Rightarrow> stored_config \<Rightarrow> app_state \<Rightarrow> app_state \<times> (settings_error + unit)" where
  "commit env cand st =
     (case validate cand of
        Err e \<Rightarrow> (st, Err (Invalid_config e))
      | Ok _ \<Rightarrow>
          (case try_save (en_ser env) (en_fault env) cand (ap_disk st) of
             (d, False) \<Rightarrow> (st\<lparr>ap_disk := d\<rparr>, Err Store_not_written)
           | (d, True) \<Rightarrow>
               (st\<lparr>ap_disk := d,
                  ap_cfg := runtime cand,
                  ap_pool := rebuild (en_instant env) (ap_pool st) (pool_specs cand),
                  ap_retention := (if sc_history_days cand \<noteq> sc_history_days (ap_store st)
                    then sc_history_days cand else ap_retention st),
                  ap_store := cand,
                  ap_revision := ap_revision st + 1\<rparr>, Ok ())))"

text \<open>An edit of the stored configuration put through \<open>commit\<close>, then what follows a success.\<close>

definition transact ::
  "('s \<Rightarrow> 'c) \<Rightarrow> ('c \<Rightarrow> 's \<Rightarrow> 's \<times> (settings_error + unit)) \<Rightarrow> ('c \<Rightarrow> reply + 'c) \<Rightarrow> ('s \<Rightarrow> 's \<times> reply) \<Rightarrow> 's \<Rightarrow> 's \<times> reply" where
  "transact store com edit finish s =
     (case edit (store s) of
        Err r \<Rightarrow> (s, r)
      | Ok c \<Rightarrow>
          (case com c s of
             (s', Ok _) \<Rightarrow> finish s'
           | (s', Err e) \<Rightarrow> (s', Bad_request (Refused e))))"

subsection \<open>The contract of a commit\<close>

text \<open>
  What the handlers rely on: a commit that answers an error leaves the configuration alone, one
  that succeeds publishes exactly the candidate, and neither breaks the state, provided the saved text of the candidate reads back.
\<close>

locale commit_port =
  fixes store :: "'s \<Rightarrow> 'c"
    and com :: "'c \<Rightarrow> 's \<Rightarrow> 's \<times> (settings_error + unit)"
    and good :: "'s \<Rightarrow> bool"
    and readable :: "'c \<Rightarrow> bool"
    and accepts :: "'c \<Rightarrow> bool"
  assumes com_ok: "com c s = (s', Ok u) \<Longrightarrow> store s' = c \<and> accepts c"
    and com_err: "com c s = (s', Err e) \<Longrightarrow> store s' = store s"
    and com_good: "good s \<Longrightarrow> com c s = (s', r) \<Longrightarrow> (r = Ok () \<Longrightarrow> readable c) \<Longrightarrow> good s'"
begin

lemma transact_cases:
  assumes "transact store com edit finish s = (s', r)"
  obtains (edit_refused) "edit (store s) = Err r" "s' = s"
  | (commit_failed) c e where "edit (store s) = Ok c" "com c s = (s', Err e)" "r = Bad_request (Refused e)"
  | (committed) c s1 where "edit (store s) = Ok c" "com c s = (s1, Ok ())" "finish s1 = (s', r)"
  using assms by (auto simp: transact_def split: sum.splits prod.splits)

lemma transact_good:
  assumes "good s" "transact store com edit finish s = (s', r)" "readable (store s')"
    and finish: "\<And>s1 s2 q. finish s1 = (s2, q) \<Longrightarrow> store s2 = store s1 \<and> (good s1 \<longrightarrow> good s2)"
  shows "good s'"
  using assms(2)
proof (cases rule: transact_cases)
  case (commit_failed c e)
  then show ?thesis using com_good [OF assms(1)] by blast
next
  case (committed c s1)
  then have "readable c" using com_ok finish assms(3) by metis
  with committed show ?thesis using com_good [OF assms(1)] finish by blast
qed (use assms(1) in simp)

lemma transact_store:
  assumes "transact store com edit finish s = (s', r)" "\<And>s1 s2 q. finish s1 = (s2, q) \<Longrightarrow> store s2 = store s1"
  shows "store s' = store s \<or> (edit (store s) = Ok (store s') \<and> accepts (store s'))"
  using assms(1) by (cases rule: transact_cases) (use assms(2) com_ok com_err in fastforce)+

end

subsection \<open>The state of a running server\<close>

text \<open>
  The configuration is valid, the runtime snapshot and the pool are made from it, and a restart
  would load it from the disk (or find no store where nothing was ever saved). The lanes of the pool are compared without their history.
\<close>

definition lane_face :: "lane \<Rightarrow> lane" where
  "lane_face l = l\<lparr>ln_sent := [], ln_cooldown := 0\<rparr>"

definition pool_matches :: "pool \<Rightarrow> lane_spec list \<Rightarrow> bool" where
  "pool_matches p specs \<longleftrightarrow>
     map lane_face (pl_lanes p) =
       map (\<lambda>s. lane_of_spec s [] 0) (filter sp_enabled specs @ filter (\<lambda>s. \<not> sp_enabled s) specs) \<and>
     pl_active p = length (filter sp_enabled specs)"

definition stored_on_disk :: "(string \<Rightarrow> stored_config option) \<Rightarrow> app_state \<Rightarrow> bool" where
  "stored_on_disk parse st \<longleftrightarrow> load parse (ap_disk st) = Ok (Some (ap_store st)) \<or>
     load parse (ap_disk st) = Ok None \<and> ap_store st = default_config"

definition server_sound :: "(string \<Rightarrow> stored_config option) \<Rightarrow> app_state \<Rightarrow> bool" where
  "server_sound parse st \<longleftrightarrow> config_valid (ap_store st) \<and> ap_cfg st = runtime (ap_store st) \<and>
     pool_matches (ap_pool st) (pool_specs (ap_store st)) \<and> ap_retention st = sc_history_days (ap_store st) \<and>
     stored_on_disk parse st"

lemma rebuild_matches: "pool_matches (rebuild now p specs) specs"
proof -
  have "map lane_face (pl_lanes (rebuild now p specs)) =
      map (\<lambda>s. lane_of_spec s [] 0) (sort_key (\<lambda>s. \<not> sp_enabled s) specs)"
    by (simp add: rebuild_def assemble_def Let_def lane_face_def lane_of_spec_def split: option.splits)
  moreover have "pl_active (rebuild now p specs) = length (filter sp_enabled specs)"
    by (simp add: rebuild_def assemble_def Let_def sort_key_bool)
  ultimately show ?thesis by (simp add: pool_matches_def sort_key_bool)
qed

lemma lane_face_spec [simp]: "lane_face (lane_of_spec s ts cd) = lane_of_spec s [] 0"
  by (simp add: lane_face_def lane_of_spec_def)

text \<open>A save that failed leaves what a start would load; one that was done leaves the candidate.\<close>

lemma save_prefix:
  "\<exists>d'. run_calls (take n (save_calls t)) d = Some d' \<and>
     dd_store d' = (if n < 6 then dd_store d else Some \<lparr>fl_text = t, fl_mode = 384, fl_synced = True\<rparr>)"
proof -
  consider "n \<in> {0, 1, 2, 3, 4, 5, 6}" | "7 \<le> n" by fastforce
  then show ?thesis
  proof cases
    case 1
    then show ?thesis by (auto simp: save_calls_def)
  next
    case 2
    then have "take n (save_calls t) = save_calls t" by (simp add: save_calls_def)
    with 2 show ?thesis by (simp add: save_calls_def)
  qed
qed

lemma try_save_store:
  assumes "try_save ser fault c d = (d', ok)"
  shows "dd_store d' = (if ok then Some \<lparr>fl_text = ser c, fl_mode = 384, fl_synced = True\<rparr> else dd_store d)"
proof -
  define n where "n = (case fault of None \<Rightarrow> 7 | Some n \<Rightarrow> n)"
  obtain e where e: "run_calls (take n (save_calls (ser c))) d = Some e"
    "dd_store e = (if n < 6 then dd_store d else Some \<lparr>fl_text = ser c, fl_mode = 384, fl_synced = True\<rparr>)"
    using save_prefix by blast
  have "try_save ser fault c d = (e, 6 \<le> n)"
    unfolding try_save_def n_def [symmetric] Let_def e(1) by simp
  with assms e(2) show ?thesis by auto
qed

lemma load_saved:
  assumes "validate c = Ok ()" "parse (ser c) = Some c"
    and "dd_store d = Some \<lparr>fl_text = ser c, fl_mode = m, fl_synced = b\<rparr>"
  shows "load parse d = Ok (Some c)"
  using assms validate_valid [of c] by (simp add: load_def config_valid_def)

text \<open>The two ways a commit ends.\<close>

lemma commit_Err:
  assumes "commit env cand st = (st', Err e)"
  shows "\<exists>d. st' = st\<lparr>ap_disk := d\<rparr> \<and> dd_store d = dd_store (ap_disk st)"
  using assms
  by (auto simp: commit_def try_save_store split: sum.splits prod.splits bool.splits intro: exI [of _ "ap_disk st"])

lemma commit_Ok:
  assumes "commit env cand st = (st', Ok u)"
  shows "validate cand = Ok () \<and> ap_store st' = cand \<and> ap_cfg st' = runtime cand \<and>
    ap_pool st' = rebuild (en_instant env) (ap_pool st) (pool_specs cand) \<and>
    ap_retention st' = (if sc_history_days cand \<noteq> sc_history_days (ap_store st) then sc_history_days cand else ap_retention st) \<and>
    ap_revision st' = ap_revision st + 1 \<and> ap_setup_required st' = ap_setup_required st \<and> ap_admin st' = ap_admin st \<and>
    ap_models_cache st' = ap_models_cache st \<and> ap_no_inject st' = ap_no_inject st \<and>
    dd_store (ap_disk st') = Some \<lparr>fl_text = en_ser env cand, fl_mode = 384, fl_synced = True\<rparr>"
  using assms by (auto simp: commit_def try_save_store split: sum.splits prod.splits bool.splits)

lemma commit_sound:
  assumes "server_sound parse st" "commit env c st = (st', r)" "r = Ok () \<Longrightarrow> parse (en_ser env c) = Some c"
  shows "server_sound parse st'"
proof (cases r)
  case (Inl e)
  from commit_Err [OF assms(2) [unfolded Inl]] obtain d
    where d: "st' = st\<lparr>ap_disk := d\<rparr>" "dd_store d = dd_store (ap_disk st)" by blast
  have "load parse d = load parse (ap_disk st)" by (rule load_store) (rule d(2))
  with assms(1) d(1) show ?thesis
    by (simp add: server_sound_def stored_on_disk_def)
next
  case (Inr u)
  note com = commit_Ok [OF assms(2) [unfolded Inr]]
  have "parse (en_ser env c) = Some c" using assms(3) Inr by simp
  with com have "load parse (ap_disk st') = Ok (Some c)"
    using load_saved [of c parse "en_ser env" "ap_disk st'" 384 True] by blast
  moreover have "config_valid c" using com validate_valid by blast
  ultimately show ?thesis
    using com assms(1) by (auto simp: server_sound_def stored_on_disk_def rebuild_matches)
qed

interpretation cp: commit_port ap_store "commit env" "server_sound parse" "\<lambda>c. parse (en_ser env c) = Some c"
  "\<lambda>c. validate c = Ok ()" for env parse
proof (unfold_locales, goal_cases)
  case (1 c s s' u)
  then show ?case using commit_Ok by blast
next
  case (2 c s s' e)
  then show ?case using commit_Err by fastforce
next
  case (3 s c s' r)
  then show ?case using commit_sound by blast
qed

end
