(* ===== verification/Settings.thy ===== *)
theory Settings
  imports Settings_Commit
begin

section \<open>The settings handlers (src/settings.rs)\<close>

text \<open>
  One edit per handler: a function from the caller, the request and the stored configuration to a
  refusal or a candidate, with the handler's checks in their order; and the handler itself, the
  edit put through \<open>commit\<close> with what follows it. Handlers that leave the store lock to hash or
  verify a password are two steps, so that other steps may come between.
\<close>

subsection \<open>Requests\<close>

record setup_group =
  sg_name :: string
  sg_base_url :: string
  sg_keys :: "(string \<times> nat option) list"
  sg_stream_options :: bool

record setup_req =
  sr_username :: string
  sr_password :: string
  sr_base_url :: "string option"
  sr_nim_keys :: "(string \<times> nat option) list"
  sr_groups :: "setup_group list"
  sr_create_client_key :: "string option"

record setup_form =
  sf_username :: string
  sf_password :: string
  sf_base_url :: "string option"
  sf_nim_key :: "string option"
  sf_nim_rpm :: "nat option"

record validate_key_req =
  vk_key :: string
  vk_base_url :: "string option"
  vk_upstream :: "string option"

record add_nim_key =
  an_key :: string
  an_rpm :: "nat option"
  an_upstream :: "string option"

record set_nim_key =
  sn_fingerprint :: string
  sn_enabled :: "bool option"
  sn_rpm :: "nat option"

record nim_keys_req =
  nr_add :: "add_nim_key option"
  nr_remove :: "string option"
  nr_set :: "set_nim_key option"

record clients_req =
  cr_add :: "string option"
  cr_remove :: "string option"
  cr_mode :: "string option"

record add_upstream =
  au_name :: string
  au_base_url :: string
  au_models :: "string list option"
  au_stream_options :: bool

record set_upstream =
  su_name :: string
  su_enabled :: "bool option"
  su_base_url :: "string option"
  su_models :: "string list option"
  su_stream_options :: "bool option"

record upstreams_req =
  ur_add :: "add_upstream option"
  ur_remove :: "string option"
  ur_set :: "set_upstream option"

record history_req =
  hr_days :: nat
  hr_default_window_days :: nat
  hr_slo_target_percent :: f64

record governor_req =
  gr_enabled :: "bool option"
  gr_set_override :: "(string \<times> nat) option"
  gr_remove_override :: "string option"

record add_user =
  ad_username :: string
  ad_password :: string
  ad_role :: string

record users_req =
  us_add :: "add_user option"
  us_remove :: "string option"
  us_reset_password :: "(string \<times> string) option"
  us_set_role :: "(string \<times> string) option"

subsection \<open>Keys, fingerprints, roles\<close>

text \<open>The characters of a valid UTF-8 text, and the last four of them.\<close>

function utf8_chars :: "bytes \<Rightarrow> bytes list" where
  "utf8_chars s = (if s = [] then [] else take (snd (utf8_unit s)) s # utf8_chars (drop (snd (utf8_unit s)) s))"
  by pat_completeness auto
termination
  by (relation "measure length") (auto simp: utf8_unit_pos)

declare utf8_chars.simps [simp del]

definition last4 :: "string \<Rightarrow> string" where
  "last4 s = concat (drop (length (utf8_chars s) - 4) (utf8_chars s))"

definition fingerprint :: "(bytes \<Rightarrow> bytes) \<Rightarrow> string \<Rightarrow> string" where
  "fingerprint sha key = take 8 (sha256_hex sha key)"

definition mint_client_secret :: "bytes \<Rightarrow> string" where
  "mint_client_secret raw = ''npk_'' @ hex raw"

definition role_of :: "stored_config \<Rightarrow> string \<Rightarrow> role option" where
  "role_of c username = map_option us_role (user_of c username)"

definition parse_role :: "string \<Rightarrow> role option" where
  "parse_role s = (if s = ''admin'' then Some Admin else if s = ''user'' then Some User else None)"

text \<open>The role check of the admin sections.\<close>

definition need_admin :: "denial \<Rightarrow> string \<Rightarrow> stored_config \<Rightarrow> reply + unit" where
  "need_admin d username c =
     (case role_of c username of
        Some r \<Rightarrow> if is_admin r then Ok () else Err (Forbidden d)
      | None \<Rightarrow> Err Stale_session)"

definition admin_edit ::
  "(stored_config \<Rightarrow> reply + stored_config) \<Rightarrow> string \<Rightarrow> stored_config \<Rightarrow> reply + stored_config" where
  "admin_edit f username c = bind_result (need_admin Server_needs_admin username c) (\<lambda>_. f c)"

text \<open>Every key list, the primary group's first, searched for the first key that matches.\<close>

fun remove_first_key ::
  "(nim_key \<Rightarrow> bool) \<Rightarrow> (string \<times> nim_key list) list \<Rightarrow> (nim_key list list \<times> string \<times> string) option" where
  "remove_first_key P [] = None"
| "remove_first_key P ((g, ks) # gs) =
     (case position P ks of
        Some i \<Rightarrow> Some (remove_nth i ks # map snd gs, nk_owner (ks ! i), g)
      | None \<Rightarrow> map_option (\<lambda>(ls, r). (ks # ls, r)) (remove_first_key P gs))"

fun find_first_key :: "(nim_key \<Rightarrow> bool) \<Rightarrow> (string \<times> nim_key list) list \<Rightarrow> nim_key option" where
  "find_first_key P [] = None"
| "find_first_key P ((g, ks) # gs) =
     (case List.find P ks of Some k \<Rightarrow> Some k | None \<Rightarrow> find_first_key P gs)"

fun update_first_key ::
  "(nim_key \<Rightarrow> bool) \<Rightarrow> (nim_key \<Rightarrow> nim_key) \<Rightarrow> (string \<times> nim_key list) list \<Rightarrow> nim_key list list" where
  "update_first_key P f [] = []"
| "update_first_key P f ((g, ks) # gs) =
     (if list_ex P ks then update_first P f ks # map snd gs else ks # update_first_key P f gs)"

definition set_key_lists :: "nim_key list list \<Rightarrow> stored_config \<Rightarrow> stored_config" where
  "set_key_lists ls c = c\<lparr>sc_upstream := (sc_upstream c)\<lparr>up_nim_keys := hd ls\<rparr>,
     sc_upstreams := map2 (\<lambda>ep ks. ep\<lparr>ue_keys := ks\<rparr>) (sc_upstreams c) (tl ls)\<rparr>"

definition remove_key :: "(bytes \<Rightarrow> bytes) \<Rightarrow> string \<Rightarrow> stored_config \<Rightarrow> (stored_config \<times> string \<times> string) option" where
  "remove_key sha fp c =
     map_option (\<lambda>(ls, r). (set_key_lists ls c, r))
       (remove_first_key (\<lambda>k. fingerprint sha (nk_key k) = fp) (key_groups c))"

definition find_key :: "(bytes \<Rightarrow> bytes) \<Rightarrow> string \<Rightarrow> stored_config \<Rightarrow> nim_key option" where
  "find_key sha fp c = find_first_key (\<lambda>k. fingerprint sha (nk_key k) = fp) (key_groups c)"

definition update_key :: "(bytes \<Rightarrow> bytes) \<Rightarrow> string \<Rightarrow> (nim_key \<Rightarrow> nim_key) \<Rightarrow> stored_config \<Rightarrow> stored_config" where
  "update_key sha fp f c =
     set_key_lists (update_first_key (\<lambda>k. fingerprint sha (nk_key k) = fp) f (key_groups c)) c"

definition or_else :: "'a option \<Rightarrow> 'a \<Rightarrow> 'a" where
  "or_else x d = (case x of None \<Rightarrow> d | Some y \<Rightarrow> y)"

subsection \<open>First-time setup\<close>

definition setup_of_form :: "setup_form \<Rightarrow> setup_req" where
  "setup_of_form f = \<lparr>sr_username = sf_username f, sr_password = sf_password f, sr_base_url = sf_base_url f,
     sr_nim_keys = (case sf_nim_key f of None \<Rightarrow> []
       | Some k \<Rightarrow> if trim k = [] then [] else [(k, sf_nim_rpm f)]),
     sr_groups = [], sr_create_client_key = None\<rparr>"

definition setup_keys :: "string \<Rightarrow> (string \<times> nat option) list \<Rightarrow> nim_key list" where
  "setup_keys user ks = map (\<lambda>(k, rpm).
     \<lparr>nk_key = trim k, nk_owner = user, nk_enabled = True, nk_rpm = or_else rpm 40\<rparr>) ks"

definition adopt_orphans :: "string \<Rightarrow> stored_config \<Rightarrow> stored_config" where
  "adopt_orphans user c =
     c\<lparr>sc_upstream := (sc_upstream c)\<lparr>up_nim_keys := map (\<lambda>k. k\<lparr>nk_owner := user\<rparr>) (up_nim_keys (sc_upstream c))\<rparr>,
       sc_client_auth := (sc_client_auth c)\<lparr>ca_keys := map (\<lambda>k. k\<lparr>ck_owner := user\<rparr>) (ca_keys (sc_client_auth c))\<rparr>\<rparr>"

definition set_primary_url :: "string \<Rightarrow> stored_config \<Rightarrow> stored_config" where
  "set_primary_url url c = c\<lparr>sc_upstream := (sc_upstream c)\<lparr>up_base_url := url\<rparr>\<rparr>"

definition push_primary_keys :: "nim_key list \<Rightarrow> stored_config \<Rightarrow> stored_config" where
  "push_primary_keys ks c = c\<lparr>sc_upstream := (sc_upstream c)\<lparr>up_nim_keys := up_nim_keys (sc_upstream c) @ ks\<rparr>\<rparr>"

definition group_endpoint :: "string \<Rightarrow> setup_group \<Rightarrow> upstream_endpoint" where
  "group_endpoint user g = \<lparr>ue_name = trim (sg_name g), ue_base_url = normalize_base_url (trim (sg_base_url g)),
     ue_enabled = True, ue_keys = setup_keys user (sg_keys g), ue_models = [],
     ue_stream_options = sg_stream_options g\<rparr>"

definition claim_groups :: "setup_req \<Rightarrow> stored_config \<Rightarrow> stored_config" where
  "claim_groups req c =
     (case sr_groups req of
        [] \<Rightarrow> push_primary_keys (setup_keys (sr_username req) (sr_nim_keys req)) c
      | g # gs \<Rightarrow>
          let c = (if sg_base_url g = [] then c
                   else set_primary_url (normalize_base_url (trim (sg_base_url g))) c);
              c = push_primary_keys (setup_keys (sr_username req) (sg_keys g)) c
          in c\<lparr>sc_upstreams := sc_upstreams c @ map (group_endpoint (sr_username req))
               (filter (\<lambda>g. trim (sg_name g) \<noteq> PRIMARY_UPSTREAM) gs)\<rparr>)"

definition new_client_key :: "(bytes \<Rightarrow> bytes) \<Rightarrow> string \<Rightarrow> string \<Rightarrow> string \<Rightarrow> client_key" where
  "new_client_key sha owner name secret = \<lparr>ck_name = trim name, ck_secret_sha256 = sha256_hex sha secret,
     ck_last4 = last4 secret, ck_owner = owner\<rparr>"

definition push_client_key :: "client_key \<Rightarrow> stored_config \<Rightarrow> stored_config" where
  "push_client_key k c = c\<lparr>sc_client_auth := (sc_client_auth c)\<lparr>ca_keys := ca_keys (sc_client_auth c) @ [k]\<rparr>\<rparr>"

definition setup_edit :: "(bytes \<Rightarrow> bytes) \<Rightarrow> setup_req \<Rightarrow> string \<Rightarrow> string \<Rightarrow> stored_config \<Rightarrow> reply + stored_config" where
  "setup_edit sha req hash secret c =
     (if superuser c \<noteq> None then Err Setup_complete
      else
        let user = sr_username req;
            c = c\<lparr>sc_users := [\<lparr>us_username = user, us_password_hash = hash, us_role = Superuser, us_locale = None\<rparr>]\<rparr>;
            c = adopt_orphans user c;
            c = (case sr_base_url req of None \<Rightarrow> c | Some b \<Rightarrow> set_primary_url (trim_end_matches ''/'' (trim b)) c);
            c = claim_groups req c
        in Ok (case sr_create_client_key req of None \<Rightarrow> c
               | Some name \<Rightarrow> push_client_key (new_client_key sha user name secret) c))"

text \<open>Up to the hashing: the flag, the length of the password, the throttle.\<close>

definition setup_begin :: "env \<Rightarrow> setup_req \<Rightarrow> app_state \<Rightarrow> app_state \<times> reply option" where
  "setup_begin env req st =
     (if \<not> ap_setup_required st then (st, Some Setup_complete)
      else if length (sr_password req) < 10 then (st, Some Weak_password)
      else (case admit_pre_auth_attempt (en_now env) (ap_admin st) of
              (ad, ok) \<Rightarrow> (st\<lparr>ap_admin := ad\<rparr>, if ok then None else Some Throttled)))"

definition setup_claim ::
  "env \<Rightarrow> setup_req \<Rightarrow> bytes \<Rightarrow> bytes \<Rightarrow> headers \<Rightarrow> bool \<Rightarrow> app_state \<Rightarrow> app_state \<times> reply" where
  "setup_claim env req salt raw h form st =
     (let hash = hash_password (en_mac env) salt (sr_password req);
          secret = mint_client_secret raw
      in transact ap_store (commit env) (setup_edit (en_sha env) req hash secret)
           (\<lambda>s. (s\<lparr>ap_setup_required := False\<rparr>,
              Claimed (mint_session_cookie (en_mac env) (en_sha env) (en_now env) (ap_admin s) h (sr_username req) hash)
                (map_option (\<lambda>name. (trim name, secret)) (sr_create_client_key req)) form)) st)"

text \<open>The key probes: what is probed, and with which key; the probe itself is not modelled.\<close>

definition setup_validate_key :: "env \<Rightarrow> validate_key_req \<Rightarrow> app_state \<Rightarrow> app_state \<times> reply" where
  "setup_validate_key env req st =
     (if \<not> ap_setup_required st then (st, Setup_complete)
      else if vk_upstream req \<noteq> None then (st, Unknown_upstream_before_setup)
      else (case admit_pre_auth_attempt (en_now env) (ap_admin st) of
              (ad, False) \<Rightarrow> (st\<lparr>ap_admin := ad\<rparr>, Throttled)
            | (ad, True) \<Rightarrow>
                let base = trim_end_matches ''/'' (trim (or_else (vk_base_url req) (up_base_url (sc_upstream (ap_store st)))))
                in (st\<lparr>ap_admin := ad\<rparr>,
                    (case check_base_url base of
                       Err e \<Rightarrow> Invalid_base_url e
                     | Ok _ \<Rightarrow> Probe base (trim (vk_key req))))))"

definition validate_key :: "validate_key_req \<Rightarrow> stored_config \<Rightarrow> reply" where
  "validate_key req c =
     (let group = or_else (vk_upstream req) PRIMARY_UPSTREAM;
          base = (if group = PRIMARY_UPSTREAM then Some (up_base_url (sc_upstream c))
                  else map_option ue_base_url (List.find (\<lambda>ep. ue_name ep = group) (sc_upstreams c)))
      in case base of
           None \<Rightarrow> Bad_request (No_such_upstream group)
         | Some b \<Rightarrow> Probe (trim_end_matches ''/'' (trim b)) (trim (vk_key req)))"

definition upstream_host :: "string \<Rightarrow> string" where
  "upstream_host base_url =
     (let no_scheme = (case filter (\<lambda>i. prefix ''://'' (drop i base_url)) [0..<length base_url] of
            [] \<Rightarrow> base_url | i # _ \<Rightarrow> drop (i + 3) base_url)
      in hd (split_on (CHR ''/'') no_scheme))"

subsection \<open>Keys\<close>

definition nim_keys_edit ::
  "(bytes \<Rightarrow> bytes) \<Rightarrow> string \<Rightarrow> nim_keys_req \<Rightarrow> stored_config \<Rightarrow> reply + stored_config" where
  "nim_keys_edit sha username req c =
     (case role_of c username of
        None \<Rightarrow> Err Stale_session
      | Some role \<Rightarrow>
          (case (nr_add req, nr_remove req, nr_set req) of
             (Some add, None, None) \<Rightarrow>
               let group = or_else (an_upstream add) PRIMARY_UPSTREAM in
               (case group_keys c group of
                  None \<Rightarrow> Err (Bad_request (No_such_upstream group))
                | Some ks \<Rightarrow> Ok (set_group_keys group
                    (ks @ [\<lparr>nk_key = trim (an_key add), nk_owner = username, nk_enabled = True,
                            nk_rpm = or_else (an_rpm add) 40\<rparr>]) c))
           | (None, Some fp, None) \<Rightarrow>
               (case remove_key sha fp c of
                  None \<Rightarrow> Err (Bad_request No_such_key)
                | Some (c', owner, _) \<Rightarrow>
                    if \<not> is_admin role \<and> owner \<noteq> username then Err (Forbidden Not_your_key_to_remove) else Ok c')
           | (None, None, Some s) \<Rightarrow>
               (case find_key sha (sn_fingerprint s) c of
                  None \<Rightarrow> Err (Bad_request No_such_key)
                | Some k \<Rightarrow>
                    if \<not> is_admin role \<and> nk_owner k \<noteq> username then Err (Forbidden Not_your_key_to_change)
                    else Ok (update_key sha (sn_fingerprint s) (\<lambda>k. k\<lparr>nk_enabled := or_else (sn_enabled s) (nk_enabled k),
                           nk_rpm := or_else (sn_rpm s) (nk_rpm k)\<rparr>) c))
           | _ \<Rightarrow> Err (Bad_request Not_one_action)))"

definition nim_keys :: "env \<Rightarrow> string \<Rightarrow> nim_keys_req \<Rightarrow> app_state \<Rightarrow> app_state \<times> reply" where
  "nim_keys env username req =
     transact ap_store (commit env) (nim_keys_edit (en_sha env) username req) (\<lambda>s. (s, Applied))"

definition remove_client_key :: "nat \<Rightarrow> stored_config \<Rightarrow> stored_config" where
  "remove_client_key i c =
     c\<lparr>sc_client_auth := (sc_client_auth c)\<lparr>ca_keys := remove_nth i (ca_keys (sc_client_auth c))\<rparr>\<rparr>"

definition set_mode :: "mode \<Rightarrow> stored_config \<Rightarrow> stored_config" where
  "set_mode m c = c\<lparr>sc_client_auth := (sc_client_auth c)\<lparr>ca_mode := m\<rparr>\<rparr>"

definition clients_edit ::
  "(bytes \<Rightarrow> bytes) \<Rightarrow> string \<Rightarrow> string \<Rightarrow> clients_req \<Rightarrow> stored_config \<Rightarrow> reply + stored_config" where
  "clients_edit sha secret username req c =
     (case role_of c username of
        None \<Rightarrow> Err Stale_session
      | Some role \<Rightarrow>
          (case (cr_add req, cr_remove req, cr_mode req) of
             (Some name, None, None) \<Rightarrow> Ok (push_client_key (new_client_key sha username name secret) c)
           | (None, Some name, None) \<Rightarrow>
               (case position (\<lambda>k. ck_name k = name) (ca_keys (sc_client_auth c)) of
                  None \<Rightarrow> Err (Bad_request No_such_client_key)
                | Some i \<Rightarrow>
                    if \<not> is_admin role \<and> ck_owner (ca_keys (sc_client_auth c) ! i) \<noteq> username
                    then Err (Forbidden Not_your_client_key) else Ok (remove_client_key i c))
           | (None, None, Some mode) \<Rightarrow>
               if \<not> is_admin role then Err (Forbidden Mode_needs_admin)
               else if mode = ''open'' then Ok (set_mode Open c)
               else if mode = ''keyed'' then Ok (set_mode Keyed c)
               else Err (Bad_request Bad_mode)
           | _ \<Rightarrow> Err (Bad_request Not_one_action)))"

definition clients :: "env \<Rightarrow> bytes \<Rightarrow> string \<Rightarrow> clients_req \<Rightarrow> app_state \<Rightarrow> app_state \<times> reply" where
  "clients env raw username req =
     (let secret = mint_client_secret raw in
      transact ap_store (commit env) (clients_edit (en_sha env) secret username req)
        (\<lambda>s. (s, Clients_applied (if cr_add req \<noteq> None then Some secret else None))))"

subsection \<open>Admin sections\<close>

text \<open>A commit of upstream settings drops the model catalog and the no-inject memory.\<close>

definition flush_upstream :: "app_state \<Rightarrow> app_state \<times> reply" where
  "flush_upstream s = (s\<lparr>ap_models_cache := None, ap_no_inject := {}\<rparr>, Applied)"

definition upstream_edit :: "string \<Rightarrow> stored_config \<Rightarrow> reply + stored_config" where
  "upstream_edit url c = Ok (set_primary_url (normalize_base_url (trim url)) c)"

definition set_upstream :: "env \<Rightarrow> string \<Rightarrow> string \<Rightarrow> app_state \<Rightarrow> app_state \<times> reply" where
  "set_upstream env username url =
     transact ap_store (commit env) (admin_edit (upstream_edit url) username) flush_upstream"

definition edit_primary :: "set_upstream \<Rightarrow> upstream \<Rightarrow> upstream" where
  "edit_primary s u = u\<lparr>up_enabled := or_else (su_enabled s) (up_enabled u),
     up_base_url := (case su_base_url s of None \<Rightarrow> up_base_url u | Some b \<Rightarrow> normalize_base_url (trim b)),
     up_models := or_else (su_models s) (up_models u),
     up_stream_options := or_else (su_stream_options s) (up_stream_options u)\<rparr>"

definition edit_endpoint :: "set_upstream \<Rightarrow> upstream_endpoint \<Rightarrow> upstream_endpoint" where
  "edit_endpoint s u = u\<lparr>ue_enabled := or_else (su_enabled s) (ue_enabled u),
     ue_base_url := (case su_base_url s of None \<Rightarrow> ue_base_url u | Some b \<Rightarrow> normalize_base_url (trim b)),
     ue_models := or_else (su_models s) (ue_models u),
     ue_stream_options := or_else (su_stream_options s) (ue_stream_options u)\<rparr>"

definition upstreams_edit :: "upstreams_req \<Rightarrow> stored_config \<Rightarrow> reply + stored_config" where
  "upstreams_edit req c =
     (case (ur_add req, ur_remove req, ur_set req) of
        (Some add, None, None) \<Rightarrow>
          Ok (c\<lparr>sc_upstreams := sc_upstreams c @ [\<lparr>ue_name = trim (au_name add),
               ue_base_url = normalize_base_url (trim (au_base_url add)), ue_enabled = True, ue_keys = [],
               ue_models = or_else (au_models add) [], ue_stream_options = au_stream_options add\<rparr>]\<rparr>)
      | (None, Some name, None) \<Rightarrow>
          if name = PRIMARY_UPSTREAM then Err (Bad_request Primary_not_removable)
          else (case position (\<lambda>ep. ue_name ep = name) (sc_upstreams c) of
                  None \<Rightarrow> Err (Bad_request (No_such_upstream name))
                | Some i \<Rightarrow> Ok (c\<lparr>sc_upstreams := remove_nth i (sc_upstreams c)\<rparr>))
      | (None, None, Some s) \<Rightarrow>
          if su_name s = PRIMARY_UPSTREAM then Ok (c\<lparr>sc_upstream := edit_primary s (sc_upstream c)\<rparr>)
          else if List.find (\<lambda>ep. ue_name ep = su_name s) (sc_upstreams c) = None
          then Err (Bad_request (No_such_upstream (su_name s)))
          else Ok (c\<lparr>sc_upstreams := update_first (\<lambda>ep. ue_name ep = su_name s) (edit_endpoint s) (sc_upstreams c)\<rparr>)
      | _ \<Rightarrow> Err (Bad_request Not_one_action))"

definition upstreams :: "env \<Rightarrow> string \<Rightarrow> upstreams_req \<Rightarrow> app_state \<Rightarrow> app_state \<times> reply" where
  "upstreams env username req =
     transact ap_store (commit env) (admin_edit (upstreams_edit req) username) flush_upstream"

definition models_edit :: "string list \<Rightarrow> stored_config \<Rightarrow> reply + stored_config" where
  "models_edit disabled c = Ok (c\<lparr>sc_disabled_models := disabled\<rparr>)"

definition models_cfg :: "env \<Rightarrow> string \<Rightarrow> string list \<Rightarrow> app_state \<Rightarrow> app_state \<times> reply" where
  "models_cfg env username disabled =
     transact ap_store (commit env) (admin_edit (models_edit disabled) username)
       (\<lambda>s. (s\<lparr>ap_models_cache := None\<rparr>, Applied))"

definition replace_limits :: "limits \<Rightarrow> stored_config \<Rightarrow> stored_config" where
  "replace_limits l c = c\<lparr>sc_limits := l\<rparr>"

definition server_edit :: "string \<Rightarrow> limits \<Rightarrow> stored_config \<Rightarrow> reply + stored_config" where
  "server_edit url l c = Ok (replace_limits l (set_primary_url (normalize_base_url (trim url)) c))"

definition server :: "env \<Rightarrow> string \<Rightarrow> string \<times> limits \<Rightarrow> app_state \<Rightarrow> app_state \<times> reply" where
  "server env username req st =
     (let url = fst req;
          changed = (up_base_url (sc_upstream (ap_store st)) \<noteq> normalize_base_url (trim url))
      in transact ap_store (commit env) (admin_edit (server_edit url (snd req)) username)
           (\<lambda>s. if changed then flush_upstream s else (s, Applied)) st)"

definition limits_edit :: "limits \<Rightarrow> stored_config \<Rightarrow> reply + stored_config" where
  "limits_edit l c = Ok (replace_limits l c)"

definition history_edit :: "history_req \<Rightarrow> stored_config \<Rightarrow> reply + stored_config" where
  "history_edit req c = Ok (c\<lparr>sc_history_days := hr_days req,
     sc_dashboard := \<lparr>dc_default_window_days = hr_default_window_days req, dc_slo_target_percent = hr_slo_target_percent req\<rparr>\<rparr>)"

definition governor_edit :: "governor_req \<Rightarrow> stored_config \<Rightarrow> reply + stored_config" where
  "governor_edit req c =
     (let g = sc_governor c;
          g = g\<lparr>gc_enabled := or_else (gr_enabled req) (gc_enabled g)\<rparr>;
          g = (case gr_set_override req of None \<Rightarrow> g | Some (m, cap) \<Rightarrow> g\<lparr>gc_overrides := bt_insert m cap (gc_overrides g)\<rparr>);
          g = (case gr_remove_override req of None \<Rightarrow> g | Some m \<Rightarrow> g\<lparr>gc_overrides := bt_remove m (gc_overrides g)\<rparr>)
      in Ok (c\<lparr>sc_governor := g\<rparr>))"

text \<open>The \<open>admin_section\<close> macro.\<close>

definition admin_section ::
  "(stored_config \<Rightarrow> reply + stored_config) \<Rightarrow> env \<Rightarrow> string \<Rightarrow> app_state \<Rightarrow> app_state \<times> reply" where
  "admin_section f env username =
     transact ap_store (commit env) (admin_edit f username) (\<lambda>s. (s, Applied))"

text \<open>The default locale: the role is checked before the body is read, and again under the lock.\<close>

definition locale_reply :: "locale_error \<Rightarrow> reply" where
  "locale_reply e = (case e of Invalid \<Rightarrow> Invalid_locale | NotInstalled l \<Rightarrow> Locale_not_available l)"

definition locale_edit :: "string \<Rightarrow> stored_config \<Rightarrow> reply + stored_config" where
  "locale_edit l c = Ok (c\<lparr>sc_default_locale := l\<rparr>)"

definition set_locale :: "env \<Rightarrow> string \<Rightarrow> string \<Rightarrow> app_state \<Rightarrow> app_state \<times> reply" where
  "set_locale env username wanted st =
     (case need_admin Server_needs_admin username (ap_store st) of
        Err r \<Rightarrow> (st, r)
      | Ok _ \<Rightarrow>
          (case installed_locale wanted of
             Err e \<Rightarrow> (st, locale_reply e)
           | Ok l \<Rightarrow> transact ap_store (commit env) (admin_edit (locale_edit l) username) (\<lambda>s. (s, Applied)) st))"

subsection \<open>Users\<close>

definition users_check :: "string \<Rightarrow> stored_config \<Rightarrow> reply + unit" where
  "users_check username c = need_admin Users_need_admin username c"

definition users_password :: "users_req \<Rightarrow> string option" where
  "users_password req =
     (case (us_add req, us_reset_password req) of
        (Some a, None) \<Rightarrow> Some (ad_password a)
      | (None, Some r) \<Rightarrow> Some (snd r)
      | _ \<Rightarrow> None)"

text \<open>Up to the hashing: \<open>None\<close> when the handler goes on.\<close>

definition users_begin :: "string \<Rightarrow> users_req \<Rightarrow> app_state \<Rightarrow> reply option" where
  "users_begin username req st =
     (case users_check username (ap_store st) of
        Err r \<Rightarrow> Some r
      | Ok _ \<Rightarrow>
          (case users_password req of
             None \<Rightarrow> None
           | Some p \<Rightarrow> if length p < 10 then Some Weak_password else None))"

definition remove_user :: "string \<Rightarrow> stored_config \<Rightarrow> stored_config" where
  "remove_user target c =
     c\<lparr>sc_users := filter (\<lambda>u. us_username u \<noteq> target) (sc_users c),
       sc_upstream := (sc_upstream c)\<lparr>up_nim_keys := filter (\<lambda>k. nk_owner k \<noteq> target) (up_nim_keys (sc_upstream c))\<rparr>,
       sc_upstreams := map (\<lambda>ep. ep\<lparr>ue_keys := filter (\<lambda>k. nk_owner k \<noteq> target) (ue_keys ep)\<rparr>) (sc_upstreams c),
       sc_client_auth := (sc_client_auth c)\<lparr>ca_keys := filter (\<lambda>k. ck_owner k \<noteq> target) (ca_keys (sc_client_auth c))\<rparr>\<rparr>"

text \<open>A write against one existing user who is not the superuser.\<close>

definition on_user :: "denial \<Rightarrow> string \<Rightarrow> (stored_config \<Rightarrow> stored_config) \<Rightarrow> stored_config \<Rightarrow> reply + stored_config" where
  "on_user d target f c =
     (case user_of c target of
        None \<Rightarrow> Err (Bad_request No_such_user)
      | Some u \<Rightarrow> if us_role u = Superuser then Err (Forbidden d) else Ok (f c))"

definition users_edit :: "string option \<Rightarrow> string \<Rightarrow> users_req \<Rightarrow> stored_config \<Rightarrow> reply + stored_config" where
  "users_edit new_hash username req c =
     bind_result (users_check username c) (\<lambda>_.
       case (us_add req, us_remove req, us_reset_password req, us_set_role req) of
         (Some a, None, None, None) \<Rightarrow>
           (case parse_role (ad_role a) of
              None \<Rightarrow> Err (Bad_request Bad_role)
            | Some role \<Rightarrow> Ok (c\<lparr>sc_users := sc_users c @ [\<lparr>us_username = trim (ad_username a),
                us_password_hash = the new_hash, us_role = role, us_locale = None\<rparr>]\<rparr>))
       | (None, Some target, None, None) \<Rightarrow> on_user Superuser_not_deletable target (remove_user target) c
       | (None, None, Some r, None) \<Rightarrow>
           on_user Superuser_password_own (fst r) (update_user (fst r) (\<lambda>u. u\<lparr>us_password_hash := the new_hash\<rparr>)) c
       | (None, None, None, Some s) \<Rightarrow>
           (case parse_role (snd s) of
              None \<Rightarrow> Err (Bad_request Bad_role)
            | Some role \<Rightarrow> on_user Superuser_role_fixed (fst s) (update_user (fst s) (\<lambda>u. u\<lparr>us_role := role\<rparr>)) c)
       | _ \<Rightarrow> Err (Bad_request Not_one_action))"

definition clear_memo :: "app_state \<Rightarrow> app_state" where
  "clear_memo s = s\<lparr>ap_admin := clear_scraper_memo (ap_admin s)\<rparr>"

definition users_finish :: "env \<Rightarrow> bytes \<Rightarrow> string \<Rightarrow> users_req \<Rightarrow> app_state \<Rightarrow> app_state \<times> reply" where
  "users_finish env salt username req =
     transact ap_store (commit env)
       (users_edit (map_option (hash_password (en_mac env) salt) (users_password req)) username req)
       (\<lambda>s. (clear_memo s, Applied))"

text \<open>The two \<open>expect\<close>s on the hash cannot fail: it is there in the branches that use it.\<close>

lemma users_hash_present:
  "us_add req = Some a \<Longrightarrow> us_reset_password req = None \<Longrightarrow> users_password req = Some (ad_password a)"
  "us_add req = None \<Longrightarrow> us_reset_password req = Some r \<Longrightarrow> users_password req = Some (snd r)"
  by (simp_all add: users_password_def)

subsection \<open>The caller's own account\<close>

datatype account_body =
    Password_body string string
  | Locale_body "string option"
  | Invalid_locale_body
  | Invalid_action_body

text \<open>
  The hand-written visitor: a duplicate of one of the four fields, or a password that is no text,
  is a parse error (\<open>None\<close>); then the fields seen decide.
\<close>

definition account_fields :: "string list" where
  "account_fields = [''current_password'', ''new_password'', ''action'', ''locale'']"

definition parse_account :: "json \<Rightarrow> account_body option" where
  "parse_account j =
     (case j of
        JObject ms \<Rightarrow>
          let known = filter (\<lambda>e. fst e \<in> set account_fields) ms;
              field = map_of known;
              text = (\<lambda>k. case field k of None \<Rightarrow> True | Some v \<Rightarrow> as_str v \<noteq> None);
              unknown = (\<exists>e \<in> set ms. fst e \<notin> set account_fields)
          in if \<not> distinct (map fst known) \<or> \<not> text ''current_password'' \<or> \<not> text ''new_password'' then None
             else if field ''current_password'' \<noteq> None \<or> field ''new_password'' \<noteq> None then do {
               cur \<leftarrow> field ''current_password'';
               new \<leftarrow> field ''new_password'';
               cur \<leftarrow> as_str cur;
               new \<leftarrow> as_str new;
               Some (Password_body cur new)}
             else if field ''action'' \<noteq> None \<or> field ''locale'' \<noteq> None then
               (case (field ''action'', field ''locale'') of
                  (Some a, Some l) \<Rightarrow>
                    if unknown \<or> as_str a \<noteq> Some ''locale'' then Some Invalid_action_body
                    else (case l of
                            JNull \<Rightarrow> Some (Locale_body None)
                          | JString s \<Rightarrow> Some (Locale_body (Some s))
                          | _ \<Rightarrow> Some Invalid_locale_body)
                | _ \<Rightarrow> Some Invalid_action_body)
             else None
      | _ \<Rightarrow> None)"

definition account_locale_edit :: "string \<Rightarrow> string option \<Rightarrow> stored_config \<Rightarrow> reply + stored_config" where
  "account_locale_edit username l c =
     (if user_of c username = None then Err Stale_session
      else Ok (update_user username (\<lambda>u. u\<lparr>us_locale := l\<rparr>) c))"

definition account_locale :: "env \<Rightarrow> string \<Rightarrow> string option \<Rightarrow> app_state \<Rightarrow> app_state \<times> reply" where
  "account_locale env username wanted st =
     (case (case wanted of None \<Rightarrow> Ok None | Some w \<Rightarrow> bind_result (installed_locale w) (\<lambda>l. Ok (Some l))) of
        Err e \<Rightarrow> (st, locale_reply e)
      | Ok l \<Rightarrow> transact ap_store (commit env) (account_locale_edit username l) (\<lambda>s. (s, Applied)) st)"

datatype password_change_err = User_gone | Hash_rotated

definition apply_password_change ::
  "string \<Rightarrow> string \<Rightarrow> string \<Rightarrow> stored_config \<Rightarrow> password_change_err + stored_config" where
  "apply_password_change username verified_hash new_hash c =
     (case user_of c username of
        None \<Rightarrow> Err User_gone
      | Some u \<Rightarrow>
          if us_password_hash u \<noteq> verified_hash then Err Hash_rotated
          else Ok (update_user username (\<lambda>u. u\<lparr>us_password_hash := new_hash\<rparr>) c))"

text \<open>Up to the hashing of the new password: a refusal, or the stored hash that was verified.\<close>

definition account_begin :: "env \<Rightarrow> string \<Rightarrow> string \<Rightarrow> string \<Rightarrow> app_state \<Rightarrow> reply + string" where
  "account_begin env username current new st =
     (if length new < 10 then Err Weak_password
      else (case user_of (ap_store st) username of
              None \<Rightarrow> Err Stale_session
            | Some u \<Rightarrow>
                if verify_password (en_mac env) current (us_password_hash u) then Ok (us_password_hash u)
                else Err Wrong_password))"

definition account_edit :: "string \<Rightarrow> string \<Rightarrow> string \<Rightarrow> stored_config \<Rightarrow> reply + stored_config" where
  "account_edit username verified new_hash c =
     (case apply_password_change username verified new_hash c of
        Err User_gone \<Rightarrow> Err Stale_session
      | Err Hash_rotated \<Rightarrow> Err Password_changed
      | Ok c' \<Rightarrow> Ok c')"

definition account_finish ::
  "env \<Rightarrow> bytes \<Rightarrow> headers \<Rightarrow> string \<Rightarrow> string \<Rightarrow> string \<Rightarrow> app_state \<Rightarrow> app_state \<times> reply" where
  "account_finish env salt h username verified new =
     (let new_hash = hash_password (en_mac env) salt new in
      transact ap_store (commit env) (account_edit username verified new_hash)
        (\<lambda>s. (clear_memo s, Password_applied
           (mint_session_cookie (en_mac env) (en_sha env) (en_now env) (ap_admin s) h username new_hash))))"

text \<open>The handler up to its first release of the lock, for each body.\<close>

fun account :: "env \<Rightarrow> string \<Rightarrow> account_body \<Rightarrow> app_state \<Rightarrow> app_state \<times> reply option" where
  "account env username Invalid_action_body st = (st, Some Invalid_action)"
| "account env username Invalid_locale_body st = (st, Some Invalid_locale)"
| "account env username (Locale_body l) st = map_prod id Some (account_locale env username l st)"
| "account env username (Password_body current new) st =
     (st, (case account_begin env username current new st of Err r \<Rightarrow> Some r | Ok _ \<Rightarrow> None))"

subsection \<open>One step of the settings surface\<close>

text \<open>
  Everything that can happen to the state between two releases of the store lock. \<open>None\<close> means that
  a handler goes on with its second step.
\<close>

datatype settings_op =
    Setup_begin setup_req
  | Setup_claim setup_req bytes bytes headers bool
  | Setup_probe validate_key_req
  | Nim_keys string nim_keys_req
  | Clients string clients_req bytes
  | Set_upstream string string
  | Upstreams string upstreams_req
  | Models_cfg string "string list"
  | Server string "string \<times> limits"
  | Limits string limits
  | History string history_req
  | Governor_cfg string governor_req
  | Set_locale string string
  | Users_begin string users_req
  | Users_finish string users_req bytes
  | Account string account_body
  | Account_finish string string string bytes headers

fun settings_step :: "env \<Rightarrow> settings_op \<Rightarrow> app_state \<Rightarrow> app_state \<times> reply option" where
  "settings_step env (Setup_begin req) st = setup_begin env req st"
| "settings_step env (Setup_claim req salt raw h form) st = map_prod id Some (setup_claim env req salt raw h form st)"
| "settings_step env (Setup_probe req) st = map_prod id Some (setup_validate_key env req st)"
| "settings_step env (Nim_keys u req) st = map_prod id Some (nim_keys env u req st)"
| "settings_step env (Clients u req raw) st = map_prod id Some (clients env raw u req st)"
| "settings_step env (Set_upstream u url) st = map_prod id Some (set_upstream env u url st)"
| "settings_step env (Upstreams u req) st = map_prod id Some (upstreams env u req st)"
| "settings_step env (Models_cfg u req) st = map_prod id Some (models_cfg env u req st)"
| "settings_step env (Server u req) st = map_prod id Some (server env u req st)"
| "settings_step env (Limits u req) st = map_prod id Some (admin_section (limits_edit req) env u st)"
| "settings_step env (History u req) st = map_prod id Some (admin_section (history_edit req) env u st)"
| "settings_step env (Governor_cfg u req) st = map_prod id Some (admin_section (governor_edit req) env u st)"
| "settings_step env (Set_locale u l) st = map_prod id Some (set_locale env u l st)"
| "settings_step env (Users_begin u req) st = (st, users_begin u req st)"
| "settings_step env (Users_finish u req salt) st = map_prod id Some (users_finish env salt u req st)"
| "settings_step env (Account u body) st = account env u body st"
| "settings_step env (Account_finish u verified new salt h) st =
     map_prod id Some (account_finish env salt h u verified new st)"

text \<open>The caller of a step; setup has none.\<close>

fun op_caller :: "settings_op \<Rightarrow> string option" where
  "op_caller (Setup_begin _) = None"
| "op_caller (Setup_claim _ _ _ _ _) = None"
| "op_caller (Setup_probe _) = None"
| "op_caller (Nim_keys u _) = Some u"
| "op_caller (Clients u _ _) = Some u"
| "op_caller (Set_upstream u _) = Some u"
| "op_caller (Upstreams u _) = Some u"
| "op_caller (Models_cfg u _) = Some u"
| "op_caller (Server u _) = Some u"
| "op_caller (Limits u _) = Some u"
| "op_caller (History u _) = Some u"
| "op_caller (Governor_cfg u _) = Some u"
| "op_caller (Set_locale u _) = Some u"
| "op_caller (Users_begin u _) = Some u"
| "op_caller (Users_finish u _ _) = Some u"
| "op_caller (Account u _) = Some u"
| "op_caller (Account_finish u _ _ _ _) = Some u"

end
