(* ===== verification/Settings_Safety.thy ===== *)
theory Settings_Safety
  imports Settings
begin

section \<open>Who may change what\<close>

text \<open>
  The authority rules of the settings as a contract of edits: the caller is a user of the store,
  the superuser stays the superuser and is changed by nobody else, and a caller without a role
  changes nothing but what is theirs. Every edit of the handlers meets it; the steps and the runs
  of the settings surface inherit it.
\<close>

text \<open>
  What of a configuration is not \<open>u\<close>'s own: everything but \<open>u\<close>'s keys, \<open>u\<close>'s client keys and the
  password hash and locale of \<open>u\<close>'s record.
\<close>

definition others_view :: "string \<Rightarrow> stored_config \<Rightarrow> stored_config" where
  "others_view u c = c\<lparr>
     sc_upstream := (sc_upstream c)\<lparr>up_nim_keys := filter (\<lambda>k. nk_owner k \<noteq> u) (up_nim_keys (sc_upstream c))\<rparr>,
     sc_upstreams := map (\<lambda>ep. ep\<lparr>ue_keys := filter (\<lambda>k. nk_owner k \<noteq> u) (ue_keys ep)\<rparr>) (sc_upstreams c),
     sc_client_auth := (sc_client_auth c)\<lparr>ca_keys := filter (\<lambda>k. ck_owner k \<noteq> u) (ca_keys (sc_client_auth c))\<rparr>,
     sc_users := map (\<lambda>x. if us_username x = u then x\<lparr>us_password_hash := [], us_locale := None\<rparr> else x) (sc_users c)\<rparr>"

definition superuser_kept :: "string \<Rightarrow> stored_config \<Rightarrow> stored_config \<Rightarrow> bool" where
  "superuser_kept u c c' \<longleftrightarrow> (case superuser c of
       None \<Rightarrow> superuser c' = None
     | Some su \<Rightarrow> \<exists>su'. superuser c' = Some su' \<and> us_username su' = us_username su \<and>
         (us_username su \<noteq> u \<longrightarrow> su' = su))"

locale guarded_edit =
  fixes edit :: "string \<Rightarrow> 'r \<Rightarrow> stored_config \<Rightarrow> reply + stored_config"
  assumes known_caller: "edit u r c = Ok c' \<Longrightarrow> role_of c u \<noteq> None"
    and keeps_superuser: "edit u r c = Ok c' \<Longrightarrow> users_ok c \<Longrightarrow> superuser_kept u c c'"
    and keeps_others: "edit u r c = Ok c' \<Longrightarrow> role_of c u = Some User \<Longrightarrow> others_view u c' = others_view u c"

text \<open>Edits that leave the users alone; and those only an admin gets through.\<close>

lemma superuser_same_users [intro]: "sc_users c' = sc_users c \<Longrightarrow> superuser_kept u c c'"
  by (simp add: superuser_kept_def superuser_def split: option.split)

lemma need_admin_Ok: "need_admin d u c = Ok x \<Longrightarrow> \<exists>r. role_of c u = Some r \<and> is_admin r"
  by (auto simp: need_admin_def split: option.splits if_splits)

lemma admin_edit_Ok:
  "admin_edit f u c = Ok c' \<longleftrightarrow> (\<exists>r. role_of c u = Some r \<and> is_admin r) \<and> f c = Ok c'"
  by (auto simp: admin_edit_def need_admin_def bind_result_def split: option.splits sum.splits)

lemma not_admin_User [simp]: "\<not> is_admin User"
  by (simp add: is_admin_def)

lemma admin_edit_guarded:
  assumes "\<And>r c c'. f r c = Ok c' \<Longrightarrow> sc_users c' = sc_users c"
  shows "guarded_edit (\<lambda>u r. admin_edit (f r) u)"
  by unfold_locales (auto simp: admin_edit_Ok dest: assms)

interpretation eg_url: guarded_edit "\<lambda>u r. admin_edit (upstream_edit r) u"
  by (rule admin_edit_guarded) (auto simp: upstream_edit_def set_primary_url_def)

interpretation eg_ups: guarded_edit "\<lambda>u r. admin_edit (upstreams_edit r) u"
  by (rule admin_edit_guarded) (auto simp: upstreams_edit_def split: option.splits if_splits)

interpretation eg_mod: guarded_edit "\<lambda>u r. admin_edit (models_edit r) u"
  by (rule admin_edit_guarded) (auto simp: models_edit_def)

interpretation eg_srv: guarded_edit "\<lambda>u r. admin_edit (server_edit (fst r) (snd r)) u"
  by (rule admin_edit_guarded) (auto simp: server_edit_def replace_limits_def set_primary_url_def)

interpretation eg_lim: guarded_edit "\<lambda>u r. admin_edit (limits_edit r) u"
  by (rule admin_edit_guarded) (auto simp: limits_edit_def replace_limits_def)

interpretation eg_his: guarded_edit "\<lambda>u r. admin_edit (history_edit r) u"
  by (rule admin_edit_guarded) (auto simp: history_edit_def)

interpretation eg_gov: guarded_edit "\<lambda>u r. admin_edit (governor_edit r) u"
  by (rule admin_edit_guarded) (auto simp: governor_edit_def Let_def)

interpretation eg_loc: guarded_edit "\<lambda>u r. admin_edit (locale_edit r) u"
  by (rule admin_edit_guarded) (auto simp: locale_edit_def)

subsection \<open>Keys and client keys\<close>

lemma filter_remove_nth:
  assumes "i < length xs" "\<not> P (xs ! i)"
  shows "filter P (remove_nth i xs) = filter P xs"
proof -
  have "filter P xs = filter P (take i xs @ xs ! i # drop (Suc i) xs)"
    using remove_nth_split [OF assms(1)] by simp
  with assms(2) show ?thesis by (simp add: remove_nth_def)
qed

lemma filter_update_first:
  assumes "\<And>x. List.find Q xs = Some x \<Longrightarrow> \<not> P x \<and> \<not> P (f x)"
  shows "filter P (update_first Q f xs) = filter P xs"
  using assms by (induction xs) auto

text \<open>The keys that are not \<open>u\<close>'s, group by group.\<close>

definition foreign :: "string \<Rightarrow> nim_key list list \<Rightarrow> nim_key list list" where
  "foreign u = map (filter (\<lambda>k. nk_owner k \<noteq> u))"

lemma remove_first_key_foreign:
  "remove_first_key P gs = Some (ls, u, g) \<Longrightarrow> foreign u ls = foreign u (map snd gs)"
proof (induction gs arbitrary: ls)
  case (Cons x gs)
  obtain h ks where x: "x = (h, ks)" by (cases x)
  show ?case
  proof (cases "position P ks")
    case None
    with Cons show ?thesis by (auto simp: x foreign_def)
  next
    case (Some i)
    then have "i < length ks" using position_Some [of P ks i] by simp
    with Some Cons.prems show ?thesis
      by (auto simp: x foreign_def filter_remove_nth)
  qed
qed simp

lemma update_first_key_foreign:
  assumes "find_first_key P gs = Some k" "nk_owner k = u" "\<And>k. nk_owner (f k) = nk_owner k"
  shows "foreign u (update_first_key P f gs) = foreign u (map snd gs)"
  using assms(1)
proof (induction gs)
  case (Cons x gs)
  obtain h ks where x: "x = (h, ks)" by (cases x)
  show ?case
  proof (cases "List.find P ks")
    case None
    then have "\<not> list_ex P ks" by (auto simp: find_None_iff list_ex_iff)
    with None Cons show ?thesis by (simp add: x foreign_def)
  next
    case (Some k')
    then have "list_ex P ks" by (auto simp: find_Some_iff list_ex_iff)
    moreover have "k' = k" using Some Cons.prems by (simp add: x)
    ultimately show ?thesis
      using Some assms(2,3) filter_update_first [of P ks "\<lambda>k. nk_owner k \<noteq> u" f] by (simp add: x foreign_def)
  qed
qed simp

lemma key_groups_lists: "map snd (key_groups c) = up_nim_keys (sc_upstream c) # map ue_keys (sc_upstreams c)"
  by (simp add: key_groups_def o_def)

lemma remove_first_key_length: "remove_first_key P gs = Some (ls, r) \<Longrightarrow> length ls = length gs"
  by (induction gs arbitrary: ls) (auto split: option.splits)

lemma update_first_key_length: "length (update_first_key P f gs) = length gs"
  by (induction P f gs rule: update_first_key.induct) auto

text \<open>Key lists with the same foreign keys give configurations with the same foreign view.\<close>

lemma set_key_lists_foreign:
  assumes "foreign u ls = foreign u (map snd (key_groups c))"
  shows "others_view u (set_key_lists ls c) = others_view u c"
proof -
  have "foreign u ls \<noteq> []" using assms by (simp add: foreign_def key_groups_def)
  then obtain l ms where ls: "ls = l # ms" by (cases ls) (auto simp: foreign_def)
  with assms have l: "filter (\<lambda>k. nk_owner k \<noteq> u) l = filter (\<lambda>k. nk_owner k \<noteq> u) (up_nim_keys (sc_upstream c))"
    and ms: "map (filter (\<lambda>k. nk_owner k \<noteq> u)) ms = map (\<lambda>ep. filter (\<lambda>k. nk_owner k \<noteq> u) (ue_keys ep)) (sc_upstreams c)"
    by (auto simp: foreign_def key_groups_def o_def)
  from ms have len: "length ms = length (sc_upstreams c)"
    by (metis length_map)
  have "map (\<lambda>ep. ep\<lparr>ue_keys := filter (\<lambda>k. nk_owner k \<noteq> u) (ue_keys ep)\<rparr>) (map2 (\<lambda>ep ks. ep\<lparr>ue_keys := ks\<rparr>) eps ks) =
      map (\<lambda>ep. ep\<lparr>ue_keys := filter (\<lambda>k. nk_owner k \<noteq> u) (ue_keys ep)\<rparr>) eps"
    if "length ks = length eps" "map (filter (\<lambda>k. nk_owner k \<noteq> u)) ks = map (\<lambda>ep. filter (\<lambda>k. nk_owner k \<noteq> u) (ue_keys ep)) eps" for ks eps
    using that by (induction ks eps rule: list_induct2) auto
  from this [OF len ms] l show ?thesis
    by (simp add: others_view_def set_key_lists_def ls)
qed

lemma group_keys_push_foreign:
  assumes "group_keys c g = Some ks" "nk_owner k = u"
  shows "others_view u (set_group_keys g (ks @ [k]) c) = others_view u c"
proof (cases "g = PRIMARY_UPSTREAM")
  case True
  with assms show ?thesis by (simp add: others_view_def group_keys_def set_group_keys_def)
next
  case False
  with assms obtain ep where ep: "List.find (\<lambda>ep. ue_name ep = g) (sc_upstreams c) = Some ep" "ks = ue_keys ep"
    by (auto simp: group_keys_def)
  have "map (\<lambda>ep. ep\<lparr>ue_keys := filter (\<lambda>k. nk_owner k \<noteq> u) (ue_keys ep)\<rparr>)
        (update_first (\<lambda>ep. ue_name ep = g) (\<lambda>ep. ep\<lparr>ue_keys := ks @ [k]\<rparr>) eps) =
      map (\<lambda>ep. ep\<lparr>ue_keys := filter (\<lambda>k. nk_owner k \<noteq> u) (ue_keys ep)\<rparr>) eps"
    if "List.find (\<lambda>ep. ue_name ep = g) eps = Some ep" for eps
    using that ep(2) assms(2) by (induction eps) auto
  from this [OF ep(1)] False show ?thesis by (simp add: others_view_def set_group_keys_def)
qed

interpretation eg_nim: guarded_edit "nim_keys_edit sha" for sha
proof (unfold_locales, goal_cases)
  case (1 u r c c')
  then show ?case by (auto simp: nim_keys_edit_def split: option.splits)
next
  case (2 u r c c')
  then have "sc_users c' = sc_users c"
    by (auto simp: nim_keys_edit_def Let_def set_group_keys_def remove_key_def update_key_def set_key_lists_def
        split: option.splits if_splits)
  then show ?case ..
next
  case (3 u r c c')
  then show ?case
    by (auto simp: nim_keys_edit_def Let_def remove_key_def update_key_def find_key_def group_keys_push_foreign
        split: option.splits if_splits
        intro: set_key_lists_foreign [OF remove_first_key_foreign] set_key_lists_foreign [OF update_first_key_foreign])
qed

interpretation eg_cli: guarded_edit "\<lambda>u (secret, r). clients_edit sha secret u r" for sha
proof (unfold_locales, goal_cases)
  case (1 u r c c')
  then show ?case by (auto simp: clients_edit_def split: option.splits prod.splits)
next
  case (2 u r c c')
  then have "sc_users c' = sc_users c"
    by (auto simp: clients_edit_def push_client_key_def remove_client_key_def set_mode_def
        split: option.splits if_splits prod.splits)
  then show ?case ..
next
  case (3 u r c c')
  then show ?case
    using position_Some [of _ "ca_keys (sc_client_auth c)"]
    by (auto simp: clients_edit_def push_client_key_def new_client_key_def remove_client_key_def others_view_def
        filter_remove_nth split: option.splits if_splits prod.splits)
qed

subsection \<open>Users and accounts\<close>

lemma find_filter_same: "List.find P xs = Some x \<Longrightarrow>
    \<forall>y \<in> set xs. P y \<longrightarrow> Q y \<Longrightarrow> List.find P (filter Q xs) = Some x"
  by (induction xs) auto

lemma find_append_first: "List.find P xs = Some x \<Longrightarrow> List.find P (xs @ ys) = Some x"
  by (induction xs) auto

text \<open>A write against the first user of some name leaves the first superuser, if that is another, in place.\<close>

lemma superuser_update_other:
  assumes "List.find (\<lambda>x. us_username x = t) us = Some v" "us_role v \<noteq> Superuser" "us_role (f v) \<noteq> Superuser"
  shows "List.find (\<lambda>x. us_role x = Superuser) (update_first (\<lambda>x. us_username x = t) f us) =
    List.find (\<lambda>x. us_role x = Superuser) us"
  using assms by (induction us) auto

lemma superuser_update_own:
  assumes "List.find (\<lambda>x. us_role x = Superuser) us = Some su" "\<And>x. us_role (f x) = us_role x" "\<And>x. us_username (f x) = us_username x"
  shows "\<exists>su'. List.find (\<lambda>x. us_role x = Superuser) (update_first (\<lambda>x. us_username x = u) f us) = Some su' \<and>
    us_username su' = us_username su \<and> (us_username su \<noteq> u \<longrightarrow> su' = su)"
  using assms(1) by (induction us) (auto simp: assms(2,3))

lemma no_superuser_update:
  "(\<And>x. us_role (f x) = us_role x) \<Longrightarrow>
    (List.find (\<lambda>x. us_role x = Superuser) (update_first P f us) = None) = (List.find (\<lambda>x. us_role x = Superuser) us = None)"
  by (induction us) auto

lemma update_user_own_kept:
  assumes "\<And>x. us_role (f x) = us_role x" "\<And>x. us_username (f x) = us_username x"
  shows "superuser_kept u c (update_user u f c)"
  using superuser_update_own [of "sc_users c" _ f u] no_superuser_update [of f "\<lambda>x. us_username x = u" "sc_users c"] assms
  by (auto simp: superuser_kept_def superuser_def update_user_def split: option.split)

lemma others_view_update_user:
  assumes "\<And>x. us_role (f x) = us_role x" "\<And>x. us_username (f x) = us_username x"
    and "\<And>x. x\<lparr>us_password_hash := [], us_locale := None\<rparr> = (f x)\<lparr>us_password_hash := [], us_locale := None\<rparr>"
  shows "others_view u (update_user u f c) = others_view u c"
proof -
  let ?g = "\<lambda>x. if us_username x = u then x\<lparr>us_password_hash := [], us_locale := None\<rparr> else x"
  have "map ?g (update_first (\<lambda>x. us_username x = u) f xs) = map ?g xs" for xs
    by (rule map_update_first) (simp add: assms(2) assms(3) [symmetric])
  then show ?thesis by (simp add: others_view_def update_user_def)
qed

lemma on_user_Ok: "on_user d t f c = Ok c' \<longleftrightarrow>
    c' = f c \<and> (\<exists>v. user_of c t = Some v \<and> us_role v \<noteq> Superuser)"
  by (auto simp: on_user_def split: option.splits)

lemma remove_user_keeps_superuser:
  assumes "users_ok c" "user_of c t = Some v" "us_role v \<noteq> Superuser" "superuser c = Some su"
  shows "superuser (remove_user t c) = Some su"
proof -
  have su: "su \<in> set (sc_users c)" "us_role su = Superuser"
    using assms(4) by (auto simp: superuser_def find_Some_iff)
  have v: "v \<in> set (sc_users c)" "us_username v = t"
    using user_of_name [OF assms(2)] by auto
  have keep: "\<forall>y \<in> set (sc_users c). us_role y = Superuser \<longrightarrow> us_username y \<noteq> t"
  proof (intro ballI impI notI)
    fix y assume y: "y \<in> set (sc_users c)" "us_role y = Superuser" "us_username y = t"
    have "y = v"
      using assms(1) v y by (auto simp: users_ok_def distinct_map inj_on_def)
    with y(2) assms(3) show False by simp
  qed
  then show ?thesis
    using assms(4) find_filter_same [of "\<lambda>x. us_role x = Superuser" "sc_users c" su "\<lambda>x. us_username x \<noteq> t"]
    by (simp add: superuser_def remove_user_def)
qed

lemma remove_user_no_superuser: "superuser c = None \<Longrightarrow> superuser (remove_user t c) = None"
  by (simp add: superuser_def remove_user_def find_None_iff)

lemma parse_role_not_superuser: "parse_role s = Some r \<Longrightarrow> r \<noteq> Superuser"
  by (auto simp: parse_role_def split: if_splits)

lemma users_edit_cases:
  assumes "users_edit h u r c = Ok c'"
  obtains (add) new where "c' = c\<lparr>sc_users := sc_users c @ [new]\<rparr>" "us_role new \<noteq> Superuser"
  | (remove) t v where "c' = remove_user t c" "user_of c t = Some v" "us_role v \<noteq> Superuser"
  | (update) t f v where "c' = update_user t f c" "user_of c t = Some v" "us_role v \<noteq> Superuser" "us_role (f v) \<noteq> Superuser"
  using assms parse_role_not_superuser
  by (force simp: users_edit_def bind_result_def on_user_Ok split: sum.splits option.splits)

interpretation eg_usr: guarded_edit "\<lambda>u (h, r). users_edit h u r"
proof (unfold_locales, goal_cases)
  case (1 u r c c')
  then show ?case
    by (auto simp: users_edit_def bind_result_def users_check_def dest!: need_admin_Ok split: sum.splits prod.splits)
next
  case (2 u r c c')
  then have "users_edit (fst r) u (snd r) c = Ok c'" by (simp split: prod.splits)
  then show ?case
  proof (cases rule: users_edit_cases)
    case (add new)
    then show ?thesis
      by (auto simp: superuser_kept_def superuser_def find_append_first find_None_iff split: option.split)
  next
    case (remove t v)
    then show ?thesis
      using remove_user_keeps_superuser [OF 2(2)] remove_user_no_superuser [of c t]
      by (auto simp: superuser_kept_def split: option.split)
  next
    case (update t f v)
    then show ?thesis
      by (simp add: superuser_kept_def superuser_def update_user_def user_of_def superuser_update_other split: option.split)
  qed
next
  case (3 u r c c')
  then show ?case
    by (auto simp: users_edit_def bind_result_def users_check_def dest!: need_admin_Ok split: sum.splits prod.splits)
qed

interpretation eg_acl: guarded_edit "\<lambda>u l. account_locale_edit u l"
proof (unfold_locales, goal_cases)
  case (1 u r c c')
  then show ?case by (auto simp: account_locale_edit_def role_of_def split: if_splits)
next
  case (2 u r c c')
  then show ?case by (auto simp: account_locale_edit_def split: if_splits intro!: update_user_own_kept)
next
  case (3 u r c c')
  then show ?case by (auto simp: account_locale_edit_def split: if_splits intro!: others_view_update_user)
qed

interpretation eg_acp: guarded_edit "\<lambda>u (v, h). account_edit u v h"
proof (unfold_locales, goal_cases)
  case (1 u r c c')
  then show ?case
    by (auto simp: account_edit_def apply_password_change_def role_of_def split: option.splits if_splits prod.splits)
next
  case (2 u r c c')
  then show ?case
    by (auto simp: account_edit_def apply_password_change_def split: option.splits if_splits prod.splits
        intro!: update_user_own_kept)
next
  case (3 u r c c')
  then show ?case
    by (auto simp: account_edit_def apply_password_change_def split: option.splits if_splits prod.splits
        intro!: others_view_update_user)
qed

end
