(* ===== verification/Settings_Runs.thy ===== *)
theory Settings_Runs
  imports Settings_Safety
begin

section \<open>Steps and runs of the settings surface\<close>

text \<open>
  Every step either leaves the configuration, its snapshot, the pool and the disk alone or is one
  edit put through \<open>commit\<close>; so what the edits guarantee holds of steps, and of runs by rule
  induction.
\<close>

fun op_edit :: "env \<Rightarrow> settings_op \<Rightarrow> stored_config \<Rightarrow> reply + stored_config" where
  "op_edit env (Setup_claim req salt raw h form) =
     setup_edit (en_sha env) req (hash_password (en_mac env) salt (sr_password req)) (mint_client_secret raw)"
| "op_edit env (Nim_keys u req) = nim_keys_edit (en_sha env) u req"
| "op_edit env (Clients u req raw) = clients_edit (en_sha env) (mint_client_secret raw) u req"
| "op_edit env (Set_upstream u url) = admin_edit (upstream_edit url) u"
| "op_edit env (Upstreams u req) = admin_edit (upstreams_edit req) u"
| "op_edit env (Models_cfg u ms) = admin_edit (models_edit ms) u"
| "op_edit env (Server u req) = admin_edit (server_edit (fst req) (snd req)) u"
| "op_edit env (Limits u l) = admin_edit (limits_edit l) u"
| "op_edit env (History u req) = admin_edit (history_edit req) u"
| "op_edit env (Governor_cfg u req) = admin_edit (governor_edit req) u"
| "op_edit env (Set_locale u w) =
     (case installed_locale w of Err e \<Rightarrow> (\<lambda>_. Err (locale_reply e)) | Ok l \<Rightarrow> admin_edit (locale_edit l) u)"
| "op_edit env (Users_finish u req salt) =
     users_edit (map_option (hash_password (en_mac env) salt) (users_password req)) u req"
| "op_edit env (Account u (Locale_body w)) =
     (case (case w of None \<Rightarrow> Ok None | Some x \<Rightarrow> bind_result (installed_locale x) (\<lambda>l. Ok (Some l))) of
        Err e \<Rightarrow> (\<lambda>_. Err (locale_reply e)) | Ok l \<Rightarrow> account_locale_edit u l)"
| "op_edit env (Account_finish u verified new salt h) =
     account_edit u verified (hash_password (en_mac env) salt new)"
| "op_edit env op = (\<lambda>_. Err Stale_session)"

text \<open>The part of the state that a commit owns.\<close>

definition core :: "app_state \<Rightarrow> stored_config \<times> data_dir \<times> runtime_config \<times> pool \<times> nat" where
  "core s = (ap_store s, ap_disk s, ap_cfg s, ap_pool s, ap_retention s)"

lemma core_updates [simp]:
  "core (s\<lparr>ap_setup_required := b\<rparr>) = core s" "core (s\<lparr>ap_admin := ad\<rparr>) = core s"
  "core (s\<lparr>ap_models_cache := mc\<rparr>) = core s" "core (s\<lparr>ap_no_inject := ni\<rparr>) = core s"
  "core (clear_memo s) = core s" "core (fst (flush_upstream s)) = core s"
  by (simp_all add: core_def clear_memo_def flush_upstream_def)

lemma core_store: "core s = core t \<Longrightarrow> ap_store s = ap_store t"
  by (simp add: core_def)

lemma core_sound: "core s = core t \<Longrightarrow> server_sound parse s \<longleftrightarrow> server_sound parse t"
  by (simp add: core_def server_sound_def stored_on_disk_def)

definition edit_step :: "env \<Rightarrow> (stored_config \<Rightarrow> reply + stored_config) \<Rightarrow> app_state \<Rightarrow> app_state \<Rightarrow> bool" where
  "edit_step env e st st' \<longleftrightarrow> (\<exists>fin q. transact ap_store (commit env) e fin st = (st', q) \<and> (\<forall>s. core (fst (fin s)) = core s))"

lemma edit_stepI:
  assumes "map_prod id Some (transact ap_store (commit env) e fin st) = (st', r)" "\<And>s. core (fst (fin s)) = core s"
  shows "edit_step env e st st'"
  using assms by (cases "transact ap_store (commit env) e fin st") (auto simp: edit_step_def)

lemmas handler_defs = setup_claim_def nim_keys_def clients_def set_upstream_def upstreams_def models_cfg_def server_def
  admin_section_def set_locale_def users_finish_def account_locale_def account_finish_def Let_def
  setup_begin_def setup_validate_key_def

lemma account_is_edit:
  assumes "account env u body st = (st', r)"
  shows "edit_step env (op_edit env (Account u body)) st st' \<or> core st' = core st"
  using assms
  by (cases body) (auto simp: account_locale_def split: sum.splits intro: edit_stepI)

lemma step_is_edit:
  assumes "settings_step env op st = (st', r)"
  shows "edit_step env (op_edit env op) st st' \<or> core st' = core st"
  using assms account_is_edit
  by (cases op) (auto simp: handler_defs split: prod.splits if_splits sum.splits bool.splits intro: edit_stepI)

lemma edit_step_store:
  assumes "edit_step env e st st'"
  shows "ap_store st' = ap_store st \<or> (e (ap_store st) = Ok (ap_store st') \<and> validate (ap_store st') = Ok ())"
proof -
  obtain fin q where tr: "transact ap_store (commit env) e fin st = (st', q)" "\<And>s. core (fst (fin s)) = core s"
    using assms by (auto simp: edit_step_def)
  have "ap_store s2 = ap_store s1" if "fin s1 = (s2, x)" for s1 s2 x
    using tr(2) [of s1] that core_store by (metis fst_conv)
  from cp.transact_store [OF tr(1) this] show ?thesis .
qed

lemma edit_step_sound:
  assumes "edit_step env e st st'" "server_sound parse st" "parse (en_ser env (ap_store st')) = Some (ap_store st')"
  shows "server_sound parse st'"
proof -
  obtain fin q where tr: "transact ap_store (commit env) e fin st = (st', q)" "\<And>s. core (fst (fin s)) = core s"
    using assms(1) by (auto simp: edit_step_def)
  have "ap_store s2 = ap_store s1 \<and> (server_sound parse s1 \<longrightarrow> server_sound parse s2)" if "fin s1 = (s2, x)" for s1 s2 x
    using tr(2) [of s1] that core_store core_sound by (metis fst_conv)
  from cp.transact_good [OF assms(2) tr(1) assms(3) this] show ?thesis .
qed

text \<open>One step: the two facts the properties use.\<close>

lemma step_store:
  assumes "settings_step env op st = (st', r)"
  shows "ap_store st' = ap_store st \<or> (op_edit env op (ap_store st) = Ok (ap_store st') \<and> validate (ap_store st') = Ok ())"
  using step_is_edit [OF assms] edit_step_store core_store by blast

lemma step_sound:
  assumes "settings_step env op st = (st', r)" "server_sound parse st" "parse (en_ser env (ap_store st')) = Some (ap_store st')"
  shows "server_sound parse st'"
  using step_is_edit [OF assms(1)] edit_step_sound [OF _ assms(2,3)] core_sound assms(2) by blast

text \<open>Each edit of an identified caller meets the contract of edits.\<close>

definition meets_contract :: "string \<Rightarrow> stored_config \<Rightarrow> stored_config \<Rightarrow> bool" where
  "meets_contract u c c' \<longleftrightarrow> role_of c u \<noteq> None \<and> (users_ok c \<longrightarrow> superuser_kept u c c') \<and>
     (role_of c u = Some User \<longrightarrow> others_view u c' = others_view u c)"

lemma guarded_meets:
  assumes "guarded_edit edit" "edit u r c = Ok c'"
  shows "meets_contract u c c'"
  using guarded_edit.known_caller [OF assms] guarded_edit.keeps_superuser [OF assms] guarded_edit.keeps_others [OF assms]
  by (simp add: meets_contract_def)

lemmas edits_meet = guarded_meets [OF eg_nim.guarded_edit_axioms] guarded_meets [OF eg_cli.guarded_edit_axioms, where r = "(s, q)" for s q, simplified]
  guarded_meets [OF eg_url.guarded_edit_axioms] guarded_meets [OF eg_ups.guarded_edit_axioms]
  guarded_meets [OF eg_mod.guarded_edit_axioms] guarded_meets [OF eg_srv.guarded_edit_axioms]
  guarded_meets [OF eg_lim.guarded_edit_axioms] guarded_meets [OF eg_his.guarded_edit_axioms]
  guarded_meets [OF eg_gov.guarded_edit_axioms] guarded_meets [OF eg_loc.guarded_edit_axioms]
  guarded_meets [OF eg_usr.guarded_edit_axioms, where r = "(h, q)" for h q, simplified]
  guarded_meets [OF eg_acl.guarded_edit_axioms] guarded_meets [OF eg_acp.guarded_edit_axioms, where r = "(v, h)" for v h, simplified]

lemma op_edit_meets:
  assumes "op_caller op = Some u" "op_edit env op c = Ok c'"
  shows "meets_contract u c c'"
proof (cases op)
  case (Account v body)
  with assms show ?thesis
    by (cases body) (auto split: sum.splits intro: edits_meet)
qed (use assms in \<open>auto split: sum.splits option.splits intro: edits_meet\<close>)

subsection \<open>Start and runs\<close>

text \<open>
  The state a start builds from the data directory (\<open>run\<close> in src/lib.rs): the stored
  configuration or the defaults, everything else made from it. A start refuses a store it cannot
  read.
\<close>

definition boot ::
  "env \<Rightarrow> bytes \<Rightarrow> bool \<Rightarrow> (string \<Rightarrow> stored_config option) \<Rightarrow> data_dir \<Rightarrow> load_error + app_state" where
  "boot env key trust parse d =
     bind_result (load parse d) (\<lambda>found.
       let c = (case found of Some c \<Rightarrow> c | None \<Rightarrow> default_config) in
       Ok \<lparr>ap_store = c, ap_disk = load_tidy d, ap_cfg = runtime c,
           ap_pool = new_pool (en_instant env) (pool_specs c), ap_retention = sc_history_days c,
           ap_revision = 1, ap_setup_required = (superuser c = None),
           ap_admin = new_admin (en_now env) key trust, ap_models_cache = None, ap_no_inject = {}\<rparr>)"

inductive server_run :: "(string \<Rightarrow> stored_config option) \<Rightarrow> app_state \<Rightarrow> app_state \<Rightarrow> bool" for parse where
  rest: "server_run parse st st"
| move: "server_run parse st st1 \<Longrightarrow> settings_step env op st1 = (st2, r) \<Longrightarrow>
    parse (en_ser env (ap_store st2)) = Some (ap_store st2) \<Longrightarrow> server_run parse st st2"

definition claim_flag :: "app_state \<Rightarrow> bool" where
  "claim_flag st \<longleftrightarrow> (ap_setup_required st \<longleftrightarrow> superuser (ap_store st) = None)"

lemma default_config_valid: "config_valid default_config"
proof -
  have "limits_ok default_config"
    by (simp add: limits_ok_def default_config_def default_limits_def default_dashboard_def default_slo_ok)
  moreover have "groups_ok default_config"
    by (simp add: groups_ok_def models_ok_def default_config_def default_upstream_def demo_url)
  moreover have "users_ok default_config" "keys_ok default_config" "clients_ok default_config" "owned_ok default_config"
    by (simp_all add: users_ok_def keys_ok_def clients_ok_def owned_ok_def superuser_def all_nim_keys_def default_config_def
        default_upstream_def)
  ultimately show ?thesis
    by (simp add: config_valid_def default_config_def default_governor_def models_ok_def demo_locale)
qed

lemma new_pool_matches: "pool_matches (new_pool now specs) specs"
  using rebuild_matches [of now "\<lparr>pl_lanes = [], pl_active = 0\<rparr>" specs]
  by (simp add: rebuild_def new_pool_def assemble_def)

lemma load_valid: "load parse d = Ok (Some c) \<Longrightarrow> config_valid c"
  by (auto simp: load_def validate_valid split: option.splits if_splits sum.splits)

lemma boot_sound:
  assumes "boot env key trust parse d = Ok st"
  shows "server_sound parse st \<and> claim_flag st"
  using assms default_config_valid load_valid [of parse d]
  by (auto simp: boot_def bind_result_def Let_def server_sound_def stored_on_disk_def claim_flag_def
      new_pool_matches load_after_tidy split: sum.splits option.splits)

text \<open>The flag follows the store: only a claim clears it, and only a claim makes a superuser.\<close>

lemma transact_flag:
  assumes "transact ap_store (commit env) e fin st = (st', q)"
    and "\<And>s. ap_store (fst (fin s)) = ap_store s" "\<And>s. ap_setup_required (fst (fin s)) = ap_setup_required s"
  shows "ap_setup_required st' = ap_setup_required st"
  using assms(1)
proof (cases rule: cp.transact_cases)
  case (commit_failed c e)
  then show ?thesis using commit_Err by fastforce
next
  case (committed c s1)
  then show ?thesis using commit_Ok [of env c st s1] assms(3) [of s1] by simp
qed simp

lemma transact_flagI:
  assumes "map_prod id Some (transact ap_store (commit env) e fin st) = (st', r)"
    and "\<And>s. ap_store (fst (fin s)) = ap_store s" "\<And>s. ap_setup_required (fst (fin s)) = ap_setup_required s"
  shows "ap_setup_required st' = ap_setup_required st"
  using assms transact_flag [of env e fin st st'] by (cases "transact ap_store (commit env) e fin st") auto

lemma step_flag:
  assumes "settings_step env op st = (st', r)" "op_caller op \<noteq> None"
  shows "ap_setup_required st' = ap_setup_required st"
proof (cases op)
  case (Account v body)
  with assms show ?thesis
    by (cases body) (auto simp: handler_defs split: sum.splits elim!: transact_flagI)
qed (use assms in \<open>auto simp: handler_defs clear_memo_def flush_upstream_def split: prod.splits if_splits sum.splits
      bool.splits elim!: transact_flagI\<close>)

lemma claim_groups_users [simp]: "sc_users (claim_groups req c) = sc_users c"
  by (simp add: claim_groups_def push_primary_keys_def set_primary_url_def Let_def split: list.split)

lemma setup_edit_Ok:
  assumes "setup_edit sha req hash secret c = Ok c'"
  shows "superuser c = None \<and> superuser c' =
    Some \<lparr>us_username = sr_username req, us_password_hash = hash, us_role = Superuser, us_locale = None\<rparr>"
proof -
  have "sc_users c' = [\<lparr>us_username = sr_username req, us_password_hash = hash, us_role = Superuser, us_locale = None\<rparr>]"
    using assms
    by (auto simp: setup_edit_def Let_def adopt_orphans_def set_primary_url_def push_client_key_def
        split: if_splits option.splits)
  with assms show ?thesis
    by (simp add: superuser_def setup_edit_def split: if_splits)
qed

lemma setup_claim_cases:
  assumes "setup_claim env req salt raw h form st = (st', r)"
  obtains (claimed) su where "superuser (ap_store st) = None" "superuser (ap_store st') = Some su"
      "us_username su = sr_username req" "\<not> ap_setup_required st'"
  | (refused) "ap_store st' = ap_store st" "ap_setup_required st' = ap_setup_required st"
      "superuser (ap_store st) \<noteq> None \<longrightarrow> st' = st \<and> r = Setup_complete"
  using assms unfolding setup_claim_def Let_def
proof (cases rule: cp.transact_cases)
  case edit_refused
  then show ?thesis
    using refused by (auto simp: setup_edit_def Let_def split: if_splits)
next
  case (commit_failed c e)
  then show ?thesis
    using refused commit_Err [of env c st st' e] setup_edit_Ok by fastforce
next
  case (committed c s1)
  then show ?thesis
    using claimed commit_Ok [of env c st s1 "()"] setup_edit_Ok by fastforce
qed

lemma step_of_caller:
  assumes "settings_step env op st = (st', r)" "op_caller op = Some u"
  shows "ap_store st' = ap_store st \<or> meets_contract u (ap_store st) (ap_store st')"
  using step_store [OF assms(1)] op_edit_meets [OF assms(2)] by blast

lemma step_claim_flag:
  assumes "settings_step env op st = (st', r)" "server_sound parse st" "claim_flag st"
  shows "claim_flag st'"
proof (cases "op_caller op")
  case (Some u)
  have "users_ok (ap_store st)" using assms(2) by (simp add: server_sound_def config_valid_def)
  then have "superuser (ap_store st') = None \<longleftrightarrow> superuser (ap_store st) = None"
    using step_of_caller [OF assms(1) Some]
    by (auto simp: meets_contract_def superuser_kept_def split: option.splits)
  with step_flag [OF assms(1)] Some assms(3) show ?thesis by (simp add: claim_flag_def)
next
  case None
  then show ?thesis
  proof (cases op)
    case (Setup_claim req salt raw h form)
    with assms(1) obtain q where "setup_claim env req salt raw h form st = (st', q)"
      by (cases "setup_claim env req salt raw h form st") auto
    then show ?thesis
      using assms(3) by (cases rule: setup_claim_cases) (simp_all add: claim_flag_def)
  qed (use assms in \<open>auto simp: setup_begin_def setup_validate_key_def claim_flag_def Let_def
      split: if_splits prod.splits bool.splits\<close>)
qed

lemma run_sound:
  assumes "server_run parse st st'" "server_sound parse st" "claim_flag st"
  shows "server_sound parse st' \<and> claim_flag st'"
  using assms
proof (induction rule: server_run.induct)
  case (move st st1 env op st2 r)
  then show ?case using step_sound step_claim_flag by blast
qed simp

lemma claimed_pool_serves:
  assumes "server_sound parse st" "superuser (ap_store st) \<noteq> None"
  shows "1 \<le> pl_active (ap_pool st)"
proof -
  obtain s where "s \<in> set (pool_specs (ap_store st))" "sp_enabled s"
    using assms by (auto simp: server_sound_def config_valid_def owned_ok_def)
  then have "filter sp_enabled (pool_specs (ap_store st)) \<noteq> []"
    by (auto simp: filter_empty_conv)
  with assms(1) show ?thesis
    by (cases "filter sp_enabled (pool_specs (ap_store st))") (simp_all add: server_sound_def pool_matches_def)
qed

lemma superuser_is_kept:
  assumes "server_sound parse st" "superuser (ap_store st) = Some su" "settings_step env op st = (st', r)"
  shows "\<exists>su'. superuser (ap_store st') = Some su' \<and> us_username su' = us_username su \<and>
    (op_caller op \<noteq> Some (us_username su) \<longrightarrow> su' = su)"
proof (cases "op_caller op")
  case (Some u)
  have "users_ok (ap_store st)" using assms(1) by (simp add: server_sound_def config_valid_def)
  then show ?thesis
    using step_of_caller [OF assms(3) Some] assms(2) Some
    by (auto simp: meets_contract_def superuser_kept_def)
next
  case None
  then have "ap_store st' = ap_store st"
    using step_store [OF assms(3)] assms(2) by (cases op) (auto simp: setup_edit_def)
  with assms(2) show ?thesis by simp
qed

subsection \<open>Properties\<close>


text \<open>
  C17: a save applies whole or not at all. When \<open>commit\<close> answers an error, because the candidate is
  invalid or the save failed at some system call, nothing but scratch files changed; when it
  succeeds, the candidate is valid, it is the stored configuration, the runtime snapshot and the
  pool are made from it, the disk holds it and the revision has moved by one.
\<close>

theorem commit_applies_whole:
  assumes "commit env cand st = (st', r)" "parse (en_ser env cand) = Some cand"
  shows "case r of
      Err e \<Rightarrow> (\<exists>d. st' = st\<lparr>ap_disk := d\<rparr>) \<and> load parse (ap_disk st') = load parse (ap_disk st) \<and>
        (validate cand = Ok () \<longrightarrow> e = Store_not_written)
    | Ok u \<Rightarrow> validate cand = Ok () \<and> ap_store st' = cand \<and> ap_cfg st' = runtime cand \<and>
        pool_matches (ap_pool st') (pool_specs cand) \<and> load parse (ap_disk st') = Ok (Some cand) \<and>
        ap_revision st' = ap_revision st + 1"
proof (cases r)
  case (Inl e)
  from commit_Err [OF assms(1) [unfolded Inl]] obtain d
    where d: "st' = st\<lparr>ap_disk := d\<rparr>" "dd_store d = dd_store (ap_disk st)" by blast
  have "load parse d = load parse (ap_disk st)" by (rule load_store) (rule d(2))
  moreover have "validate cand = Ok () \<longrightarrow> e = Store_not_written"
    using assms(1) Inl by (auto simp: commit_def split: prod.splits bool.splits)
  ultimately show ?thesis using d(1) Inl by auto
next
  case (Inr u)
  note com = commit_Ok [OF assms(1) [unfolded Inr]]
  with load_saved [of cand parse "en_ser env" "ap_disk st'" 384 True] assms(2)
  have "load parse (ap_disk st') = Ok (Some cand)" by blast
  with com Inr show ?thesis by (simp add: rebuild_matches)
qed

text \<open>
  C7: the superuser is inviolable. No step takes the superuser away, demotes or renames them, and a
  step that the superuser did not call, be it an admin's, leaves their whole record, the password
  hash included, as it is.
\<close>

theorem superuser_is_inviolable:
  assumes "server_sound parse st" "superuser (ap_store st) = Some su" "settings_step env op st = (st', r)"
  shows "\<exists>su'. superuser (ap_store st') = Some su' \<and> us_username su' = us_username su \<and>
    (op_caller op \<noteq> Some (us_username su) \<longrightarrow> su' = su)"
  using assms by (rule superuser_is_kept)

text \<open>
  C8: a caller without a role changes only what is theirs. A step of a caller whose role is \<open>user\<close>
  leaves the part of the configuration that is not the caller's as it is: every setting, every other
  user, every upstream and model list, the order and budgets of everyone else's keys and client
  keys, and every role.
\<close>

theorem users_touch_only_their_own:
  assumes "settings_step env op st = (st', r)" "op_caller op = Some u" "role_of (ap_store st) u = Some User"
  shows "others_view u (ap_store st') = others_view u (ap_store st)"
  using step_of_caller [OF assms(1,2)] assms(3) by (auto simp: meets_contract_def)

text \<open>
  C36: setup happens once. From a sound server that has a superuser, whatever steps follow, the
  superuser keeps the name they were claimed under, and the three setup routes answer that setup is
  complete and change nothing, also for a claim that passed the first check before the winner's.
\<close>

theorem setup_happens_once:
  assumes "server_sound parse st" "claim_flag st" "superuser (ap_store st) = Some su" "server_run parse st st'"
  shows "(\<exists>su'. superuser (ap_store st') = Some su' \<and> us_username su' = us_username su) \<and>
    setup_begin env req st' = (st', Some Setup_complete) \<and>
    setup_claim env req salt raw h form st' = (st', Setup_complete) \<and>
    setup_validate_key env vreq st' = (st', Setup_complete)"
proof -
  have name: "\<exists>su'. superuser (ap_store st') = Some su' \<and> us_username su' = us_username su"
    using assms(4,1-3)
  proof (induction rule: server_run.induct)
    case (move st st1 env op st2 r)
    then obtain su1 where "superuser (ap_store st1) = Some su1" "us_username su1 = us_username su" by blast
    with superuser_is_kept [of parse st1 su1 env op st2 r] run_sound [OF move.hyps(1)] move show ?case by force
  qed simp
  moreover have "\<not> ap_setup_required st'"
    using run_sound [OF assms(4,1,2)] name by (auto simp: claim_flag_def)
  ultimately show ?thesis
    by (auto simp: setup_begin_def setup_validate_key_def setup_claim_def transact_def setup_edit_def)
qed

text \<open>
  Where the claim falls short of its comments. It adopts the orphaned keys of the primary group only:
  with a key in an extra group whose owner is gone, no claim can ever be committed. And of several
  groups it drops the first one's streaming option.
\<close>

lemma claim_keeps_group_keys:
  "ep \<in> set (sc_upstreams c) \<Longrightarrow> setup_edit sha req hash secret c = Ok c' \<Longrightarrow> ep \<in> set (sc_upstreams c')"
  by (auto simp: setup_edit_def Let_def adopt_orphans_def set_primary_url_def push_client_key_def claim_groups_def
      push_primary_keys_def split: if_splits option.splits list.splits)

lemma claim_strands_group_orphans:
  assumes "ep \<in> set (sc_upstreams c)" "k \<in> set (ue_keys ep)" "nk_owner k \<noteq> sr_username req"
    and "setup_edit sha req hash secret c = Ok c'"
  shows "validate c' \<noteq> Ok ()"
proof
  assume "validate c' = Ok ()"
  then have "owned_ok c'" by (simp add: validate_valid config_valid_def)
  moreover have "k \<in> set (all_nim_keys c')"
    using claim_keeps_group_keys [OF assms(1,4)] assms(2) by (auto simp: all_nim_keys_def)
  moreover have "us_username ` set (sc_users c') = {sr_username req}"
    using assms(4) by (auto simp: setup_edit_def Let_def adopt_orphans_def set_primary_url_def push_client_key_def
        split: if_splits option.splits)
  ultimately show False
    using setup_edit_Ok [OF assms(4)] assms(3) by (auto simp: owned_ok_def)
qed

lemma claim_drops_first_option:
  "sr_groups req = [g] \<Longrightarrow> claim_groups req c = claim_groups (req\<lparr>sr_groups := [g\<lparr>sg_stream_options := b\<rparr>]\<rparr>) c"
  by (simp add: claim_groups_def Let_def)

subsection \<open>The properties at concrete inputs\<close>

text \<open>A start from a directory with a saved configuration, and a step of an admin-only section.\<close>

definition demo_env :: env where
  "demo_env = \<lparr>en_ser = (\<lambda>_. ''t''), en_fault = None, en_instant = 0, en_now = 0,
     en_mac = (\<lambda>_ m. m), en_sha = (\<lambda>x. x)\<rparr>"

definition demo_dir :: data_dir where
  "demo_dir = \<lparr>dd_store = Some \<lparr>fl_text = ''t'', fl_mode = 384, fl_synced = True\<rparr>, dd_tmp = None, dd_before = None\<rparr>"

definition demo_state :: app_state where
  "demo_state = \<lparr>ap_store = demo_config, ap_disk = demo_dir, ap_cfg = runtime demo_config,
     ap_pool = new_pool 0 (pool_specs demo_config), ap_retention = sc_history_days demo_config, ap_revision = 1,
     ap_setup_required = False, ap_admin = new_admin 0 [] False, ap_models_cache = None, ap_no_inject = {}\<rparr>"

definition demo_parse :: "string \<Rightarrow> stored_config option" where
  "demo_parse = (\<lambda>_. Some demo_config)"

lemma demo_superuser [simp]: "superuser demo_config =
    Some \<lparr>us_username = ''root'', us_password_hash = ''h'', us_role = Superuser, us_locale = None\<rparr>"
  by (simp add: superuser_def demo_config_def)

lemma demo_version: "sc_version demo_config = 1"
  by (simp add: demo_config_def default_config_def)

lemma demo_boot: "boot demo_env [] False demo_parse demo_dir = Ok demo_state"
  by (simp add: boot_def load_def demo_parse_def demo_dir_def demo_version demo_config_ok demo_state_def
      demo_env_def load_tidy_def)

lemma demo_sound: "server_sound demo_parse demo_state" "claim_flag demo_state"
  using boot_sound [OF demo_boot] by auto

definition demo_limits :: limits where
  "demo_limits = sc_limits demo_config"

lemma demo_step:
  "settings_step demo_env (Limits ''root'' demo_limits) demo_state =
     (demo_state\<lparr>ap_pool := rebuild 0 (ap_pool demo_state) (pool_specs demo_config), ap_revision := 2\<rparr>, Some Applied)"
proof -
  have "replace_limits demo_limits demo_config = demo_config"
    by (simp add: replace_limits_def demo_limits_def)
  moreover have "role_of demo_config ''root'' = Some Superuser"
    by (simp add: role_of_def user_of_def demo_config_def)
  ultimately have "admin_edit (limits_edit demo_limits) ''root'' demo_config = Ok demo_config"
    by (simp add: admin_edit_Ok limits_edit_def is_admin_def)
  moreover have "try_save (\<lambda>_. ''t'') None demo_config demo_dir = (demo_dir, True)"
    by (simp add: try_save_def save_calls_def demo_dir_def)
  ultimately show ?thesis
    by (simp add: admin_section_def transact_def commit_def demo_config_ok demo_state_def demo_env_def)
qed

lemma demo_run: "server_run demo_parse demo_state
    (demo_state\<lparr>ap_pool := rebuild 0 (ap_pool demo_state) (pool_specs demo_config), ap_revision := 2\<rparr>)"
  by (rule server_run.move [OF server_run.rest demo_step]) (simp add: demo_parse_def demo_state_def)


theorem commit_applies_whole_witness:
  "\<exists>st'. commit demo_env demo_config demo_state = (st', Ok ()) \<and> ap_revision st' = 2"
proof -
  have "try_save (\<lambda>_. ''t'') None demo_config demo_dir = (demo_dir, True)"
    by (simp add: try_save_def save_calls_def demo_dir_def)
  then obtain st' where c: "commit demo_env demo_config demo_state = (st', Ok ())"
    by (simp add: commit_def demo_config_ok demo_state_def demo_env_def)
  from commit_applies_whole [OF c, of demo_parse] have "ap_revision st' = ap_revision demo_state + 1"
    by (simp add: demo_parse_def)
  with c show ?thesis by (simp add: demo_state_def)
qed

theorem superuser_is_inviolable_witness:
  "\<exists>su'. superuser (ap_store (fst (settings_step demo_env (Limits ''root'' demo_limits) demo_state))) = Some su' \<and>
     us_username su' = ''root''"
  using superuser_is_inviolable [OF demo_sound(1) _ demo_step] unfolding demo_step
  by (simp add: demo_state_def)

definition demo_team :: stored_config where
  "demo_team = demo_config\<lparr>sc_users := sc_users demo_config @
     [\<lparr>us_username = ''ann'', us_password_hash = ''g'', us_role = User, us_locale = None\<rparr>]\<rparr>"

theorem users_touch_only_their_own_witness:
  "others_view ''ann'' (ap_store (fst (settings_step demo_env (Clients ''ann'' \<lparr>cr_add = Some ''laptop'', cr_remove = None,
      cr_mode = None\<rparr> []) (demo_state\<lparr>ap_store := demo_team\<rparr>)))) = others_view ''ann'' demo_team"
proof -
  let ?op = "Clients ''ann'' \<lparr>cr_add = Some ''laptop'', cr_remove = None, cr_mode = None\<rparr> []"
  let ?st = "demo_state\<lparr>ap_store := demo_team\<rparr>"
  obtain st' r where st: "settings_step demo_env ?op ?st = (st', r)"
    by (cases "settings_step demo_env ?op ?st")
  have "role_of (ap_store ?st) ''ann'' = Some User"
    by (simp add: role_of_def user_of_def demo_team_def demo_config_def)
  from users_touch_only_their_own [OF st _ this] st show ?thesis by simp
qed

theorem setup_happens_once_witness:
  "setup_validate_key demo_env \<lparr>vk_key = ''k'', vk_base_url = None, vk_upstream = None\<rparr> demo_state = (demo_state, Setup_complete)"
  using setup_happens_once [OF demo_sound _ server_run.rest, of _ demo_env]
  by (simp add: demo_state_def)

end
