(* ===== verification/Settings_View.thy ===== *)
theory Settings_View
  imports Settings_Runs
begin

section \<open>The settings page's data (api_config of src/settings.rs)\<close>

text \<open>
  The answer of \<open>GET /api/config\<close>, built for a role. The status of the metrics history is a
  parameter. The property says what a caller without a role can learn: nothing that a configuration
  with everyone else's data wiped would not answer as well.
\<close>

record nim_key_row =
  nw_cooldown_ms :: "nat option"
  nw_enabled :: bool
  nw_fingerprint :: string
  nw_guarded :: bool
  nw_in_window :: "nat option"
  nw_lane :: "nat option"
  nw_last4 :: string
  nw_owner :: string
  nw_rpm :: nat
  nw_upstream :: string

record client_key_row =
  cw_last4 :: string
  cw_name :: string
  cw_owner :: string

record upstream_row =
  uw_base_url :: string
  uw_enabled :: bool
  uw_keys :: nat
  uw_models :: "string list"
  uw_name :: string
  uw_stream_options :: bool

record user_row =
  rw_client_keys :: nat
  rw_nim_keys :: nat
  rw_role :: role
  rw_username :: string

record history_status =
  hs_available_from :: "nat option"
  hs_compaction_pending :: bool
  hs_file_bytes :: nat
  hs_persistence :: string

record server_settings =
  sv_base_url :: string
  sv_dashboard :: dashboard_cfg
  sv_default_locale :: string
  sv_governor :: governor_cfg
  sv_history :: history_status
  sv_history_days :: nat
  sv_limits :: limits

record config_view =
  cv_client_keys :: "client_key_row list"
  cv_disabled_models :: "string list"
  cv_locale :: "string option"
  cv_mode :: mode
  cv_nim_keys :: "nim_key_row list"
  cv_pool :: "nat \<times> nat"
  cv_role :: role
  cv_server :: "server_settings option"
  cv_upstreams :: "upstream_row list"
  cv_username :: string
  cv_users :: "user_row list option"

text \<open>Lane statistics by key; a later lane of the same key would win, as in the hash map.\<close>

definition stats_of :: "instant \<Rightarrow> pool \<Rightarrow> string \<rightharpoonup> (nat \<times> nat \<times> nat)" where
  "stats_of now p = map_of (rev (map (\<lambda>(i, s). (st_key s, (i, st_in_window s, st_cooldown_ms s)))
     (enumerate 0 (lane_stats now p))))"

text \<open>The superuser's only enabled key on an enabled group, if there is exactly one.\<close>

definition guarded_key :: "stored_config \<Rightarrow> string option" where
  "guarded_key c =
     (let su = (case superuser c of None \<Rightarrow> [] | Some u \<Rightarrow> us_username u);
          own = (\<lambda>on ks. map nk_key (filter (\<lambda>k. on \<and> nk_enabled k \<and> nk_owner k = su) ks));
          ks = own (up_enabled (sc_upstream c)) (up_nim_keys (sc_upstream c)) @
               concat (map (\<lambda>ep. own (ue_enabled ep) (ue_keys ep)) (sc_upstreams c))
      in (case ks of [k] \<Rightarrow> Some k | _ \<Rightarrow> None))"

definition key_row ::
  "(bytes \<Rightarrow> bytes) \<Rightarrow> (string \<rightharpoonup> (nat \<times> nat \<times> nat)) \<Rightarrow> string option \<Rightarrow> string \<Rightarrow> nim_key \<Rightarrow> nim_key_row" where
  "key_row sha stats guarded g k =
     (let lane = stats (nk_key k) in
      \<lparr>nw_cooldown_ms = map_option (\<lambda>(_, _, c). c) lane, nw_enabled = nk_enabled k,
       nw_fingerprint = fingerprint sha (nk_key k), nw_guarded = (guarded = Some (nk_key k)),
       nw_in_window = map_option (\<lambda>(_, w, _). w) lane, nw_lane = map_option fst lane,
       nw_last4 = last4 (nk_key k), nw_owner = nk_owner k, nw_rpm = nk_rpm k, nw_upstream = g\<rparr>)"

definition key_rows ::
  "(bytes \<Rightarrow> bytes) \<Rightarrow> (string \<rightharpoonup> (nat \<times> nat \<times> nat)) \<Rightarrow> bool \<Rightarrow> string \<Rightarrow> stored_config \<Rightarrow> nim_key_row list" where
  "key_rows sha stats admin_view username c =
     concat (map (\<lambda>(g, ks). map (key_row sha stats (guarded_key c) g)
       (filter (\<lambda>k. admin_view \<or> nk_owner k = username) ks)) (key_groups c))"

definition client_rows :: "bool \<Rightarrow> string \<Rightarrow> stored_config \<Rightarrow> client_key_row list" where
  "client_rows admin_view username c =
     map (\<lambda>k. \<lparr>cw_last4 = ck_last4 k, cw_name = ck_name k, cw_owner = ck_owner k\<rparr>)
       (filter (\<lambda>k. admin_view \<or> ck_owner k = username) (ca_keys (sc_client_auth c)))"

definition user_rows :: "stored_config \<Rightarrow> user_row list" where
  "user_rows c = map (\<lambda>u.
     \<lparr>rw_client_keys = length (filter (\<lambda>k. ck_owner k = us_username u) (ca_keys (sc_client_auth c))),
      rw_nim_keys = length (filter (\<lambda>k. nk_owner k = us_username u) (up_nim_keys (sc_upstream c))) +
        length (filter (\<lambda>k. nk_owner k = us_username u) (concat (map ue_keys (sc_upstreams c)))),
      rw_role = us_role u, rw_username = us_username u\<rparr>) (sc_users c)"

definition upstream_row_of ::
  "bool \<Rightarrow> string \<Rightarrow> string \<Rightarrow> string \<Rightarrow> bool \<Rightarrow> string list \<Rightarrow> nim_key list \<Rightarrow> bool \<Rightarrow> upstream_row list" where
  "upstream_row_of admin_view username name url enabled models keys so =
     (let mine = length (filter (\<lambda>k. nk_owner k = username) keys) in
      if admin_view \<or> 0 < mine
      then [\<lparr>uw_base_url = url, uw_enabled = enabled, uw_keys = (if admin_view then length keys else mine),
             uw_models = models, uw_name = name, uw_stream_options = so\<rparr>]
      else [])"

definition upstream_rows :: "bool \<Rightarrow> string \<Rightarrow> stored_config \<Rightarrow> upstream_row list" where
  "upstream_rows admin_view username c =
     (let u = sc_upstream c in
      upstream_row_of admin_view username PRIMARY_UPSTREAM (up_base_url u) (up_enabled u) (up_models u)
        (up_nim_keys u) (up_stream_options u) @
      concat (map (\<lambda>ep. upstream_row_of admin_view username (ue_name ep) (ue_base_url ep) (ue_enabled ep)
        (ue_models ep) (ue_keys ep) (ue_stream_options ep)) (sc_upstreams c)))"

definition server_section :: "history_status \<Rightarrow> stored_config \<Rightarrow> server_settings" where
  "server_section hs c = \<lparr>sv_base_url = up_base_url (sc_upstream c), sv_dashboard = sc_dashboard c,
     sv_default_locale = sc_default_locale c, sv_governor = sc_governor c, sv_history = hs,
     sv_history_days = sc_history_days c, sv_limits = sc_limits c\<rparr>"

definition api_config ::
  "(bytes \<Rightarrow> bytes) \<Rightarrow> instant \<Rightarrow> pool \<Rightarrow> history_status \<Rightarrow> stored_config \<Rightarrow> string \<Rightarrow> reply + config_view" where
  "api_config sha now p hs c username =
     (case role_of c username of
        None \<Rightarrow> Err Stale_session
      | Some role \<Rightarrow>
          let admin_view = is_admin role in
          Ok \<lparr>cv_client_keys = client_rows admin_view username c,
              cv_disabled_models = sc_disabled_models c,
              cv_locale = (case user_of c username of None \<Rightarrow> None | Some u \<Rightarrow> us_locale u),
              cv_mode = ca_mode (sc_client_auth c),
              cv_nim_keys = key_rows sha (stats_of now p) admin_view username c,
              cv_pool = (capacity_rpm p, pool_len p),
              cv_role = role,
              cv_server = (if admin_view then Some (server_section hs c) else None),
              cv_upstreams = upstream_rows admin_view username c,
              cv_username = username,
              cv_users = (if admin_view then Some (user_rows c) else None)\<rparr>)"

subsection \<open>What a caller without a role can learn\<close>

text \<open>
  The configuration with everything wiped that is not the caller's: other users, keys and client
  keys, the groups without a key of the caller, and all server settings.
\<close>

definition own_keys :: "string \<Rightarrow> nim_key list \<Rightarrow> nim_key list" where
  "own_keys u = filter (\<lambda>k. nk_owner k = u)"

definition wiped_for :: "string \<Rightarrow> stored_config \<Rightarrow> stored_config" where
  "wiped_for u c = default_config\<lparr>
     sc_upstream := (if own_keys u (up_nim_keys (sc_upstream c)) = [] then default_upstream
       else (sc_upstream c)\<lparr>up_nim_keys := own_keys u (up_nim_keys (sc_upstream c))\<rparr>),
     sc_upstreams := map (\<lambda>ep. ep\<lparr>ue_keys := own_keys u (ue_keys ep)\<rparr>)
       (filter (\<lambda>ep. own_keys u (ue_keys ep) \<noteq> []) (sc_upstreams c)),
     sc_disabled_models := sc_disabled_models c,
     sc_client_auth := \<lparr>ca_mode = ca_mode (sc_client_auth c),
       ca_keys = filter (\<lambda>k. ck_owner k = u) (ca_keys (sc_client_auth c))\<rparr>,
     sc_users := filter (\<lambda>x. us_username x = u) (sc_users c)\<rparr>"

lemma find_filter_self: "List.find P (filter P xs) = List.find P xs"
  by (induction xs) auto

lemma user_of_wiped [simp]: "user_of (wiped_for u c) u = user_of c u"
  by (simp add: user_of_def wiped_for_def find_filter_self)

lemma role_of_wiped [simp]: "role_of (wiped_for u c) u = role_of c u"
  by (simp add: role_of_def)

lemma own_keys_own [simp]: "filter (\<lambda>k. nk_owner k = u) (own_keys u ks) = own_keys u ks"
  by (simp add: own_keys_def)

lemma concat_filter_nonempty: "(\<And>x. \<not> P x \<Longrightarrow> f x = []) \<Longrightarrow> concat (map f (filter P xs)) = concat (map f xs)"
  by (induction xs) auto

text \<open>The caller's own keys are never the guarded one.\<close>

lemma only_name:
  assumes "users_ok c" "user_of c u = Some usr" "x \<in> set (sc_users c)" "us_username x = u"
  shows "x = usr"
  using assms user_of_name [OF assms(2)] by (auto simp: users_ok_def distinct_map inj_on_def)

lemma superuser_wiped:
  assumes "users_ok c" "role_of c u = Some User"
  shows "superuser (wiped_for u c) = None"
  using assms only_name [OF assms(1)]
  by (fastforce simp: superuser_def wiped_for_def find_None_iff role_of_def)

lemma guarded_key_owner:
  assumes "guarded_key c = Some s"
  shows "\<exists>k \<in> set (all_nim_keys c). nk_key k = s \<and> nk_owner k = (case superuser c of None \<Rightarrow> [] | Some u \<Rightarrow> us_username u)"
proof -
  let ?su = "case superuser c of None \<Rightarrow> [] | Some u \<Rightarrow> us_username u"
  let ?own = "\<lambda>on ks. map nk_key (filter (\<lambda>k. on \<and> nk_enabled k \<and> nk_owner k = ?su) ks)"
  have "?own (up_enabled (sc_upstream c)) (up_nim_keys (sc_upstream c)) @
      concat (map (\<lambda>ep. ?own (ue_enabled ep) (ue_keys ep)) (sc_upstreams c)) = [s]"
    using assms by (simp add: guarded_key_def Let_def split: list.splits)
  then have "s \<in> set (?own (up_enabled (sc_upstream c)) (up_nim_keys (sc_upstream c)) @
      concat (map (\<lambda>ep. ?own (ue_enabled ep) (ue_keys ep)) (sc_upstreams c)))"
    by simp
  then show ?thesis by (auto simp: all_nim_keys_def)
qed

lemma own_key_not_guarded:
  assumes "config_valid c" "role_of c u = Some User" "k \<in> set (all_nim_keys c)" "nk_owner k = u"
  shows "guarded_key c \<noteq> Some (nk_key k)"
proof
  assume "guarded_key c = Some (nk_key k)"
  then obtain k' where k': "k' \<in> set (all_nim_keys c)" "nk_key k' = nk_key k"
    "nk_owner k' = (case superuser c of None \<Rightarrow> [] | Some u \<Rightarrow> us_username u)"
    using guarded_key_owner by blast
  have "k' = k"
    using assms(1,3) k'(1,2) by (auto simp: config_valid_def keys_ok_def distinct_map inj_on_def)
  have ok: "users_ok c" using assms(1) by (simp add: config_valid_def)
  obtain usr where usr: "user_of c u = Some usr" "us_role usr = User"
    using assms(2) by (auto simp: role_of_def)
  have "u \<noteq> []"
    using user_of_name [OF usr(1)] ok by (auto simp: users_ok_def label_ok_def)
  moreover have "us_username su \<noteq> u" if "superuser c = Some su" for su
    using that only_name [OF ok usr(1), of su] usr(2) by (auto simp: superuser_def find_Some_iff)
  ultimately show False
    using k'(3) \<open>k' = k\<close> assms(4) by (auto split: option.splits)
qed

lemma guarded_wiped:
  assumes "users_ok c" "role_of c u = Some User"
  shows "guarded_key (wiped_for u c) = None"
proof -
  have "u \<noteq> []"
    using assms user_of_name by (fastforce simp: role_of_def users_ok_def label_ok_def)
  moreover have "nk_owner k = u" if "k \<in> set (all_nim_keys (wiped_for u c))" for k
    using that by (auto simp: all_nim_keys_def wiped_for_def own_keys_def default_config_def default_upstream_def split: if_splits)
  ultimately show ?thesis
    using guarded_key_owner [of "wiped_for u c"] superuser_wiped [OF assms] by (cases "guarded_key (wiped_for u c)") auto
qed

lemma key_rows_wiped:
  assumes "config_valid c" "role_of c u = Some User"
  shows "key_rows sha st False u (wiped_for u c) = key_rows sha st False u c"
proof -
  let ?row = "\<lambda>g ks. map (key_row sha st None g) (own_keys u ks)"
  have ok: "users_ok c" using assms(1) by (simp add: config_valid_def)
  have same: "map (key_row sha st (guarded_key c) g) (filter (\<lambda>k. nk_owner k = u) ks) = ?row g ks"
    if "set ks \<subseteq> set (all_nim_keys c)" for g ks
    using that own_key_not_guarded [OF assms] by (auto simp: own_keys_def key_row_def)
  have c: "key_rows sha st False u c = ?row PRIMARY_UPSTREAM (up_nim_keys (sc_upstream c)) @
      concat (map (\<lambda>ep. ?row (ue_name ep) (ue_keys ep)) (sc_upstreams c))"
  proof -
    have "map (\<lambda>ep. map (key_row sha st (guarded_key c) (ue_name ep)) (filter (\<lambda>k. nk_owner k = u) (ue_keys ep))) (sc_upstreams c)
        = map (\<lambda>ep. ?row (ue_name ep) (ue_keys ep)) (sc_upstreams c)"
    proof (rule map_cong [OF refl])
      fix ep assume "ep \<in> set (sc_upstreams c)"
      then have "set (ue_keys ep) \<subseteq> set (all_nim_keys c)" by (auto simp: all_nim_keys_def)
      from same [OF this] show "map (key_row sha st (guarded_key c) (ue_name ep)) (filter (\<lambda>k. nk_owner k = u) (ue_keys ep)) =
          ?row (ue_name ep) (ue_keys ep)" .
    qed
    then have "concat (map (\<lambda>ep. map (key_row sha st (guarded_key c) (ue_name ep)) (filter (\<lambda>k. nk_owner k = u) (ue_keys ep))) (sc_upstreams c))
        = concat (map (\<lambda>ep. ?row (ue_name ep) (ue_keys ep)) (sc_upstreams c))"
      by (rule arg_cong)
    then show ?thesis
      using same [of "up_nim_keys (sc_upstream c)"] by (simp add: key_rows_def key_groups_def o_def all_nim_keys_def)
  qed
  have "concat (map (\<lambda>ep. ?row (ue_name ep) (ue_keys ep)) (filter (\<lambda>ep. own_keys u (ue_keys ep) \<noteq> []) (sc_upstreams c)))
      = concat (map (\<lambda>ep. ?row (ue_name ep) (ue_keys ep)) (sc_upstreams c))"
    by (rule concat_filter_nonempty) simp
  then show ?thesis
    unfolding c using guarded_wiped [OF ok assms(2)]
    by (simp add: key_rows_def key_groups_def wiped_for_def o_def default_upstream_def default_config_def)
qed

lemma upstream_rows_wiped: "upstream_rows False u (wiped_for u c) = upstream_rows False u c"
proof -
  let ?f = "\<lambda>ep. upstream_row_of False u (ue_name ep) (ue_base_url ep) (ue_enabled ep)
        (ue_models ep) (ue_keys ep) (ue_stream_options ep)"
  have own: "upstream_row_of False u n b e m (own_keys u ks) s = upstream_row_of False u n b e m ks s"
    and none: "own_keys u ks = [] \<Longrightarrow> upstream_row_of False u n b e m ks s = []" for n b e m ks s
    by (simp_all add: upstream_row_of_def own_keys_def)
  have "concat (map ?f (filter (\<lambda>ep. own_keys u (ue_keys ep) \<noteq> []) (sc_upstreams c))) = concat (map ?f (sc_upstreams c))"
    by (rule concat_filter_nonempty) (simp add: none)
  moreover have "upstream_row_of False u n b e m [] s = []" for n b e m s
    by (simp add: upstream_row_of_def)
  ultimately show ?thesis
    by (simp add: upstream_rows_def wiped_for_def o_def own none default_upstream_def default_config_def Let_def)
qed

text \<open>
  C9: what a caller without a role can learn. For a valid configuration and a caller whose role is
  \<open>user\<close>, the answer is the same as if every other user, everyone else's keys and client keys, every
  group without a key of the caller, and all server settings had been wiped: so nothing of them
  reaches the response, be it a row, a count, a padlock or a URL. The pool's two totals and the lane
  numbers of the caller's own keys come from the live pool.
\<close>

theorem user_view_is_own:
  assumes "validate c = Ok ()" "role_of c u = Some User"
  shows "api_config sha now p hs c u = api_config sha now p hs' (wiped_for u c) u"
proof -
  have valid: "config_valid c" using assms(1) validate_valid by blast
  have "client_rows False u (wiped_for u c) = client_rows False u c"
    by (simp add: client_rows_def wiped_for_def)
  moreover have "sc_disabled_models (wiped_for u c) = sc_disabled_models c"
    "ca_mode (sc_client_auth (wiped_for u c)) = ca_mode (sc_client_auth c)"
    by (simp_all add: wiped_for_def)
  ultimately show ?thesis
    using assms(2) key_rows_wiped [OF valid assms(2)] upstream_rows_wiped
    by (simp add: api_config_def)
qed

definition demo_history_status :: history_status where
  "demo_history_status = \<lparr>hs_available_from = None, hs_compaction_pending = False, hs_file_bytes = 0, hs_persistence = ''ok''\<rparr>"

lemma demo_team_ok: "validate demo_team = Ok ()"
proof -
  have base: "config_valid demo_config" using demo_config_ok validate_valid by blast
  have parts: "limits_ok demo_team = limits_ok demo_config" "groups_ok demo_team = groups_ok demo_config"
    "keys_ok demo_team = keys_ok demo_config" "clients_ok demo_team = clients_ok demo_config"
    "all_nim_keys demo_team = all_nim_keys demo_config" "pool_specs demo_team = pool_specs demo_config"
    "sc_client_auth demo_team = sc_client_auth demo_config" "sc_version demo_team = sc_version demo_config"
    "sc_default_locale demo_team = sc_default_locale demo_config" "sc_disabled_models demo_team = sc_disabled_models demo_config"
    "sc_governor demo_team = sc_governor demo_config"
    by (simp_all add: demo_team_def limits_ok_def groups_ok_def keys_ok_def clients_ok_def all_nim_keys_def pool_specs_def)
  have names: "label_ok ''root'' 32" "label_ok ''ann'' 32" by code_simp+
  have "users_ok demo_team"
    by (simp add: users_ok_def demo_team_def demo_config_def names)
  moreover have "superuser demo_team = superuser demo_config"
    by (simp add: superuser_def demo_team_def demo_config_def)
  then have "owned_ok demo_team"
    using base unfolding config_valid_def owned_ok_def parts by (auto simp: demo_team_def)
  ultimately show ?thesis
    using base by (simp add: validate_valid config_valid_def parts)
qed

theorem user_view_is_own_witness:
  "role_of demo_team ''ann'' = Some User \<and>
   api_config (\<lambda>x. x) 0 demo_pool demo_history_status demo_team ''ann'' = api_config (\<lambda>x. x) 0 demo_pool demo_history_status (wiped_for ''ann'' demo_team) ''ann''"
proof -
  have "role_of demo_team ''ann'' = Some User"
    by (simp add: role_of_def user_of_def demo_team_def demo_config_def)
  with user_view_is_own [OF demo_team_ok this] show ?thesis by blast
qed

end
