(* ===== verification/Routing.thy ===== *)
theory Routing
  imports Settings_View
begin

section \<open>Routing and request inspection (src/lib.rs, src/proxy.rs)\<close>

text \<open>
  Which endpoint groups may serve a model, the labels of a request, its deadline, what is read from
  its body, and the merged model catalog. Parsing and printing JSON text and decoding percent
  escapes are the crates' and parameters here.
\<close>

subsection \<open>Model routing\<close>

fun classify_groups :: "string \<Rightarrow> nat \<Rightarrow> endpoint_runtime list \<Rightarrow> nat list \<times> nat list" where
  "classify_groups m i [] = ([], [])"
| "classify_groups m i (ep # eps) =
     (case classify_groups m (Suc i) eps of (specific, catch_all) \<Rightarrow>
        if \<not> er_enabled ep then (specific, catch_all)
        else if er_models ep = [] then (specific, i # catch_all)
        else if m \<in> set (er_models ep) then (i # specific, catch_all)
        else (specific, catch_all))"

definition route_model :: "runtime_config \<Rightarrow> string \<Rightarrow> nat list option" where
  "route_model cfg m =
     (if m \<in> set (cf_disabled_models cfg) then None
      else (case classify_groups m 0 (cf_endpoints cfg) of (specific, catch_all) \<Rightarrow>
              Some (if specific = [] then catch_all else specific)))"

subsection \<open>Labels\<close>

definition MODEL_LABEL_CAP :: nat where "MODEL_LABEL_CAP = 256"

definition label_char :: "char \<Rightarrow> bool" where
  "label_char c \<longleftrightarrow> ascii_alnum c \<or> c \<in> set ''._-/:''"

definition sanitize_label :: "string \<Rightarrow> string" where
  "sanitize_label raw =
     (let cleaned = take 64 (filter label_char raw) in if cleaned = [] then ''none'' else cleaned)"

definition bounded_label :: "string set \<Rightarrow> string \<Rightarrow> nat \<Rightarrow> string set \<times> string" where
  "bounded_label seen s cap =
     (if s \<in> seen then (seen, s)
      else if card seen < cap then (insert s seen, s)
      else (seen, ''other''))"

definition label_model :: "string \<Rightarrow> string set \<Rightarrow> string set \<times> string" where
  "label_model raw seen = bounded_label seen (sanitize_label raw) MODEL_LABEL_CAP"

definition per_model_path_id :: "(string \<Rightarrow> string) \<Rightarrow> string \<Rightarrow> string option" where
  "per_model_path_id pct path =
     (case str_strip_prefix ''/v1/models/'' path of
        None \<Rightarrow> None
      | Some raw \<Rightarrow> if raw = [] then None else Some (pct raw))"

definition label_path :: "(string \<Rightarrow> string) \<Rightarrow> string \<Rightarrow> string" where
  "label_path pct path =
     (if path \<in> set [''/v1/chat/completions'', ''/v1/completions'', ''/v1/embeddings'', ''/v1/models'', ''/v1/rankings'']
      then path
      else if per_model_path_id pct path \<noteq> None then ''/v1/models'' else ''other'')"

subsection \<open>Deadline, authorization\<close>

text \<open>
  The values of the deadline header, \<open>None\<close> for one that is no text; an instant beyond the
  platform's last one is refused.
\<close>

definition parse_request_deadline :: "instant \<Rightarrow> string option list \<Rightarrow> instant \<Rightarrow> unit + instant option" where
  "parse_request_deadline last_instant values accepted =
     (case values of
        [] \<Rightarrow> Ok None
      | [Some raw] \<Rightarrow>
          if raw = [] \<or> \<not> list_all ascii_digit raw then Err ()
          else (case parse_dec (2 ^ 64) raw of
                  None \<Rightarrow> Err ()
                | Some ms \<Rightarrow>
                    if accepted + millis ms \<le> last_instant then Ok (Some (accepted + millis ms)) else Err ())
      | _ \<Rightarrow> Err ())"

text \<open>Open mode admits everyone as \<open>local\<close>; keyed mode looks the digest of the bearer up.\<close>

definition client_of :: "(bytes \<Rightarrow> bytes) \<Rightarrow> runtime_config \<Rightarrow> headers \<Rightarrow> string option" where
  "client_of sha cfg h =
     (case cf_clients cfg of
        None \<Rightarrow> Some ''local''
      | Some table \<Rightarrow>
          let token = (case hd_authorization h of
                None \<Rightarrow> [] | Some a \<Rightarrow> (case str_strip_prefix ''Bearer '' a of None \<Rightarrow> [] | Some t \<Rightarrow> t))
          in table (sha256_hex sha token))"

subsection \<open>Upstream answers\<close>

definition retryable :: "nat \<Rightarrow> bool" where
  "retryable status \<longleftrightarrow> status \<in> {429, 500, 502, 503, 504}"

definition backoff_for :: "string option \<Rightarrow> duration" where
  "backoff_for retry_after =
     (case retry_after of None \<Rightarrow> secs 10
      | Some s \<Rightarrow> (case parse_dec (2 ^ 64) s of None \<Rightarrow> secs 10 | Some n \<Rightarrow> secs n))"

subsection \<open>The shape of a request body\<close>

definition tool_choice_mode :: "json \<Rightarrow> string" where
  "tool_choice_mode v =
     (case get ''tool_choice'' v of
        Some (JString s) \<Rightarrow> if s \<in> {''auto'', ''none'', ''required''} then s else ''other''
      | Some (JObject _) \<Rightarrow> ''named''
      | _ \<Rightarrow> ''auto'')"

definition array_at :: "string \<Rightarrow> json \<Rightarrow> json list option" where
  "array_at k v = (case get k v of None \<Rightarrow> None | Some x \<Rightarrow> as_array x)"

definition str_at :: "string \<Rightarrow> json \<Rightarrow> string option" where
  "str_at k v = (case get k v of None \<Rightarrow> None | Some x \<Rightarrow> as_str x)"

definition count_tools :: "json \<Rightarrow> nat option" where
  "count_tools v =
     (case array_at ''tools'' v of
        Some a \<Rightarrow> Some (length a)
      | None \<Rightarrow> map_option length (array_at ''functions'' v))"

definition is_json_mode :: "json \<Rightarrow> bool" where
  "is_json_mode v =
     (case get ''response_format'' v of
        None \<Rightarrow> False
      | Some rf \<Rightarrow> (case str_at ''type'' rf of
            None \<Rightarrow> False | Some t \<Rightarrow> t = ''json_object'' \<or> t = ''json_schema''))"

text \<open>What \<open>record_shape\<close> records of a body: message count, tools with the choice mode, output cap, JSON mode.\<close>

record shape =
  sh_messages :: "nat option"
  sh_tools :: "(nat \<times> string) option"
  sh_max_tokens :: "nat option"
  sh_temperature :: "f64 option"
  sh_json_mode :: bool

definition body_shape :: "json \<Rightarrow> shape" where
  "body_shape v = \<lparr>
     sh_messages = map_option length (array_at ''messages'' v),
     sh_tools = map_option (\<lambda>n. (n, tool_choice_mode v)) (count_tools v),
     sh_max_tokens = (case (case get ''max_tokens'' v of None \<Rightarrow> None | Some x \<Rightarrow> as_u64 x) of
        Some n \<Rightarrow> Some n
      | None \<Rightarrow> (case get ''max_completion_tokens'' v of None \<Rightarrow> None | Some x \<Rightarrow> as_u64 x)),
     sh_temperature = (case get ''temperature'' v of None \<Rightarrow> None | Some x \<Rightarrow> as_f64 x),
     sh_json_mode = is_json_mode v\<rparr>"

text \<open>The text of one message: a string, or the text parts of an array.\<close>

definition message_text :: "json \<Rightarrow> string option" where
  "message_text m =
     (case get ''content'' m of
        Some (JString s) \<Rightarrow> Some s
      | Some (JArr parts) \<Rightarrow> Some (join_with '' '' (List.map_filter (str_at ''text'') parts))
      | _ \<Rightarrow> None)"

definition estimate_prompt_tokens :: "json \<Rightarrow> nat option" where
  "estimate_prompt_tokens v =
     (let text = (case array_at ''messages'' v of
            Some ms \<Rightarrow> Some (join_with '' '' (List.map_filter message_text ms))
          | None \<Rightarrow> str_at ''prompt'' v)
      in case text of
           None \<Rightarrow> None
         | Some t \<Rightarrow>
             let chars = length (utf8_chars t) in
             if chars = 0 then None else Some (max chars 4 div 4))"

text \<open>
  The sticky-lane hint: a hash of the model and the first two messages, modulo the lanes. Without a
  lane the remainder would panic.
\<close>

definition affinity_key :: "(json \<Rightarrow> string) \<Rightarrow> json \<Rightarrow> (string \<times> string list) option" where
  "affinity_key render v =
     map_option (\<lambda>ms. (case str_at ''model'' v of None \<Rightarrow> [] | Some m \<Rightarrow> m, map render (take 2 ms)))
       (array_at ''messages'' v)"

definition affinity ::
  "(json \<Rightarrow> string) \<Rightarrow> (string \<times> string list \<Rightarrow> nat) \<Rightarrow> json \<Rightarrow> nat \<Rightarrow> nat option option" where
  "affinity render hash v lanes =
     (case affinity_key render v of
        None \<Rightarrow> Some None
      | Some k \<Rightarrow> if lanes = 0 then None else Some (Some (hash k mod lanes)))"

text \<open>Asking for usage in a streamed answer, on a body that is an object without the member.\<close>

definition json_insert :: "string \<Rightarrow> json \<Rightarrow> json \<Rightarrow> json" where
  "json_insert k x v = (case v of JObject ms \<Rightarrow> JObject (bt_insert k x ms) | _ \<Rightarrow> v)"

definition injectable :: "json \<Rightarrow> bool" where
  "injectable v \<longleftrightarrow> (case v of JObject _ \<Rightarrow> get ''stream_options'' v = None | _ \<Rightarrow> False)"

definition inject_usage :: "json \<Rightarrow> json" where
  "inject_usage = json_insert ''stream_options'' (JObject [(''include_usage'', JBool True)])"

subsection \<open>The model catalog\<close>

text \<open>One pass over the catalogs: the ids seen, the entries kept, the list's object type, whether any parsed.\<close>

definition entry_id :: "json \<Rightarrow> string" where
  "entry_id e = (case str_at ''id'' e of None \<Rightarrow> [] | Some i \<Rightarrow> i)"

fun take_entries :: "string list \<Rightarrow> json list \<Rightarrow> string set \<times> json list \<Rightarrow> string set \<times> json list" where
  "take_entries disabled [] acc = acc"
| "take_entries disabled (e # es) (ids, out) =
     (let i = entry_id e in
      if i = [] \<or> i \<in> set disabled then take_entries disabled es (ids, out)
      else if i \<in> ids then take_entries disabled es (ids, out)
      else take_entries disabled es (insert i ids, out @ [e]))"

fun merge_values :: "string list \<Rightarrow> json option list \<Rightarrow> string set \<times> json list \<times> json \<times> bool \<Rightarrow> json list \<times> json \<times> bool" where
  "merge_values disabled [] (ids, out, ty, parsed) = (out, ty, parsed)"
| "merge_values disabled (b # bs) (ids, out, ty, parsed) =
     (case b of
        None \<Rightarrow> merge_values disabled bs (ids, out, ty, parsed)
      | Some v \<Rightarrow>
          (case array_at ''data'' v of
             None \<Rightarrow> merge_values disabled bs (ids, out, ty, parsed)
           | Some arr \<Rightarrow>
               let ty' = (if out = [] then (case get ''object'' v of Some x \<Rightarrow> x | None \<Rightarrow> ty) else ty)
               in case take_entries disabled arr (ids, out) of
                    (ids', out') \<Rightarrow> merge_values disabled bs (ids', out', ty', True)))"

definition merge_catalogs ::
  "(bytes \<Rightarrow> json option) \<Rightarrow> (json \<Rightarrow> bytes) \<Rightarrow> bytes list \<Rightarrow> string list \<Rightarrow> bytes" where
  "merge_catalogs parse render bodies disabled =
     (case merge_values disabled (map parse bodies) ({}, [], JString ''list'', False) of
        (data, ty, parsed) \<Rightarrow>
          if \<not> parsed then (case bodies of [] \<Rightarrow> [] | b # _ \<Rightarrow> b)
          else render (JObject [(''data'', JArr data), (''object'', ty)]))"

text \<open>The groups a refresh asks, and the body made of the answers.\<close>

definition catalog_targets :: "runtime_config \<Rightarrow> pool \<Rightarrow> nat list" where
  "catalog_targets cfg p =
     map fst (filter (\<lambda>(i, ep). er_enabled ep \<and> i \<in> set (active_endpoints p)) (enumerate 0 (cf_endpoints cfg)))"

definition catalog_of ::
  "(bytes \<Rightarrow> json option) \<Rightarrow> (json \<Rightarrow> bytes) \<Rightarrow> bytes list \<Rightarrow> string list \<Rightarrow> bytes" where
  "catalog_of parse render hits disabled =
     (case hits of
        [b] \<Rightarrow> if disabled = [] then b else merge_catalogs parse render hits disabled
      | _ \<Rightarrow> merge_catalogs parse render hits disabled)"

definition model_entry :: "(bytes \<Rightarrow> json option) \<Rightarrow> bytes \<Rightarrow> string \<Rightarrow> json option" where
  "model_entry parse body i =
     (case parse body of
        None \<Rightarrow> None
      | Some v \<Rightarrow> (case array_at ''data'' v of
            None \<Rightarrow> None | Some arr \<Rightarrow> List.find (\<lambda>m. str_at ''id'' m = Some i) arr))"

subsection \<open>Routing is what the configuration says\<close>

definition lists_model :: "string \<Rightarrow> endpoint_runtime \<Rightarrow> bool" where
  "lists_model m ep \<longleftrightarrow> er_enabled ep \<and> m \<in> set (er_models ep)"

definition catches_all :: "endpoint_runtime \<Rightarrow> bool" where
  "catches_all ep \<longleftrightarrow> er_enabled ep \<and> er_models ep = []"

lemma classify_groups_filter:
  "classify_groups m i eps =
     (map fst (filter (\<lambda>(_, ep). lists_model m ep) (enumerate i eps)),
      map fst (filter (\<lambda>(_, ep). catches_all ep) (enumerate i eps)))"
  by (induction m i eps rule: classify_groups.induct) (auto simp: lists_model_def catches_all_def)

lemma route_model_iff:
  "route_model cfg m = (if m \<in> set (cf_disabled_models cfg) then None
     else Some (if \<exists>ep \<in> set (cf_endpoints cfg). lists_model m ep
       then map fst (filter (\<lambda>(_, ep). lists_model m ep) (enumerate 0 (cf_endpoints cfg)))
       else map fst (filter (\<lambda>(_, ep). catches_all ep) (enumerate 0 (cf_endpoints cfg)))))"
proof -
  have "filter (\<lambda>(_, ep). lists_model m ep) (enumerate n eps) = [] \<longleftrightarrow> \<not> (\<exists>ep \<in> set eps. lists_model m ep)" for n eps
    by (induction eps arbitrary: n) auto
  then show ?thesis
    by (simp add: route_model_def classify_groups_filter)
qed

lemma in_filter_enumerate:
  "e \<in> set (map fst (filter (\<lambda>(_, x). P x) (enumerate 0 xs))) \<longleftrightarrow> e < length xs \<and> P (xs ! e)"
  by (force simp: in_set_enumerate_eq)

lemma runtime_endpoint:
  "e < length (endpoints c) \<Longrightarrow> cf_endpoints (runtime c) ! e =
     \<lparr>er_name = ev_name (endpoints c ! e), er_base_url = ev_base_url (endpoints c ! e),
      er_enabled = ev_enabled (endpoints c ! e), er_models = ev_models (endpoints c ! e)\<rparr>"
  "length (cf_endpoints (runtime c)) = length (endpoints c)" "cf_disabled_models (runtime c) = sc_disabled_models c"
  by (simp_all add: runtime_def)

lemma route_model_groups:
  assumes "route_model (runtime c) m = Some es" "e \<in> set es"
  shows "m \<notin> set (sc_disabled_models c) \<and> e < length (endpoints c) \<and> ev_enabled (endpoints c ! e) \<and>
    (m \<in> set (ev_models (endpoints c ! e)) \<or>
     ev_models (endpoints c ! e) = [] \<and> (\<forall>ep \<in> set (endpoints c). ev_enabled ep \<longrightarrow> m \<notin> set (ev_models ep)))"
proof -
  have none: "(\<forall>ep \<in> set (cf_endpoints (runtime c)). \<not> lists_model m ep) \<longleftrightarrow>
      (\<forall>ep \<in> set (endpoints c). ev_enabled ep \<longrightarrow> m \<notin> set (ev_models ep))"
    by (auto simp: runtime_def lists_model_def)
  have "e < length (endpoints c) \<and> (lists_model m (cf_endpoints (runtime c) ! e) \<or>
      catches_all (cf_endpoints (runtime c) ! e) \<and> (\<forall>ep \<in> set (cf_endpoints (runtime c)). \<not> lists_model m ep))"
    using assms in_filter_enumerate [of e "lists_model m" "cf_endpoints (runtime c)"]
      in_filter_enumerate [of e catches_all "cf_endpoints (runtime c)"]
    by (auto simp: route_model_iff runtime_endpoint(2) simp del: set_map split: if_splits)
  moreover have "m \<notin> set (sc_disabled_models c)"
    using assms(1) by (auto simp: route_model_iff runtime_endpoint split: if_splits)
  ultimately show ?thesis
    unfolding none by (auto simp: runtime_endpoint lists_model_def catches_all_def)
qed

text \<open>The lane of a grant is made from an enabled spec.\<close>

lemma granted_lane_spec:
  assumes "pool_matches p specs" "i < pl_active p"
  shows "\<exists>s \<in> set specs. sp_enabled s \<and> lane_face (pl_lanes p ! i) = lane_of_spec s [] 0"
proof -
  let ?on = "filter sp_enabled specs"
  have i: "i < length ?on" using assms by (simp add: pool_matches_def)
  have faces: "map lane_face (pl_lanes p) = map (\<lambda>s. lane_of_spec s [] 0) (?on @ filter (\<lambda>s. \<not> sp_enabled s) specs)"
    using assms(1) by (simp add: pool_matches_def)
  from arg_cong [OF faces, of length] i have len: "i < length (pl_lanes p)" by simp
  from arg_cong [OF faces, of "\<lambda>xs. xs ! i"] i len have "lane_face (pl_lanes p ! i) = lane_of_spec (?on ! i) [] 0"
    by (simp add: nth_append del: map_append)
  with nth_mem [OF i] show ?thesis by auto
qed

lemma spec_key:
  assumes "s \<in> set (pool_specs c)"
  shows "\<exists>nk \<in> set (snd (key_groups c ! sp_endpoint s)). nk_key nk = sp_key s \<and> (sp_enabled s \<longrightarrow> nk_enabled nk)"
  using assms unfolding specs_of_keys
  by (fastforce simp: group_specs_mem Let_def key_groups_def)

text \<open>
  C15: a request goes only where its model is served, and a key only to its own provider. On a valid
  configuration and a pool made from it, whatever has happened to the pool's windows since, a slot
  granted for the groups that \<open>route_model\<close> allows for a model is on an enabled group: its base URL
  is that group's and its key one of that group's enabled keys. The model is not disabled, and the
  group lists it, or lists nothing while no enabled group lists it.
\<close>

theorem routed_grant_serves_model:
  assumes "validate c = Ok ()" "pool_matches p (pool_specs c)" "pool_wf now p"
    and "route_model (runtime c) m = Some es" "reserve_filtered p now pref (Some es) = (q, Ready i k stamp sticky)"
  shows "\<exists>e < length (endpoints c). ev_enabled (endpoints c ! e) \<and> m \<notin> set (sc_disabled_models c) \<and>
    ln_base_url (pl_lanes p ! i) = ev_base_url (endpoints c ! e) \<and>
    (m \<in> set (ev_models (endpoints c ! e)) \<or>
     ev_models (endpoints c ! e) = [] \<and> (\<forall>ep \<in> set (endpoints c). ev_enabled ep \<longrightarrow> m \<notin> set (ev_models ep))) \<and>
    (\<exists>nk \<in> set (snd (key_groups c ! e)). nk_key nk = k \<and> nk_enabled nk)"
proof -
  have free: "i \<in> set (free_lanes now (Some es) p)" "k = ln_key (pl_lanes p ! i)"
    using reserve_spec_Ready(1,2) [OF reserve_filtered_result(1) [OF assms(3,5), symmetric]] by auto
  then have i: "i < pl_active p" "ln_endpoint (pl_lanes p ! i) \<in> set es"
    using free_lanesD(1,2) [OF free(1)] by (auto simp: lane_ok_def)
  obtain s where s: "s \<in> set (pool_specs c)" "sp_enabled s" "lane_face (pl_lanes p ! i) = lane_of_spec s [] 0"
    using granted_lane_spec [OF assms(2) i(1)] by blast
  then have lane: "ln_key (pl_lanes p ! i) = sp_key s" "ln_endpoint (pl_lanes p ! i) = sp_endpoint s"
    "ln_base_url (pl_lanes p ! i) = sp_base_url s"
    by (cases "pl_lanes p ! i"; simp add: lane_face_def lane_of_spec_def)+
  have "distinct (PRIMARY_UPSTREAM # map ue_name (sc_upstreams c))"
    using assms(1) by (simp add: validate_valid config_valid_def groups_ok_def)
  from spec_endpoint [OF this] s(1) have "sp_base_url s = ev_base_url (endpoints c ! sp_endpoint s)" by blast
  with route_model_groups [OF assms(4) i(2)] spec_key [OF s(1)] s(2) lane free(2) show ?thesis
    by auto
qed

text \<open>
  A request with messages never panics on the lane hint once setup is complete: in every state
  that a start and any settings steps lead to, while setup is over, the pool has a lane to take the
  remainder by, so the hint is computed, and it names an active lane.
\<close>

theorem affinity_never_panics:
  assumes "boot env key trust parse d = Ok st0" "server_run parse st0 st" "\<not> ap_setup_required st"
  shows "\<exists>hint. affinity render hash v (pool_len (ap_pool st)) = Some hint \<and>
    (\<forall>i. hint = Some i \<longrightarrow> i < pl_active (ap_pool st))"
proof -
  have "server_sound parse st" "claim_flag st"
    using run_sound [OF assms(2)] boot_sound [OF assms(1)] by auto
  with assms(3) have "0 < pool_len (ap_pool st)"
    using claimed_pool_serves [of parse st] by (auto simp: claim_flag_def pool_len_def)
  then show ?thesis
    by (auto simp: affinity_def pool_len_def split: option.split)
qed

subsection \<open>Labels are bounded\<close>

lemma sanitize_label_safe:
  "list_all label_char (sanitize_label raw) \<and> length (sanitize_label raw) \<le> 64 \<and> sanitize_label raw \<noteq> []"
proof -
  have "list_all label_char ''none''"
    by code_simp
  then show ?thesis
    by (auto simp: sanitize_label_def Let_def list_all_iff dest: in_set_takeD)
qed

fun label_run :: "string list \<Rightarrow> string set \<Rightarrow> string set \<times> string list" where
  "label_run [] seen = (seen, [])"
| "label_run (raw # raws) seen =
     (case label_model raw seen of (seen', l) \<Rightarrow> map_prod id ((#) l) (label_run raws seen'))"

lemma label_run_bounded:
  assumes "finite seen" "card seen \<le> MODEL_LABEL_CAP"
  shows "finite (fst (label_run raws seen)) \<and> card (fst (label_run raws seen)) \<le> MODEL_LABEL_CAP \<and>
    seen \<subseteq> fst (label_run raws seen) \<and>
    set (snd (label_run raws seen)) \<subseteq> insert ''other'' (fst (label_run raws seen))"
  using assms
proof (induction raws arbitrary: seen)
  case (Cons raw raws)
  obtain seen' l where l: "label_model raw seen = (seen', l)" by (cases "label_model raw seen")
  then have s: "finite seen'" "card seen' \<le> MODEL_LABEL_CAP" "seen \<subseteq> seen'" "l \<in> insert ''other'' seen'"
    using Cons.prems by (auto simp: label_model_def bounded_label_def card_insert_if split: if_splits)
  with Cons.IH [OF s(1,2)] l show ?case by auto
qed simp

text \<open>
  Clients cannot blow up the metrics. Whatever model ids clients send, in whatever number, the
  model labels that come out are at most 257 different texts, each of at most 64 characters of the
  safe charset.
\<close>

theorem labels_are_bounded:
  "card (set (snd (label_run raws {}))) \<le> 257 \<and>
   (\<forall>l \<in> set (snd (label_run raws {})). length l \<le> 64 \<and> list_all label_char l)"
proof -
  let ?seen = "fst (label_run raws {})" and ?out = "set (snd (label_run raws {}))"
  note b = label_run_bounded [of "{}" raws]
  then have "card ?out \<le> card (insert ''other'' ?seen)" by (intro card_mono) auto
  also have "\<dots> \<le> 257" using b by (simp add: card_insert_if MODEL_LABEL_CAP_def)
  finally have "card ?out \<le> 257" .
  moreover have "\<forall>l \<in> set (snd (label_run raws seen)). length l \<le> 64 \<and> list_all label_char l"
    if "\<forall>l \<in> seen. length l \<le> 64 \<and> list_all label_char l" for seen
    using that
  proof (induction raws arbitrary: seen)
    case (Cons raw raws)
    obtain seen' l where l: "label_model raw seen = (seen', l)" by (cases "label_model raw seen")
    have "list_all label_char ''other''" by code_simp
    with l Cons.prems sanitize_label_safe [of raw] have "\<forall>l \<in> insert l seen'. length l \<le> 64 \<and> list_all label_char l"
      by (auto simp: label_model_def bounded_label_def split: if_splits)
    with Cons.IH [of seen'] l show ?case by auto
  qed simp
  ultimately show ?thesis by blast
qed

lemma labels_are_bounded_witness:
  "snd (label_run [''meta/llama'', ''a b''] {}) = [''meta/llama'', ''ab''] \<and>
   length ''ab'' \<le> 64 \<and> list_all label_char ''ab''"
proof -
  have run: "snd (label_run [''meta/llama'', ''a b''] {}) = [''meta/llama'', ''ab'']" by code_simp
  then show ?thesis
    using labels_are_bounded [of "[''meta/llama'', ''a b'']"] by simp
qed

subsection \<open>The merged catalog\<close>

definition entries_of :: "json option \<Rightarrow> json list" where
  "entries_of b = (case b of None \<Rightarrow> [] | Some v \<Rightarrow> (case array_at ''data'' v of None \<Rightarrow> [] | Some arr \<Rightarrow> arr))"

text \<open>The specification: the first entry of every id, in order, without the disabled and the nameless.\<close>

fun first_entries :: "string list \<Rightarrow> json list \<Rightarrow> json list" where
  "first_entries skip [] = []"
| "first_entries skip (e # es) =
     (if entry_id e = [] \<or> entry_id e \<in> set skip then first_entries skip es
      else e # first_entries (entry_id e # skip) es)"

lemma first_entries_skip: "set skip = set skip' \<Longrightarrow> first_entries skip es = first_entries skip' es"
proof (induction es arbitrary: skip skip')
  case (Cons e es)
  from Cons.prems have "set (entry_id e # skip) = set (entry_id e # skip')" by simp
  with Cons.IH [OF this] Cons.IH [OF Cons.prems] Cons.prems show ?case by simp
qed simp

lemma take_entries_first:
  assumes "ids = entry_id ` set out"
  shows "take_entries disabled es (ids, out) =
    (ids \<union> entry_id ` set (first_entries (disabled @ map entry_id out) es), out @ first_entries (disabled @ map entry_id out) es)"
  using assms
proof (induction es arbitrary: ids out)
  case (Cons e es)
  have "first_entries (entry_id e # disabled @ map entry_id out) es = first_entries (disabled @ map entry_id (out @ [e])) es"
    by (rule first_entries_skip) auto
  moreover have "insert (entry_id e) ids = entry_id ` set (out @ [e])" using Cons.prems by auto
  ultimately show ?case
    using Cons.IH [OF Cons.prems] Cons.IH [of "insert (entry_id e) ids" "out @ [e]"] Cons.prems by (auto simp: Let_def)
qed simp

lemma first_entries_append:
  "first_entries skip (es @ fs) = first_entries skip es @ first_entries (skip @ map entry_id (first_entries skip es)) fs"
proof (induction es arbitrary: skip)
  case (Cons e es)
  have "first_entries ((entry_id e # skip) @ xs) fs = first_entries (skip @ entry_id e # xs) fs" for xs
    by (rule first_entries_skip) auto
  with Cons show ?case by simp
qed simp

lemma merge_values_first:
  assumes "ids = entry_id ` set out"
  shows "fst (merge_values disabled bs (ids, out, ty, parsed)) =
      out @ first_entries (disabled @ map entry_id out) (concat (map entries_of bs))"
    and "snd (snd (merge_values disabled bs (ids, out, ty, parsed))) = (parsed \<or> (\<exists>b \<in> set bs. \<exists>v arr. b = Some v \<and> array_at ''data'' v = Some arr))"
  using assms
proof (induction bs arbitrary: ids out ty parsed)
  case (Cons b bs)
  {
    case 1
    show ?case
    proof (cases "\<exists>v arr. b = Some v \<and> array_at ''data'' v = Some arr")
      case True
      then obtain v arr where b: "b = Some v" "array_at ''data'' v = Some arr" by blast
      let ?new = "first_entries (disabled @ map entry_id out) arr"
      have "entry_id ` set out \<union> entry_id ` set ?new = entry_id ` set (out @ ?new)" by auto
      from Cons.IH(1) [OF this] 1 b show ?thesis
        by (simp add: take_entries_first entries_of_def Let_def first_entries_append)
    qed (use Cons.IH(1) 1 in \<open>auto simp: entries_of_def split: option.splits\<close>)
  next
    case 2
    show ?case
    proof (cases "\<exists>v arr. b = Some v \<and> array_at ''data'' v = Some arr")
      case True
      then obtain v arr where b: "b = Some v" "array_at ''data'' v = Some arr" by blast
      let ?new = "first_entries (disabled @ map entry_id out) arr"
      have "entry_id ` set out \<union> entry_id ` set ?new = entry_id ` set (out @ ?new)" by auto
      from Cons.IH(2) [OF this] 2 b show ?thesis
        by (simp add: take_entries_first Let_def)
    qed (use Cons.IH(2) 2 in \<open>auto split: option.splits\<close>)
  }
qed simp_all

lemma first_entries_props:
  "distinct (map entry_id (first_entries skip es)) \<and> set (first_entries skip es) \<subseteq> set es \<and>
   (\<forall>e \<in> set (first_entries skip es). entry_id e \<noteq> [] \<and> entry_id e \<notin> set skip) \<and>
   (\<forall>e \<in> set es. entry_id e \<noteq> [] \<longrightarrow> entry_id e \<notin> set skip \<longrightarrow>
      List.find (\<lambda>x. entry_id x = entry_id e) (first_entries skip es) = List.find (\<lambda>x. entry_id x = entry_id e) es)"
proof (induction es arbitrary: skip)
  case (Cons e es)
  show ?case
    using Cons.IH [of skip] Cons.IH [of "entry_id e # skip"] by (auto simp: image_iff)
qed simp

text \<open>A body that counts as a catalog: it parses, and its \<open>data\<close> is an array.\<close>

definition is_catalog :: "(bytes \<Rightarrow> json option) \<Rightarrow> bytes \<Rightarrow> bool" where
  "is_catalog parse b \<longleftrightarrow> (\<exists>v arr. parse b = Some v \<and> array_at ''data'' v = Some arr)"

lemma merge_catalogs_spec:
  "merge_catalogs parse render bodies disabled =
     (if \<exists>b \<in> set bodies. is_catalog parse b
      then render (JObject [(''data'', JArr (first_entries disabled (concat (map (entries_of \<circ> parse) bodies)))),
             (''object'', fst (snd (merge_values disabled (map parse bodies) ({}, [], JString ''list'', False))))])
      else (case bodies of [] \<Rightarrow> [] | b # _ \<Rightarrow> b))"
proof -
  obtain data ty parsed where m: "merge_values disabled (map parse bodies) ({}, [], JString ''list'', False) = (data, ty, parsed)"
    by (metis prod.exhaust)
  have "data = first_entries disabled (concat (map entries_of (map parse bodies)))"
    "parsed = (\<exists>b \<in> set bodies. is_catalog parse b)"
    using merge_values_first [of "{}" "[]" disabled "map parse bodies" "JString ''list''" False] m
    by (auto simp: is_catalog_def)
  then show ?thesis
    by (simp add: merge_catalogs_def m)
qed

text \<open>
  The merged catalog is the first entry of every model. When some group's answer is a catalog, the
  merged body renders a list whose entries are entries of the answers, in the order of the groups, with
  a name each, no name twice, none of them disabled; and whenever any group names a model that is not
  disabled, the entry listed for it is the one of the first group that names it. When no answer is a
  catalog the first body passes through as it came.
\<close>

theorem catalog_lists_first_entries:
  "\<exists>ty es. merge_catalogs parse render bodies disabled =
      (if \<exists>b \<in> set bodies. is_catalog parse b then render (JObject [(''data'', JArr es), (''object'', ty)])
       else (case bodies of [] \<Rightarrow> [] | b # _ \<Rightarrow> b)) \<and>
    distinct (map entry_id es) \<and> [] \<notin> entry_id ` set es \<and> entry_id ` set es \<inter> set disabled = {} \<and>
    (\<forall>m. List.find (\<lambda>x. entry_id x = m) es =
       (if m = [] \<or> m \<in> set disabled then None
        else List.find (\<lambda>x. entry_id x = m) (concat (map (entries_of \<circ> parse) bodies))))"
proof -
  let ?all = "concat (map (entries_of \<circ> parse) bodies)"
  let ?es = "first_entries disabled ?all"
  note p = first_entries_props [of disabled ?all]
  have "List.find (\<lambda>x. entry_id x = m) ?es =
      (if m = [] \<or> m \<in> set disabled then None else List.find (\<lambda>x. entry_id x = m) ?all)" for m
  proof (cases "m \<in> entry_id ` set ?all \<and> m \<noteq> [] \<and> m \<notin> set disabled")
    case False
    with p have "m \<notin> entry_id ` set ?es" by blast
    then have "List.find (\<lambda>x. entry_id x = m) ?es = None" by (auto simp: find_None_iff)
    moreover have "m \<notin> entry_id ` set ?all \<Longrightarrow> List.find (\<lambda>x. entry_id x = m) ?all = None"
      by (auto simp: find_None_iff)
    ultimately show ?thesis using False by auto
  qed (use p in auto)
  with p show ?thesis
    by (intro exI conjI) (rule merge_catalogs_spec, auto)
qed

lemma demo_grant:
  "\<exists>q. reserve_filtered (new_pool 0 (pool_specs demo_config)) 0 None (Some [1]) = (q, Ready 1 ''sk-two'' 0 False)"
  by (simp add: demo_config_def default_config_def default_upstream_def pool_specs_def group_specs_def demo_simps)

lemma demo_route: "route_model (runtime demo_config) ''m1'' = Some [1]"
  by (simp add: route_model_def runtime_def endpoints_def demo_config_def default_config_def default_upstream_def)

theorem routed_grant_serves_model_witness:
  "\<exists>e < length (endpoints demo_config). ev_enabled (endpoints demo_config ! e) \<and>
      ln_base_url (pl_lanes (new_pool 0 (pool_specs demo_config)) ! 1) = ev_base_url (endpoints demo_config ! e) \<and>
      ''m1'' \<notin> set (sc_disabled_models demo_config)"
proof -
  let ?p = "new_pool 0 (pool_specs demo_config)"
  have "pool_wf 0 ?p"
    using assemble_wf [where old = None and now = 0 and specs = "pool_specs demo_config"] by (simp add: new_pool_def)
  then show ?thesis
    using demo_grant routed_grant_serves_model [OF demo_config_ok new_pool_matches _ demo_route] by blast
qed

theorem affinity_never_panics_witness:
  "\<exists>hint. affinity (\<lambda>_. ''x'') (\<lambda>_. 5) (JObject [(''messages'', JArr [JNull])])
      (pool_len (ap_pool (demo_state\<lparr>ap_pool := rebuild 0 (ap_pool demo_state) (pool_specs demo_config), ap_revision := 2\<rparr>))) = Some hint"
  using affinity_never_panics [OF demo_boot demo_run, of "\<lambda>_. ''x''" "\<lambda>_. 5" "JObject [(''messages'', JArr [JNull])]"]
  by (auto simp: demo_state_def)

end
