(* ===== verification/Observation.thy ===== *)
theory Observation
  imports Auth
begin

section \<open>Response observation (src/observation.rs)\<close>

text \<open>
  What the proxy reads from responses on the side: token usage, finish reasons, tool calls. A
  response body is observed whole, a stream byte by byte through \<open>SseObserver\<close>. Counters are
  \<open>u64\<close>: parsed numbers are below \<open>2 ^ 64\<close>, additions are checked. The JSON parser is a parameter.
\<close>

datatype observation = Measured nat | Estimated nat | Unavailable | Invalid_value

record usage_observations =
  uo_cached_tokens :: observation
  uo_completion_tokens :: observation
  uo_prompt_tokens :: observation
  uo_reasoning_tokens :: observation
  uo_total_tokens :: observation

datatype finish_reason = Content_filter | Function_call | Length_limit | Other_reason | Stop_sequence | Tool_calls

fun metric_label :: "finish_reason \<Rightarrow> string" where
  "metric_label Content_filter = ''content_filter''"
| "metric_label Function_call = ''function_call''"
| "metric_label Length_limit = ''length''"
| "metric_label Other_reason = ''other''"
| "metric_label Stop_sequence = ''stop''"
| "metric_label Tool_calls = ''tool_calls''"

datatype finish_result = Finish_measured finish_reason | Finish_unavailable | Finish_invalid

record finish_observation =
  fo_choice_index :: nat
  fo_result :: finish_result

record response_observations =
  ro_finish_reasons :: "finish_observation list"
  ro_tool_calls :: observation
  ro_usage :: usage_observations

datatype stream_outcome = Completed | Deadline_hit | Disconnected | Truncated

definition MAX_EVENT_BYTES :: nat where "MAX_EVENT_BYTES = 1048576"
definition MAX_INDEXED_STREAM_OBSERVATIONS :: nat where "MAX_INDEXED_STREAM_OBSERVATIONS = 128"

fun observation_result :: "observation \<Rightarrow> string" where
  "observation_result (Measured _) = ''measured''"
| "observation_result (Estimated _) = ''estimated''"
| "observation_result Unavailable = ''unavailable''"
| "observation_result Invalid_value = ''invalid''"

definition usage_observation_metrics :: "usage_observations \<Rightarrow> (string \<times> string) list" where
  "usage_observation_metrics u =
     [(''prompt_tokens'', observation_result (uo_prompt_tokens u)),
      (''completion_tokens'', observation_result (uo_completion_tokens u)),
      (''total_tokens'', observation_result (uo_total_tokens u)),
      (''cached_tokens'', observation_result (uo_cached_tokens u)),
      (''reasoning_tokens'', observation_result (uo_reasoning_tokens u))]"

subsection \<open>A number reported more than once\<close>

datatype seen_number = Num_absent | Num_invalid | Num_value nat

definition observe_number :: "json option \<Rightarrow> seen_number \<Rightarrow> seen_number" where
  "observe_number value seen =
     (case value of
        None \<Rightarrow> seen
      | Some v \<Rightarrow>
          if v = JNull then seen
          else let new = (case as_u64 v of None \<Rightarrow> Num_invalid | Some n \<Rightarrow> Num_value n) in
               case seen of
                 Num_absent \<Rightarrow> new
               | Num_value a \<Rightarrow> if new = Num_value a then Num_value a else Num_invalid
               | Num_invalid \<Rightarrow> Num_invalid)"

fun number_result :: "seen_number \<Rightarrow> observation" where
  "number_result Num_absent = Unavailable"
| "number_result Num_invalid = Invalid_value"
| "number_result (Num_value n) = Measured n"

record usage_state =
  us_cached :: seen_number
  us_completion :: seen_number
  us_prompt :: seen_number
  us_reasoning :: seen_number
  us_total :: seen_number

definition no_usage :: usage_state where
  "no_usage = \<lparr>us_cached = Num_absent, us_completion = Num_absent, us_prompt = Num_absent,
     us_reasoning = Num_absent, us_total = Num_absent\<rparr>"

text \<open>One member of a details object; a details member that is no object invalidates the number.\<close>

definition observe_detail :: "json option \<Rightarrow> string \<Rightarrow> seen_number \<Rightarrow> seen_number" where
  "observe_detail details k seen =
     (case details of
        None \<Rightarrow> seen
      | Some JNull \<Rightarrow> seen
      | Some (JObject ms) \<Rightarrow> observe_number (get k (JObject ms)) seen
      | Some _ \<Rightarrow> Num_invalid)"

definition observe_usage :: "json option \<Rightarrow> usage_state \<Rightarrow> usage_state" where
  "observe_usage usage st =
     (case usage of
        None \<Rightarrow> st
      | Some JNull \<Rightarrow> st
      | Some (JObject ms) \<Rightarrow>
          let u = JObject ms in
          \<lparr>us_cached = observe_detail (get ''prompt_tokens_details'' u) ''cached_tokens'' (us_cached st),
           us_completion = observe_number (get ''completion_tokens'' u) (us_completion st),
           us_prompt = observe_number (get ''prompt_tokens'' u) (us_prompt st),
           us_reasoning = observe_detail (get ''completion_tokens_details'' u) ''reasoning_tokens'' (us_reasoning st),
           us_total = observe_number (get ''total_tokens'' u) (us_total st)\<rparr>
      | Some _ \<Rightarrow> \<lparr>us_cached = Num_invalid, us_completion = Num_invalid, us_prompt = Num_invalid,
           us_reasoning = Num_invalid, us_total = Num_invalid\<rparr>)"

text \<open>Cross-checks between the numbers, then the estimates for what was never reported.\<close>

definition check_total :: "observation \<Rightarrow> observation \<Rightarrow> observation \<Rightarrow> observation" where
  "check_total prompt completion reported =
     (case (prompt, completion) of
        (Measured p, Measured c) \<Rightarrow>
          if 2 ^ 64 \<le> p + c then Invalid_value
          else (case reported of Measured t \<Rightarrow> if t < p + c then Invalid_value else reported | _ \<Rightarrow> reported)
      | _ \<Rightarrow> reported)"

definition check_part :: "observation \<Rightarrow> observation \<Rightarrow> observation" where
  "check_part part parent =
     (case part of
        Measured v \<Rightarrow> (case parent of Measured n \<Rightarrow> if v \<le> n then part else Invalid_value | _ \<Rightarrow> Invalid_value)
      | _ \<Rightarrow> part)"

definition or_estimate :: "nat option \<Rightarrow> observation \<Rightarrow> observation" where
  "or_estimate estimate x =
     (if x = Unavailable then (case estimate of Some n \<Rightarrow> if 0 < n then Estimated n else x | None \<Rightarrow> x) else x)"

definition finish_usage :: "nat option \<Rightarrow> nat option \<Rightarrow> usage_state \<Rightarrow> usage_observations" where
  "finish_usage estimate prompt_estimate st =
     (let prompt = number_result (us_prompt st);
          completion = number_result (us_completion st)
      in \<lparr>uo_cached_tokens = check_part (number_result (us_cached st)) prompt,
          uo_completion_tokens = or_estimate estimate completion,
          uo_prompt_tokens = or_estimate prompt_estimate prompt,
          uo_reasoning_tokens = check_part (number_result (us_reasoning st)) completion,
          uo_total_tokens = check_total prompt completion (number_result (us_total st))\<rparr>)"

definition unavailable_usage :: usage_observations where
  "unavailable_usage = \<lparr>uo_cached_tokens = Unavailable, uo_completion_tokens = Unavailable,
     uo_prompt_tokens = Unavailable, uo_reasoning_tokens = Unavailable, uo_total_tokens = Unavailable\<rparr>"

subsection \<open>Finish reasons and tool calls\<close>

datatype seen_finish = Fin_absent | Fin_invalid | Fin_value finish_reason

definition finish_of_text :: "string \<Rightarrow> finish_reason" where
  "finish_of_text s =
     (if s = ''content_filter'' then Content_filter
      else if s = ''function_call'' then Function_call
      else if s = ''length'' then Length_limit
      else if s = ''stop'' then Stop_sequence
      else if s = ''tool_calls'' then Tool_calls
      else Other_reason)"

definition observe_finish :: "json option \<Rightarrow> seen_finish \<Rightarrow> seen_finish" where
  "observe_finish value seen =
     (case value of
        None \<Rightarrow> seen
      | Some v \<Rightarrow>
          if v = JNull then seen
          else let new = (case as_str v of None \<Rightarrow> Fin_invalid | Some s \<Rightarrow> Fin_value (finish_of_text s)) in
               case seen of
                 Fin_absent \<Rightarrow> new
               | Fin_value a \<Rightarrow> if new = Fin_value a then Fin_value a else Fin_invalid
               | Fin_invalid \<Rightarrow> Fin_invalid)"

definition finish_result_of :: "bool \<Rightarrow> seen_finish \<Rightarrow> finish_result" where
  "finish_result_of incomplete seen =
     (if incomplete then Finish_unavailable
      else case seen of
        Fin_absent \<Rightarrow> Finish_unavailable | Fin_invalid \<Rightarrow> Finish_invalid | Fin_value r \<Rightarrow> Finish_measured r)"

text \<open>The finish table is a \<open>BTreeMap\<close>: an association list in ascending order of the choice index.\<close>

fun fin_put :: "nat \<Rightarrow> seen_finish \<Rightarrow> (nat \<times> seen_finish) list \<Rightarrow> (nat \<times> seen_finish) list" where
  "fin_put i x [] = [(i, x)]"
| "fin_put i x ((j, y) # m) =
     (if i < j then (i, x) # (j, y) # m else if i = j then (i, x) # m else (j, y) # fin_put i x m)"

record observation_state =
  os_finishes :: "(nat \<times> seen_finish) list"
  os_finishes_overflowed :: bool
  os_buffered_tool_calls :: nat
  os_observed_stream :: bool
  os_tools_invalid :: bool
  os_tools_present :: bool
  os_tool_pairs :: "(nat \<times> nat) set"
  os_usage :: usage_state

definition no_observation :: observation_state where
  "no_observation = \<lparr>os_finishes = [], os_finishes_overflowed = False, os_buffered_tool_calls = 0,
     os_observed_stream = False, os_tools_invalid = False, os_tools_present = False, os_tool_pairs = {},
     os_usage = no_usage\<rparr>"

text \<open>The entry of an index, made when there is room; \<open>None\<close> once the table is full.\<close>

definition finish_for :: "nat \<Rightarrow> observation_state \<Rightarrow> observation_state \<times> seen_finish option" where
  "finish_for i st =
     (case map_of (os_finishes st) i of
        Some x \<Rightarrow> (st, Some x)
      | None \<Rightarrow>
          if length (os_finishes st) < MAX_INDEXED_STREAM_OBSERVATIONS
          then (st\<lparr>os_finishes := fin_put i Fin_absent (os_finishes st)\<rparr>, Some Fin_absent)
          else (st\<lparr>os_finishes_overflowed := True\<rparr>, None))"

definition see_finish :: "nat \<Rightarrow> json option \<Rightarrow> observation_state \<Rightarrow> observation_state" where
  "see_finish i value st =
     (case finish_for i st of
        (st', None) \<Rightarrow> st'
      | (st', Some x) \<Rightarrow> st'\<lparr>os_finishes := fin_put i (observe_finish value x) (os_finishes st')\<rparr>)"

definition invalidate_tools :: "observation_state \<Rightarrow> observation_state" where
  "invalidate_tools st = st\<lparr>os_tools_invalid := True\<rparr>"

definition remember_tool_pair :: "nat \<times> nat \<Rightarrow> observation_state \<Rightarrow> observation_state" where
  "remember_tool_pair pair st =
     (if pair \<in> os_tool_pairs st \<or> card (os_tool_pairs st) < MAX_INDEXED_STREAM_OBSERVATIONS
      then st\<lparr>os_tool_pairs := insert pair (os_tool_pairs st)\<rparr>
      else invalidate_tools st)"

definition choice_index :: "json \<Rightarrow> nat option" where
  "choice_index choice = (case get ''index'' choice of None \<Rightarrow> None | Some x \<Rightarrow> as_u64 x)"

text \<open>The member \<open>tool_calls\<close> of the member \<open>k\<close>: absent, an array, or something else.\<close>

datatype calls_member = No_calls | Calls "json list" | Bad_calls

definition calls_in :: "string \<Rightarrow> json \<Rightarrow> calls_member" where
  "calls_in k choice =
     (case get k choice of
        None \<Rightarrow> No_calls
      | Some (JObject ms) \<Rightarrow>
          (case get ''tool_calls'' (JObject ms) of
             None \<Rightarrow> No_calls | Some (JArr xs) \<Rightarrow> Calls xs | Some _ \<Rightarrow> Bad_calls)
      | Some _ \<Rightarrow> Bad_calls)"

subsection \<open>A buffered response\<close>

fun buffered_choices :: "json list \<Rightarrow> observation_state \<times> nat \<Rightarrow> observation_state \<times> nat" where
  "buffered_choices [] acc = acc"
| "buffered_choices (choice # cs) (st, calls) =
     (case choice_index choice of
        None \<Rightarrow> buffered_choices cs (invalidate_tools st, calls)
      | Some i \<Rightarrow>
          let st = see_finish i (get ''finish_reason'' choice) st in
          case calls_in ''message'' choice of
            No_calls \<Rightarrow> buffered_choices cs (st, calls)
          | Bad_calls \<Rightarrow> buffered_choices cs (invalidate_tools st, calls)
          | Calls xs \<Rightarrow>
              if 2 ^ 64 \<le> calls + length xs then buffered_choices cs (invalidate_tools st, calls)
              else buffered_choices cs (st, calls + length xs))"

definition observe_body :: "json \<Rightarrow> observation_state \<Rightarrow> observation_state" where
  "observe_body v st =
     (let st = st\<lparr>os_usage := observe_usage (get ''usage'' v) (os_usage st)\<rparr> in
      case get ''choices'' v of
        None \<Rightarrow> st
      | Some (JArr choices) \<Rightarrow>
          (case buffered_choices choices (st\<lparr>os_tools_present := True\<rparr>, 0) of
             (st, calls) \<Rightarrow> st\<lparr>os_buffered_tool_calls := calls\<rparr>)
      | Some _ \<Rightarrow> invalidate_tools st)"

subsection \<open>One event of a stream\<close>

fun stream_calls :: "nat \<Rightarrow> json list \<Rightarrow> observation_state \<Rightarrow> observation_state" where
  "stream_calls i [] st = st"
| "stream_calls i (call # cs) st =
     (case choice_index call of
        None \<Rightarrow> stream_calls i cs (invalidate_tools st)
      | Some j \<Rightarrow> stream_calls i cs (remember_tool_pair (i, j) st))"

definition null_or_absent :: "json option \<Rightarrow> bool" where
  "null_or_absent v \<longleftrightarrow> v = None \<or> v = Some JNull"

fun stream_choices :: "json list \<Rightarrow> observation_state \<times> bool \<Rightarrow> observation_state \<times> bool" where
  "stream_choices [] acc = acc"
| "stream_choices (choice # cs) (st, countable) =
     (case choice_index choice of
        None \<Rightarrow> stream_choices cs (invalidate_tools st, False)
      | Some i \<Rightarrow>
          let fin = get ''finish_reason'' choice;
              st = see_finish i fin st;
              countable = (countable \<and> null_or_absent fin)
          in case calls_in ''delta'' choice of
               No_calls \<Rightarrow> stream_choices cs (st, countable)
             | Bad_calls \<Rightarrow> stream_choices cs (invalidate_tools st, countable)
             | Calls xs \<Rightarrow> stream_choices cs (stream_calls i xs st, countable))"

definition observe_stream :: "json \<Rightarrow> observation_state \<Rightarrow> observation_state \<times> bool" where
  "observe_stream v st =
     (let st = st\<lparr>os_observed_stream := True, os_usage := observe_usage (get ''usage'' v) (os_usage st)\<rparr> in
      case get ''choices'' v of
        None \<Rightarrow> (st, False)
      | Some (JArr choices) \<Rightarrow> stream_choices choices (st\<lparr>os_tools_present := True\<rparr>, choices \<noteq> [])
      | Some _ \<Rightarrow> (invalidate_tools st, False))"

definition remember_choice_indexes :: "json \<Rightarrow> observation_state \<Rightarrow> observation_state" where
  "remember_choice_indexes v st =
     (case get ''choices'' v of
        Some (JArr choices) \<Rightarrow>
          foldl (\<lambda>st i. fst (finish_for i st)) st (List.map_filter choice_index choices)
      | _ \<Rightarrow> st)"

subsection \<open>What is reported in the end\<close>

definition finish_observation_state ::
  "stream_outcome \<Rightarrow> bool \<Rightarrow> nat option \<Rightarrow> nat option \<Rightarrow> observation_state \<Rightarrow> response_observations" where
  "finish_observation_state outcome incomplete estimate prompt_estimate st =
     \<lparr>ro_finish_reasons = map (\<lambda>(i, x). \<lparr>fo_choice_index = i, fo_result =
          (if incomplete then finish_result_of True x
           else if os_finishes_overflowed st then Finish_invalid
           else finish_result_of False x)\<rparr>) (os_finishes st),
      ro_tool_calls =
        (if incomplete then Unavailable
         else if os_tools_invalid st then Invalid_value
         else if \<not> os_tools_present st then Unavailable
         else if os_observed_stream st then Measured (card (os_tool_pairs st))
         else Measured (os_buffered_tool_calls st)),
      ro_usage =
        (if outcome = Disconnected \<or> outcome = Truncated then unavailable_usage
         else finish_usage estimate prompt_estimate (os_usage st))\<rparr>"

definition observe_buffered :: "(bytes \<Rightarrow> json option) \<Rightarrow> bytes \<Rightarrow> nat option \<Rightarrow> response_observations" where
  "observe_buffered parse body prompt_estimate =
     finish_observation_state Completed False None prompt_estimate
       (case parse body of None \<Rightarrow> no_observation | Some v \<Rightarrow> observe_body v no_observation)"

subsection \<open>The byte-level observer of a stream\<close>

record sse_observer =
  so_state :: observation_state
  so_current_data :: bytes
  so_current_line :: bytes
  so_discarded_event :: bool
  so_discarded_line_has_content :: bool
  so_discarded_line_ends_cr :: bool
  so_completion_events :: nat

definition new_observer :: sse_observer where
  "new_observer = \<lparr>so_state = no_observation, so_current_data = [], so_current_line = [],
     so_discarded_event = False, so_discarded_line_has_content = False, so_discarded_line_ends_cr = False,
     so_completion_events = 0\<rparr>"

abbreviation LF :: char where "LF \<equiv> CHR 0x0A"
abbreviation CR :: char where "CR \<equiv> CHR 0x0D"

definition parse_text :: "(bytes \<Rightarrow> json option) \<Rightarrow> bytes \<Rightarrow> json option" where
  "parse_text parse data = (if utf8_valid data then parse data else None)"

definition count_event :: "(bytes \<Rightarrow> json option) \<Rightarrow> bytes \<Rightarrow> observation_state \<times> nat \<Rightarrow> observation_state \<times> nat" where
  "count_event parse data acc =
     (case acc of (st, events) \<Rightarrow>
        if data = ''[DONE]'' then (st, events)
        else case parse_text parse data of
          None \<Rightarrow> (st, events)
        | Some v \<Rightarrow> (case observe_stream v st of
            (st', countable) \<Rightarrow> (st', if countable then sat_add64 events 1 else events)))"

definition classify_event :: "(bytes \<Rightarrow> json option) \<Rightarrow> sse_observer \<Rightarrow> sse_observer" where
  "classify_event parse ob =
     (case count_event parse (so_current_data ob) (so_state ob, so_completion_events ob) of
        (st, events) \<Rightarrow>
          ob\<lparr>so_state := st, so_completion_events := events, so_current_data := [], so_current_line := []\<rparr>)"

definition discard_event :: "sse_observer \<Rightarrow> sse_observer" where
  "discard_event ob = ob\<lparr>so_current_data := [], so_current_line := [], so_discarded_event := True,
     so_discarded_line_has_content := True, so_discarded_line_ends_cr := False\<rparr>"

definition strip_cr :: "bytes \<Rightarrow> bytes" where
  "strip_cr line = (if line \<noteq> [] \<and> last line = CR then butlast line else line)"

definition data_field :: "bytes \<Rightarrow> bytes option" where
  "data_field line =
     map_option (\<lambda>d. case str_strip_prefix '' '' d of None \<Rightarrow> d | Some r \<Rightarrow> r) (str_strip_prefix ''data:'' line)"

definition finish_line :: "(bytes \<Rightarrow> json option) \<Rightarrow> sse_observer \<Rightarrow> sse_observer" where
  "finish_line parse ob =
     (if so_discarded_event ob
      then ob\<lparr>so_current_line := [],
              so_discarded_event := so_discarded_line_has_content ob,
              so_discarded_line_has_content := False, so_discarded_line_ends_cr := False\<rparr>
      else
        let line = strip_cr (so_current_line ob) in
        if line = [] then classify_event parse (ob\<lparr>so_current_line := line\<rparr>)
        else case data_field line of
          None \<Rightarrow> ob\<lparr>so_current_line := []\<rparr>
        | Some d \<Rightarrow>
            let sep = (if so_current_data ob = [] then 0 else 1) in
            if MAX_EVENT_BYTES - length (so_current_data ob) < length d + sep
            then discard_event ob
            else ob\<lparr>so_current_data := so_current_data ob @ (if sep = 1 then [LF] else []) @ d,
                    so_current_line := []\<rparr>)"

definition push_byte :: "(bytes \<Rightarrow> json option) \<Rightarrow> sse_observer \<Rightarrow> char \<Rightarrow> sse_observer" where
  "push_byte parse ob byte =
     (if byte = LF then finish_line parse ob
      else if so_discarded_event ob
      then if byte = CR
           then ob\<lparr>so_discarded_line_has_content := (so_discarded_line_has_content ob \<or> so_discarded_line_ends_cr ob),
                   so_discarded_line_ends_cr := True\<rparr>
           else ob\<lparr>so_discarded_line_has_content := True, so_discarded_line_ends_cr := False\<rparr>
      else if length (so_current_data ob) + length (so_current_line ob) = MAX_EVENT_BYTES
      then discard_event ob
      else ob\<lparr>so_current_line := so_current_line ob @ [byte]\<rparr>)"

definition push :: "(bytes \<Rightarrow> json option) \<Rightarrow> bytes \<Rightarrow> sse_observer \<Rightarrow> sse_observer" where
  "push parse chunk ob = foldl (push_byte parse) ob chunk"

definition remember_unterminated_indexes :: "(bytes \<Rightarrow> json option) \<Rightarrow> sse_observer \<Rightarrow> observation_state" where
  "remember_unterminated_indexes parse ob =
     (let remember = (\<lambda>data st. case parse_text parse data of None \<Rightarrow> st | Some v \<Rightarrow> remember_choice_indexes v st);
          st = remember (so_current_data ob) (so_state ob)
      in case data_field (so_current_line ob) of None \<Rightarrow> st | Some d \<Rightarrow> remember d st)"

definition unterminated :: "sse_observer \<Rightarrow> bool" where
  "unterminated ob \<longleftrightarrow> so_discarded_event ob \<or> so_current_data ob \<noteq> [] \<or> so_current_line ob \<noteq> []"

definition finish_observer ::
  "(bytes \<Rightarrow> json option) \<Rightarrow> stream_outcome \<Rightarrow> nat option \<Rightarrow> sse_observer \<Rightarrow> response_observations" where
  "finish_observer parse outcome prompt_estimate ob =
     finish_observation_state outcome (outcome \<noteq> Completed \<or> unterminated ob)
       (if outcome = Completed \<and> \<not> unterminated ob then Some (so_completion_events ob) else None)
       prompt_estimate
       (if outcome = Completed \<and> unterminated ob then remember_unterminated_indexes parse ob else so_state ob)"

subsection \<open>The reference reader\<close>

text \<open>
  What an event stream means, on the whole text: lines end at a line feed, events at a blank line
  (with or without a carriage return). An event's payload is its data fields joined by line feeds; an
  event is lost when its payload so far and its next line are more than the bound together.
\<close>

definition blank :: "bytes \<Rightarrow> bool" where
  "blank line \<longleftrightarrow> line = [] \<or> line = [CR]"

fun split_lines :: "bytes \<Rightarrow> bytes \<Rightarrow> bytes list \<times> bytes" where
  "split_lines cur [] = ([], cur)"
| "split_lines cur (c # cs) = (if c = LF then apfst ((#) cur) (split_lines [] cs) else split_lines (cur @ [c]) cs)"

fun events_of :: "bytes list \<Rightarrow> bytes list \<Rightarrow> bytes list list \<times> bytes list" where
  "events_of cur [] = ([], cur)"
| "events_of cur (l # ls) = (if blank l then apfst ((#) cur) (events_of [] ls) else events_of (cur @ [l]) ls)"

definition extend_event :: "bytes \<Rightarrow> bytes \<Rightarrow> bytes option" where
  "extend_event d line =
     (if MAX_EVENT_BYTES < length d + length line then None
      else Some (case data_field (strip_cr line) of
             None \<Rightarrow> d | Some x \<Rightarrow> if d = [] then x else d @ [LF] @ x))"

definition event_data :: "bytes list \<Rightarrow> bytes option" where
  "event_data ls = foldl (\<lambda>d l. Option.bind d (\<lambda>d. extend_event d l)) (Some []) ls"

lemma event_data_snoc: "event_data (ls @ [l]) = Option.bind (event_data ls) (\<lambda>d. extend_event d l)"
  by (simp add: event_data_def)

lemma event_data_Nil [simp]: "event_data [] = Some []"
  by (simp add: event_data_def)

lemma strip_cr_length: "length (strip_cr line) \<le> length line"
  by (simp add: strip_cr_def)

lemma data_field_length:
  assumes "data_field line = Some d"
  shows "length d + 5 \<le> length line"
proof -
  obtain r where r: "str_strip_prefix ''data:'' line = Some r"
    "d = (case str_strip_prefix '' '' r of None \<Rightarrow> r | Some x \<Rightarrow> x)"
    using assms unfolding data_field_def by (cases "str_strip_prefix ''data:'' line") (simp_all del: str_strip_prefix_Some)
  have "length x \<le> length r" if "str_strip_prefix p r = Some x" for p x
    using that by simp
  then have "length d \<le> length r"
    unfolding r(2) by (cases "str_strip_prefix '' '' r") (auto simp del: str_strip_prefix_Some)
  moreover have "length line = length ''data:'' + length r"
    using r(1) [THEN str_strip_prefix_Some [THEN iffD1]] by (metis length_append)
  ultimately show ?thesis by simp
qed

lemma extend_event_small:
  assumes "extend_event d line = Some d'" "length d + 4 \<le> MAX_EVENT_BYTES"
  shows "length d' + 4 \<le> MAX_EVENT_BYTES"
proof (cases "data_field (strip_cr line)")
  case (Some x)
  from data_field_length [OF this] strip_cr_length [of line] have "length x + 5 \<le> length line" by simp
  with assms Some show ?thesis by (auto simp: extend_event_def split: if_splits)
qed (use assms in \<open>auto simp: extend_event_def split: if_splits\<close>)

lemma event_data_small: "event_data ls = Some d \<Longrightarrow> length d + 4 \<le> MAX_EVENT_BYTES"
proof (induction ls arbitrary: d rule: rev_induct)
  case Nil
  then show ?case by (simp add: MAX_EVENT_BYTES_def)
next
  case (snoc l ls)
  then obtain d0 where "event_data ls = Some d0" "extend_event d0 l = Some d"
    by (auto simp: event_data_snoc bind_eq_Some_conv)
  with snoc.IH extend_event_small show ?case by blast
qed

subsection \<open>The observer implements the reader\<close>

text \<open>The observer at the start of a line, and within one.\<close>

definition observer_at :: "bytes option \<Rightarrow> observation_state \<times> nat \<Rightarrow> sse_observer" where
  "observer_at ev acc = \<lparr>so_state = fst acc, so_current_data = (case ev of None \<Rightarrow> [] | Some d \<Rightarrow> d),
     so_current_line = [], so_discarded_event = (ev = None), so_discarded_line_has_content = False,
     so_discarded_line_ends_cr = False, so_completion_events = snd acc\<rparr>"

definition in_line :: "bytes \<Rightarrow> bytes option \<Rightarrow> observation_state \<times> nat \<Rightarrow> sse_observer \<Rightarrow> bool" where
  "in_line line ev acc ob \<longleftrightarrow>
     (case ev of
        Some d \<Rightarrow>
          if length d + length line \<le> MAX_EVENT_BYTES then ob = (observer_at ev acc)\<lparr>so_current_line := line\<rparr>
          else \<exists>e. ob = (observer_at None acc)\<lparr>so_discarded_line_has_content := True, so_discarded_line_ends_cr := e\<rparr>
      | None \<Rightarrow> ob = (observer_at None acc)\<lparr>so_discarded_line_has_content := \<not> blank line,
            so_discarded_line_ends_cr := (line \<noteq> [] \<and> last line = CR)\<rparr>)"

lemma in_line_start: "(\<And>d. ev = Some d \<Longrightarrow> length d \<le> MAX_EVENT_BYTES) \<Longrightarrow> in_line [] ev acc (observer_at ev acc)"
  by (cases ev) (auto simp: in_line_def observer_at_def blank_def)

lemma in_line_step:
  assumes "in_line line ev acc ob" "c \<noteq> LF"
  shows "in_line (line @ [c]) ev acc (push_byte parse ob c)"
proof (cases ev)
  case None
  with assms show ?thesis
    by (cases line) (auto simp: in_line_def push_byte_def observer_at_def blank_def)
next
  case (Some d)
  with assms show ?thesis
    by (auto simp: in_line_def push_byte_def observer_at_def discard_event_def split: if_splits)
qed

lemma in_line_push: "LF \<notin> set line' \<Longrightarrow> in_line line ev acc ob \<Longrightarrow> in_line (line @ line') ev acc (foldl (push_byte parse) ob line')"
proof (induction line' arbitrary: line ob)
  case (Cons c cs)
  then have "in_line ((line @ [c]) @ cs) ev acc (foldl (push_byte parse) (push_byte parse ob c) cs)"
    by (intro Cons.IH in_line_step) auto
  then show ?case by simp
qed simp

definition end_line :: "(bytes \<Rightarrow> json option) \<Rightarrow> bytes \<Rightarrow> bytes option \<times> (observation_state \<times> nat) \<Rightarrow> bytes option \<times> (observation_state \<times> nat)" where
  "end_line parse line s = (case s of (ev, acc) \<Rightarrow>
     if blank line then (Some [], case ev of None \<Rightarrow> acc | Some d \<Rightarrow> count_event parse d acc)
     else (Option.bind ev (\<lambda>d. extend_event d line), acc))"

lemma strip_cr_blank: "strip_cr line = [] \<longleftrightarrow> blank line"
  by (cases line rule: rev_cases) (auto simp: strip_cr_def blank_def)

lemma in_line_finish:
  assumes "in_line line ev acc ob" "\<And>d. ev = Some d \<Longrightarrow> length d + 4 \<le> MAX_EVENT_BYTES"
  shows "finish_line parse ob = (case end_line parse line (ev, acc) of (ev', acc') \<Rightarrow> observer_at ev' acc')"
proof (cases ev)
  case None
  with assms(1) show ?thesis
    by (auto simp: in_line_def finish_line_def observer_at_def end_line_def)
next
  case (Some d)
  note d = assms(2) [OF Some]
  show ?thesis
  proof (cases "length d + length line \<le> MAX_EVENT_BYTES")
    case False
    with d have "\<not> blank line" by (auto simp: blank_def)
    with False Some assms(1) show ?thesis
      by (auto simp: in_line_def finish_line_def observer_at_def end_line_def extend_event_def)
  next
    case True
    with Some assms(1) have ob: "ob = (observer_at (Some d) acc)\<lparr>so_current_line := line\<rparr>"
      by (simp add: in_line_def)
    show ?thesis
    proof (cases "blank line")
      case True
      with Some ob show ?thesis
        by (simp add: finish_line_def observer_at_def strip_cr_blank [THEN iffD2] classify_event_def end_line_def
            split: prod.split)
    next
      case False
      have "length x + 1 \<le> MAX_EVENT_BYTES - length d" if "data_field (strip_cr line) = Some x" for x
        using data_field_length [OF that] strip_cr_length [of line] True by simp
      then have "\<not> MAX_EVENT_BYTES - length d < length x + (if d = [] then 0 else 1)"
        if "data_field (strip_cr line) = Some x" for x
        using that by (cases "d = []") fastforce+
      with False True Some ob show ?thesis
        by (auto simp: finish_line_def observer_at_def strip_cr_blank end_line_def extend_event_def
            split: option.split)
    qed
  qed
qed

definition small_event :: "bytes option \<Rightarrow> bool" where
  "small_event ev \<longleftrightarrow> (\<forall>d. ev = Some d \<longrightarrow> length d + 4 \<le> MAX_EVENT_BYTES)"

lemma small_end_line:
  assumes "small_event ev" "end_line parse line (ev, acc) = (ev', acc')"
  shows "small_event ev'"
  using assms extend_event_small
  by (auto simp: small_event_def end_line_def MAX_EVENT_BYTES_def bind_eq_Some_conv split: if_splits)

lemma push_lines:
  assumes "in_line cur ev acc ob" "small_event ev"
    and "foldl (\<lambda>s l. end_line parse l s) (ev, acc) (fst (split_lines cur cs)) = (ev', acc')"
  shows "in_line (snd (split_lines cur cs)) ev' acc' (foldl (push_byte parse) ob cs)"
  using assms
proof (induction cs arbitrary: cur ev acc ob)
  case (Cons c cs)
  show ?case
  proof (cases "c = LF")
    case False
    with Cons.prems show ?thesis
      using Cons.IH [of "cur @ [c]" ev acc "push_byte parse ob c"] by (simp add: in_line_step)
  next
    case True
    obtain ev1 acc1 where e: "end_line parse cur (ev, acc) = (ev1, acc1)"
      by (cases "end_line parse cur (ev, acc)")
    with Cons.prems(1,2) True have "push_byte parse ob c = observer_at ev1 acc1"
      by (simp add: push_byte_def in_line_finish small_event_def)
    moreover have small: "small_event ev1" by (rule small_end_line [OF Cons.prems(2) e])
    then have "in_line [] ev1 acc1 (observer_at ev1 acc1)"
      by (intro in_line_start) (force simp: small_event_def)
    moreover have "foldl (\<lambda>s l. end_line parse l s) (ev1, acc1) (fst (split_lines [] cs)) = (ev', acc')"
      using Cons.prems(3) True e by simp
    ultimately show ?thesis
      using Cons.IH [of "[]"] small True by simp
  qed
qed simp

lemma end_lines_events:
  "foldl (\<lambda>s l. end_line parse l s) (event_data cur, acc) ls =
     (event_data (snd (events_of cur ls)),
      foldl (\<lambda>a d. count_event parse d a) acc (List.map_filter event_data (fst (events_of cur ls))))"
proof (induction ls arbitrary: cur acc)
  case (Cons l ls)
  show ?case
  proof (cases "blank l")
    case False
    then show ?thesis using Cons.IH [of "cur @ [l]"] by (simp add: end_line_def event_data_snoc)
  next
    case True
    then show ?thesis using Cons.IH [of "[]"]
      by (simp add: end_line_def map_filter_simps split: option.split)
  qed
qed (simp add: map_filter_simps)

text \<open>The reader's answer on a whole text: what its events were, and what is left open.\<close>

definition read_events :: "bytes \<Rightarrow> bytes list \<times> bytes option \<times> bytes" where
  "read_events s = (case split_lines [] s of (lines, rest) \<Rightarrow>
     case events_of [] lines of (events, left) \<Rightarrow> (List.map_filter event_data events, event_data left, rest))"

lemma push_events:
  assumes "read_events s = (datas, ev, rest)"
  shows "in_line rest ev (foldl (\<lambda>a d. count_event parse d a) (no_observation, 0) datas) (push parse s new_observer)"
proof -
  have "in_line [] (Some []) (no_observation, 0) new_observer"
    by (simp add: in_line_def observer_at_def new_observer_def)
  from push_lines [OF this, of parse s] show ?thesis
    using assms end_lines_events [of parse "[]" "(no_observation, 0)" "fst (split_lines [] s)"]
    by (auto simp: read_events_def push_def small_event_def MAX_EVENT_BYTES_def split: prod.splits)
qed

lemma push_concat: "foldl (\<lambda>ob chunk. push parse chunk ob) ob chunks = push parse (concat chunks) ob"
  by (induction chunks arbitrary: ob) (simp_all add: push_def)

text \<open>
  C14: the observer reads the event stream, however the network cuts it. Fed with any chunks, the
  observer has observed the events of the concatenated text, in order, as the reference reader finds
  them, those above the bound left out and no other lost; and it reports an unfinished event exactly
  when the text has one.
\<close>

theorem observer_reads_events:
  assumes "read_events (concat chunks) = (datas, ev, rest)"
    and "foldl (\<lambda>ob chunk. push parse chunk ob) new_observer chunks = ob"
  shows "(so_state ob, so_completion_events ob) = foldl (\<lambda>a d. count_event parse d a) (no_observation, 0) datas \<and>
    (unterminated ob \<longleftrightarrow> rest \<noteq> [] \<or> ev \<noteq> Some []) \<and>
    (case ev of
       Some d \<Rightarrow> if length d + length rest \<le> MAX_EVENT_BYTES
                 then \<not> so_discarded_event ob \<and> so_current_data ob = d \<and> so_current_line ob = rest
                 else so_discarded_event ob
     | None \<Rightarrow> so_discarded_event ob)"
proof -
  define acc where "acc = foldl (\<lambda>a d. count_event parse d a) (no_observation, 0) datas"
  have "in_line rest ev acc ob"
    using push_events [OF assms(1), of parse] unfolding assms(2) [symmetric] push_concat acc_def .
  moreover have small: "small_event ev"
    using assms(1) event_data_small by (auto simp: read_events_def small_event_def split: prod.splits)
  ultimately have "(so_state ob, so_completion_events ob) = acc \<and>
    (unterminated ob \<longleftrightarrow> rest \<noteq> [] \<or> ev \<noteq> Some []) \<and>
    (case ev of
       Some d \<Rightarrow> if length d + length rest \<le> MAX_EVENT_BYTES
                 then \<not> so_discarded_event ob \<and> so_current_data ob = d \<and> so_current_line ob = rest
                 else so_discarded_event ob
     | None \<Rightarrow> so_discarded_event ob)"
    by (cases ev; cases "rest = []") (auto simp: in_line_def observer_at_def unterminated_def split: if_splits)
  then show ?thesis by (simp add: acc_def)
qed

subsection \<open>The observer's memory is bounded\<close>

definition tables_bounded :: "observation_state \<Rightarrow> bool" where
  "tables_bounded st \<longleftrightarrow> sorted_wrt (<) (map fst (os_finishes st)) \<and>
     length (os_finishes st) \<le> MAX_INDEXED_STREAM_OBSERVATIONS \<and>
     finite (os_tool_pairs st) \<and> card (os_tool_pairs st) \<le> MAX_INDEXED_STREAM_OBSERVATIONS"

lemma fin_put_keys: "fst ` set (fin_put i x m) = insert i (fst ` set m)"
  by (induction i x m rule: fin_put.induct) auto

lemma fin_put_sorted: "sorted_wrt (<) (map fst m) \<Longrightarrow> sorted_wrt (<) (map fst (fin_put i x m))"
proof (induction i x m rule: fin_put.induct)
  case (2 i x j y m)
  then show ?case using fin_put_keys [of i x m] by (fastforce simp: image_iff)
qed simp

lemma fin_put_length:
  "sorted_wrt (<) (map fst m) \<Longrightarrow>
   length (fin_put i x m) = (if map_of m i = None then Suc (length m) else length m)"
proof (induction i x m rule: fin_put.induct)
  case (2 i x j y m)
  then show ?case by (auto simp: map_of_eq_None_iff)
qed simp

lemma fin_put_lookup: "map_of (fin_put i x m) = (map_of m)(i \<mapsto> x)"
proof (induction i x m rule: fin_put.induct)
  case (2 i x j y m)
  then show ?case by (auto simp: fun_eq_iff)
qed (simp add: fun_eq_iff)

lemma tables_finish_for:
  assumes "tables_bounded st" "finish_for i st = (st', r)"
  shows "tables_bounded st' \<and> (r \<noteq> None \<longrightarrow> map_of (os_finishes st') i \<noteq> None)"
  using assms
  by (auto simp: finish_for_def tables_bounded_def fin_put_sorted fin_put_length fin_put_lookup split: option.splits if_splits)

lemma tables_see_finish: "tables_bounded st \<Longrightarrow> tables_bounded (see_finish i value st)"
  using tables_finish_for [of st i]
  by (auto simp: see_finish_def tables_bounded_def fin_put_sorted fin_put_length split: prod.split option.split)

lemma tables_simps [simp]:
  "tables_bounded (invalidate_tools st) = tables_bounded st"
  "tables_bounded (st\<lparr>os_usage := u\<rparr>) = tables_bounded st"
  "tables_bounded (st\<lparr>os_tools_present := b\<rparr>) = tables_bounded st"
  "tables_bounded (st\<lparr>os_observed_stream := b\<rparr>) = tables_bounded st"
  "tables_bounded (st\<lparr>os_buffered_tool_calls := n\<rparr>) = tables_bounded st"
  by (simp_all add: tables_bounded_def invalidate_tools_def)

lemma tables_tool_pair: "tables_bounded st \<Longrightarrow> tables_bounded (remember_tool_pair p st)"
  by (auto simp: remember_tool_pair_def tables_bounded_def card_insert_if invalidate_tools_def)

lemma tables_stream_calls: "tables_bounded st \<Longrightarrow> tables_bounded (stream_calls i cs st)"
  by (induction i cs st rule: stream_calls.induct) (auto simp: tables_tool_pair split: option.split)

lemma tables_stream_choices: "tables_bounded (fst acc) \<Longrightarrow> tables_bounded (fst (stream_choices cs acc))"
proof (induction cs acc rule: stream_choices.induct)
  case (2 choice cs st countable)
  then show ?case
    by (simp add: Let_def tables_see_finish tables_stream_calls split: option.split calls_member.split)
qed simp

lemma tables_observe_stream: "tables_bounded st \<Longrightarrow> tables_bounded (fst (observe_stream v st))"
  by (auto simp: observe_stream_def Let_def tables_stream_choices split: option.split json.split)

lemma tables_count_event: "tables_bounded (fst acc) \<Longrightarrow> tables_bounded (fst (count_event parse d acc))"
  using tables_observe_stream by (auto simp: count_event_def split: prod.split option.split) (metis fst_conv)+

text \<open>
  Observing costs bounded memory. Whatever the upstream streams, in whatever chunks, the observer
  never holds more than a mebibyte of an event, nor more than 128 choices or 128 tool calls, and the
  choices are in ascending order, each once.
\<close>

theorem observer_memory_bounded:
  "let ob = foldl (\<lambda>ob chunk. push parse chunk ob) new_observer chunks in
     length (so_current_data ob) + length (so_current_line ob) \<le> 1048576 \<and>
     length (os_finishes (so_state ob)) \<le> 128 \<and> sorted_wrt (<) (map fst (os_finishes (so_state ob))) \<and>
     finite (os_tool_pairs (so_state ob)) \<and> card (os_tool_pairs (so_state ob)) \<le> 128"
proof -
  obtain datas ev rest where r: "read_events (concat chunks) = (datas, ev, rest)"
    by (cases "read_events (concat chunks)") 
  define acc where "acc = foldl (\<lambda>a d. count_event parse d a) (no_observation, 0) datas"
  define ob where "ob = push parse (concat chunks) new_observer"
  have "tables_bounded (fst (foldl (\<lambda>a d. count_event parse d a) a datas))" if "tables_bounded (fst a)" for a
    using that by (induction datas arbitrary: a) (simp_all add: tables_count_event)
  then have t: "tables_bounded (fst acc)"
    unfolding acc_def by (simp add: tables_bounded_def no_observation_def)
  have line: "in_line rest ev acc ob"
    using push_events [OF r] by (simp add: acc_def ob_def)
  then have "so_state ob = fst acc"
    by (auto simp: in_line_def observer_at_def split: option.splits if_splits)
  moreover have "length (so_current_data ob) + length (so_current_line ob) \<le> MAX_EVENT_BYTES"
    using line by (auto simp: in_line_def observer_at_def split: option.splits if_splits)
  ultimately show ?thesis
    using t by (simp add: push_concat ob_def [symmetric] tables_bounded_def MAX_EVENT_BYTES_def
        MAX_INDEXED_STREAM_OBSERVATIONS_def)
qed

subsection \<open>Usage is what the upstream said, and said once\<close>

text \<open>What a member says of a number: nothing, an unsigned integer, or nonsense.\<close>

definition says :: "json option \<Rightarrow> nat option list" where
  "says v = (case v of None \<Rightarrow> [] | Some x \<Rightarrow> if x = JNull then [] else [as_u64 x])"

fun reports :: "string \<Rightarrow> json option \<Rightarrow> nat option list" where
  "reports k None = []"
| "reports k (Some JNull) = []"
| "reports k (Some (JObject ms)) = says (get k (JObject ms))"
| "reports k (Some _) = [None]"

fun detail_reports :: "string \<Rightarrow> string \<Rightarrow> json option \<Rightarrow> nat option list" where
  "detail_reports part k (Some (JObject ms)) = reports k (get part (JObject ms))"
| "detail_reports part k v = reports k v"

text \<open>The number after a list of statements: unanimous, contradicted, or never said.\<close>

definition verdict :: "nat option list \<Rightarrow> seen_number" where
  "verdict xs = (case xs of [] \<Rightarrow> Num_absent
     | x # _ \<Rightarrow> (case x of None \<Rightarrow> Num_invalid | Some n \<Rightarrow> if set xs = {Some n} then Num_value n else Num_invalid))"

lemma verdict_Measured: "number_result (verdict xs) = Measured n \<longleftrightarrow> set xs = {Some n}"
  by (cases xs) (auto simp: verdict_def split: option.split)

lemma verdict_Unavailable: "number_result (verdict xs) = Unavailable \<longleftrightarrow> xs = []"
  by (cases xs) (auto simp: verdict_def split: option.split)

lemma verdict_snoc:
  "verdict (xs @ [x]) = (case verdict xs of
     Num_absent \<Rightarrow> (case x of None \<Rightarrow> Num_invalid | Some n \<Rightarrow> Num_value n)
   | Num_value a \<Rightarrow> if x = Some a then Num_value a else Num_invalid
   | Num_invalid \<Rightarrow> Num_invalid)"
  by (cases xs) (auto simp: verdict_def split: option.split)

lemma observe_number_verdict: "observe_number v (verdict xs) = verdict (xs @ says v)"
  by (cases v)
    (auto simp: observe_number_def says_def verdict_snoc Let_def split: seen_number.split option.splits)

lemma invalid_verdict: "verdict (xs @ [None]) = Num_invalid"
  by (auto simp: verdict_snoc split: seen_number.split)

lemma observe_usage_verdict:
  "observe_usage r \<lparr>us_cached = verdict a, us_completion = verdict b, us_prompt = verdict c, us_reasoning = verdict d,
     us_total = verdict e\<rparr> =
   \<lparr>us_cached = verdict (a @ detail_reports ''prompt_tokens_details'' ''cached_tokens'' r),
    us_completion = verdict (b @ reports ''completion_tokens'' r), us_prompt = verdict (c @ reports ''prompt_tokens'' r),
    us_reasoning = verdict (d @ detail_reports ''completion_tokens_details'' ''reasoning_tokens'' r),
    us_total = verdict (e @ reports ''total_tokens'' r)\<rparr>"
proof (cases "\<exists>ms. r = Some (JObject ms)")
  case True
  then obtain ms where r: "r = Some (JObject ms)" by blast
  have "observe_detail v k (verdict xs) = verdict (xs @ reports k v)" for v k xs
    by (cases "(k, v)" rule: reports.cases) (auto simp: observe_detail_def observe_number_verdict invalid_verdict)
  then show ?thesis by (simp add: r observe_usage_def Let_def observe_number_verdict)
next
  case False
  then show ?thesis
    by (cases "([]::string, r)" rule: reports.cases) (auto simp: observe_usage_def invalid_verdict)
qed

lemma observe_usages:
  "foldl (\<lambda>st r. observe_usage r st) \<lparr>us_cached = verdict a, us_completion = verdict b, us_prompt = verdict c,
     us_reasoning = verdict d, us_total = verdict e\<rparr> rs =
   \<lparr>us_cached = verdict (a @ concat (map (detail_reports ''prompt_tokens_details'' ''cached_tokens'') rs)),
    us_completion = verdict (b @ concat (map (reports ''completion_tokens'') rs)),
    us_prompt = verdict (c @ concat (map (reports ''prompt_tokens'') rs)),
    us_reasoning = verdict (d @ concat (map (detail_reports ''completion_tokens_details'' ''reasoning_tokens'') rs)),
    us_total = verdict (e @ concat (map (reports ''total_tokens'') rs))\<rparr>"
  by (induction rs arbitrary: a b c d e) (simp_all add: observe_usage_verdict)

text \<open>The usage members of the events of a stream.\<close>

definition usages :: "(bytes \<Rightarrow> json option) \<Rightarrow> bytes list \<Rightarrow> json option list" where
  "usages parse datas =
     map (get ''usage'') (List.map_filter (\<lambda>d. if d = ''[DONE]'' then None else parse_text parse d) datas)"

lemma finish_for_usage: "os_usage (fst (finish_for i st)) = os_usage st"
  by (simp add: finish_for_def split: option.split)

lemma see_finish_usage [simp]: "os_usage (see_finish i v st) = os_usage st"
  using finish_for_usage [of i st] by (auto simp: see_finish_def split: prod.split option.split)

lemma stream_calls_usage [simp]: "os_usage (stream_calls i cs st) = os_usage st"
  by (induction i cs st rule: stream_calls.induct)
    (auto simp: remember_tool_pair_def invalidate_tools_def split: option.split)

lemma stream_choices_usage: "os_usage (fst (stream_choices cs acc)) = os_usage (fst acc)"
proof (induction cs acc rule: stream_choices.induct)
  case (2 choice cs st countable)
  then show ?case by (simp add: Let_def invalidate_tools_def split: option.split calls_member.split)
qed simp

lemma observe_stream_usage: "os_usage (fst (observe_stream v st)) = observe_usage (get ''usage'' v) (os_usage st)"
  by (simp add: observe_stream_def Let_def stream_choices_usage invalidate_tools_def split: option.split json.split)

lemma count_events_usage:
  "os_usage (fst (foldl (\<lambda>a d. count_event parse d a) acc datas)) =
     foldl (\<lambda>st r. observe_usage r st) (os_usage (fst acc)) (usages parse datas)"
proof (induction datas arbitrary: acc)
  case (Cons d datas)
  have "os_usage (fst (count_event parse d acc)) =
      (case (if d = ''[DONE]'' then None else parse_text parse d) of
         None \<Rightarrow> os_usage (fst acc) | Some v \<Rightarrow> observe_usage (get ''usage'' v) (os_usage (fst acc)))"
    using observe_stream_usage by (auto simp: count_event_def split: prod.split option.split) (metis fst_conv)+
  then show ?case
    using Cons.IH by (simp add: usages_def map_filter_simps split: option.split)
qed (simp add: usages_def map_filter_simps)

lemma remembered_usage: "os_usage (remember_unterminated_indexes parse ob) = os_usage (so_state ob)"
proof -
  have "os_usage (foldl (\<lambda>st i. fst (finish_for i st)) st is) = os_usage st" for st "is"
    by (induction "is" arbitrary: st) (simp_all add: finish_for_usage)
  then have "os_usage (remember_choice_indexes v st) = os_usage st" for v st
    by (simp add: remember_choice_indexes_def split: option.split json.split)
  then show ?thesis
    by (simp add: remember_unterminated_indexes_def Let_def split: option.split)
qed

definition statements :: "string \<Rightarrow> (bytes \<Rightarrow> json option) \<Rightarrow> bytes list \<Rightarrow> nat option list" where
  "statements k parse datas = concat (map (reports k) (usages parse datas))"


subsection \<open>The properties at a concrete stream\<close>

definition demo_usage_parse :: "bytes \<Rightarrow> json option" where
  "demo_usage_parse d = (if d = ''7'' then Some (JObject [(''usage'', JObject [(''prompt_tokens'', JNumber (PosInt 7))])]) else None)"

definition demo_chunks :: "bytes list" where
  "demo_chunks = [''da'', ''ta: 7'' @ [CR, LF], [CR, LF] @ '': ping'']"

lemma demo_events: "read_events (concat demo_chunks) = ([''7''], Some [], '': ping'')"
  by (simp add: read_events_def demo_chunks_def blank_def event_data_def extend_event_def strip_cr_def
      data_field_def str_strip_prefix_def MAX_EVENT_BYTES_def map_filter_simps del: str_strip_prefix_Some)

theorem observer_reads_events_witness:
  "unterminated (foldl (\<lambda>ob chunk. push demo_usage_parse chunk ob) new_observer demo_chunks)"
  using observer_reads_events [OF demo_events refl] by simp


end
