(* ===== verification/Dispatcher.thy ===== *)
theory Dispatcher
  imports Key_Pool
begin

section \<open>The slot dispatcher (src/dispatch.rs)\<close>

text \<open>
  One task that serves one queue of waiters, in order. The task's loop is a step function: each
  call is what the task does between two awaits, from a clock reading \<open>now\<close>. What the code cannot
  control enters as arguments: whether the reply channel is closed when the loop looks (\<open>closed\<close>)
  and when it sends (\<open>gone\<close>), and the second clock reading \<open>now2\<close> of the deadline test. A waiter's
  reply channel is a number. Pools are shared, mutable and swapped: \<open>ds_pools\<close> is the store of all
  pool generations, a slot holds the index of the generation that granted it, and the handle
  points at the last one.
\<close>

definition GRANT_GAP :: duration where
  "GRANT_GAP = millis 25"

record slot =
  sl_pool :: nat
  sl_lane :: nat
  sl_key :: string
  sl_base_url :: string
  sl_upstream :: string
  sl_endpoint :: nat
  sl_stream_options :: bool

record waiter =
  wt_reply :: nat
  wt_deadline :: instant
  wt_prefer :: "nat option"
  wt_allowed :: "nat list option"

text \<open>The answer a waiter gets; with a delivery, the ghost stamp of its reservation.\<close>

datatype outcome = Delivered slot instant | Abandoned | Expired

datatype affinity = Affinity_none | Sticky | Spill

text \<open>
  Where the task stands: waiting on the queue, serving a waiter, holding a reservation it is about
  to send (its generation, lane, key and stamp), or sleeping out the gap after a grant with the
  drop guard still alive.
\<close>

datatype phase =
    Idle
  | Serving waiter
  | Sending waiter nat nat string instant
  | Gap

record dispatcher =
  ds_pools :: "pool list"
  ds_queue :: "waiter list"
  ds_phase :: phase
  ds_wake :: instant
  ds_depth :: int
  ds_affinity :: "affinity list"
  ds_done :: "(instant \<times> waiter \<times> outcome) list"

definition new_dispatcher :: "instant \<Rightarrow> pool \<Rightarrow> dispatcher" where
  "new_dispatcher now p = \<lparr>ds_pools = [p], ds_queue = [], ds_phase = Idle, ds_wake = now,
     ds_depth = 0, ds_affinity = [], ds_done = []\<rparr>"

definition acquire_filtered ::
  "nat \<Rightarrow> instant \<Rightarrow> nat option \<Rightarrow> nat list option \<Rightarrow> dispatcher \<Rightarrow> dispatcher" where
  "acquire_filtered reply deadline pref allowed d =
     d\<lparr>ds_depth := ds_depth d + 1,
       ds_queue := ds_queue d @
         [\<lparr>wt_reply = reply, wt_deadline = deadline, wt_prefer = pref, wt_allowed = allowed\<rparr>]\<rparr>"

definition acquire :: "nat \<Rightarrow> instant \<Rightarrow> nat option \<Rightarrow> dispatcher \<Rightarrow> dispatcher" where
  "acquire reply deadline pref d = acquire_filtered reply deadline pref None d"

text \<open>The task is done with a waiter at once: the drop guard lowers the gauge.\<close>

definition leave :: "instant \<Rightarrow> waiter \<Rightarrow> outcome \<Rightarrow> dispatcher \<Rightarrow> dispatcher" where
  "leave now w out d =
     d\<lparr>ds_phase := Idle, ds_depth := ds_depth d - 1, ds_done := ds_done d @ [(now, w, out)]\<rparr>"

definition affinity_of :: "nat option \<Rightarrow> bool \<Rightarrow> affinity" where
  "affinity_of pref sticky =
     (case pref of None \<Rightarrow> Affinity_none | Some _ \<Rightarrow> if sticky then Sticky else Spill)"

definition set_pool :: "nat \<Rightarrow> pool \<Rightarrow> dispatcher \<Rightarrow> dispatcher" where
  "set_pool gen p d = d\<lparr>ds_pools := (ds_pools d)[gen := p]\<rparr>"

text \<open>The inner loop up to the reservation, and its answer to a refusal.\<close>

definition serve :: "instant \<Rightarrow> instant \<Rightarrow> bool \<Rightarrow> waiter \<Rightarrow> dispatcher \<Rightarrow> dispatcher" where
  "serve now now2 closed w d =
     (if closed then leave now w Abandoned d
      else
        let gen = length (ds_pools d) - 1;
            (p, r) = reserve_filtered (last (ds_pools d)) now (wt_prefer w) (wt_allowed w);
            d1 = set_pool gen p d
        in case r of
          Ready lane key stamp sticky \<Rightarrow>
            d1\<lparr>ds_phase := Sending w gen lane key stamp,
               ds_affinity := ds_affinity d1 @ [affinity_of (wt_prefer w) sticky]\<rparr>
        | Wait wait \<Rightarrow>
            if wt_deadline w < now2 + wait then leave now w Expired d1
            else d1\<lparr>ds_phase := Serving w, ds_wake := now2 + min wait (millis 500)\<rparr>)"

text \<open>Sending the slot: the endpoint is read from the granting generation; \<open>None\<close> is an index panic.\<close>

definition send_slot ::
  "instant \<Rightarrow> bool \<Rightarrow> waiter \<Rightarrow> nat \<Rightarrow> nat \<Rightarrow> string \<Rightarrow> instant \<Rightarrow> dispatcher \<Rightarrow> dispatcher option" where
  "send_slot now gone w gen lane key stamp d =
     (case lane_endpoint (ds_pools d ! gen) lane of
        None \<Rightarrow> None
      | Some (url, up, ep, so) \<Rightarrow>
          let sl = \<lparr>sl_pool = gen, sl_lane = lane, sl_key = key, sl_base_url = url,
                    sl_upstream = up, sl_endpoint = ep, sl_stream_options = so\<rparr>
          in if gone
             then (case release (ds_pools d ! gen) lane stamp of
                     None \<Rightarrow> None
                   | Some p \<Rightarrow> Some (leave now w Abandoned (set_pool gen p d)))
             else Some (d\<lparr>ds_phase := Gap, ds_wake := now + GRANT_GAP,
                          ds_done := ds_done d @ [(now, w, Delivered sl stamp)]\<rparr>))"

text \<open>One turn of the task, from its last await point or from between the reservation and the send.\<close>

definition poll :: "instant \<Rightarrow> instant \<Rightarrow> bool \<Rightarrow> dispatcher \<Rightarrow> dispatcher option" where
  "poll now now2 closed d =
     (if now < ds_wake d then Some d
      else case ds_phase d of
        Idle \<Rightarrow>
          (case ds_queue d of
             [] \<Rightarrow> Some d
           | w # ws \<Rightarrow> Some (serve now now2 closed w (d\<lparr>ds_queue := ws\<rparr>)))
      | Serving w \<Rightarrow> Some (serve now now2 closed w d)
      | Sending w gen lane key stamp \<Rightarrow> send_slot now closed w gen lane key stamp d
      | Gap \<Rightarrow> Some (d\<lparr>ds_phase := Idle, ds_depth := ds_depth d - 1\<rparr>))"

text \<open>The two operations others perform on the pools: the settings swap and a lane's cooldown.\<close>

definition swap_pool :: "instant \<Rightarrow> lane_spec list \<Rightarrow> dispatcher \<Rightarrow> dispatcher" where
  "swap_pool now specs d = d\<lparr>ds_pools := ds_pools d @ [rebuild now (last (ds_pools d)) specs]\<rparr>"

definition penalize_slot :: "instant \<Rightarrow> nat \<Rightarrow> nat \<Rightarrow> duration \<Rightarrow> dispatcher \<Rightarrow> dispatcher option" where
  "penalize_slot now gen lane backoff d =
     (if gen < length (ds_pools d)
      then map_option (\<lambda>p. set_pool gen p d) (penalize (ds_pools d ! gen) now lane backoff)
      else None)"

subsection \<open>Runs of the dispatcher\<close>

datatype disp_op =
    Acquire nat instant "nat option" "nat list option"
  | Poll duration bool
  | Swap "lane_spec list"
  | Penalize nat nat duration

fun disp_exec :: "instant \<Rightarrow> disp_op \<Rightarrow> dispatcher \<Rightarrow> dispatcher option" where
  "disp_exec now (Acquire reply deadline pref allowed) d = Some (acquire_filtered reply deadline pref allowed d)"
| "disp_exec now (Poll lag closed) d = poll now (now + lag) closed d"
| "disp_exec now (Swap specs) d = Some (swap_pool now specs d)"
| "disp_exec now (Penalize gen lane backoff) d = penalize_slot now gen lane backoff d"

fun arrivals :: "(instant \<times> disp_op) list \<Rightarrow> nat list" where
  "arrivals [] = []"
| "arrivals ((_, Acquire reply _ _ _) # xs) = reply # arrivals xs"
| "arrivals (_ # xs) = arrivals xs"

definition in_service :: "dispatcher \<Rightarrow> nat list" where
  "in_service d = (case ds_phase d of Serving w \<Rightarrow> [wt_reply w] | Sending w _ _ _ _ \<Rightarrow> [wt_reply w]
     | Idle \<Rightarrow> [] | Gap \<Rightarrow> [])"

definition answered :: "dispatcher \<Rightarrow> nat list" where
  "answered d = map (\<lambda>(_, w, _). wt_reply w) (ds_done d)"

fun delivery :: "instant \<times> waiter \<times> outcome \<Rightarrow> (instant \<times> instant \<times> slot) option" where
  "delivery (t, w, Delivered sl stamp) = Some (t, stamp, sl)"
| "delivery (t, w, Abandoned) = None"
| "delivery (t, w, Expired) = None"

definition deliveries :: "dispatcher \<Rightarrow> (instant \<times> instant \<times> slot) list" where
  "deliveries d = List.map_filter delivery (ds_done d)"

lemma deliveries_snoc:
  "List.map_filter delivery (xs @ [x]) =
     List.map_filter delivery xs @ (case delivery x of None \<Rightarrow> [] | Some y \<Rightarrow> [y])"
  by (induction xs) (auto simp: map_filter_simps split: option.splits)

lemma leave_simps [simp]:
  "ds_pools (leave now w out d) = ds_pools d" "ds_queue (leave now w out d) = ds_queue d"
  "ds_phase (leave now w out d) = Idle" "ds_wake (leave now w out d) = ds_wake d"
  "ds_depth (leave now w out d) = ds_depth d - 1" "ds_done (leave now w out d) = ds_done d @ [(now, w, out)]"
  by (simp_all add: leave_def)

lemma set_pool_simps [simp]:
  "ds_pools (set_pool gen p d) = (ds_pools d)[gen := p]" "ds_queue (set_pool gen p d) = ds_queue d"
  "ds_phase (set_pool gen p d) = ds_phase d" "ds_wake (set_pool gen p d) = ds_wake d"
  "ds_depth (set_pool gen p d) = ds_depth d" "ds_done (set_pool gen p d) = ds_done d"
  by (simp_all add: set_pool_def)

subsection \<open>Order and accounting\<close>

text \<open>Everybody who ever arrived, in the order the task deals with them.\<close>

definition line_up :: "dispatcher \<Rightarrow> nat list" where
  "line_up d = answered d @ in_service d @ map wt_reply (ds_queue d)"

definition depth_honest :: "dispatcher \<Rightarrow> bool" where
  "depth_honest d \<longleftrightarrow> ds_depth d = int (length (ds_queue d)) + (if ds_phase d = Idle then 0 else 1)"

lemmas line_defs = line_up_def answered_def in_service_def depth_honest_def

lemma serve_line:
  "line_up (serve now now2 closed w d) = answered d @ wt_reply w # map wt_reply (ds_queue d)"
  by (auto simp: serve_def line_defs Let_def split: prod.splits reservation.splits)

lemma serve_depth:
  assumes "ds_depth d = int (length (ds_queue d)) + 1"
  shows "depth_honest (serve now now2 closed w d)"
  using assms by (auto simp: serve_def line_defs Let_def split: prod.splits reservation.splits)

lemma send_slot_line:
  assumes "send_slot now gone w gen lane key stamp d = Some d'"
  shows "line_up d' = answered d @ wt_reply w # map wt_reply (ds_queue d)"
    and "ds_depth d = int (length (ds_queue d)) + 1 \<Longrightarrow> depth_honest d'"
  using assms by (auto simp: send_slot_def line_defs Let_def split: option.splits prod.splits if_splits)

lemma disp_exec_line:
  assumes "disp_exec now x d = Some d'"
  shows "line_up d' = line_up d @ arrivals [(now, x)]"
proof (cases x)
  case (Poll lag closed)
  then show ?thesis
    using assms send_slot_line(1)
    by (auto simp: poll_def serve_line split: if_splits phase.splits list.splits) (auto simp: line_defs)
qed (use assms in \<open>auto simp: acquire_filtered_def swap_pool_def penalize_slot_def line_defs split: if_splits\<close>)

lemma disp_exec_depth:
  assumes "disp_exec now x d = Some d'" "depth_honest d"
  shows "depth_honest d'"
proof (cases x)
  case (Poll lag closed)
  then show ?thesis
    using assms send_slot_line(2)
    by (auto simp: poll_def split: if_splits phase.splits list.splits intro!: serve_depth)
      (auto simp: depth_honest_def)
qed (use assms in \<open>auto simp: acquire_filtered_def swap_pool_def penalize_slot_def depth_honest_def split: if_splits\<close>)

lemma arrivals_Cons: "arrivals (x # xs) = arrivals [x] @ arrivals xs"
  by (cases x; cases "snd x") auto

text \<open>
  C5: strictly first come, first served, and nobody is forgotten. In every run of the dispatcher
  the waiters already answered, then the one being served, then the queue, are exactly the callers
  in their order of arrival; and the queue gauge counts the waiters not yet left.
\<close>

theorem dispatcher_is_fifo:
  assumes "run_timed disp_exec xs (new_dispatcher t0 p) = Some d"
  shows "answered d @ in_service d @ map wt_reply (ds_queue d) = arrivals xs \<and>
    ds_depth d = int (length (ds_queue d)) + (if ds_phase d = Idle then 0 else 1)"
proof -
  have "line_up d' = line_up e @ arrivals xs \<and> (depth_honest e \<longrightarrow> depth_honest d')"
    if "run_timed disp_exec xs e = Some d'" for e d'
    using that
  proof (induction xs arbitrary: e)
    case (Cons x xs)
    obtain now y where x: "x = (now, y)" by (cases x)
    with Cons.prems obtain e' where e': "disp_exec now y e = Some e'" "run_timed disp_exec xs e' = Some d'"
      by (auto split: option.splits)
    show ?case
      using Cons.IH [OF e'(2)] disp_exec_line [OF e'(1)] disp_exec_depth [OF e'(1)] arrivals_Cons [of x xs]
      by (simp add: x)
  qed simp
  from this [OF assms] show ?thesis
    by (simp add: line_defs new_dispatcher_def)
qed

subsection \<open>What a pool generation never changes\<close>

text \<open>A generation's lanes keep everything but their stamps and cooldown for as long as it lives.\<close>

definition lane_face :: "lane \<Rightarrow> string \<times> nat \<times> nat \<times> string \<times> string \<times> bool" where
  "lane_face l = (ln_key l, ln_rpm l, ln_endpoint l, ln_base_url l, ln_upstream l, ln_stream_options l)"

definition face :: "pool \<Rightarrow> nat \<times> (string \<times> nat \<times> nat \<times> string \<times> string \<times> bool) list" where
  "face p = (pl_active p, map lane_face (pl_lanes p))"

lemma face_set_sent [simp]: "face (set_sent p i ts) = face p"
proof -
  have "lane_face ((pl_lanes p ! i)\<lparr>ln_sent := ts\<rparr>) = lane_face (pl_lanes p ! i)"
    by (simp add: lane_face_def)
  then have "map lane_face ((pl_lanes p)[i := (pl_lanes p ! i)\<lparr>ln_sent := ts\<rparr>]) = map lane_face (pl_lanes p)"
    by (metis list_update_id map_update)
  then show ?thesis by (simp add: face_def set_sent_def)
qed

lemma face_same:
  assumes "same_pool now p q"
  shows "face q = face p"
proof -
  have "lane_face (pl_lanes q ! i) = lane_face (pl_lanes p ! i)" if "i < length (pl_lanes p)" for i
    using same_pool_nth [OF assms that] by (simp add: purge_lane_eq_iff lane_face_def)
  then have "map lane_face (pl_lanes q) = map lane_face (pl_lanes p)"
    using same_pool_length [OF assms] by (auto intro: nth_equalityI)
  then show ?thesis
    using assms by (simp add: face_def same_pool_def)
qed

lemma face_reserve:
  assumes "pool_wf now p" "reserve_filtered p now pref allowed = (q, r)"
  shows "face q = face p"
  using face_same [OF reserve_filtered_result(2) [OF assms]]
  by (cases r) (simp_all add: after_reservation_def grant_def)

lemma face_release:
  assumes "release p i stamp = Some q"
  shows "face q = face p"
  using assms by (auto simp: release_def Let_def simp del: rposition_None split: if_splits option.splits)

lemma face_penalize:
  assumes "penalize p now i backoff = Some q"
  shows "face q = face p"
proof -
  note pl = penalize_lanes [OF assms]
  have "lane_face (pl_lanes q ! j) = lane_face (pl_lanes p ! j)" for j
    using pl(4) [of j] pl(5) by (cases "j = i") (simp_all add: lane_face_def)
  then have "map lane_face (pl_lanes q) = map lane_face (pl_lanes p)"
    by (auto intro!: nth_equalityI simp: pl(3))
  then show ?thesis by (simp add: face_def pl(2))
qed

lemma face_views:
  assumes "face q = face p"
  shows "pl_active q = pl_active p" "length (pl_lanes q) = length (pl_lanes p)"
    "lane_endpoint q i = lane_endpoint p i"
    "i < length (pl_lanes p) \<Longrightarrow> ln_key (pl_lanes q ! i) = ln_key (pl_lanes p ! i)"
    "i < length (pl_lanes p) \<Longrightarrow> lane_ok q allowed i = lane_ok p allowed i"
proof -
  have act: "pl_active q = pl_active p" and map: "map lane_face (pl_lanes q) = map lane_face (pl_lanes p)"
    using assms by (simp_all add: face_def)
  then show "pl_active q = pl_active p" by simp
  show len: "length (pl_lanes q) = length (pl_lanes p)"
    using map by (metis length_map)
  have nth: "lane_face (pl_lanes q ! i) = lane_face (pl_lanes p ! i)" if "i < length (pl_lanes p)" for i
    using map len that by (metis nth_map)
  then show "lane_endpoint q i = lane_endpoint p i"
    "i < length (pl_lanes p) \<Longrightarrow> ln_key (pl_lanes q ! i) = ln_key (pl_lanes p ! i)"
    "i < length (pl_lanes p) \<Longrightarrow> lane_ok q allowed i = lane_ok p allowed i"
    by (simp_all add: lane_endpoint_def len Let_def lane_face_def lane_ok_def split: option.splits)
qed

subsection \<open>The invariant\<close>

text \<open>The reservation in hand, and every slot ever delivered, belongs to a lane of its generation.\<close>

definition may_grant :: "pool list \<Rightarrow> waiter \<Rightarrow> nat \<Rightarrow> nat \<Rightarrow> string \<Rightarrow> bool" where
  "may_grant ps w gen lane key \<longleftrightarrow> gen < length ps \<and> lane < length (pl_lanes (ps ! gen)) \<and>
     lane < pl_active (ps ! gen) \<and> ln_key (pl_lanes (ps ! gen) ! lane) = key \<and>
     lane_ok (ps ! gen) (wt_allowed w) lane"

definition slot_true :: "pool list \<Rightarrow> waiter \<Rightarrow> slot \<Rightarrow> bool" where
  "slot_true ps w sl \<longleftrightarrow> may_grant ps w (sl_pool sl) (sl_lane sl) (sl_key sl) \<and>
     lane_endpoint (ps ! sl_pool sl) (sl_lane sl) =
       Some (sl_base_url sl, sl_upstream sl, sl_endpoint sl, sl_stream_options sl)"

fun hand_true :: "pool list \<Rightarrow> phase \<Rightarrow> bool" where
  "hand_true ps (Sending w gen lane key stamp) \<longleftrightarrow> may_grant ps w gen lane key"
| "hand_true ps Idle \<longleftrightarrow> True"
| "hand_true ps (Serving w) \<longleftrightarrow> True"
| "hand_true ps Gap \<longleftrightarrow> True"

fun answer_true :: "pool list \<Rightarrow> instant \<times> waiter \<times> outcome \<Rightarrow> bool" where
  "answer_true ps (t, w, Delivered sl stamp) \<longleftrightarrow> slot_true ps w sl"
| "answer_true ps (t, w, Abandoned) \<longleftrightarrow> True"
| "answer_true ps (t, w, Expired) \<longleftrightarrow> True"

definition pools_inv :: "instant \<Rightarrow> dispatcher \<Rightarrow> bool" where
  "pools_inv now d \<longleftrightarrow> ds_pools d \<noteq> [] \<and> (\<forall>p \<in> set (ds_pools d). pool_wf now p) \<and>
     hand_true (ds_pools d) (ds_phase d) \<and> (\<forall>a \<in> set (ds_done d). answer_true (ds_pools d) a)"

definition grows :: "pool list \<Rightarrow> pool list \<Rightarrow> bool" where
  "grows ps qs \<longleftrightarrow> prefix (map face ps) (map face qs)"

lemma growsD:
  assumes "grows ps qs" "gen < length ps"
  shows "gen < length qs" "face (qs ! gen) = face (ps ! gen)"
proof -
  show "gen < length qs"
    using assms prefix_length_le [of "map face ps" "map face qs"] by (simp add: grows_def)
  have "map face qs ! gen = map face ps ! gen"
    using assms by (auto simp: grows_def prefix_def nth_append simp del: nth_map)
  with assms(2) \<open>gen < length qs\<close> show "face (qs ! gen) = face (ps ! gen)" by simp
qed

lemma may_grant_grows:
  assumes "grows ps qs" "may_grant ps w gen lane key"
  shows "may_grant qs w gen lane key"
  using assms growsD [OF assms(1), of gen] face_views [of "qs ! gen" "ps ! gen"]
  by (simp add: may_grant_def)

lemma slot_true_grows:
  assumes "grows ps qs" "slot_true ps w sl"
  shows "slot_true qs w sl"
proof -
  have "may_grant qs w (sl_pool sl) (sl_lane sl) (sl_key sl)"
    using may_grant_grows [OF assms(1)] assms(2) unfolding slot_true_def by blast
  moreover have "sl_pool sl < length ps"
    using assms(2) by (simp add: slot_true_def may_grant_def)
  ultimately show ?thesis
    using assms face_views(3) [OF growsD(2)] by (simp add: slot_true_def)
qed

lemma grows_update: "gen < length ps \<Longrightarrow> face p = face (ps ! gen) \<Longrightarrow> grows ps (ps[gen := p])"
  by (simp add: grows_def map_update list_update_same_conv [THEN iffD2])

lemma grows_refl [simp]: "grows ps ps" by (simp add: grows_def)

lemma grows_snoc [simp]: "grows ps (ps @ [p])" by (simp add: grows_def)

lemma pools_inv_parts:
  assumes "pools_inv now d"
  shows "ds_pools d \<noteq> []" "gen < length (ds_pools d) \<Longrightarrow> pool_wf now (ds_pools d ! gen)"
    "last (ds_pools d) = ds_pools d ! (length (ds_pools d) - 1)" "pool_wf now (last (ds_pools d))"
  using assms by (auto simp: pools_inv_def last_conv_nth)

text \<open>A step that only updates or adds pools keeps what was delivered true.\<close>

lemma pools_inv_grows:
  assumes "pools_inv now d" "grows (ds_pools d) (ds_pools d')" "\<forall>p \<in> set (ds_pools d'). pool_wf now p"
    and "ds_phase d' = ds_phase d \<or> (\<forall>w gen lane key stamp. ds_phase d' \<noteq> Sending w gen lane key stamp)"
    and "ds_done d' = ds_done d"
  shows "pools_inv now d'"
proof -
  have "ds_pools d' \<noteq> []"
    using growsD(1) [OF assms(2), of 0] assms(1) by (auto simp: pools_inv_def)
  moreover have "hand_true (ds_pools d') (ds_phase d')"
    using assms(1,4) may_grant_grows [OF assms(2)]
    by (cases "ds_phase d"; cases "ds_phase d'") (auto simp: pools_inv_def)
  moreover have "answer_true (ds_pools d') a" if "answer_true (ds_pools d) a" for a
    using that slot_true_grows [OF assms(2)] by (cases "(ds_pools d, a)" rule: answer_true.cases) auto
  ultimately show ?thesis
    using assms(1,3,5) by (simp add: pools_inv_def)
qed

lemma pools_inv_leave:
  "pools_inv now d \<Longrightarrow> answer_true (ds_pools d) (t, w, out) \<Longrightarrow> pools_inv now (leave t w out d)"
  by (simp add: pools_inv_def)

lemma pools_inv_set_pool:
  assumes "pools_inv now d" "gen < length (ds_pools d)" "pool_wf now p" "face p = face (ds_pools d ! gen)"
  shows "pools_inv now (set_pool gen p d)"
  using assms by (intro pools_inv_grows [OF assms(1)])
    (auto simp: pools_inv_def intro: grows_update dest!: set_update_subset_insert [THEN subsetD])

text \<open>A reservation out of the current pool, seen from the store of generations.\<close>

lemma reserve_current:
  assumes "pools_inv now d" "reserve_filtered (last (ds_pools d)) now pref allowed = (p, r)"
  shows "pools_inv now (set_pool (length (ds_pools d) - 1) p d)"
    and "r = Ready lane key stamp sticky \<Longrightarrow> wt_allowed w = allowed \<Longrightarrow>
      may_grant ((ds_pools d)[length (ds_pools d) - 1 := p]) w (length (ds_pools d) - 1) lane key"
proof -
  note parts = pools_inv_parts [OF assms(1)]
  let ?gen = "length (ds_pools d) - 1"
  have gen: "?gen < length (ds_pools d)" using parts(1) by simp
  have fc: "face p = face (ds_pools d ! ?gen)"
    using face_reserve [OF parts(4) assms(2)] parts(3) by simp
  show "pools_inv now (set_pool ?gen p d)"
    using reserve_filtered_result(3) [OF parts(4) assms(2)] fc by (intro pools_inv_set_pool assms(1) gen)
  assume r: "r = Ready lane key stamp sticky" and w: "wt_allowed w = allowed"
  note rdy = reserve_spec_Ready [OF reserve_filtered_result(1) [OF parts(4) assms(2), symmetric, unfolded r]]
  note free = free_lanesD [OF rdy(1)]
  have len: "lane < length (pl_lanes (last (ds_pools d)))"
    by (rule pool_wf_active [OF parts(4) free(1)])
  show "may_grant ((ds_pools d)[?gen := p]) w ?gen lane key"
    using gen len free rdy(2) w face_views [OF fc] unfolding may_grant_def parts(3) by simp
qed

lemma serve_pools:
  assumes "pools_inv now d"
  shows "pools_inv now (serve now now2 closed w d)"
proof (cases closed)
  case True
  then show ?thesis using assms by (simp add: serve_def pools_inv_leave)
next
  case False
  obtain p r where res: "reserve_filtered (last (ds_pools d)) now (wt_prefer w) (wt_allowed w) = (p, r)"
    by (cases "reserve_filtered (last (ds_pools d)) now (wt_prefer w) (wt_allowed w)")
  note cur = reserve_current [OF assms res]
  show ?thesis
  proof (cases r)
    case (Ready lane key stamp sticky)
    have "may_grant ((ds_pools d)[length (ds_pools d) - 1 := p]) w (length (ds_pools d) - 1) lane key"
      using cur(2) [OF Ready] by simp
    with cur(1) show ?thesis
      using False res Ready by (simp add: serve_def Let_def pools_inv_def)
  next
    case (Wait wait)
    have "pools_inv now (leave now w Expired (set_pool (length (ds_pools d) - 1) p d))"
      using cur(1) by (simp add: pools_inv_leave)
    moreover have "pools_inv now ((set_pool (length (ds_pools d) - 1) p d)\<lparr>ds_phase := Serving w, ds_wake := t\<rparr>)" for t
      using cur(1) by (simp add: pools_inv_def)
    ultimately show ?thesis
      using False res Wait by (simp add: serve_def Let_def)
  qed
qed

text \<open>A reservation in hand is sent or released without a panic.\<close>

lemma send_slot_pools:
  assumes inv: "pools_inv now d" and phase: "ds_phase d = Sending w gen lane key stamp"
  shows "\<exists>d'. send_slot now gone w gen lane key stamp d = Some d' \<and> pools_inv now d'"
proof -
  have may: "may_grant (ds_pools d) w gen lane key"
    using inv phase by (simp add: pools_inv_def)
  then have gen: "gen < length (ds_pools d)" and lane: "lane < length (pl_lanes (ds_pools d ! gen))"
    by (simp_all add: may_grant_def)
  obtain url up ep so where ep: "lane_endpoint (ds_pools d ! gen) lane = Some (url, up, ep, so)"
    using lane by (auto simp: lane_endpoint_def Let_def)
  obtain p where p: "release (ds_pools d ! gen) lane stamp = Some p"
    using lane by (simp add: release_def Let_def)
  show ?thesis
  proof (cases gone)
    case True
    have "pools_inv now (set_pool gen p d)"
      using release_wf [OF pools_inv_parts(2) [OF inv gen] p] face_release [OF p]
      by (intro pools_inv_set_pool inv gen)
    with True ep p show ?thesis
      by (simp add: send_slot_def pools_inv_leave)
  next
    case False
    with inv ep may show ?thesis
      by (auto simp: send_slot_def pools_inv_def Let_def slot_true_def)
  qed
qed

lemma poll_pools:
  assumes "pools_inv now d"
  shows "\<exists>d'. poll now now2 closed d = Some d' \<and> pools_inv now d'"
proof (cases "ds_phase d")
  case Idle
  have "pools_inv now (d\<lparr>ds_queue := ws\<rparr>)" for ws
    using assms by (simp add: pools_inv_def)
  with Idle assms show ?thesis
    by (auto simp: poll_def serve_pools split: list.splits)
next
  case (Serving w)
  with assms show ?thesis by (simp add: poll_def serve_pools)
next
  case (Sending w gen lane key stamp)
  with assms send_slot_pools [OF assms Sending] show ?thesis by (simp add: poll_def)
next
  case Gap
  with assms show ?thesis by (simp add: poll_def pools_inv_def)
qed

lemma pools_inv_later:
  assumes "pools_inv now d" "now \<le> t"
  shows "pools_inv t d"
  using assms(1) pool_wf_later [OF _ assms(2)] by (simp add: pools_inv_def)

lemma swap_pools:
  assumes "pools_inv now d"
  shows "pools_inv now (swap_pool now specs d)"
proof (rule pools_inv_grows [OF assms])
  have "pool_wf now (rebuild now (last (ds_pools d)) specs)"
    unfolding rebuild_def using pools_inv_parts(4) [OF assms] by (intro assemble_wf) simp
  then show "\<forall>p \<in> set (ds_pools (swap_pool now specs d)). pool_wf now p"
    using assms by (simp add: swap_pool_def pools_inv_def)
qed (simp_all add: swap_pool_def)

lemma penalize_slot_pools:
  assumes "pools_inv now d" "penalize_slot now gen lane backoff d = Some d'"
  shows "pools_inv now d'"
proof -
  obtain p where gen: "gen < length (ds_pools d)" and p: "penalize (ds_pools d ! gen) now lane backoff = Some p"
    and d': "d' = set_pool gen p d"
    using assms(2) by (auto simp: penalize_slot_def split: if_splits)
  show ?thesis
    unfolding d' using penalize_wf [OF pools_inv_parts(2) [OF assms(1) gen] p] face_penalize [OF p]
    by (intro pools_inv_set_pool assms(1) gen)
qed

interpretation dp: timed_machine disp_exec "\<lambda>_. True" pools_inv
proof (unfold_locales, goal_cases)
  case (1 t d now x d')
  have inv: "pools_inv now d" by (rule pools_inv_later [OF 1(1,2)])
  show ?case
  proof (cases x)
    case (Acquire reply deadline pref allowed)
    with 1(4) inv show ?thesis by (auto simp: acquire_filtered_def pools_inv_def)
  next
    case (Poll lag closed)
    with 1(4) poll_pools [OF inv, of "now + lag" closed] show ?thesis by auto
  next
    case (Swap specs)
    with 1(4) swap_pools [OF inv] show ?thesis by auto
  next
    case (Penalize gen lane backoff)
    with 1(4) penalize_slot_pools [OF inv] show ?thesis by auto
  qed
next
  case (2 t d now)
  then show ?case by (rule pools_inv_later)
qed

lemma pools_inv_new: "pools_inv now (new_dispatcher now (new_pool now specs))"
  using assemble_wf [where old = None and now = now and specs = specs]
  by (simp add: pools_inv_def new_dispatcher_def new_pool_def)

subsection \<open>No key is overspent, end to end\<close>

text \<open>
  The stamps of the delivered slots of a key, and of the reservation in hand, are among the grants
  the current pool accounts for: a release that reaches a retired generation only leaves the
  current one with a stamp too many.
\<close>

fun in_hand :: "string \<Rightarrow> phase \<Rightarrow> instant multiset" where
  "in_hand k (Sending w gen lane key stamp) = (if key = k then {#stamp#} else {#})"
| "in_hand k _ = {#}"

definition key_deliveries :: "string \<Rightarrow> dispatcher \<Rightarrow> instant multiset" where
  "key_deliveries k d = mset (map (\<lambda>(t, stamp, sl). stamp) (filter (\<lambda>(t, stamp, sl). sl_key sl = k) (deliveries d)))"

definition spent_inv :: "string \<Rightarrow> nat \<Rightarrow> instant \<Rightarrow> dispatcher \<Rightarrow> bool" where
  "spent_inv k R now d \<longleftrightarrow> pools_inv now d \<and> (\<exists>log. window_inv k R now (last (ds_pools d), log) \<and>
     key_deliveries k d + in_hand k (ds_phase d) \<subseteq># mset (key_log k log))"

fun disp_op_keeps :: "string \<Rightarrow> nat \<Rightarrow> disp_op \<Rightarrow> bool" where
  "disp_op_keeps k R (Swap specs) = keeps_key k R specs"
| "disp_op_keeps k R _ = True"

lemma key_deliveries_done:
  assumes "ds_done d' = ds_done d"
  shows "key_deliveries k d' = key_deliveries k d"
  using assms by (simp add: key_deliveries_def deliveries_def)

lemma key_deliveries_leave [simp]:
  "key_deliveries k (leave t w Abandoned d) = key_deliveries k d"
  "key_deliveries k (leave t w Expired d) = key_deliveries k d"
  by (simp_all add: key_deliveries_def deliveries_def deliveries_snoc)

lemma key_deliveries_set_pool [simp]: "key_deliveries k (set_pool gen p d) = key_deliveries k d"
  by (rule key_deliveries_done) simp

lemma serve_spent:
  assumes inv: "spent_inv k R now d" and hand: "in_hand k (ds_phase d) = {#}"
  shows "spent_inv k R now (serve now now2 closed w d)"
proof -
  have pinv: "pools_inv now d" using inv by (simp add: spent_inv_def)
  note served = serve_pools [OF pinv, of now2 closed w]
  obtain log where log: "window_inv k R now (last (ds_pools d), log)"
    "key_deliveries k d \<subseteq># mset (key_log k log)"
    using inv hand by (auto simp: spent_inv_def)
  obtain p r where res: "reserve_filtered (last (ds_pools d)) now (wt_prefer w) (wt_allowed w) = (p, r)"
    by (cases "reserve_filtered (last (ds_pools d)) now (wt_prefer w) (wt_allowed w)")
  note win = window_inv_reserve [OF log(1) res]
  have lst: "last ((ds_pools d)[length (ds_pools d) - Suc 0 := p]) = p"
    using pools_inv_parts(1) [OF pinv] by (simp add: last_list_update)
  show ?thesis
  proof (cases closed)
    case True
    with served log show ?thesis
      by (auto simp: spent_inv_def serve_def simp del: window_inv.simps)
  next
    case False
    have kd: "key_deliveries k (serve now now2 closed w d) = key_deliveries k d"
      using False res by (cases r) (auto simp: serve_def Let_def intro: key_deliveries_done)
    show ?thesis
    proof (cases r)
      case (Ready lane key stamp sticky)
      have "key_deliveries k d + in_hand k (Sending w (length (ds_pools d) - 1) lane key stamp)
          \<subseteq># mset (key_log k ((key, stamp) # log))"
        using log(2) by simp
      with served kd win lst show ?thesis
        unfolding spent_inv_def using False res Ready
        by (auto simp: serve_def Let_def simp del: window_inv.simps)
    next
      case (Wait wait)
      with served kd win lst log(2) show ?thesis
        unfolding spent_inv_def using False res
        by (auto simp: serve_def Let_def simp del: window_inv.simps)
    qed
  qed
qed

lemma last_update:
  "ps \<noteq> [] \<Longrightarrow> last (ps[gen := p]) = (if gen = length ps - 1 then p else last ps)"
  by (simp add: last_list_update)

lemma send_slot_spent:
  assumes inv: "spent_inv k R now d" and phase: "ds_phase d = Sending w gen lane key stamp"
    and send: "send_slot now gone w gen lane key stamp d = Some d'"
  shows "spent_inv k R now d'"
proof -
  have pinv: "pools_inv now d" using inv by (simp add: spent_inv_def)
  have pinv': "pools_inv now d'"
    using send_slot_pools [OF pinv phase, of gone] send by simp
  have ne: "ds_pools d \<noteq> []" by (rule pools_inv_parts(1) [OF pinv])
  have may: "may_grant (ds_pools d) w gen lane key"
    using pinv phase by (simp add: pools_inv_def)
  obtain log where log: "window_inv k R now (last (ds_pools d), log)"
    "key_deliveries k d + in_hand k (ds_phase d) \<subseteq># mset (key_log k log)"
    using inv by (auto simp: spent_inv_def)
  obtain url up ep so where ep: "lane_endpoint (ds_pools d ! gen) lane = Some (url, up, ep, so)"
    using send by (auto simp: send_slot_def split: option.splits)
  show ?thesis
  proof (cases gone)
    case False
    have "key_deliveries k d' + in_hand k (ds_phase d') = key_deliveries k d + in_hand k (ds_phase d)"
      "ds_pools d' = ds_pools d"
      using send ep False phase
      by (auto simp: send_slot_def Let_def key_deliveries_def deliveries_def deliveries_snoc)
    with pinv' log show ?thesis
      unfolding spent_inv_def by (intro conjI exI [of _ log]) simp_all
  next
    case True
    obtain p where p: "release (ds_pools d ! gen) lane stamp = Some p"
      and d': "d' = leave now w Abandoned (set_pool gen p d)"
      using send ep True by (auto simp: send_slot_def split: option.splits)
    have less: "key_deliveries k d \<subseteq># mset (key_log k log)"
      using log(2) by (rule subset_mset.trans [rotated]) simp
    show ?thesis
    proof (cases "gen = length (ds_pools d) - 1")
      case False
      with pinv' log(1) less show ?thesis
        unfolding spent_inv_def by (auto simp: d' last_update [OF ne] simp del: window_inv.simps)
    next
      case cur: True
      then have lst: "ds_pools d ! gen = last (ds_pools d)" using ne by (simp add: last_conv_nth)
      define log' where "log' = (if stamp \<in> set (ln_sent (pl_lanes (last (ds_pools d)) ! lane))
        then remove1 (ln_key (pl_lanes (last (ds_pools d)) ! lane), stamp) log else log)"
      have "window_inv k R now (p, log')"
        unfolding log'_def using window_inv_release [OF log(1) p [unfolded lst]] .
      moreover have "key_deliveries k d \<subseteq># mset (key_log k log')"
        using log(2) less may lst
        by (auto simp: log'_def phase may_grant_def key_log_remove1 insert_subset_eq_iff split: if_splits)
      ultimately show ?thesis
        unfolding spent_inv_def using pinv' cur by (auto simp: d' last_update [OF ne] simp del: window_inv.simps)
    qed
  qed
qed

lemma poll_spent:
  assumes inv: "spent_inv k R now d" and poll: "poll now now2 closed d = Some d'"
  shows "spent_inv k R now d'"
proof (cases "now < ds_wake d")
  case True
  with assms show ?thesis by (simp add: poll_def)
next
  case False
  have other: "spent_inv k R now e" if "ds_pools e = ds_pools d" "ds_done e = ds_done d"
    "in_hand k (ds_phase e) = in_hand k (ds_phase d)" "hand_true (ds_pools d) (ds_phase e)" for e
    using inv that key_deliveries_done [of e d k] by (auto simp: spent_inv_def pools_inv_def simp del: window_inv.simps)
  show ?thesis
  proof (cases "ds_phase d")
    case Idle
    then have "spent_inv k R now (d\<lparr>ds_queue := ws\<rparr>)" for ws by (intro other) simp_all
    with Idle False poll inv serve_spent [of k R now "d\<lparr>ds_queue := _\<rparr>"] show ?thesis
      by (auto simp: poll_def split: list.splits)
  next
    case (Serving w)
    with False poll inv serve_spent show ?thesis by (auto simp: poll_def)
  next
    case (Sending w gen lane key stamp)
    with False poll inv send_slot_spent show ?thesis by (auto simp: poll_def)
  next
    case Gap
    with False poll show ?thesis by (auto simp: poll_def intro!: other)
  qed
qed

lemma spent_inv_later:
  assumes "spent_inv k R now d" "now \<le> t"
  shows "spent_inv k R t d"
proof -
  obtain log where "window_inv k R now (last (ds_pools d), log)"
    "key_deliveries k d + in_hand k (ds_phase d) \<subseteq># mset (key_log k log)"
    using assms(1) by (auto simp: spent_inv_def)
  with assms show ?thesis
    using pools_inv_later pm.inv_later [of k R now "(last (ds_pools d), log)" t]
    unfolding spent_inv_def by blast
qed

interpretation dw: timed_machine disp_exec "disp_op_keeps k R" "spent_inv k R" for k R
proof (unfold_locales, goal_cases)
  case (1 t d now x d')
  have inv: "spent_inv k R now d" by (rule spent_inv_later [OF 1(1,2)])
  then have pinv: "pools_inv now d" by (simp add: spent_inv_def)
  have pinv': "pools_inv now d'" using dp.inv_step [OF pinv _ _ 1(4)] by simp
  obtain log where log: "window_inv k R now (last (ds_pools d), log)"
    "key_deliveries k d + in_hand k (ds_phase d) \<subseteq># mset (key_log k log)"
    using inv by (auto simp: spent_inv_def)
  have ne: "ds_pools d \<noteq> []" by (rule pools_inv_parts(1) [OF pinv])
  have same: "key_deliveries k d' + in_hand k (ds_phase d') = key_deliveries k d + in_hand k (ds_phase d)"
    if "ds_done d' = ds_done d" "ds_phase d' = ds_phase d"
    using that key_deliveries_done [of d' d k] by simp
  show ?case
  proof (cases x)
    case (Acquire reply deadline pref allowed)
    with 1(4) have "ds_pools d' = ds_pools d" "ds_done d' = ds_done d" "ds_phase d' = ds_phase d"
      by (auto simp: acquire_filtered_def)
    with log same pinv' show ?thesis
      unfolding spent_inv_def by (metis (no_types, lifting))
  next
    case (Poll lag closed)
    with 1(4) inv show ?thesis by (auto intro: poll_spent)
  next
    case (Swap specs)
    then have "window_inv k R now (last (ds_pools d'), log)" "ds_done d' = ds_done d" "ds_phase d' = ds_phase d"
      using 1(3,4) window_inv_rebuild [OF log(1)] by (auto simp: swap_pool_def simp del: window_inv.simps)
    with log same pinv' show ?thesis
      unfolding spent_inv_def by (metis (no_types, lifting))
  next
    case (Penalize gen lane backoff)
    then obtain p where p: "penalize (ds_pools d ! gen) now lane backoff = Some p" and d': "d' = set_pool gen p d"
      using 1(4) by (auto simp: penalize_slot_def split: if_splits)
    have "window_inv k R now (last (ds_pools d'), log)"
      using log(1) window_inv_penalize [OF log(1)] p ne
      by (auto simp: d' last_update [OF ne] last_conv_nth simp del: window_inv.simps)
    with log same pinv' show ?thesis
      unfolding spent_inv_def by (metis (no_types, lifting) d' set_pool_simps(3,6))
  qed
next
  case (2 t d now)
  then show ?case by (rule spent_inv_later)
qed

subsection \<open>Spacing of grants\<close>

definition spaced :: "dispatcher \<Rightarrow> bool" where
  "spaced d \<longleftrightarrow> sorted_wrt (\<lambda>a b. fst a + GRANT_GAP \<le> fst b) (deliveries d) \<and>
     (\<forall>x \<in> set (deliveries d). fst x + GRANT_GAP \<le> ds_wake d)"

lemma spaced_mono:
  "spaced d \<Longrightarrow> deliveries d' = deliveries d \<Longrightarrow> ds_wake d \<le> ds_wake d' \<Longrightarrow> spaced d'"
  by (force simp: spaced_def)

lemma deliveries_simps [simp]:
  "deliveries (leave t w Abandoned d) = deliveries d"
  "deliveries (leave t w Expired d) = deliveries d"
  "deliveries (set_pool gen p d) = deliveries d"
  "deliveries (d\<lparr>ds_phase := ph\<rparr>) = deliveries d"
  "deliveries (d\<lparr>ds_wake := t\<rparr>) = deliveries d"
  "deliveries (d\<lparr>ds_queue := ws\<rparr>) = deliveries d"
  "deliveries (d\<lparr>ds_depth := n\<rparr>) = deliveries d"
  "deliveries (d\<lparr>ds_affinity := as\<rparr>) = deliveries d"
  by (simp_all add: deliveries_def deliveries_snoc)

lemma serve_spaced:
  assumes "spaced d" "ds_wake d \<le> now" "now \<le> now2"
  shows "spaced (serve now now2 closed w d)"
  using assms
  by (intro spaced_mono [OF assms(1)])
    (auto simp: serve_def Let_def split: prod.splits reservation.splits)

lemma send_slot_spaced:
  assumes "spaced d" "ds_wake d \<le> now" "send_slot now gone w gen lane key stamp d = Some d'"
  shows "spaced d'"
proof -
  have "spaced (d\<lparr>ds_phase := Gap, ds_wake := now + GRANT_GAP, ds_done := ds_done d @ [(now, w, Delivered sl stamp)]\<rparr>)" for sl
    using assms(1,2) by (fastforce simp: spaced_def deliveries_def deliveries_snoc sorted_wrt_append)
  moreover have "spaced (leave now w Abandoned (set_pool gen p d))" for p
    by (rule spaced_mono [OF assms(1)]) simp_all
  ultimately show ?thesis
    using assms(3) by (auto simp: send_slot_def Let_def split: option.splits if_splits)
qed

lemma disp_exec_spaced:
  assumes "spaced d" "disp_exec now x d = Some d'"
  shows "spaced d'"
proof (cases x)
  case (Poll lag closed)
  have "spaced (d\<lparr>ds_queue := ws\<rparr>)" for ws
    using assms(1) by (intro spaced_mono [OF assms(1)]) simp_all
  moreover have "spaced (d\<lparr>ds_phase := Idle, ds_depth := n\<rparr>)" for n
    by (rule spaced_mono [OF assms(1)]) (simp_all add: deliveries_def)
  ultimately show ?thesis
    using Poll assms serve_spaced
    by (auto simp: poll_def not_less split: if_splits phase.splits list.splits
        intro: send_slot_spaced [OF assms(1)])
qed (use assms in \<open>auto simp: acquire_filtered_def swap_pool_def penalize_slot_def deliveries_def
      intro!: spaced_mono [OF assms(1)] split: if_splits\<close>)

subsection \<open>Properties\<close>

lemma deliveries_within_budget:
  assumes "keeps_key k R specs"
    and "sorted (t0 # map fst xs)" and "\<forall>x \<in> set xs. disp_op_keeps k R (snd x)"
    and "run_timed disp_exec xs (new_dispatcher t0 (new_pool t0 specs)) = Some d"
  shows "length (filter (\<lambda>(t, stamp, sl). sl_key sl = k \<and> stamp \<le> T \<and> T < stamp + WINDOW) (deliveries d)) \<le> R"
proof -
  have "spent_inv k R t0 (new_dispatcher t0 (new_pool t0 specs))"
    using window_inv_new [OF assms(1), of t0] pools_inv_new [of t0 specs]
    unfolding spent_inv_def
    by (intro conjI exI [of _ "[]"]) (simp_all add: new_dispatcher_def key_deliveries_def deliveries_def map_filter_simps)
  from dw.inv_run [OF this assms(2-4)] obtain now log where
    win: "window_inv k R now (last (ds_pools d), log)" and
    sub: "key_deliveries k d + in_hand k (ds_phase d) \<subseteq># mset (key_log k log)"
    by (auto simp: spent_inv_def)
  let ?ts = "map (\<lambda>(t, stamp, sl). stamp) (filter (\<lambda>(t, stamp, sl). sl_key sl = k) (deliveries d))"
  have "mset ?ts \<subseteq># mset (key_log k log)"
    using sub unfolding key_deliveries_def by (rule subset_mset.trans [rotated]) simp
  then have "in_span T ?ts \<le> R"
    using in_span_sub win by (meson le_trans window_inv.simps)
  moreover have "in_span T ?ts =
      length (filter (\<lambda>(t, stamp, sl). sl_key sl = k \<and> stamp \<le> T \<and> T < stamp + WINDOW) (deliveries d))"
    by (induction "deliveries d") (auto simp: in_span_def filter_map o_def case_prod_beta conj_ac)
  ultimately show ?thesis by simp
qed


text \<open>
  Every slot handed out is the one it claims to be, and the task never panics. In every
  reachable state each delivered slot names a granted lane of the generation it points to, with
  that lane's key, base URL, upstream name, endpoint and capability, in an endpoint group its
  caller allowed; and every further turn of the task succeeds.
\<close>

theorem delivered_slots_are_true:
  assumes "sorted (t0 # map fst xs)"
    and "run_timed disp_exec xs (new_dispatcher t0 (new_pool t0 specs)) = Some d"
  shows "(\<forall>(t, w, out) \<in> set (ds_done d). \<forall>sl stamp. out = Delivered sl stamp \<longrightarrow>
       (\<exists>l. sl_pool sl < length (ds_pools d) \<and> sl_lane sl < pl_active (ds_pools d ! sl_pool sl) \<and>
          l = pl_lanes (ds_pools d ! sl_pool sl) ! sl_lane sl \<and>
          sl_key sl = ln_key l \<and> sl_base_url sl = ln_base_url l \<and> sl_upstream sl = ln_upstream l \<and>
          sl_endpoint sl = ln_endpoint l \<and> sl_stream_options sl = ln_stream_options l \<and>
          (\<forall>es. wt_allowed w = Some es \<longrightarrow> sl_endpoint sl \<in> set es)))
    \<and> (\<forall>now now2 closed. last (t0 # map fst xs) \<le> now \<longrightarrow> poll now now2 closed d \<noteq> None)"
proof -
  have inv: "pools_inv (last (t0 # map fst xs)) d"
    using dp.inv_run [OF pools_inv_new assms(1) _ assms(2)] by simp
  have "slot_true (ds_pools d) w sl" if "(t, w, Delivered sl stamp) \<in> set (ds_done d)" for t w sl stamp
    using inv that by (force simp: pools_inv_def)
  moreover have "poll now now2 closed d \<noteq> None" if "last (t0 # map fst xs) \<le> now" for now now2 closed
    using poll_pools [OF pools_inv_later [OF inv that]] by force
  ultimately show ?thesis
    by (fastforce simp: slot_true_def may_grant_def lane_endpoint_def lane_ok_def Let_def)
qed

text \<open>
  Grants are paced. In every run the slots delivered follow one another by at least 25 ms.
\<close>

theorem grants_are_spaced:
  assumes "run_timed disp_exec xs (new_dispatcher t0 p) = Some d"
  shows "sorted_wrt (\<lambda>a b. fst a + millis 25 \<le> fst b) (deliveries d)"
proof -
  have "spaced d" if "spaced e" "run_timed disp_exec xs e = Some d" for e
    using that
  proof (induction xs arbitrary: e)
    case (Cons x xs)
    then show ?case
      by (cases x) (auto split: option.splits dest: disp_exec_spaced)
  qed simp
  moreover have "spaced (new_dispatcher t0 p)"
    by (simp add: spaced_def new_dispatcher_def deliveries_def map_filter_simps)
  ultimately show ?thesis
    using assms by (auto simp: spaced_def GRANT_GAP_def)
qed

text \<open>
  A waiter is given up only for cause, and the task neither spins nor oversleeps. Serving a
  waiter whose client is still there: if it is answered \<open>Expired\<close> then no lane it may use takes a
  request at any time up to its deadline (less the delay between the two clock readings); if it is
  kept, the task sleeps, for at most half a second and not beyond the reported wait.
\<close>

theorem expiry_is_justified:
  assumes "pools_inv now d" "now \<le> now2"
  shows "case ds_phase (serve now now2 False w d) of
      Idle \<Rightarrow> (\<forall>i t. i < pl_active (last (ds_pools d)) \<longrightarrow> lane_ok (last (ds_pools d)) (wt_allowed w) i \<longrightarrow>
          now \<le> t \<longrightarrow> t + (now2 - now) \<le> wt_deadline w \<longrightarrow> \<not> lane_free t (pl_lanes (last (ds_pools d)) ! i))
        \<and> ds_done (serve now now2 False w d) = ds_done d @ [(now, w, Expired)]
    | Serving v \<Rightarrow> v = w \<and> now2 < ds_wake (serve now now2 False w d)
        \<and> ds_wake (serve now now2 False w d) \<le> now2 + millis 500
        \<and> ds_wake (serve now now2 False w d) \<le> wt_deadline w
    | Sending v gen lane key stamp \<Rightarrow> v = w \<and> stamp = now \<and> gen = length (ds_pools d) - 1
    | Gap \<Rightarrow> False"
proof -
  have wf: "pool_wf now (last (ds_pools d))" by (rule pools_inv_parts(4) [OF assms(1)])
  obtain p r where res: "reserve_filtered (last (ds_pools d)) now (wt_prefer w) (wt_allowed w) = (p, r)"
    by (cases "reserve_filtered (last (ds_pools d)) now (wt_prefer w) (wt_allowed w)")
  show ?thesis
  proof (cases r)
    case (Ready lane key stamp sticky)
    then have "stamp = now"
      using reserve_spec_Ready(3) reserve_filtered_result(1) [OF wf res] by metis
    with res Ready show ?thesis by (simp add: serve_def Let_def)
  next
    case (Wait wait)
    note exact = refused_until [OF wf res [unfolded Wait]]
    show ?thesis
      using res Wait exact assms(2) by (auto simp: serve_def Let_def millis_def)
  qed
qed

subsection \<open>The properties at concrete inputs\<close>

lemmas disp_demo_simps = new_dispatcher_def acquire_filtered_def poll_def serve_def send_slot_def
  set_pool_def leave_def swap_pool_def penalize_slot_def lane_endpoint_def affinity_of_def

definition demo_run :: "(instant \<times> disp_op) list" where
  "demo_run = [(1, Acquire 7 90 None None), (2, Acquire 8 90 (Some 0) None), (3, Poll 0 False), (4, Poll 0 False)]"

definition demo_slot :: slot where
  "demo_slot = \<lparr>sl_pool = 0, sl_lane = 0, sl_key = ''a'', sl_base_url = ''u'', sl_upstream = ''nvidia'',
     sl_endpoint = 0, sl_stream_options = True\<rparr>"

lemma demo_run_result:
  "\<exists>d. run_timed disp_exec demo_run (new_dispatcher 0 (new_pool 0 [demo_spec ''a'' 1])) = Some d \<and>
     deliveries d = [(4, 3, demo_slot)] \<and> answered d = [7] \<and> map wt_reply (ds_queue d) = [8] \<and>
     (\<exists>w. ds_done d = [(4, w, Delivered demo_slot 3)])"
  by (simp add: demo_run_def demo_simps disp_demo_simps demo_slot_def deliveries_def answered_def map_filter_simps)

lemma dispatcher_is_fifo_witness:
  "\<exists>d. run_timed disp_exec demo_run (new_dispatcher 0 (new_pool 0 [demo_spec ''a'' 1])) = Some d \<and>
     answered d @ in_service d @ map wt_reply (ds_queue d) = [7, 8]"
  using demo_run_result dispatcher_is_fifo by (fastforce simp: demo_run_def)


lemma delivered_slots_are_true_witness:
  "\<exists>d. run_timed disp_exec demo_run (new_dispatcher 0 (new_pool 0 [demo_spec ''a'' 1])) = Some d \<and>
     poll 5 5 False d \<noteq> None \<and> sl_lane demo_slot < pl_active (ds_pools d ! 0)"
proof -
  obtain d w where d: "run_timed disp_exec demo_run (new_dispatcher 0 (new_pool 0 [demo_spec ''a'' 1])) = Some d"
    "ds_done d = [(4, w, Delivered demo_slot 3)]"
    using demo_run_result by blast
  have "sorted (0 # map fst demo_run)" by (simp add: demo_run_def)
  note true = delivered_slots_are_true [OF this d(1)]
  have "sl_lane demo_slot < pl_active (ds_pools d ! sl_pool demo_slot)"
    using conjunct1 [OF true] by (simp add: d(2))
  moreover have "sl_pool demo_slot = 0" by (simp add: demo_slot_def)
  moreover have "poll 5 5 False d \<noteq> None"
    using conjunct2 [OF true] by (simp add: demo_run_def)
  ultimately show ?thesis using d(1) by auto
qed

lemma grants_are_spaced_witness:
  "\<exists>d. run_timed disp_exec demo_run (new_dispatcher 0 (new_pool 0 [demo_spec ''a'' 1])) = Some d \<and>
     sorted_wrt (\<lambda>a b. fst a + millis 25 \<le> fst b) (deliveries d)"
  using demo_run_result grants_are_spaced by blast

lemma expiry_is_justified_witness:
  "ds_done (serve 0 0 False \<lparr>wt_reply = 1, wt_deadline = 5, wt_prefer = None, wt_allowed = Some [9]\<rparr>
     (new_dispatcher 0 (new_pool 0 [demo_spec ''a'' 1]))) =
   [(0, \<lparr>wt_reply = 1, wt_deadline = 5, wt_prefer = None, wt_allowed = Some [9]\<rparr>, Expired)]"
proof -
  let ?w = "\<lparr>wt_reply = 1, wt_deadline = 5, wt_prefer = None, wt_allowed = Some [9]\<rparr>"
  let ?d = "new_dispatcher 0 (new_pool 0 [demo_spec ''a'' 1])"
  have "ds_phase (serve 0 0 False ?w ?d) = Idle"
    by (simp add: demo_simps disp_demo_simps)
  with expiry_is_justified [OF pools_inv_new, of 0 0 "[demo_spec ''a'' 1]" ?w] show ?thesis
    by (simp add: new_dispatcher_def)
qed

end
