(* ===== verification/Governor.thy ===== *)
theory Governor
  imports Interfaces
begin

section \<open>The model-pressure governor (src/governor.rs)\<close>

text \<open>
  A per-model concurrency gate: admission, release and exhaustion as functions on a map from
  model names to their state. \<open>ModelPermit\<close>'s drop is \<open>gov_release\<close> on its model. The gauges
  and counters are not part of the state.
\<close>

definition POLL :: duration where
  "POLL = millis 250"

definition EXHAUST_BACKOFF :: duration where
  "EXHAUST_BACKOFF = secs 2"

definition GROW_INTERVAL :: duration where
  "GROW_INTERVAL = secs 60"

definition DISSOLVE_AFTER :: duration where
  "DISSOLVE_AFTER = secs (30 * 60)"

definition is_worker_exhausted :: "string \<Rightarrow> bool" where
  "is_worker_exhausted body = str_contains ''Worker local total request limit'' body"

record model_state =
  ms_limit :: nat
  ms_inflight :: nat
  ms_blocked_until :: "instant option"
  ms_last_exhausted :: "instant option"
  ms_last_adjusted :: "instant option"

type_synonym governor = "string \<rightharpoonup> model_state"

definition default_state :: model_state where
  "default_state = \<lparr>ms_limit = 0, ms_inflight = 0, ms_blocked_until = None,
     ms_last_exhausted = None, ms_last_adjusted = None\<rparr>"

definition entry :: "governor \<Rightarrow> string \<Rightarrow> model_state" where
  "entry g m = (case g m of None \<Rightarrow> default_state | Some s \<Rightarrow> s)"

definition since :: "instant option \<Rightarrow> instant \<Rightarrow> duration \<Rightarrow> bool" where
  "since t now d = (case t of None \<Rightarrow> False | Some t \<Rightarrow> d \<le> now - t)"

text \<open>The lazy adaptive step: dissolve after a long clean period, else grow one per stable minute.\<close>

definition adapt :: "nat option \<Rightarrow> instant \<Rightarrow> model_state \<Rightarrow> model_state" where
  "adapt ovr now s =
     (if ovr = None \<and> 0 < ms_limit s
      then if since (ms_last_exhausted s) now DISSOLVE_AFTER
           then s\<lparr>ms_limit := 0, ms_last_adjusted := Some now\<rparr>
           else if since (ms_last_adjusted s) now GROW_INTERVAL
           then s\<lparr>ms_limit := ms_limit s + 1, ms_last_adjusted := Some now\<rparr>
           else s
      else s)"

definition admit_at :: "string \<Rightarrow> nat option \<Rightarrow> instant \<Rightarrow> governor \<Rightarrow> governor \<times> bool" where
  "admit_at m ovr now g =
     (let s = adapt ovr now (entry g m);
          limit = (case ovr of None \<Rightarrow> ms_limit s | Some l \<Rightarrow> l)
      in if (case ms_blocked_until s of None \<Rightarrow> False | Some b \<Rightarrow> now < b)
         then (g(m \<mapsto> s), False)
         else if 0 < limit \<and> limit \<le> ms_inflight s
         then (g(m \<mapsto> s), False)
         else (g(m \<mapsto> s\<lparr>ms_inflight := ms_inflight s + 1\<rparr>), True))"

definition gov_release :: "string \<Rightarrow> governor \<Rightarrow> governor" where
  "gov_release m g =
     (case g m of None \<Rightarrow> g | Some s \<Rightarrow> g(m \<mapsto> s\<lparr>ms_inflight := ms_inflight s - 1\<rparr>))"

definition note_exhausted_at :: "string \<Rightarrow> nat option \<Rightarrow> instant \<Rightarrow> governor \<Rightarrow> governor" where
  "note_exhausted_at m ovr now g =
     (let s = (entry g m)\<lparr>ms_blocked_until := Some (now + EXHAUST_BACKOFF), ms_last_exhausted := Some now\<rparr>
      in g(m \<mapsto> (if ovr = None
                 then s\<lparr>ms_limit := max (ms_inflight s div 2) 1, ms_last_adjusted := Some now\<rparr>
                 else s)))"

subsection \<open>Runs\<close>

text \<open>
  Every admission hands out a permit; a permit is dropped once. The ghost list holds the models of
  the permits in existence; dropping a permit nobody holds is not an operation of the program.
\<close>

datatype gov_op =
    Admit string "nat option"
  | Drop string
  | Exhausted string "nat option"

fun gov_exec :: "instant \<Rightarrow> gov_op \<Rightarrow> governor \<times> string list \<Rightarrow> (governor \<times> string list) option" where
  "gov_exec now (Admit m ovr) (g, held) =
     (case admit_at m ovr now g of (g', ok) \<Rightarrow> Some (g', if ok then m # held else held))"
| "gov_exec now (Drop m) (g, held) =
     (if m \<in> set held then Some (gov_release m g, remove1 m held) else None)"
| "gov_exec now (Exhausted m ovr) (g, held) = Some (note_exhausted_at m ovr now g, held)"

definition model_wf :: "instant \<Rightarrow> model_state \<Rightarrow> bool" where
  "model_wf now s \<longleftrightarrow> (0 < ms_limit s \<longrightarrow> ms_last_exhausted s \<noteq> None \<and> ms_last_adjusted s \<noteq> None) \<and>
     (\<forall>t \<in> set_option (ms_last_adjusted s). t \<le> now) \<and> (\<forall>t \<in> set_option (ms_last_exhausted s). t \<le> now)"

fun gov_inv :: "instant \<Rightarrow> governor \<times> string list \<Rightarrow> bool" where
  "gov_inv now (g, held) \<longleftrightarrow>
     (\<forall>m. ms_inflight (entry g m) = count_list held m \<and> model_wf now (entry g m))"

lemma entry_upd [simp]: "entry (g(m \<mapsto> s)) m' = (if m' = m then s else entry g m')"
  by (simp add: entry_def)

lemma entry_empty [simp]: "entry Map.empty m = default_state"
  by (simp add: entry_def)

lemma adapt_simps [simp]:
  "ms_inflight (adapt ovr now s) = ms_inflight s"
  "ms_blocked_until (adapt ovr now s) = ms_blocked_until s"
  "ms_last_exhausted (adapt ovr now s) = ms_last_exhausted s"
  by (simp_all add: adapt_def)

lemma adapt_pinned [simp]: "adapt (Some l) now s = s"
  by (simp add: adapt_def)

lemma adapt_wf: "model_wf now s \<Longrightarrow> model_wf now (adapt ovr now s)"
  by (auto simp: adapt_def model_wf_def)

lemma model_wf_later: "model_wf t s \<Longrightarrow> t \<le> now \<Longrightarrow> model_wf now s"
  by (fastforce simp: model_wf_def)

lemma model_wf_inflight [simp]: "model_wf now (s\<lparr>ms_inflight := n\<rparr>) = model_wf now s"
  by (simp add: model_wf_def)

lemma gov_release_entry:
  "entry (gov_release m g) m' =
     (if m' = m then (entry g m)\<lparr>ms_inflight := ms_inflight (entry g m) - 1\<rparr> else entry g m')"
  by (auto simp: gov_release_def entry_def default_state_def split: option.splits)

lemma count_list_remove1: "count_list (remove1 m xs) m' = (if m' = m then count_list xs m - 1 else count_list xs m')"
  by (induction xs) auto

lemma admit_at_entry:
  assumes "admit_at m ovr now g = (g', ok)"
  shows "entry g' m' = (if m' = m
      then (adapt ovr now (entry g m))\<lparr>ms_inflight := ms_inflight (entry g m) + (if ok then 1 else 0)\<rparr>
      else entry g m')"
  using assms by (auto simp: admit_at_def Let_def split: if_splits option.splits)

lemma note_exhausted_entry:
  "entry (note_exhausted_at m ovr now g) m' = (if m' = m
     then (let s = (entry g m)\<lparr>ms_blocked_until := Some (now + EXHAUST_BACKOFF), ms_last_exhausted := Some now\<rparr>
           in if ovr = None
              then s\<lparr>ms_limit := max (ms_inflight s div 2) 1, ms_last_adjusted := Some now\<rparr> else s)
     else entry g m')"
  by (simp add: note_exhausted_at_def Let_def)

interpretation gm: timed_machine gov_exec "\<lambda>_. True" gov_inv
proof (unfold_locales, goal_cases)
  case (1 t s now x s')
  obtain g held where s: "s = (g, held)" by (cases s)
  obtain g' held' where s': "s' = (g', held')" by (cases s')
  have inv: "ms_inflight (entry g m) = count_list held m" "model_wf now (entry g m)" for m
    using 1(1,2) model_wf_later by (auto simp: s)
  show ?case
  proof (cases x)
    case (Admit m ovr)
    then obtain ok where adm: "admit_at m ovr now g = (g', ok)" and held': "held' = (if ok then m # held else held)"
      using 1(4) by (auto simp: s s' split: prod.splits)
    show ?thesis
      using inv adapt_wf by (auto simp: s' held' admit_at_entry [OF adm])
  next
    case (Drop m)
    with 1(4) have "g' = gov_release m g" "held' = remove1 m held"
      by (auto simp: s s' split: if_splits)
    then show ?thesis
      using inv by (auto simp: s' gov_release_entry count_list_remove1)
  next
    case (Exhausted m ovr)
    with 1(4) have "g' = note_exhausted_at m ovr now g" "held' = held"
      by (auto simp: s s')
    then show ?thesis
      using inv by (auto simp: s' note_exhausted_entry Let_def) (auto simp: model_wf_def)
  qed
next
  case (2 t s now)
  then show ?case
    using model_wf_later by (cases s) auto
qed

subsection \<open>Properties\<close>

lemma gov_inv_empty: "gov_inv now (Map.empty, [])"
  by (simp add: default_state_def model_wf_def)

lemma admit_at_iff:
  "snd (admit_at m ovr now g) \<longleftrightarrow>
     (\<forall>b. ms_blocked_until (entry g m) = Some b \<longrightarrow> b \<le> now) \<and>
     (let L = (case ovr of None \<Rightarrow> ms_limit (adapt ovr now (entry g m)) | Some l \<Rightarrow> l)
      in L = 0 \<or> ms_inflight (entry g m) < L)"
  by (auto simp: admit_at_def Let_def split: option.splits)

text \<open>
  C39: the cap is a cap. After any run of admissions, permit drops and exhaustions, an admission on
  model \<open>m\<close> succeeds exactly when the model is not draining and its in-flight count is below the
  effective limit (the override, else the adapted limit; zero means none); the count it leaves is
  the number of permits in existence for \<open>m\<close>, and a non-zero effective limit is not exceeded.
\<close>

theorem admission_respects_cap:
  assumes "run_timed gov_exec xs (Map.empty, []) = Some (g, held)"
    and "sorted (map fst xs)" and "\<forall>x \<in> set xs. fst x \<le> now"
    and "admit_at m ovr now g = (g', ok)"
  shows "let L = (case ovr of None \<Rightarrow> ms_limit (entry g' m) | Some l \<Rightarrow> l)
    in (ok \<longleftrightarrow> (\<forall>b. ms_blocked_until (entry g m) = Some b \<longrightarrow> b \<le> now) \<and>
                (L = 0 \<or> ms_inflight (entry g m) < L)) \<and>
       ms_inflight (entry g' m) = count_list held m + (if ok then 1 else 0) \<and>
       (ok \<longrightarrow> 0 < L \<longrightarrow> count_list held m + 1 \<le> L)"
proof -
  have "gov_inv now (g, held)"
    using gm.inv_run_later [of 0 "(Map.empty, [])" xs "(g, held)" now] gov_inv_empty assms(1-3) by simp
  then have cnt: "ms_inflight (entry g m) = count_list held m" by simp
  have "ms_limit (entry g' m) = ms_limit (adapt ovr now (entry g m))"
    using admit_at_entry [OF assms(4), of m] by simp
  with admit_at_iff [of m ovr now g] show ?thesis
    using admit_at_entry [OF assms(4), of m] cnt assms(4) by (auto simp: Let_def split: option.splits)
qed

lemma drain_step:
  assumes "gov_exec now x (g, held) = Some (g', held')" "t \<le> now" "now < t + EXHAUST_BACKOFF"
    and "ms_blocked_until (entry g m) = Some b" "t + EXHAUST_BACKOFF \<le> b"
  shows "count_list held' m \<le> count_list held m \<and>
    (\<exists>b'. ms_blocked_until (entry g' m) = Some b' \<and> t + EXHAUST_BACKOFF \<le> b')"
proof (cases x)
  case (Admit n ovr)
  obtain ok where adm: "admit_at n ovr now g = (g', ok)" "held' = (if ok then n # held else held)"
    using assms(1) Admit by (auto split: prod.splits)
  have "\<not> (n = m \<and> ok)"
    using admit_at_iff [of n ovr now g] adm(1) assms(3-5) by (auto simp: Let_def)
  with adm(2) assms(4,5) show ?thesis
    by (auto simp: admit_at_entry [OF adm(1)])
next
  case (Drop n)
  with assms show ?thesis
    by (auto simp: gov_release_entry count_list_remove1 split: if_splits)
next
  case (Exhausted n ovr)
  with assms show ?thesis
    by (auto simp: note_exhausted_entry Let_def)
qed

text \<open>
  An exhaustion drains the model. It sets the adaptive limit to half the in-flight count, at
  least one, leaves a pinned model's limit alone, and for two seconds no sequence of operations
  gets another permit for that model, whatever override the admissions carry.
\<close>

theorem exhaustion_drains:
  assumes "run_timed gov_exec xs (note_exhausted_at m ovr t g, held) = Some (g', held')"
    and "\<forall>x \<in> set xs. t \<le> fst x \<and> fst x < t + secs 2"
  shows "count_list held' m \<le> count_list held m \<and>
    ms_limit (entry (note_exhausted_at m ovr t g) m) =
      (if ovr = None then max (ms_inflight (entry g m) div 2) 1 else ms_limit (entry g m))"
proof -
  have "count_list held' m \<le> count_list hd0 m"
    if "run_timed gov_exec xs (g0, hd0) = Some (g', held')"
      "ms_blocked_until (entry g0 m) = Some b" "t + EXHAUST_BACKOFF \<le> b" for g0 hd0 b
    using that assms(2)
  proof (induction xs arbitrary: g0 hd0 b)
    case (Cons x xs)
    obtain now y where x: "x = (now, y)" by (cases x)
    obtain g1 hd1 where s1: "gov_exec now y (g0, hd0) = Some (g1, hd1)"
      "run_timed gov_exec xs (g1, hd1) = Some (g', held')"
      using Cons.prems(1) by (auto simp: x split: option.splits)
    have now: "t \<le> now" "now < t + EXHAUST_BACKOFF"
      using Cons.prems(4) by (auto simp: x EXHAUST_BACKOFF_def)
    obtain b' where "count_list hd1 m \<le> count_list hd0 m"
      "ms_blocked_until (entry g1 m) = Some b'" "t + EXHAUST_BACKOFF \<le> b'"
      using drain_step [OF s1(1) now Cons.prems(2,3)] by blast
    moreover from this have "count_list held' m \<le> count_list hd1 m"
      using Cons.IH [OF s1(2)] Cons.prems(4) by auto
    ultimately show ?case by simp
  qed simp
  from this [OF assms(1), of "t + EXHAUST_BACKOFF"] show ?thesis
    by (cases ovr) (simp_all add: note_exhausted_entry Let_def)
qed

definition grown :: "nat \<Rightarrow> instant \<Rightarrow> instant \<Rightarrow> model_state \<Rightarrow> bool" where
  "grown l0 a now s \<longleftrightarrow> (\<exists>b. ms_last_adjusted s = Some b \<and> a \<le> b \<and> b \<le> now \<and>
     (ms_limit s = 0 \<or> ms_limit s \<le> l0 + (b - a) div GROW_INTERVAL))"

lemma GROW_INTERVAL_pos [simp]: "0 < GROW_INTERVAL"
  by (simp add: GROW_INTERVAL_def secs_def)

lemma grown_adapt:
  assumes "grown l0 a t s" "t \<le> now"
  shows "grown l0 a now (adapt ovr now s)"
proof -
  obtain b where b: "ms_last_adjusted s = Some b" "a \<le> b" "b \<le> t"
    "ms_limit s = 0 \<or> ms_limit s \<le> l0 + (b - a) div GROW_INTERVAL"
    using assms(1) by (auto simp: grown_def)
  show ?thesis
  proof (cases "ovr = None \<and> 0 < ms_limit s \<and> \<not> since (ms_last_exhausted s) now DISSOLVE_AFTER \<and> GROW_INTERVAL \<le> now - b")
    case True
    have "(b - a) div GROW_INTERVAL + 1 = (b - a + GROW_INTERVAL) div GROW_INTERVAL"
      using div_add_self2 [of GROW_INTERVAL "b - a"] GROW_INTERVAL_pos by linarith
    also have "\<dots> \<le> (now - a) div GROW_INTERVAL"
      using True b GROW_INTERVAL_pos by (intro div_le_mono) linarith
    finally show ?thesis
      using True b assms(2) by (auto simp: adapt_def since_def grown_def)
  next
    case False
    with b assms(2) show ?thesis
      by (auto simp: adapt_def since_def grown_def)
  qed
qed

lemma grown_later: "grown l0 a t s \<Longrightarrow> t \<le> now \<Longrightarrow> grown l0 a now s"
  by (auto simp: grown_def)

lemma grown_step:
  assumes "gov_exec now x (g, held) = Some (g', held')" "t \<le> now"
    and "grown l0 a t (entry g m)" "\<forall>ovr. x \<noteq> Exhausted m ovr"
  shows "grown l0 a now (entry g' m)"
proof (cases x)
  case (Admit n ovr)
  then obtain ok where "admit_at n ovr now g = (g', ok)"
    using assms(1) by (auto split: prod.splits)
  then show ?thesis
    using grown_adapt [OF assms(3,2), of ovr] grown_later [OF assms(3,2)]
    by (auto simp: admit_at_entry grown_def)
next
  case (Drop n)
  with assms show ?thesis
    using grown_later [OF assms(3,2)] by (auto simp: gov_release_entry grown_def split: if_splits)
next
  case (Exhausted n ovr)
  with assms show ?thesis
    using grown_later [OF assms(3,2)] by (auto simp: note_exhausted_entry)
qed

text \<open>
  The cap comes back slowly. From a governed model, a run without another exhaustion of it
  leaves its limit at zero (dissolved) or raised by at most one per full minute since the last
  adjustment.
\<close>

theorem growth_is_paced:
  assumes "run_timed gov_exec xs (g, held) = Some (g', held')"
    and "sorted (a # map fst xs)" and "\<forall>x \<in> set xs. \<forall>ovr. snd x \<noteq> Exhausted m ovr"
    and "ms_last_adjusted (entry g m) = Some a"
  shows "ms_limit (entry g' m) = 0 \<or>
    ms_limit (entry g' m) \<le> ms_limit (entry g m) + (last (a # map fst xs) - a) div secs 60"
proof -
  have "grown (ms_limit (entry g m)) a (last (t # map fst xs)) (entry g' m)"
    if "run_timed gov_exec xs (g0, hd0) = Some (g', held')" "sorted (t # map fst xs)"
      "grown (ms_limit (entry g m)) a t (entry g0 m)" for g0 hd0 t
    using that assms(3)
  proof (induction xs arbitrary: g0 hd0 t)
    case (Cons x xs)
    obtain now y where x: "x = (now, y)" by (cases x)
    obtain g1 hd1 where s1: "gov_exec now y (g0, hd0) = Some (g1, hd1)"
      "run_timed gov_exec xs (g1, hd1) = Some (g', held')"
      using Cons.prems(1) by (auto simp: x split: option.splits)
    have "grown (ms_limit (entry g m)) a now (entry g1 m)"
      using grown_step [OF s1(1) _ Cons.prems(3)] Cons.prems by (auto simp: x)
    with Cons.IH [OF s1(2), of now] Cons.prems show ?case by (auto simp: x)
  qed simp
  from this [OF assms(1,2)] assms(4) obtain b where
    "b \<le> last (a # map fst xs)"
    "ms_limit (entry g' m) = 0 \<or> ms_limit (entry g' m) \<le> ms_limit (entry g m) + (b - a) div GROW_INTERVAL"
    by (auto simp: grown_def)
  moreover from this(1) have "(b - a) div GROW_INTERVAL \<le> (last (a # map fst xs) - a) div GROW_INTERVAL"
    by (intro div_le_mono) simp
  ultimately show ?thesis
    unfolding GROW_INTERVAL_def [symmetric] by linarith
qed

text \<open>
  The governor cannot wedge. In every reachable state a model with no permit in existence
  admits the next request, whatever the override, as soon as the two-second gap after its last
  exhaustion is over.
\<close>

theorem idle_model_admits:
  assumes "run_timed gov_exec xs (Map.empty, []) = Some (g, held)"
    and "sorted (map fst xs)" and "\<forall>x \<in> set xs. fst x \<le> now"
    and "m \<notin> set held" and "\<forall>x \<in> set xs. \<forall>ovr. snd x = Exhausted m ovr \<longrightarrow> fst x + secs 2 \<le> now"
  shows "snd (admit_at m ovr now g)"
proof -
  have "gov_inv now (g, held)"
    using gm.inv_run_later [of 0 "(Map.empty, [])" xs "(g, held)" now] gov_inv_empty assms(1-3) by simp
  then have idle: "ms_inflight (entry g m) = 0"
    using assms(4) by simp
  have "\<forall>b. ms_blocked_until (entry g m) = Some b \<longrightarrow> b \<le> now"
    if "run_timed gov_exec xs (g0, hd0) = Some (g, held)"
      "\<forall>b. ms_blocked_until (entry g0 m) = Some b \<longrightarrow> b \<le> now" for g0 hd0
    using that assms(5)
  proof (induction xs arbitrary: g0 hd0)
    case (Cons x xs)
    obtain t y where x: "x = (t, y)" by (cases x)
    obtain g1 hd1 where s1: "gov_exec t y (g0, hd0) = Some (g1, hd1)"
      "run_timed gov_exec xs (g1, hd1) = Some (g, held)"
      using Cons.prems(1) by (auto simp: x split: option.splits)
    have "\<forall>b. ms_blocked_until (entry g1 m) = Some b \<longrightarrow> b \<le> now"
      using s1(1) Cons.prems(2,3)
      by (cases y) (auto simp: x admit_at_entry gov_release_entry note_exhausted_entry Let_def EXHAUST_BACKOFF_def
          split: prod.splits if_splits)
    with Cons.IH [OF s1(2)] Cons.prems(3) show ?case by simp
  qed simp
  from this [OF assms(1)] idle show ?thesis
    by (auto simp: admit_at_iff Let_def default_state_def split: option.splits)
qed

subsection \<open>The properties at concrete inputs\<close>

lemmas gov_demo_simps = admit_at_def adapt_def since_def entry_def default_state_def gov_release_def
  note_exhausted_at_def Let_def EXHAUST_BACKOFF_def GROW_INTERVAL_def DISSOLVE_AFTER_def secs_def

lemma admission_respects_cap_witness:
  "\<exists>g held. run_timed gov_exec [(1, Admit ''m'' None), (2, Exhausted ''m'' None)] (Map.empty, []) = Some (g, held) \<and>
     \<not> snd (admit_at ''m'' None 3 g)"
proof -
  obtain g held where run: "run_timed gov_exec [(1, Admit ''m'' None), (2, Exhausted ''m'' None)] (Map.empty, []) = Some (g, held)"
    and blocked: "ms_blocked_until (entry g ''m'') = Some (2 + secs 2)"
    by (simp add: gov_demo_simps)
  obtain g' ok where adm: "admit_at ''m'' None 3 g = (g', ok)" by fastforce
  have "\<not> ok"
    using admission_respects_cap [OF run _ _ adm] blocked by (simp add: Let_def secs_def)
  with run adm show ?thesis by auto
qed

lemma exhaustion_drains_witness:
  "\<exists>g' held'. run_timed gov_exec [(6, Admit ''m'' (Some 9)), (7, Admit ''n'' None)]
       (note_exhausted_at ''m'' None 5 Map.empty, [''m'']) = Some (g', held') \<and> count_list held' ''m'' \<le> 1"
proof -
  obtain g' held' where run: "run_timed gov_exec [(6, Admit ''m'' (Some 9)), (7, Admit ''n'' None)]
       (note_exhausted_at ''m'' None 5 Map.empty, [''m'']) = Some (g', held')"
    by (simp add: gov_demo_simps)
  from exhaustion_drains [OF run] run show ?thesis by (simp add: secs_def)
qed

lemma growth_is_paced_witness:
  "\<exists>g' held'. run_timed gov_exec [(secs 70, Admit ''m'' None)] (note_exhausted_at ''m'' None 5 Map.empty, []) =
       Some (g', held') \<and> ms_limit (entry g' ''m'') \<le> 2"
proof -
  let ?g = "note_exhausted_at ''m'' None 5 Map.empty"
  obtain g' held' where run: "run_timed gov_exec [(secs 70, Admit ''m'' None)] (?g, []) = Some (g', held')"
    by (simp add: gov_demo_simps)
  have "ms_last_adjusted (entry ?g ''m'') = Some 5" "ms_limit (entry ?g ''m'') = 1"
    by (simp_all add: gov_demo_simps)
  with growth_is_paced [OF run, of 5 "''m''"] run show ?thesis by (auto simp: secs_def)
qed

lemma idle_model_admits_witness:
  "\<exists>g held. run_timed gov_exec [(1, Admit ''m'' None), (2, Exhausted ''m'' None), (3, Drop ''m'')] (Map.empty, []) =
       Some (g, held) \<and> snd (admit_at ''m'' (Some 1) (secs 3) g)"
proof -
  obtain g where run: "run_timed gov_exec [(1, Admit ''m'' None), (2, Exhausted ''m'' None), (3, Drop ''m'')]
      (Map.empty, []) = Some (g, [])"
    by (simp add: gov_demo_simps)
  from idle_model_admits [OF run, of "secs 3" "''m''" "Some 1"] run show ?thesis by (simp add: secs_def)
qed

end
