(* ===== verification/Proxy_Request.thy ===== *)
theory Proxy_Request
  imports Routing Observation Dispatcher Governor
begin

section \<open>The request path (src/proxy.rs)\<close>

text \<open>
  Every \<open>/v1/*\<close> call as a task over the shared state: admission (\<open>handle\<close>), the two retry loops
  (\<open>buffered\<close>, \<open>streaming\<close>), the model catalog (\<open>models\<close>, \<open>model_by_id\<close>, \<open>catalog_body\<close>). A task
  rests at its await points, its \<open>stage\<close>; an event resumes it and it runs to its next await point.
  Frames the client does not take and upstream answers are in the events, the clock is an argument.
  JSON text, percent decoding, SHA-256, the hasher and the status texts are parameters (\<open>wire\<close>).
\<close>

record wire =
  wr_parse :: "bytes \<Rightarrow> json option"
  wr_render :: "json \<Rightarrow> bytes"
  wr_pct :: "string \<Rightarrow> string"
  wr_sha :: "bytes \<Rightarrow> bytes"
  wr_hash :: "string \<times> string list \<Rightarrow> nat"
  wr_status_text :: "nat \<Rightarrow> string"
  wr_last_instant :: instant

subsection \<open>Answers\<close>

record answer =
  an_status :: nat
  an_headers :: "(string \<times> string) list"
  an_body :: bytes

definition json_answer :: "nat \<Rightarrow> bytes \<Rightarrow> answer" where
  "json_answer status body =
     \<lparr>an_status = status, an_headers = [(''content-type'', ''application/json'')], an_body = body\<rparr>"

definition proxy_error_json :: "string \<Rightarrow> string \<Rightarrow> json" where
  "proxy_error_json code message = JObject [(''error'', JObject
     [(''code'', JString code), (''message'', JString message), (''type'', JString ''proxy_error'')])]"

definition error_answer :: "wire \<Rightarrow> nat \<Rightarrow> string \<Rightarrow> string \<Rightarrow> answer" where
  "error_answer wr status code message = json_answer status (wr_render wr (proxy_error_json code message))"

definition sse_error_with_code :: "wire \<Rightarrow> string \<Rightarrow> string \<Rightarrow> bytes" where
  "sse_error_with_code wr code message =
     ''data: '' @ wr_render wr (proxy_error_json code message) @ [LF, LF] @ ''data: [DONE]'' @ [LF, LF]"

definition sse_error :: "wire \<Rightarrow> string \<Rightarrow> bytes" where
  "sse_error wr message = sse_error_with_code wr ''upstream_unavailable'' message"

definition unauthorized :: "wire \<Rightarrow> answer" where
  "unauthorized wr = (error_answer wr 401 ''unauthorized''
     ''missing or invalid proxy API key (Authorization: Bearer ...)'')
     \<lparr>an_headers := [(''content-type'', ''application/json''), (''www-authenticate'', ''Bearer'')]\<rparr>"

definition invalid_deadline :: "wire \<Rightarrow> answer" where
  "invalid_deadline wr = error_answer wr 400 ''invalid_deadline''
     ''X-Nim-Proxy-Deadline-Ms must be one unsigned decimal millisecond value''"

definition deadline_exceeded :: "wire \<Rightarrow> answer" where
  "deadline_exceeded wr = error_answer wr 504 ''deadline_exceeded'' ''proxy request deadline exceeded''"

definition model_disabled :: "wire \<Rightarrow> string \<Rightarrow> answer" where
  "model_disabled wr model =
     error_answer wr 404 ''model_disabled'' (''model '' @ model @ '' is disabled on this proxy'')"

definition model_not_found :: "wire \<Rightarrow> string \<Rightarrow> answer" where
  "model_not_found wr model =
     error_answer wr 404 ''model_not_found'' (''no enabled upstream serves model '' @ model)"

definition overloaded_answer :: "wire \<Rightarrow> nat \<Rightarrow> answer" where
  "overloaded_answer wr max_inflight = (error_answer wr 503 ''overloaded''
     (''proxy at capacity ('' @ dec_nat max_inflight @ '' concurrent requests); retry shortly''))
     \<lparr>an_headers := [(''content-type'', ''application/json''), (''retry-after'', ''5'')]\<rparr>"

definition bad_gateway :: "wire \<Rightarrow> answer" where
  "bad_gateway wr = error_answer wr 502 ''bad_gateway'' ''upstream response failed or timed out''"

definition gateway_timeout :: "wire \<Rightarrow> runtime_config \<Rightarrow> nat \<Rightarrow> answer" where
  "gateway_timeout wr cfg lanes = error_answer wr 504 ''rate_limited''
     (''no upstream slot became available within '' @ dec_nat (cf_max_wait cfg div secs 1) @ ''s (all '' @
      dec_nat lanes @ '' keys saturated)'')"

definition setup_required_answer :: "wire \<Rightarrow> answer" where
  "setup_required_answer wr = error_answer wr 503 ''setup_required''
     ''first-time setup has not been completed; open the dashboard to create the superuser''"

definition CONNECTED :: bytes where "CONNECTED = '': connected'' @ [LF, LF]"
definition HEARTBEAT :: bytes where "HEARTBEAT = '': heartbeat'' @ [LF, LF]"
definition RETRYING :: bytes where "RETRYING = '': retrying'' @ [LF, LF]"

subsection \<open>Requests, tasks and the shared state\<close>

record http_request =
  hr_method :: string
  hr_path :: string
  hr_path_query :: string
  hr_headers :: headers
  hr_content_type :: "string option"
  hr_deadline :: "string option list"
  hr_body :: bytes

text \<open>What goes upstream: URL, key, the two headers passed on, and the body unless empty.\<close>

record upstream_call =
  uc_method :: string
  uc_url :: string
  uc_authorization :: string
  uc_content_type :: "string option"
  uc_accept :: "string option"
  uc_body :: "bytes option"

text \<open>
  The await points: the 250 ms before a refusal; the first frame of a stream; the permit poll (next
  heartbeat, wake-up); the slot queue (its reply channel); the upstream's answer; the text of an error
  answer that will be retried, or not; a body relayed whole, or piped; and for the catalog the cache
  lock, the slot of one group and its answer, with the groups left, the bodies and the first error.
\<close>

datatype stage =
    Refusing instant
  | Opening
  | Gating instant instant
  | Queued nat
  | Exchanging slot
  | Sniffing slot nat duration
  | Failing nat
  | Relaying nat "string option"
  | Piping sse_observer
  | Locking "string option"
  | Cataloguing "string option" nat instant "nat list" "bytes list" "answer option"
  | Fetching "string option" slot instant "nat list" "bytes list" "answer option"
  | Answered answer
  | Closed

record task =
  tk_id :: nat
  tk_cfg :: runtime_config
  tk_client :: string
  tk_model :: string
  tk_path :: string
  tk_request :: http_request
  tk_streaming :: bool
  tk_body :: bytes
  tk_fallback :: "bytes option"
  tk_prefer :: "nat option"
  tk_allowed :: "nat list"
  tk_prompt_estimate :: "nat option"
  tk_wait_deadline :: instant
  tk_deadline :: "instant option"
  tk_permit :: bool
  tk_stage :: stage
  tk_frames :: "bytes list"

text \<open>What is counted of a response: usage results, tokens, finish reasons, reasoning tokens, tool calls.\<close>

record counts =
  co_usage :: "(string \<times> string) list"
  co_prompt :: "nat option"
  co_completion :: "nat option"
  co_source :: string
  co_finishes :: "string list"
  co_reasoning :: "nat option"
  co_tool_calls :: "nat option"

fun known_count :: "observation \<Rightarrow> nat option" where
  "known_count (Measured n) = Some n"
| "known_count (Estimated n) = Some n"
| "known_count _ = None"

fun positive_measured :: "observation \<Rightarrow> nat option" where
  "positive_measured (Measured n) = (if 0 < n then Some n else None)"
| "positive_measured _ = None"

definition measured_finish :: "finish_observation \<Rightarrow> string option" where
  "measured_finish fo = (case fo_result fo of Finish_measured r \<Rightarrow> Some (metric_label r) | _ \<Rightarrow> None)"

definition record_observations :: "response_observations \<Rightarrow> counts" where
  "record_observations obs = (let u = ro_usage obs in
     \<lparr>co_usage = usage_observation_metrics u, co_prompt = known_count (uo_prompt_tokens u),
      co_completion = known_count (uo_completion_tokens u),
      co_source = (case uo_completion_tokens u of Estimated _ \<Rightarrow> ''estimate'' | _ \<Rightarrow> ''usage''),
      co_finishes = List.map_filter measured_finish (ro_finish_reasons obs),
      co_reasoning = positive_measured (uo_reasoning_tokens u),
      co_tool_calls = positive_measured (ro_tool_calls obs)\<rparr>)"

text \<open>
  The shared state, with the requests counter \<open>gw_statuses\<close> (client, model, path, status), the
  responses accounted \<open>gw_observed\<close>, the lock of the catalog cache \<open>gw_owner\<close>, and as ghosts the
  reply channels made so far and the upstream calls: the reply channel and stamp of their slot, the slot,
  the request they are for, and what was sent.
\<close>

record call_log =
  lg_reply :: nat
  lg_stamp :: instant
  lg_slot :: slot
  lg_request :: http_request
  lg_call :: upstream_call

record gateway =
  gw_cfg :: runtime_config
  gw_setup_required :: bool
  gw_dispatch :: dispatcher
  gw_governor :: governor
  gw_inflight :: nat
  gw_labels :: "string set"
  gw_no_inject :: "string set"
  gw_cache :: "(instant \<times> bytes) option"
  gw_owner :: "nat option"
  gw_statuses :: "(string \<times> string \<times> string \<times> string) list"
  gw_observed :: "(string \<times> string \<times> counts) list"
  gw_replies :: nat
  gw_sends :: "call_log list"

type_synonym work = "task \<times> gateway"

definition current_pool :: "gateway \<Rightarrow> pool" where
  "current_pool g = last (ds_pools (gw_dispatch g))"

definition set_stage :: "stage \<Rightarrow> work \<Rightarrow> work" where
  "set_stage s w = ((fst w)\<lparr>tk_stage := s\<rparr>, snd w)"

definition put_frame :: "bytes \<Rightarrow> work \<Rightarrow> work" where
  "put_frame b w = ((fst w)\<lparr>tk_frames := tk_frames (fst w) @ [b]\<rparr>, snd w)"

definition put_frame_if :: "bool \<Rightarrow> bytes \<Rightarrow> work \<Rightarrow> work" where
  "put_frame_if alive b w = (if alive then put_frame b w else w)"

definition record_request :: "string \<Rightarrow> work \<Rightarrow> work" where
  "record_request status w = (fst w, (snd w)\<lparr>gw_statuses := gw_statuses (snd w) @
     [(tk_client (fst w), tk_model (fst w), tk_path (fst w), status)]\<rparr>)"

text \<open>Dropping the model permit, if one is held; and leaving for good, with the in-flight guard.\<close>

definition drop_permit :: "work \<Rightarrow> work" where
  "drop_permit w =
     (if tk_permit (fst w)
      then ((fst w)\<lparr>tk_permit := False\<rparr>, (snd w)\<lparr>gw_governor := gov_release (tk_model (fst w)) (gw_governor (snd w))\<rparr>)
      else w)"

definition leave_with :: "stage \<Rightarrow> work \<Rightarrow> work" where
  "leave_with s w = (let w = drop_permit w in ((fst w)\<lparr>tk_stage := s\<rparr>, (snd w)\<lparr>gw_inflight := gw_inflight (snd w) - 1\<rparr>))"

definition account :: "response_observations \<Rightarrow> work \<Rightarrow> work" where
  "account obs w = (fst w, (snd w)\<lparr>gw_observed := gw_observed (snd w) @ [(tk_client (fst w), tk_model (fst w), record_observations obs)]\<rparr>)"

text \<open>A cooldown on the slot's own pool generation; \<open>None\<close> is an index panic.\<close>

definition enter_cooldown :: "instant \<Rightarrow> slot \<Rightarrow> duration \<Rightarrow> work \<Rightarrow> work option" where
  "enter_cooldown now sl backoff w =
     map_option (\<lambda>d. (fst w, (snd w)\<lparr>gw_dispatch := d\<rparr>))
       (penalize_slot now (sl_pool sl) (sl_lane sl) backoff (gw_dispatch (snd w)))"

text \<open>Joining the slot queue with a fresh reply channel, and the channel's answer once there is one.\<close>

definition join_queue :: "instant \<Rightarrow> nat option \<Rightarrow> nat list \<Rightarrow> work \<Rightarrow> nat \<times> work" where
  "join_queue deadline pref allowed w =
     (let g = snd w; r = gw_replies g in
      (r, (fst w, g\<lparr>gw_dispatch := acquire_filtered r deadline pref (Some allowed) (gw_dispatch g), gw_replies := r + 1\<rparr>)))"

definition reply_of :: "nat \<Rightarrow> gateway \<Rightarrow> outcome option" where
  "reply_of r g = map_of (map (\<lambda>(t, wt, out). (wt_reply wt, out)) (ds_done (gw_dispatch g))) r"

definition reserve_slot :: "work \<Rightarrow> work" where
  "reserve_slot w =
     (case join_queue (tk_wait_deadline (fst w)) (tk_prefer (fst w)) (tk_allowed (fst w)) w of
        (r, w') \<Rightarrow> set_stage (Queued r) w')"

definition upstream_request :: "http_request \<Rightarrow> slot \<Rightarrow> bytes \<Rightarrow> upstream_call" where
  "upstream_request req sl body =
     \<lparr>uc_method = hr_method req, uc_url = normalize_base_url (sl_base_url sl) @ hr_path_query req,
      uc_authorization = ''Bearer '' @ sl_key sl, uc_content_type = hr_content_type req,
      uc_accept = hd_accept (hr_headers req), uc_body = (if body = [] then None else Some body)\<rparr>"

definition fetch_models :: "slot \<Rightarrow> upstream_call" where
  "fetch_models sl =
     \<lparr>uc_method = ''GET'', uc_url = normalize_base_url (sl_base_url sl) @ ''/v1/models'',
      uc_authorization = ''Bearer '' @ sl_key sl, uc_content_type = None, uc_accept = None, uc_body = None\<rparr>"

definition send_upstream :: "nat \<Rightarrow> instant \<Rightarrow> slot \<Rightarrow> upstream_call \<Rightarrow> work \<Rightarrow> work" where
  "send_upstream r stamp sl call w = (fst w, (snd w)\<lparr>gw_sends := gw_sends (snd w) @
     [\<lparr>lg_reply = r, lg_stamp = stamp, lg_slot = sl, lg_request = tk_request (fst w), lg_call = call\<rparr>]\<rparr>)"

subsection \<open>Waiting for a permit and a slot\<close>

text \<open>No slot before the deadline, or the client no longer takes heartbeats.\<close>

definition timed_out :: "wire \<Rightarrow> work \<Rightarrow> work" where
  "timed_out wr w =
     (let w = record_request ''504'' w in
      if tk_streaming (fst w)
      then leave_with Closed (put_frame (sse_error wr ''proxy timed out waiting for an upstream slot'') w)
      else leave_with (Answered (gateway_timeout wr (tk_cfg (fst w)) (pool_len (current_pool (snd w))))) w)"

definition gated :: "task \<Rightarrow> bool" where
  "gated t \<longleftrightarrow> cf_governor_enabled (tk_cfg t) \<and> tk_model t \<noteq> ''none'' \<and>
     (tk_path t = ''/v1/chat/completions'' \<or> tk_path t = ''/v1/completions'')"

definition pinned :: "task \<Rightarrow> nat option" where
  "pinned t = map_of (cf_governor_overrides (tk_cfg t)) (tk_model t)"

definition with_governor :: "governor \<Rightarrow> work \<Rightarrow> work" where
  "with_governor gv w = (fst w, (snd w)\<lparr>gw_governor := gv\<rparr>)"

definition hold_permit :: "work \<Rightarrow> work" where
  "hold_permit w = ((fst w)\<lparr>tk_permit := True\<rparr>, snd w)"

definition try_permit :: "wire \<Rightarrow> instant \<Rightarrow> instant \<Rightarrow> work \<Rightarrow> work" where
  "try_permit wr now heartbeat w =
     (case admit_at (tk_model (fst w)) (pinned (fst w)) now (gw_governor (snd w)) of (gv, ok) \<Rightarrow>
        if ok then reserve_slot (hold_permit (with_governor gv w))
        else if tk_wait_deadline (fst w) < now + POLL then timed_out wr (with_governor gv w)
        else set_stage (Gating heartbeat (now + POLL)) (with_governor gv w))"

text \<open>The head of the retry loop, and \<open>continue\<close>, which drops the permit of the last turn.\<close>

definition start_turn :: "wire \<Rightarrow> instant \<Rightarrow> work \<Rightarrow> work" where
  "start_turn wr now w =
     (if gated (fst w) then try_permit wr now (now + cf_heartbeat (tk_cfg (fst w))) w else reserve_slot w)"

definition next_turn :: "wire \<Rightarrow> instant \<Rightarrow> work \<Rightarrow> work" where
  "next_turn wr now w = start_turn wr now (drop_permit w)"

text \<open>\<open>on_wait\<close>: a stream offers a heartbeat frame, a buffered request has nothing to offer.\<close>

definition offer_heartbeat :: "bool \<Rightarrow> work \<Rightarrow> work option" where
  "offer_heartbeat taken w =
     (if \<not> tk_streaming (fst w) then Some w
      else if taken then Some (put_frame HEARTBEAT w)
      else None)"

definition wake :: "wire \<Rightarrow> instant \<Rightarrow> bool \<Rightarrow> instant \<Rightarrow> work \<Rightarrow> work" where
  "wake wr now taken heartbeat w =
     (if now < heartbeat then try_permit wr now heartbeat w
      else case offer_heartbeat taken w of
        None \<Rightarrow> timed_out wr w
      | Some w \<Rightarrow> try_permit wr now (now + cf_heartbeat (tk_cfg (fst w))) w)"

text \<open>The slot is here: a stream gives up the injected body where the provider does not take it.\<close>

definition use_fallback :: "work \<Rightarrow> work" where
  "use_fallback w =
     (case tk_fallback (fst w) of
        None \<Rightarrow> w
      | Some b \<Rightarrow> ((fst w)\<lparr>tk_body := b, tk_fallback := None\<rparr>, snd w))"

definition exchange :: "nat \<Rightarrow> instant \<Rightarrow> slot \<Rightarrow> work \<Rightarrow> work" where
  "exchange r stamp sl w =
     (let w = (if tk_streaming (fst w) \<and> \<not> sl_stream_options sl then use_fallback w else w)
      in set_stage (Exchanging sl) (send_upstream r stamp sl (upstream_request (tk_request (fst w)) sl (tk_body (fst w))) w))"

definition slot_ready :: "wire \<Rightarrow> nat \<Rightarrow> work \<Rightarrow> work option" where
  "slot_ready wr r w =
     (case reply_of r (snd w) of
        None \<Rightarrow> None
      | Some (Delivered sl stamp) \<Rightarrow> Some (exchange r stamp sl w)
      | Some _ \<Rightarrow> Some (timed_out wr w))"

subsection \<open>The upstream's answer\<close>

definition connect_failed :: "wire \<Rightarrow> instant \<Rightarrow> slot \<Rightarrow> work \<Rightarrow> work option" where
  "connect_failed wr now sl w = map_option (next_turn wr now) (enter_cooldown now sl (secs 5) w)"

definition reject_injection :: "work \<Rightarrow> work" where
  "reject_injection w = use_fallback (fst w, (snd w)\<lparr>gw_no_inject := insert (tk_model (fst w)) (gw_no_inject (snd w))\<rparr>)"

definition success :: "nat \<Rightarrow> bool" where
  "success status \<longleftrightarrow> 200 \<le> status \<and> status < 300"

definition streaming_head :: "wire \<Rightarrow> instant \<Rightarrow> slot \<Rightarrow> nat \<Rightarrow> string option \<Rightarrow> work \<Rightarrow> work" where
  "streaming_head wr now sl status retry_after w =
     (if status = 400 \<and> tk_fallback (fst w) \<noteq> None then next_turn wr now (reject_injection w)
      else if retryable status
      then if tk_wait_deadline (fst w) \<le> now
           then leave_with Closed (put_frame (sse_error wr ''upstream unavailable, retries exhausted'') (record_request ''504'' w))
           else set_stage (Sniffing sl status (backoff_for retry_after)) w
      else if \<not> success status then set_stage (Failing status) w
      else set_stage (Piping new_observer) w)"

definition buffered_head :: "instant \<Rightarrow> slot \<Rightarrow> nat \<Rightarrow> string option \<Rightarrow> string option \<Rightarrow> work \<Rightarrow> work" where
  "buffered_head now sl status retry_after content_type w =
     (if retryable status \<and> now < tk_wait_deadline (fst w)
      then set_stage (Sniffing sl status (backoff_for retry_after)) w
      else set_stage (Relaying status content_type) (record_request (dec_nat status) w))"

text \<open>The text of a retryable answer: worker exhaustion is the model's, anything else the lane's.\<close>

definition blame :: "instant \<Rightarrow> slot \<Rightarrow> duration \<Rightarrow> string \<Rightarrow> work \<Rightarrow> work option" where
  "blame now sl backoff detail w =
     (if is_worker_exhausted detail
      then Some (with_governor (note_exhausted_at (tk_model (fst w)) (pinned (fst w)) now (gw_governor (snd w))) w)
      else enter_cooldown now sl backoff w)"

definition sniffed :: "wire \<Rightarrow> instant \<Rightarrow> slot \<Rightarrow> duration \<Rightarrow> string \<Rightarrow> bool \<Rightarrow> work \<Rightarrow> work option" where
  "sniffed wr now sl backoff detail taken w =
     (case blame now sl backoff detail w of
        None \<Rightarrow> None
      | Some w \<Rightarrow>
          if \<not> tk_streaming (fst w) then Some (next_turn wr now w)
          else if taken then Some (next_turn wr now (put_frame RETRYING w))
          else Some (leave_with Closed (record_request ''disconnect'' w)))"

definition failed :: "wire \<Rightarrow> nat \<Rightarrow> string \<Rightarrow> work \<Rightarrow> work" where
  "failed wr status detail w =
     leave_with Closed (put_frame (sse_error wr (''upstream error '' @ wr_status_text wr status @ '': '' @ detail))
       (record_request (dec_nat status) w))"

definition relay :: "wire \<Rightarrow> nat \<Rightarrow> string option \<Rightarrow> bytes option \<Rightarrow> work \<Rightarrow> work" where
  "relay wr status content_type body w =
     (case body of
        None \<Rightarrow> leave_with (Answered (bad_gateway wr)) w
      | Some b \<Rightarrow>
          let ct = (case content_type of None \<Rightarrow> ''application/json'' | Some c \<Rightarrow> c);
              w = (if success status then account (observe_buffered (wr_parse wr) b (tk_prompt_estimate (fst w))) w else w)
          in leave_with (Answered \<lparr>an_status = status, an_headers = [(''content-type'', ct)], an_body = b\<rparr>) w)"

text \<open>The end of a stream that had begun: account for it once, count it, close.\<close>

definition finalize :: "wire \<Rightarrow> stream_outcome \<Rightarrow> sse_observer \<Rightarrow> work \<Rightarrow> work" where
  "finalize wr outcome ob w = account (finish_observer (wr_parse wr) outcome (tk_prompt_estimate (fst w)) ob) w"

definition end_stream :: "wire \<Rightarrow> stream_outcome \<Rightarrow> string \<Rightarrow> sse_observer \<Rightarrow> work \<Rightarrow> work" where
  "end_stream wr outcome status ob w = record_request status (finalize wr outcome ob w)"

definition piped :: "wire \<Rightarrow> sse_observer \<Rightarrow> bytes \<Rightarrow> bool \<Rightarrow> work \<Rightarrow> work" where
  "piped wr ob b taken w =
     (let ob = push (wr_parse wr) b ob in
      if taken then set_stage (Piping ob) (put_frame b w)
      else leave_with Closed (end_stream wr Disconnected ''disconnect'' ob w))"

subsection \<open>The model catalog\<close>

definition release_lock :: "work \<Rightarrow> work" where
  "release_lock w =
     (if gw_owner (snd w) = Some (tk_id (fst w)) then (fst w, (snd w)\<lparr>gw_owner := None\<rparr>) else w)"

definition catalog_end :: "answer \<Rightarrow> work \<Rightarrow> work" where
  "catalog_end ans w = leave_with (Answered ans) (record_request (dec_nat (an_status ans)) (release_lock w))"

definition catalog_answer :: "wire \<Rightarrow> string option \<Rightarrow> bytes \<Rightarrow> answer" where
  "catalog_answer wr which body =
     (case which of
        None \<Rightarrow> json_answer 200 body
      | Some i \<Rightarrow> (case model_entry (wr_parse wr) body i of
          None \<Rightarrow> model_not_found wr i
        | Some e \<Rightarrow> json_answer 200 (wr_render wr e)))"

definition saturated :: "wire \<Rightarrow> work \<Rightarrow> answer" where
  "saturated wr w = gateway_timeout wr (tk_cfg (fst w)) (pool_len (current_pool (snd w)))"

definition catalog_built :: "wire \<Rightarrow> instant \<Rightarrow> string option \<Rightarrow> bytes list \<Rightarrow> answer option \<Rightarrow> work \<Rightarrow> work" where
  "catalog_built wr now which hits err w =
     (if hits = [] then catalog_end (case err of None \<Rightarrow> saturated wr w | Some e \<Rightarrow> e) w
      else
        let body = catalog_of (wr_parse wr) (wr_render wr) hits (cf_disabled_models (tk_cfg (fst w)))
        in catalog_end (catalog_answer wr which body) (fst w, (snd w)\<lparr>gw_cache := Some (now, body)\<rparr>))"

definition ask_next ::
  "wire \<Rightarrow> instant \<Rightarrow> string option \<Rightarrow> instant \<Rightarrow> nat list \<Rightarrow> bytes list \<Rightarrow> answer option \<Rightarrow> work \<Rightarrow> work" where
  "ask_next wr now which deadline targets hits err w =
     (case targets of
        [] \<Rightarrow> catalog_built wr now which hits err w
      | t # rest \<Rightarrow> (case join_queue deadline None [t] w of
          (r, w) \<Rightarrow> set_stage (Cataloguing which r deadline rest hits err) w))"

definition catalog_locked :: "wire \<Rightarrow> instant \<Rightarrow> string option \<Rightarrow> work \<Rightarrow> work" where
  "catalog_locked wr now which w =
     (let targets = catalog_targets (tk_cfg (fst w)) (current_pool (snd w));
          refresh = (if targets = [] then catalog_end (saturated wr w) w
                     else ask_next wr now which (now + secs 30) targets [] None
                            (fst w, (snd w)\<lparr>gw_owner := Some (tk_id (fst w))\<rparr>))
      in case gw_cache (snd w) of
           None \<Rightarrow> refresh
         | Some (at, body) \<Rightarrow>
             if now - at < cf_models_ttl (tk_cfg (fst w)) then catalog_end (catalog_answer wr which body) w else refresh)"

definition catalog_slot ::
  "wire \<Rightarrow> instant \<Rightarrow> string option \<Rightarrow> nat \<Rightarrow> instant \<Rightarrow> nat list \<Rightarrow> bytes list \<Rightarrow> answer option \<Rightarrow> work \<Rightarrow> work option" where
  "catalog_slot wr now which r deadline rest hits err w =
     (case reply_of r (snd w) of
        None \<Rightarrow> None
      | Some (Delivered sl stamp) \<Rightarrow>
          Some (set_stage (Fetching which sl deadline rest hits err) (send_upstream r stamp sl (fetch_models sl) w))
      | Some _ \<Rightarrow> Some (ask_next wr now which deadline rest hits err w))"

definition first_error :: "answer \<Rightarrow> answer option \<Rightarrow> answer option" where
  "first_error ans err = (case err of None \<Rightarrow> Some ans | Some e \<Rightarrow> Some e)"

definition catalog_fetched ::
  "wire \<Rightarrow> instant \<Rightarrow> string option \<Rightarrow> slot \<Rightarrow> instant \<Rightarrow> nat list \<Rightarrow> bytes list \<Rightarrow> answer option \<Rightarrow>
   nat \<Rightarrow> string option \<Rightarrow> bytes \<Rightarrow> work \<Rightarrow> work option" where
  "catalog_fetched wr now which sl deadline rest hits err status retry_after body w =
     (if success status then Some (ask_next wr now which deadline rest (hits @ [body]) err w)
      else map_option (ask_next wr now which deadline rest hits (first_error (json_answer status body) err))
        (if retryable status then enter_cooldown now sl (backoff_for retry_after) w else Some w))"

definition catalog_failed ::
  "wire \<Rightarrow> instant \<Rightarrow> string option \<Rightarrow> instant \<Rightarrow> nat list \<Rightarrow> bytes list \<Rightarrow> answer option \<Rightarrow> work \<Rightarrow> work" where
  "catalog_failed wr now which deadline rest hits err w =
     ask_next wr now which deadline rest hits (first_error (saturated wr w) err) w"

subsection \<open>The client's deadline and the client's leaving\<close>

definition pipe_ended :: "wire \<Rightarrow> stream_outcome \<Rightarrow> work \<Rightarrow> work" where
  "pipe_ended wr outcome w =
     (case tk_stage (fst w) of Piping ob \<Rightarrow> finalize wr outcome ob w | _ \<Rightarrow> w)"

definition deadline_passed :: "wire \<Rightarrow> bool \<Rightarrow> work \<Rightarrow> work" where
  "deadline_passed wr taken w =
     (let w = record_request ''deadline'' (pipe_ended wr Deadline_hit w) in
      if tk_streaming (fst w)
      then leave_with Closed
             (put_frame_if taken (sse_error_with_code wr ''deadline_exceeded'' ''proxy request deadline exceeded'') w)
      else leave_with (Answered (deadline_exceeded wr)) (release_lock w))"

text \<open>The deadline covers a task once it is parsed: not the wait before a refusal.\<close>

fun finished :: "stage \<Rightarrow> bool" where
  "finished (Answered _) = True"
| "finished Closed = True"
| "finished _ = False"

fun refusing :: "stage \<Rightarrow> bool" where
  "refusing (Refusing _) = True"
| "refusing _ = False"

datatype event =
    Timer
  | Opened bool
  | Wake bool
  | Beat bool
  | Slot_resolved
  | Connect_failed
  | Head nat "string option" "string option"
  | Text string bool
  | Whole "bytes option"
  | Chunk bytes bool
  | Chunk_error
  | Stream_end
  | Stalled
  | Client_gone
  | Locked
  | Catalog_reply nat "string option" bytes
  | Deadline_fires bool
  | Dropped

text \<open>
  One resumption of a task; \<open>None\<close> where the event cannot happen at the task's stage (or the code would
  panic). A dropped request is a buffered one whose connection closed: its future is dropped.
\<close>

definition step :: "wire \<Rightarrow> instant \<Rightarrow> event \<Rightarrow> work \<Rightarrow> work option" where
  "step wr now ev w =
     (let t = fst w; g = snd w in
      case ev of
        Deadline_fires taken \<Rightarrow>
          (case tk_deadline t of
             None \<Rightarrow> None
           | Some d \<Rightarrow> if d \<le> now \<and> \<not> finished (tk_stage t) \<and> \<not> refusing (tk_stage t)
                       then Some (deadline_passed wr taken w) else None)
      | Dropped \<Rightarrow>
          if tk_streaming t \<or> finished (tk_stage t) then None else Some (leave_with Closed (release_lock w))
      | _ \<Rightarrow> (case (tk_stage t, ev) of
          (Refusing until, Timer) \<Rightarrow>
            if until \<le> now then Some (leave_with (Answered (unauthorized wr)) w) else None
        | (Opening, Opened taken) \<Rightarrow>
            Some (if taken then start_turn wr now (put_frame CONNECTED w)
                  else leave_with Closed (record_request ''disconnect'' w))
        | (Gating heartbeat at, Wake taken) \<Rightarrow> if at \<le> now then Some (wake wr now taken heartbeat w) else None
        | (Queued r, Beat taken) \<Rightarrow>
            Some (case offer_heartbeat taken w of None \<Rightarrow> timed_out wr w | Some w \<Rightarrow> w)
        | (Queued r, Slot_resolved) \<Rightarrow> slot_ready wr r w
        | (Exchanging sl, Connect_failed) \<Rightarrow> connect_failed wr now sl w
        | (Exchanging sl, Head status retry_after content_type) \<Rightarrow>
            Some (if tk_streaming t then streaming_head wr now sl status retry_after w
                  else buffered_head now sl status retry_after content_type w)
        | (Sniffing sl status backoff, Text detail taken) \<Rightarrow> sniffed wr now sl backoff detail taken w
        | (Failing status, Text detail taken) \<Rightarrow> Some (failed wr status detail w)
        | (Relaying status content_type, Whole body) \<Rightarrow> Some (relay wr status content_type body w)
        | (Piping ob, Chunk b taken) \<Rightarrow> Some (piped wr ob b taken w)
        | (Piping ob, Chunk_error) \<Rightarrow>
            Some (leave_with Closed (put_frame (sse_error wr ''upstream stream interrupted'')
              (end_stream wr Truncated ''stream_error'' ob w)))
        | (Piping ob, Stalled) \<Rightarrow>
            if cf_stream_idle (tk_cfg t) = 0 then None
            else Some (leave_with Closed (put_frame (sse_error wr ''upstream stream stalled'')
              (end_stream wr Truncated ''stall'' ob w)))
        | (Piping ob, Client_gone) \<Rightarrow> Some (leave_with Closed (end_stream wr Disconnected ''disconnect'' ob w))
        | (Piping ob, Stream_end) \<Rightarrow> Some (leave_with Closed (end_stream wr Completed ''200'' ob w))
        | (Locking which, Locked) \<Rightarrow> if gw_owner g = None then Some (catalog_locked wr now which w) else None
        | (Cataloguing which r deadline rest hits err, Slot_resolved) \<Rightarrow> catalog_slot wr now which r deadline rest hits err w
        | (Fetching which sl deadline rest hits err, Catalog_reply status retry_after body) \<Rightarrow>
            catalog_fetched wr now which sl deadline rest hits err status retry_after body w
        | (Fetching which sl deadline rest hits err, Connect_failed) \<Rightarrow>
            Some (catalog_failed wr now which deadline rest hits err w)
        | _ \<Rightarrow> None))"

subsection \<open>Admission\<close>

definition new_task :: "nat \<Rightarrow> runtime_config \<Rightarrow> http_request \<Rightarrow> stage \<Rightarrow> task" where
  "new_task tid cfg req s = \<lparr>tk_id = tid, tk_cfg = cfg, tk_client = [], tk_model = [], tk_path = [], tk_request = req,
     tk_streaming = False, tk_body = hr_body req, tk_fallback = None, tk_prefer = None, tk_allowed = [],
     tk_prompt_estimate = None, tk_wait_deadline = 0, tk_deadline = None, tk_permit = False, tk_stage = s, tk_frames = []\<rparr>"

definition raw_model :: "wire \<Rightarrow> http_request \<Rightarrow> json option \<Rightarrow> string" where
  "raw_model wr req v =
     (case (case v of None \<Rightarrow> None | Some v \<Rightarrow> str_at ''model'' v) of
        Some m \<Rightarrow> m
      | None \<Rightarrow> (case per_model_path_id (wr_pct wr) (hr_path req) of Some m \<Rightarrow> m | None \<Rightarrow> ''none''))"

definition wants_stream :: "json option \<Rightarrow> bool" where
  "wants_stream v =
     (case (case v of None \<Rightarrow> None | Some v \<Rightarrow> get ''stream'' v) of
        None \<Rightarrow> False | Some s \<Rightarrow> (case as_bool s of None \<Rightarrow> False | Some b \<Rightarrow> b))"

definition wants_usage :: "runtime_config \<Rightarrow> http_request \<Rightarrow> string set \<Rightarrow> string \<Rightarrow> json \<Rightarrow> bool" where
  "wants_usage cfg req no_inject model v \<longleftrightarrow> wants_stream (Some v) \<and> \<not> cf_strict_passthrough cfg \<and>
     hr_path req = ''/v1/chat/completions'' \<and> injectable v \<and> model \<notin> no_inject"

text \<open>A routed request becomes a stream or a buffered exchange; \<open>None\<close> is the panic of an empty pool.\<close>

definition forward :: "wire \<Rightarrow> instant \<Rightarrow> json option \<Rightarrow> work \<Rightarrow> work option" where
  "forward wr now v w =
     (let t = fst w; g = snd w; cfg = tk_cfg t in
      case (case v of None \<Rightarrow> Some None | Some v \<Rightarrow> affinity (wr_render wr) (wr_hash wr) v (pool_len (current_pool g))) of
        None \<Rightarrow> None
      | Some prefer \<Rightarrow>
          let t = t\<lparr>tk_prefer := prefer, tk_streaming := wants_stream v, tk_wait_deadline := now + cf_max_wait cfg,
                tk_prompt_estimate := (case v of None \<Rightarrow> None | Some v \<Rightarrow> estimate_prompt_tokens v)\<rparr>;
              t = (case v of
                     None \<Rightarrow> t
                   | Some v \<Rightarrow>
                       if wants_usage cfg (tk_request t) (gw_no_inject g) (tk_model t) v
                       then t\<lparr>tk_body := wr_render wr (inject_usage v), tk_fallback := Some (tk_body t)\<rparr>
                       else t)
          in Some (if tk_streaming t then set_stage Opening (t, g) else start_turn wr now (t, g)))"

definition routed :: "wire \<Rightarrow> instant \<Rightarrow> json option \<Rightarrow> work \<Rightarrow> work option" where
  "routed wr now v w =
     (let t = fst w; req = tk_request t; raw = raw_model wr req v in
      case route_model (tk_cfg t) raw of
        None \<Rightarrow> Some (leave_with (Answered (model_disabled wr raw)) (record_request ''404'' w))
      | Some [] \<Rightarrow> Some (leave_with (Answered (model_not_found wr raw)) (record_request ''404'' w))
      | Some groups \<Rightarrow>
          if hr_method req = ''GET'' \<and> hr_path req = ''/v1/models'' then Some (set_stage (Locking None) w)
          else case (if hr_method req = ''GET'' then per_model_path_id (wr_pct wr) (hr_path req) else None) of
            Some i \<Rightarrow> Some (set_stage (Locking (Some i)) w)
          | None \<Rightarrow> forward wr now v (t\<lparr>tk_allowed := groups\<rparr>, snd w))"

definition handle :: "wire \<Rightarrow> instant \<Rightarrow> nat \<Rightarrow> http_request \<Rightarrow> gateway \<Rightarrow> work option" where
  "handle wr now tid req g =
     (let cfg = gw_cfg g; fresh = new_task tid cfg req in
      if gw_setup_required g then Some (fresh (Answered (setup_required_answer wr)), g)
      else if cf_max_inflight cfg < gw_inflight g + 1
      then Some (fresh (Answered (overloaded_answer wr (cf_max_inflight cfg))), g)
      else
        let g = g\<lparr>gw_inflight := gw_inflight g + 1\<rparr> in
        case client_of (wr_sha wr) cfg (hr_headers req) of
          None \<Rightarrow> Some (fresh (Refusing (now + millis 250)), g)
        | Some client \<Rightarrow>
            (case parse_request_deadline (wr_last_instant wr) (hr_deadline req) now of
               Err _ \<Rightarrow> Some (leave_with (Answered (invalid_deadline wr)) (fresh Opening, g))
             | Ok deadline \<Rightarrow>
                 let v = wr_parse wr (hr_body req) in
                 case label_model (raw_model wr req v) (gw_labels g) of
                   (labels, model) \<Rightarrow>
                     routed wr now v
                       ((fresh Opening)\<lparr>tk_client := client, tk_model := model, tk_path := label_path (wr_pct wr) (hr_path req),
                          tk_deadline := deadline\<rparr>,
                        g\<lparr>gw_labels := labels\<rparr>)))"

subsection \<open>The server: tasks, the slot dispatcher, settings\<close>

datatype server_op =
    Arrive nat http_request
  | Resume nat event
  | Turn duration bool
  | Reconfigure runtime_config "lane_spec list" bool
  | Flush bool

type_synonym server = "(nat \<rightharpoonup> task) \<times> gateway"

fun server_exec :: "wire \<Rightarrow> instant \<Rightarrow> server_op \<Rightarrow> server \<Rightarrow> server option" where
  "server_exec wr now (Arrive tid req) (ts, g) =
     (if ts tid = None
      then (case handle wr now tid req g of None \<Rightarrow> None | Some (t, g') \<Rightarrow> Some (ts(tid \<mapsto> t), g'))
      else None)"
| "server_exec wr now (Resume tid ev) (ts, g) =
     (case ts tid of
        None \<Rightarrow> None
      | Some t \<Rightarrow> (case step wr now ev (t, g) of None \<Rightarrow> None | Some (t', g') \<Rightarrow> Some (ts(tid \<mapsto> t'), g')))"
| "server_exec wr now (Turn lag closed) (ts, g) =
     map_option (\<lambda>d. (ts, g\<lparr>gw_dispatch := d\<rparr>)) (poll now (now + lag) closed (gw_dispatch g))"
| "server_exec wr now (Reconfigure cfg specs setup) (ts, g) =
     Some (ts, g\<lparr>gw_cfg := cfg, gw_setup_required := setup, gw_dispatch := swap_pool now specs (gw_dispatch g)\<rparr>)"
| "server_exec wr now (Flush injection) (ts, g) =
     (if gw_owner g = None
      then Some (ts, g\<lparr>gw_cache := None, gw_no_inject := (if injection then {} else gw_no_inject g)\<rparr>)
      else None)"

definition new_gateway :: "instant \<Rightarrow> runtime_config \<Rightarrow> lane_spec list \<Rightarrow> bool \<Rightarrow> gateway" where
  "new_gateway now cfg specs setup = \<lparr>gw_cfg = cfg, gw_setup_required = setup,
     gw_dispatch = new_dispatcher now (new_pool now specs), gw_governor = Map.empty, gw_inflight = 0, gw_labels = {},
     gw_no_inject = {}, gw_cache = None, gw_owner = None, gw_statuses = [], gw_observed = [], gw_replies = 0, gw_sends = []\<rparr>"

end
