(* ===== verification/Proxy_Frame.thy ===== *)
theory Proxy_Frame
  imports Proxy_Request
begin

section \<open>What every step of a request task keeps\<close>

text \<open>
  The contract of an invariant with the request path: kept by each primitive effect of a task, it is
  kept by every step of a task, and by admission when it is about the shared state alone.
\<close>

text \<open>The reply channel a stage waits on.\<close>

fun awaits :: "stage \<Rightarrow> nat option" where
  "awaits (Queued r) = Some r"
| "awaits (Cataloguing _ r _ _ _ _) = Some r"
| "awaits _ = None"

locale calm_frame =
  fixes I :: "work \<Rightarrow> bool" and now :: instant
  assumes stage: "I w \<Longrightarrow> awaits s = None \<Longrightarrow> I (set_stage s w)"
    and frame: "I w \<Longrightarrow> I (put_frame b w)"
    and record_rq: "I w \<Longrightarrow> I (record_request st w)"
    and observed: "I w \<Longrightarrow> I (account obs w)"
    and governor: "I w \<Longrightarrow> I (with_governor gv w)"
    and permit: "I w \<Longrightarrow> I ((fst w)\<lparr>tk_permit := p\<rparr>, snd w)"
    and inflight: "I w \<Longrightarrow> I (fst w, (snd w)\<lparr>gw_inflight := n\<rparr>)"
    and join: "I w \<Longrightarrow> join_queue deadline pref allowed w = (r, w') \<Longrightarrow> awaits s = Some r \<Longrightarrow> I (set_stage s w')"
    and fallback: "I w \<Longrightarrow> I (use_fallback w)"
    and injection: "I w \<Longrightarrow> I (fst w, (snd w)\<lparr>gw_no_inject := x\<rparr>)"
    and lock: "I w \<Longrightarrow> I (fst w, (snd w)\<lparr>gw_owner := ow\<rparr>)"
    and cache: "I w \<Longrightarrow> I (fst w, (snd w)\<lparr>gw_cache := c\<rparr>)"
begin

lemma drop_permit: "I w \<Longrightarrow> I (drop_permit w)"
  using governor [OF permit [of w False], of "gov_release (tk_model (fst w)) (gw_governor (snd w))"]
  by (simp add: drop_permit_def with_governor_def)

lemma leave: "I w \<Longrightarrow> awaits s = None \<Longrightarrow> I (leave_with s w)"
  using stage [OF inflight [OF drop_permit [of w]], of s "gw_inflight (snd (drop_permit w)) - 1"]
  by (simp add: leave_with_def Let_def set_stage_def)

lemma frame_if: "I w \<Longrightarrow> I (put_frame_if c b w)"
  by (simp add: put_frame_if_def frame)

lemma hold: "I w \<Longrightarrow> I (hold_permit w)"
  by (simp add: hold_permit_def permit)

lemma unlock: "I w \<Longrightarrow> I (release_lock w)"
  by (simp add: release_lock_def lock)

lemma reject: "I w \<Longrightarrow> I (reject_injection w)"
  by (simp add: reject_injection_def fallback injection)

lemma reserve:
  assumes "I w"
  shows "I (reserve_slot w)"
proof -
  obtain r w' where j: "join_queue (tk_wait_deadline (fst w)) (tk_prefer (fst w)) (tk_allowed (fst w)) w = (r, w')"
    by (rule prod.exhaust)
  from join [OF assms j] show ?thesis by (simp add: reserve_slot_def j)
qed

lemma end_of_stream: "I w \<Longrightarrow> I (end_stream wr outcome st ob w)"
  by (simp add: end_stream_def finalize_def record_rq observed)

lemmas prims = stage frame record_rq observed governor leave frame_if hold unlock reject reserve drop_permit
  fallback end_of_stream

lemma timed_out: "I w \<Longrightarrow> I (timed_out wr w)"
  by (simp add: timed_out_def Let_def prims)

lemma try_permit:
  assumes "I w"
  shows "I (try_permit wr now' heartbeat w)"
proof -
  obtain gv ok where "admit_at (tk_model (fst w)) (pinned (fst w)) now' (gw_governor (snd w)) = (gv, ok)"
    by (rule prod.exhaust)
  with assms show ?thesis by (simp add: try_permit_def prims timed_out)
qed

lemma turn: "I w \<Longrightarrow> I (start_turn wr now' w)" "I w \<Longrightarrow> I (next_turn wr now' w)"
  by (simp_all add: start_turn_def next_turn_def prims try_permit)

lemma wake: "I w \<Longrightarrow> I (wake wr now' taken heartbeat w)"
  by (auto simp: wake_def offer_heartbeat_def prims timed_out try_permit)

lemma head: "I w \<Longrightarrow> I (streaming_head wr now' sl status retry_after w)"
  "I w \<Longrightarrow> I (buffered_head now' sl status retry_after content_type w)"
  by (simp_all add: streaming_head_def buffered_head_def prims turn)

lemma bodies: "I w \<Longrightarrow> I (failed wr status detail w)" "I w \<Longrightarrow> I (piped wr ob b taken w)"
  "I w \<Longrightarrow> I (relay wr status content_type body w)"
  by (simp_all add: failed_def piped_def relay_def Let_def prims split: option.split)

lemma catalog_end: "I w \<Longrightarrow> I (catalog_end ans w)"
  by (simp add: catalog_end_def prims)

lemma ask_next:
  assumes "I w"
  shows "I (ask_next wr now' which deadline targets hits err w)"
proof (cases targets)
  case Nil
  with assms show ?thesis by (simp add: ask_next_def catalog_built_def Let_def catalog_end cache)
next
  case (Cons t rest)
  obtain r w' where j: "join_queue deadline None [t] w = (r, w')" by (rule prod.exhaust)
  from join [OF assms j] Cons show ?thesis by (simp add: ask_next_def j)
qed

lemma catalog: "I w \<Longrightarrow> I (catalog_locked wr now' which w)" "I w \<Longrightarrow> I (catalog_failed wr now' which deadline rest hits err w)"
  by (auto simp: catalog_locked_def catalog_failed_def Let_def catalog_end ask_next lock split: option.split)

lemma deadline: "I w \<Longrightarrow> I (deadline_passed wr taken w)"
  by (auto simp: deadline_passed_def pipe_ended_def finalize_def Let_def prims split: stage.split)

lemmas steps = prims timed_out turn wake head bodies catalog deadline

text \<open>A slot that did not come.\<close>

lemma refused:
  assumes "I w" "\<nexists>sl stamp. reply_of r (snd w) = Some (Delivered sl stamp)"
  shows "slot_ready wr r w = Some w' \<Longrightarrow> I w'"
    and "catalog_slot wr now' which r deadline rest hits err w = Some w' \<Longrightarrow> I w'"
  using assms by (auto simp: slot_ready_def catalog_slot_def timed_out ask_next split: option.splits outcome.splits)

end

text \<open>An invariant that the cooldown of a lane keeps as well.\<close>

locale task_frame = calm_frame +
  assumes cooldown: "I w \<Longrightarrow> enter_cooldown now sl backoff w = Some w' \<Longrightarrow> I w'"
begin

lemma blame: "I w \<Longrightarrow> blame now sl backoff detail w = Some w' \<Longrightarrow> I w'"
  by (auto simp: blame_def governor split: if_splits intro: cooldown)

lemma sniffed:
  assumes "I w" "sniffed wr now sl backoff detail taken w = Some w'"
  shows "I w'"
proof -
  obtain v where b: "blame now sl backoff detail w = Some v"
    using assms(2) by (auto simp: sniffed_def split: option.splits)
  from blame [OF assms(1) b] assms(2) show ?thesis
    by (auto simp: sniffed_def b prims turn split: if_splits)
qed

lemma fetched: "I w \<Longrightarrow> catalog_fetched wr now which sl deadline rest hits err status retry_after body w = Some w' \<Longrightarrow> I w'"
  by (auto simp: catalog_fetched_def ask_next split: if_splits dest: cooldown)

lemma step_other:
  assumes "I w" "step wr now ev w = Some w'" "ev \<noteq> Slot_resolved"
  shows "I w'"
  using assms
  by (cases ev; cases "tk_stage (fst w)")
    (auto simp: step_def Let_def steps connect_failed_def offer_heartbeat_def split: if_splits option.splits
      intro: sniffed fetched dest: cooldown)

end

text \<open>An invariant that the sending of a request keeps as well: a slot delivered, a body the slot's provider takes.\<close>

locale sending_frame = task_frame +
  assumes send: "I w \<Longrightarrow> reply_of r (snd w) = Some (Delivered sl stamp) \<Longrightarrow>
      call = fetch_models sl \<or> call = upstream_request (tk_request (fst w)) sl (tk_body (fst w)) \<and>
        (sl_stream_options sl \<or> tk_fallback (fst w) = None \<or> \<not> tk_streaming (fst w)) \<Longrightarrow>
      I (send_upstream r stamp sl call w)"
begin

lemma reply_frame [simp]: "snd (use_fallback w) = snd w"
  by (simp add: use_fallback_def split: option.split)

lemma exchange:
  assumes "I w" "reply_of r (snd w) = Some (Delivered sl stamp)"
  shows "I (exchange r stamp sl w)"
proof -
  define v where "v = (if tk_streaming (fst w) \<and> \<not> sl_stream_options sl then use_fallback w else w)"
  have "I v" using assms(1) by (simp add: v_def fallback)
  moreover have "snd v = snd w" "sl_stream_options sl \<or> tk_fallback (fst v) = None \<or> \<not> tk_streaming (fst v)"
    by (auto simp: v_def use_fallback_def split: option.split)
  ultimately have "I (send_upstream r stamp sl (upstream_request (tk_request (fst v)) sl (tk_body (fst v))) v)"
    using assms(2) by (intro send) auto
  then show ?thesis by (simp add: exchange_def v_def [symmetric] stage)
qed

lemma slots:
  assumes "I w"
  shows "slot_ready wr r w = Some w' \<Longrightarrow> I w'"
    and "catalog_slot wr now' which r deadline rest hits err w = Some w' \<Longrightarrow> I w'"
  using assms by (auto simp: slot_ready_def catalog_slot_def timed_out ask_next exchange stage send
      split: option.splits outcome.splits)

lemma step:
  assumes "I w" "step wr now ev w = Some w'"
  shows "I w'"
proof (cases "ev = Slot_resolved")
  case True
  with assms show ?thesis
    by (cases "tk_stage (fst w)") (auto simp: step_def Let_def intro: slots)
qed (rule step_other [OF assms])

end

locale gateway_frame = task_frame +
  assumes any_task: "I (t, g) \<Longrightarrow> awaits (tk_stage t') = None \<Longrightarrow> I (t', g)"
    and labels: "I w \<Longrightarrow> I (fst w, (snd w)\<lparr>gw_labels := l\<rparr>)"
begin

lemma forward:
  assumes "I (t, g)" "awaits (tk_stage t) = None" "forward wr now' v (t, g) = Some w'"
  shows "I w'"
  using assms(2,3)
  by (auto simp: forward_def Let_def split: option.splits if_splits intro!: stage turn any_task [OF assms(1)])

lemma routed:
  assumes "I (t, g)" "awaits (tk_stage t) = None" "routed wr now' v (t, g) = Some w'"
  shows "I w'"
proof -
  have "I (t\<lparr>tk_allowed := gs\<rparr>, g)" for gs using assms(2) by (intro any_task [OF assms(1)]) simp
  then have "forward wr now' v (t\<lparr>tk_allowed := gs\<rparr>, g) = Some w' \<Longrightarrow> I w'" for gs
    using assms(2) forward [of "t\<lparr>tk_allowed := gs\<rparr>" g] by simp
  with assms(1,3) show ?thesis
    by (auto simp: routed_def Let_def prims split: option.splits if_splits list.splits)
qed

lemma handle:
  assumes "I (t, g)" "handle wr now' tid req g = Some w'"
  shows "I w'"
proof -
  have i: "I (t', g\<lparr>gw_inflight := n\<rparr>)" "I (t', g)" if "awaits (tk_stage t') = None" for t' n
    using any_task [OF inflight [OF assms(1)] that] any_task [OF assms(1) that] by simp_all
  then have "I (t', g\<lparr>gw_inflight := n, gw_labels := l\<rparr>)" if "awaits (tk_stage t') = None" for t' n l
    using labels [OF i(1) [OF that]] by simp
  with i assms(2) show ?thesis
    by (auto simp: handle_def Let_def prims new_task_def split: if_splits option.splits sum.splits prod.splits intro: routed [rotated 2])
qed

end

end
