(* ===== verification/Proxy_Runs.thy ===== *)
theory Proxy_Runs
  imports Proxy_Frame
begin

section \<open>What the request path guarantees\<close>

text \<open>
  Invariants of the whole server: tasks in any number, resumed in any order by any events, among
  turns of the slot dispatcher and settings changes.
\<close>

named_theorems book_rules \<open>how the primitives keep a task's account with the shared counters\<close>

subsection \<open>Permits and in-flight slots\<close>

definition permits :: "gateway \<Rightarrow> string \<Rightarrow> nat" where
  "permits g m = ms_inflight (entry (gw_governor g) m)"

definition held :: "task \<Rightarrow> string \<Rightarrow> nat" where
  "held t m = (if tk_permit t \<and> tk_model t = m then 1 else 0)"

text \<open>The account of a live task, with what all others hold; and the stages that hold no permit.\<close>

definition books :: "(string \<Rightarrow> nat) \<Rightarrow> nat \<Rightarrow> work \<Rightarrow> bool" where
  "books others n w \<longleftrightarrow>
     (\<forall>m. permits (snd w) m = others m + held (fst w) m) \<and> gw_inflight (snd w) = n + 1"

fun bare :: "stage \<Rightarrow> bool" where
  "bare (Queued _) = False"
| "bare (Exchanging _) = False"
| "bare (Sniffing _ _ _) = False"
| "bare (Failing _) = False"
| "bare (Relaying _ _) = False"
| "bare (Piping _) = False"
| "bare _ = True"

definition settled :: "(string \<Rightarrow> nat) \<Rightarrow> nat \<Rightarrow> work \<Rightarrow> bool" where
  "settled others n w \<longleftrightarrow>
     (\<forall>m. permits (snd w) m = others m + held (fst w) m) \<and>
     gw_inflight (snd w) = n + (if finished (tk_stage (fst w)) then 0 else 1) \<and>
     (bare (tk_stage (fst w)) \<longrightarrow> \<not> tk_permit (fst w))"

lemma finished_bare: "finished s \<Longrightarrow> bare s"
  by (cases s) auto

lemma books_prims [book_rules]:
  assumes "books others n w"
  shows "books others n (set_stage s w)" "books others n (put_frame b w)" "books others n (put_frame_if c b w)"
    "books others n (record_request st w)" "books others n (account obs w)" "books others n (drop_permit w)"
    "books others n (send_upstream r stamp sl call w)" "books others n (use_fallback w)"
    "books others n (release_lock w)" "books others n (reject_injection w)"
  using assms
  by (auto simp: books_def permits_def held_def set_stage_def put_frame_def put_frame_if_def record_request_def
      account_def drop_permit_def send_upstream_def use_fallback_def release_lock_def reject_injection_def
      gov_release_entry split: option.split)

lemma drop_permit_bare [simp]: "\<not> tk_permit (fst (drop_permit w))"
  by (simp add: drop_permit_def)

lemma permit_prims [simp]:
  "tk_permit (fst (set_stage s w)) = tk_permit (fst w)" "tk_permit (fst (put_frame b w)) = tk_permit (fst w)"
  "tk_permit (fst (record_request st w)) = tk_permit (fst w)" "tk_permit (fst (with_governor gv w)) = tk_permit (fst w)"
  "tk_permit (fst (release_lock w)) = tk_permit (fst w)" "tk_permit (fst (send_upstream r stamp sl call w)) = tk_permit (fst w)"
  by (simp_all add: set_stage_def put_frame_def record_request_def with_governor_def release_lock_def send_upstream_def)

lemma leave_settled [book_rules]: "books others n w \<Longrightarrow> finished s \<Longrightarrow> settled others n (leave_with s w)"
  by (auto simp: books_def settled_def leave_with_def Let_def drop_permit_def permits_def held_def gov_release_entry finished_bare)

lemma stage_settled [book_rules]:
  "books others n w \<Longrightarrow> \<not> finished s \<Longrightarrow> bare s \<longrightarrow> \<not> tk_permit (fst w) \<Longrightarrow> settled others n (set_stage s w)"
  by (auto simp: books_def settled_def set_stage_def permits_def held_def)

lemma join_queue_books:
  "books others n w \<Longrightarrow> join_queue deadline pref allowed w = (r, w') \<Longrightarrow> books others n w'"
  by (auto simp: books_def join_queue_def Let_def permits_def held_def)

lemma cooldown_books: "books others n w \<Longrightarrow> enter_cooldown now sl backoff w = Some w' \<Longrightarrow> books others n w'"
  by (auto simp: books_def enter_cooldown_def permits_def held_def)

lemma reserve_settled [book_rules]:
  assumes "books others n w"
  shows "settled others n (reserve_slot w)"
proof -
  obtain r w' where j: "join_queue (tk_wait_deadline (fst w)) (tk_prefer (fst w)) (tk_allowed (fst w)) w = (r, w')"
    by (rule prod.exhaust)
  from stage_settled [OF join_queue_books [OF assms j], of "Queued r"] show ?thesis
    by (simp add: reserve_slot_def j)
qed

lemma timed_out_settled [book_rules]: "books others n w \<Longrightarrow> settled others n (timed_out wr w)"
  by (simp add: timed_out_def Let_def book_rules)

lemma try_permit_settled [book_rules]:
  assumes "books others n w" "\<not> tk_permit (fst w)"
  shows "settled others n (try_permit wr now heartbeat w)"
proof -
  obtain gv ok where a: "admit_at (tk_model (fst w)) (pinned (fst w)) now (gw_governor (snd w)) = (gv, ok)"
    by fastforce
  have "ok \<Longrightarrow> books others n (hold_permit (with_governor gv w))" "\<not> ok \<Longrightarrow> books others n (with_governor gv w)"
    using assms by (auto simp: books_def permits_def held_def hold_permit_def with_governor_def admit_at_entry [OF a])
  then show ?thesis
    using assms(2) by (simp add: try_permit_def a book_rules)
qed

lemma start_settled [book_rules]:
  "books others n w \<Longrightarrow> \<not> tk_permit (fst w) \<Longrightarrow> settled others n (start_turn wr now w)"
  by (simp add: start_turn_def book_rules)

lemma next_settled [book_rules]: "books others n w \<Longrightarrow> settled others n (next_turn wr now w)"
  by (simp add: next_turn_def book_rules)

lemma wake_settled [book_rules]:
  "books others n w \<Longrightarrow> \<not> tk_permit (fst w) \<Longrightarrow> settled others n (wake wr now taken heartbeat w)"
  by (auto simp: wake_def offer_heartbeat_def book_rules split: option.split if_splits)

lemma exchange_settled [book_rules]: "books others n w \<Longrightarrow> settled others n (exchange r stamp sl w)"
  by (simp add: exchange_def Let_def book_rules)

lemma note_books [book_rules]:
  "books others n w \<Longrightarrow> books others n (with_governor (note_exhausted_at m ovr now (gw_governor (snd w))) w)"
  by (simp add: books_def with_governor_def permits_def held_def note_exhausted_entry Let_def)

lemma catalog_end_settled [book_rules]: "books others n w \<Longrightarrow> settled others n (catalog_end ans w)"
  by (simp add: catalog_end_def book_rules)

lemma ask_next_settled [book_rules]:
  assumes "books others n w" "\<not> tk_permit (fst w)"
  shows "settled others n (ask_next wr now which deadline targets hits err w)"
proof (cases targets)
  case Nil
  have "books others n (fst w, (snd w)\<lparr>gw_cache := c\<rparr>)" for c
    using assms(1) by (simp add: books_def permits_def)
  with Nil assms(1) show ?thesis by (simp add: ask_next_def catalog_built_def Let_def book_rules)
next
  case (Cons t rest)
  obtain r w' where j: "join_queue deadline None [t] w = (r, w')" by (rule prod.exhaust)
  then have "tk_permit (fst w') = tk_permit (fst w)" by (auto simp: join_queue_def Let_def)
  with Cons j assms join_queue_books [OF assms(1) j] show ?thesis
    by (simp add: ask_next_def stage_settled)
qed

lemma blame_books: "books others n w \<Longrightarrow> blame now sl backoff detail w = Some w' \<Longrightarrow> books others n w'"
  by (auto simp: blame_def split: if_splits intro: note_books cooldown_books)

lemma sniffed_settled:
  assumes "books others n w" "sniffed wr now sl backoff detail taken w = Some w'"
  shows "settled others n w'"
proof -
  obtain w1 where b: "blame now sl backoff detail w = Some w1"
    using assms(2) by (auto simp: sniffed_def split: option.splits)
  from blame_books [OF assms(1) b] assms(2) show ?thesis
    by (auto simp: sniffed_def b book_rules split: if_splits)
qed

lemma head_settled [book_rules]:
  assumes "books others n w"
  shows "settled others n (streaming_head wr now sl status retry_after w)"
    "settled others n (buffered_head now sl status retry_after content_type w)"
  using assms by (auto simp: streaming_head_def buffered_head_def book_rules)

lemma relay_settled [book_rules]: "books others n w \<Longrightarrow> settled others n (relay wr status content_type body w)"
  by (auto simp: relay_def Let_def book_rules split: option.split)

lemma piped_settled [book_rules]: "books others n w \<Longrightarrow> settled others n (piped wr ob b taken w)"
  by (auto simp: piped_def Let_def end_stream_def finalize_def book_rules)

lemma catalog_locked_settled [book_rules]:
  assumes "books others n w" "\<not> tk_permit (fst w)"
  shows "settled others n (catalog_locked wr now which w)"
proof -
  have "books others n (fst w, (snd w)\<lparr>gw_owner := ow\<rparr>)" for ow
    using assms(1) by (simp add: books_def permits_def)
  with assms show ?thesis
    by (auto simp: catalog_locked_def Let_def book_rules split: option.split)
qed

lemma catalog_fetched_settled:
  assumes "books others n w" "\<not> tk_permit (fst w)"
    and "catalog_fetched wr now which sl deadline rest hits err status retry_after body w = Some w'"
  shows "settled others n w'"
proof -
  have "books others n v \<and> \<not> tk_permit (fst v)" if "enter_cooldown now sl backoff w = Some v" for v backoff
    using that assms(1,2) cooldown_books [OF assms(1)] by (auto simp: enter_cooldown_def)
  with assms show ?thesis
    by (auto simp: catalog_fetched_def book_rules split: if_splits)
qed

lemma pipe_ended_books [book_rules]: "books others n w \<Longrightarrow> books others n (pipe_ended wr outcome w)"
  by (auto simp: pipe_ended_def finalize_def book_rules split: stage.split)

lemma deadline_settled [book_rules]: "books others n w \<Longrightarrow> settled others n (deadline_passed wr taken w)"
  by (auto simp: deadline_passed_def Let_def book_rules)

lemma settled_books: "settled others n w \<Longrightarrow> \<not> finished (tk_stage (fst w)) \<Longrightarrow> books others n w"
  by (simp add: settled_def books_def)

lemma settled_frame [simp]: "settled others n (put_frame b w) = settled others n w"
  by (simp add: settled_def put_frame_def held_def)

lemma step_live:
  assumes "step wr now ev w = Some w'"
  shows "\<not> finished (tk_stage (fst w))"
  using assms by (cases "tk_stage (fst w)"; cases ev; simp add: step_def Let_def split: option.splits if_splits)

lemma step_settled:
  assumes "settled others n w" "step wr now ev w = Some w'"
  shows "settled others n w'"
proof -
  have b: "books others n w"
    using settled_books [OF assms(1) step_live [OF assms(2)]] .
  have bare: "bare (tk_stage (fst w)) \<Longrightarrow> \<not> tk_permit (fst w)"
    using assms(1) by (simp add: settled_def)
  show ?thesis
  proof (cases ev)
    case (Deadline_fires taken)
    with assms(2) b show ?thesis
      by (auto simp: step_def Let_def book_rules split: option.splits if_splits)
  next
    case Dropped
    with assms(2) b show ?thesis
      by (auto simp: step_def Let_def book_rules split: if_splits)
  next
    case Timer
    with assms(2) b show ?thesis
      by (cases "tk_stage (fst w)") (auto simp: step_def Let_def book_rules split: if_splits)
  next
    case (Opened taken)
    with assms(2) b bare show ?thesis
      by (cases "tk_stage (fst w)") (auto simp: step_def Let_def book_rules split: if_splits)
  next
    case (Wake taken)
    with assms(2) b bare show ?thesis
      by (cases "tk_stage (fst w)") (auto simp: step_def Let_def book_rules split: if_splits)
  next
    case (Beat taken)
    with assms b show ?thesis
      by (cases "tk_stage (fst w)")
        (auto simp: step_def Let_def offer_heartbeat_def book_rules split: if_splits option.splits)
  next
    case Slot_resolved
    with assms(2) b bare show ?thesis
      by (cases "tk_stage (fst w)")
        (auto simp: step_def Let_def slot_ready_def catalog_slot_def book_rules split: option.splits outcome.splits)
  next
    case Connect_failed
    with assms(2) b bare show ?thesis
      by (cases "tk_stage (fst w)")
        (auto simp: step_def Let_def connect_failed_def catalog_failed_def book_rules dest: cooldown_books [OF b])
  next
    case (Head status retry_after content_type)
    with assms(2) b show ?thesis
      by (cases "tk_stage (fst w)") (auto simp: step_def Let_def book_rules split: if_splits)
  next
    case (Text detail taken)
    with assms(2) b show ?thesis
      by (cases "tk_stage (fst w)") (auto simp: step_def Let_def failed_def book_rules intro: sniffed_settled)
  next
    case (Whole body)
    with assms(2) b show ?thesis
      by (cases "tk_stage (fst w)") (auto simp: step_def Let_def book_rules)
  next
    case (Chunk bytes taken)
    with assms(2) b show ?thesis
      by (cases "tk_stage (fst w)") (auto simp: step_def Let_def book_rules)
  next
    case Locked
    with assms(2) b bare show ?thesis
      by (cases "tk_stage (fst w)") (auto simp: step_def Let_def book_rules split: if_splits)
  next
    case (Catalog_reply status retry_after body)
    with assms(2) b bare show ?thesis
      by (cases "tk_stage (fst w)") (auto simp: step_def Let_def intro: catalog_fetched_settled)
  qed (use assms(2) b in \<open>cases "tk_stage (fst w)"; auto simp: step_def Let_def end_stream_def finalize_def book_rules split: if_splits\<close>)+
qed

lemma forward_settled:
  assumes "books others n w" "\<not> tk_permit (fst w)" "forward wr now v w = Some w'"
  shows "settled others n w'"
proof -
  have "books others n ((fst w)\<lparr>tk_prefer := a, tk_streaming := b, tk_wait_deadline := c, tk_prompt_estimate := d\<rparr>, snd w)"
    "books others n ((fst w)\<lparr>tk_prefer := a, tk_streaming := b, tk_wait_deadline := c, tk_prompt_estimate := d,
      tk_body := e, tk_fallback := f\<rparr>, snd w)" for a b c d e f
    using assms(1) by (simp_all add: books_def held_def)
  with assms(2,3) show ?thesis
    by (auto simp: forward_def Let_def book_rules split: option.splits if_splits)
qed

lemma routed_settled:
  assumes "books others n w" "\<not> tk_permit (fst w)" "routed wr now v w = Some w'"
  shows "settled others n w'"
proof -
  have a: "books others n ((fst w)\<lparr>tk_allowed := gs\<rparr>, snd w)" for gs
    using assms(1) by (simp add: books_def held_def)
  from assms show ?thesis
    by (auto simp: routed_def Let_def book_rules split: option.splits if_splits list.splits
        intro: forward_settled [OF a])
qed

lemma handle_settled:
  assumes "\<forall>m. permits g m = others m" "gw_inflight g = n" "handle wr now tid req g = Some w"
  shows "settled others n w"
proof -
  have b: "books others n ((new_task tid cfg req s)\<lparr>tk_client := a, tk_model := b, tk_path := c, tk_deadline := d\<rparr>,
      g\<lparr>gw_inflight := Suc (gw_inflight g), gw_labels := l\<rparr>)"
    "books others n (new_task tid cfg req s, g\<lparr>gw_inflight := Suc (gw_inflight g)\<rparr>)" for cfg s a b c d l
    using assms(1,2) by (simp_all add: books_def held_def new_task_def permits_def)
  consider "gw_setup_required g" | "\<not> gw_setup_required g" "cf_max_inflight (gw_cfg g) < gw_inflight g + 1"
    | "\<not> gw_setup_required g" "\<not> cf_max_inflight (gw_cfg g) < gw_inflight g + 1" by blast
  then show ?thesis
  proof cases
    case 3
    show ?thesis
    proof (cases "client_of (wr_sha wr) (gw_cfg g) (hr_headers req)")
      case None
      with 3 assms show ?thesis
        by (auto simp: handle_def Let_def settled_def new_task_def held_def permits_def)
    next
      case client: (Some client)
      show ?thesis
      proof (cases "parse_request_deadline (wr_last_instant wr) (hr_deadline req) now")
        case (Inl u)
        with 3 client assms(3) b(2) have "w = leave_with (Answered (invalid_deadline wr)) (new_task tid (gw_cfg g) req Opening,
            g\<lparr>gw_inflight := Suc (gw_inflight g)\<rparr>)"
          by (simp add: handle_def Let_def)
        with b(2) show ?thesis by (simp add: book_rules)
      next
        case (Inr d)
        obtain labels model where l: "label_model (raw_model wr req (wr_parse wr (hr_body req))) (gw_labels g) = (labels, model)"
          by (rule prod.exhaust)
        from 3 client Inr l assms(3) have "routed wr now (wr_parse wr (hr_body req))
            ((new_task tid (gw_cfg g) req Opening)\<lparr>tk_client := client, tk_model := model,
               tk_path := label_path (wr_pct wr) (hr_path req), tk_deadline := d\<rparr>,
             g\<lparr>gw_inflight := Suc (gw_inflight g), gw_labels := labels\<rparr>) = Some w"
          by (simp add: handle_def Let_def)
        from routed_settled [OF b(1) _ this] show ?thesis by (simp add: new_task_def)
      qed
    qed
  qed (use assms in \<open>auto simp: handle_def Let_def settled_def new_task_def held_def\<close>)
qed

text \<open>The account of the whole server: the counters are the sums over the tasks.\<close>

definition live_count :: "task \<Rightarrow> nat" where
  "live_count t = (if finished (tk_stage t) then 0 else 1)"

definition accounts :: "server \<Rightarrow> bool" where
  "accounts s \<longleftrightarrow> (case s of (ts, g) \<Rightarrow>
     finite (dom ts) \<and> (\<forall>m. permits g m = (\<Sum>i \<in> dom ts. held (the (ts i)) m)) \<and>
     gw_inflight g = (\<Sum>i \<in> dom ts. live_count (the (ts i))) \<and>
     (\<forall>i t. ts i = Some t \<longrightarrow> bare (tk_stage t) \<longrightarrow> \<not> tk_permit t))"

definition rest_permits :: "(nat \<rightharpoonup> task) \<Rightarrow> nat \<Rightarrow> string \<Rightarrow> nat" where
  "rest_permits ts tid m = (\<Sum>i \<in> dom ts - {tid}. held (the (ts i)) m)"

definition rest_live :: "(nat \<rightharpoonup> task) \<Rightarrow> nat \<Rightarrow> nat" where
  "rest_live ts tid = (\<Sum>i \<in> dom ts - {tid}. live_count (the (ts i)))"

lemma accounts_task:
  assumes "accounts (ts, g)" "ts tid = Some t"
  shows "settled (rest_permits ts tid) (rest_live ts tid) (t, g)"
proof -
  have fin: "finite (dom ts)" "tid \<in> dom ts" using assms by (auto simp: accounts_def)
  with assms show ?thesis
    by (auto simp: accounts_def settled_def rest_permits_def rest_live_def live_count_def sum.remove [OF fin])
qed

lemma accounts_fresh:
  assumes "accounts (ts, g)" "ts tid = None"
  shows "\<forall>m. permits g m = rest_permits ts tid m" "gw_inflight g = rest_live ts tid"
  using assms by (auto simp: accounts_def rest_permits_def rest_live_def domIff)

lemma accounts_update:
  assumes "accounts (ts, g)" "settled (rest_permits ts tid) (rest_live ts tid) (t', g')"
  shows "accounts (ts(tid \<mapsto> t'), g')"
proof -
  have fin: "finite (insert tid (dom ts))" "tid \<in> insert tid (dom ts)" using assms(1) by (auto simp: accounts_def)
  have "(\<Sum>i \<in> dom ts - {tid}. f (the ((ts(tid \<mapsto> t')) i))) = (\<Sum>i \<in> dom ts - {tid}. f (the (ts i)))" for f :: "task \<Rightarrow> nat"
    by (rule sum.cong) auto
  then have s: "(\<Sum>i \<in> dom (ts(tid \<mapsto> t')). f (the ((ts(tid \<mapsto> t')) i))) = f t' + (\<Sum>i \<in> dom ts - {tid}. f (the (ts i)))"
    for f :: "task \<Rightarrow> nat"
    by (simp add: sum.remove [OF fin])
  show ?thesis
    using assms s [of live_count] s [of "\<lambda>t. held t m" for m]
    by (auto simp: accounts_def settled_def rest_permits_def rest_live_def simp del: dom_fun_upd fun_upd_apply)
      (auto simp: live_count_def split: if_splits)
qed

fun caps_within :: "nat \<Rightarrow> server_op \<Rightarrow> bool" where
  "caps_within M (Reconfigure cfg specs setup) \<longleftrightarrow> cf_max_inflight cfg \<le> M"
| "caps_within M _ \<longleftrightarrow> True"

definition within_cap :: "nat \<Rightarrow> server \<Rightarrow> bool" where
  "within_cap M s \<longleftrightarrow> accounts s \<and> gw_inflight (snd s) \<le> M \<and> cf_max_inflight (gw_cfg (snd s)) \<le> M"

lemma handle_inflight:
  assumes "handle wr now tid req g = Some w"
  shows "gw_inflight (snd w) \<le> gw_inflight g \<or> gw_inflight g + 1 \<le> cf_max_inflight (gw_cfg g)"
  using assms by (cases "gw_setup_required g"; cases "cf_max_inflight (gw_cfg g) < gw_inflight g + 1")
    (auto simp: handle_def Let_def)

interpretation cfg_frame: gateway_frame "\<lambda>w. gw_cfg (snd w) = c" now for c now
  by unfold_locales
    (auto simp: set_stage_def put_frame_def record_request_def account_def with_governor_def join_queue_def Let_def
      enter_cooldown_def use_fallback_def split: option.split)

interpretation cfg_sends: sending_frame "\<lambda>w. gw_cfg (snd w) = c" now for c now
  by unfold_locales (simp add: send_upstream_def)

interpretation cap_machine: timed_machine "server_exec wr" "caps_within M" "\<lambda>_. within_cap M" for wr M
proof (unfold_locales, goal_cases)
  case (1 t s now x s')
  obtain ts g where s: "s = (ts, g)" by (rule prod.exhaust)
  with 1(1) have inv: "accounts (ts, g)" "gw_inflight g \<le> M" "cf_max_inflight (gw_cfg g) \<le> M"
    by (simp_all add: within_cap_def)
  show ?case
  proof (cases x)
    case (Arrive tid req)
    with 1(4) s obtain t' g' where h: "ts tid = None" "handle wr now tid req g = Some (t', g')" "s' = (ts(tid \<mapsto> t'), g')"
      by (auto split: if_splits option.splits)
    have st: "settled (rest_permits ts tid) (rest_live ts tid) (t', g')"
      using handle_settled [OF _ _ h(2)] accounts_fresh [OF inv(1) h(1)] by blast
    have "gw_inflight g' \<le> gw_inflight g + 1"
      using st accounts_fresh [OF inv(1) h(1)] by (simp add: settled_def split: if_splits)
    with handle_inflight [OF h(2)] inv have "gw_inflight g' \<le> M" by auto
    moreover have "gw_cfg g' = gw_cfg g" using cfg_frame.handle [OF _ h(2), of undefined] by simp
    ultimately show ?thesis
      using accounts_update [OF inv(1) st] inv(3) by (simp add: within_cap_def h(3))
  next
    case (Resume tid ev)
    with 1(4) s obtain t t' g' where h: "ts tid = Some t" "step wr now ev (t, g) = Some (t', g')" "s' = (ts(tid \<mapsto> t'), g')"
      by (auto split: option.splits)
    have b: "settled (rest_permits ts tid) (rest_live ts tid) (t, g)"
      by (rule accounts_task [OF inv(1) h(1)])
    have st: "settled (rest_permits ts tid) (rest_live ts tid) (t', g')"
      by (rule step_settled [OF b h(2)])
    have "gw_inflight g' \<le> gw_inflight g"
      using b st step_live [OF h(2)] by (simp add: settled_def)
    moreover have "gw_cfg g' = gw_cfg g" using cfg_sends.step [OF _ h(2)] by simp
    ultimately show ?thesis
      using accounts_update [OF inv(1) st] inv by (simp add: within_cap_def h(3))
  qed (use 1(3,4) inv s in \<open>auto simp: within_cap_def accounts_def permits_def split: if_splits\<close>)
qed

lemma accounts_counts:
  assumes "accounts (ts, g)"
  shows "gw_inflight g = card {i. \<exists>t. ts i = Some t \<and> \<not> finished (tk_stage t)}"
    and "permits g m = card {i. \<exists>t. ts i = Some t \<and> tk_permit t \<and> tk_model t = m}"
proof -
  have fin: "finite (dom ts)" using assms by (simp add: accounts_def)
  have *: "(\<Sum>i \<in> dom ts. if P (the (ts i)) then 1 else 0) = card {i. \<exists>t. ts i = Some t \<and> P t}" for P
  proof -
    have "{i. \<exists>t. ts i = Some t \<and> P t} = {i \<in> dom ts. P (the (ts i))}" by auto
    then show ?thesis using fin by (simp add: sum.If_cases Int_def)
  qed
  have "live_count t = (if \<not> finished (tk_stage t) then 1 else 0)" for t by (simp add: live_count_def)
  with assms * [of "\<lambda>t. \<not> finished (tk_stage t)"] show "gw_inflight g = card {i. \<exists>t. ts i = Some t \<and> \<not> finished (tk_stage t)}"
    by (simp add: accounts_def)
  show "permits g m = card {i. \<exists>t. ts i = Some t \<and> tk_permit t \<and> tk_model t = m}"
    using assms * [of "\<lambda>t. tk_permit t \<and> tk_model t = m"] by (simp add: accounts_def held_def)
qed

end
