(* ===== verification/Proxy_Wire.thy ===== *)
theory Proxy_Wire
  imports Proxy_Runs
begin

section \<open>What goes over the wire\<close>

text \<open>
  The upstream calls of the whole server, against the slots the dispatcher delivered: every call uses
  up a delivery of its own, so the key budgets hold where it matters, at the upstream; and every call
  is made from its slot and its request and nothing else.
\<close>

subsection \<open>A step seen from the dispatcher\<close>

fun client_side :: "disp_op \<Rightarrow> bool" where
  "client_side (Acquire _ _ _ _) = True"
| "client_side (Penalize _ _ _) = True"
| "client_side _ = False"

definition traced :: "instant \<Rightarrow> dispatcher \<Rightarrow> work \<Rightarrow> bool" where
  "traced now d0 w \<longleftrightarrow> (\<exists>ys. (\<forall>y \<in> set ys. fst y = now \<and> client_side (snd y)) \<and>
     run_timed disp_exec ys d0 = Some (gw_dispatch (snd w)))"

lemma traced_op:
  assumes "traced now d0 w" "client_side x" "disp_exec now x (gw_dispatch (snd w)) = Some (gw_dispatch (snd w'))"
  shows "traced now d0 w'"
proof -
  obtain ys where "\<forall>y \<in> set ys. fst y = now \<and> client_side (snd y)" "run_timed disp_exec ys d0 = Some (gw_dispatch (snd w))"
    using assms(1) by (auto simp: traced_def)
  with assms(2,3) show ?thesis
    unfolding traced_def by (intro exI [of _ "ys @ [(now, x)]"]) (auto simp: run_timed_append)
qed

lemma traced_refl: "traced now (gw_dispatch g) (t, g)"
  unfolding traced_def by (rule exI [of _ "[]"]) simp

lemma traced_join:
  assumes "traced now d0 w" "join_queue deadline pref allowed w = (r, w')"
  shows "traced now d0 (set_stage s w')"
  by (rule traced_op [OF assms(1), of "Acquire r deadline pref (Some allowed)"])
    (use assms(2) in \<open>auto simp: join_queue_def Let_def set_stage_def\<close>)

lemma traced_cooldown:
  assumes "traced now d0 w" "enter_cooldown now sl backoff w = Some w'"
  shows "traced now d0 w'"
  by (rule traced_op [OF assms(1), of "Penalize (sl_pool sl) (sl_lane sl) backoff"])
    (use assms(2) in \<open>auto simp: enter_cooldown_def\<close>)

lemma traced_prims:
  assumes "traced now d0 w"
  shows "traced now d0 (set_stage s w)" "traced now d0 (put_frame b w)" "traced now d0 (record_request st w)"
    "traced now d0 (account obs w)" "traced now d0 (with_governor gv w)" "traced now d0 (use_fallback w)"
    "traced now d0 (t, snd w)" "traced now d0 (t, (snd w)\<lparr>gw_inflight := n\<rparr>)"
    "traced now d0 (t, (snd w)\<lparr>gw_no_inject := x\<rparr>)" "traced now d0 (t, (snd w)\<lparr>gw_owner := ow\<rparr>)"
    "traced now d0 (t, (snd w)\<lparr>gw_cache := c\<rparr>)" "traced now d0 (t, (snd w)\<lparr>gw_labels := l\<rparr>)"
    "traced now d0 (send_upstream r stamp sl call w)"
proof -
  have *: "traced now d0 w' = traced now d0 w" if "gw_dispatch (snd w') = gw_dispatch (snd w)" for w'
    by (simp add: traced_def that)
  show "traced now d0 (set_stage s w)" "traced now d0 (put_frame b w)" "traced now d0 (record_request st w)"
    "traced now d0 (account obs w)" "traced now d0 (with_governor gv w)" "traced now d0 (use_fallback w)"
    "traced now d0 (t, snd w)" "traced now d0 (t, (snd w)\<lparr>gw_inflight := n\<rparr>)"
    "traced now d0 (t, (snd w)\<lparr>gw_no_inject := x\<rparr>)" "traced now d0 (t, (snd w)\<lparr>gw_owner := ow\<rparr>)"
    "traced now d0 (t, (snd w)\<lparr>gw_cache := c\<rparr>)" "traced now d0 (t, (snd w)\<lparr>gw_labels := l\<rparr>)"
    "traced now d0 (send_upstream r stamp sl call w)"
    by (subst *; simp add: assms set_stage_def put_frame_def record_request_def account_def with_governor_def
        use_fallback_def send_upstream_def split: option.split)+
qed

lemma traced_any: "traced now d0 (t, g) \<Longrightarrow> traced now d0 (t', g)"
  by (simp add: traced_def)

interpretation trace_frame: gateway_frame "traced now d0" now for now d0
  by unfold_locales
    (simp_all add: traced_prims, (blast intro: traced_join traced_cooldown traced_any)+)

interpretation trace_sends: sending_frame "traced now d0" now for now d0
  by unfold_locales (simp add: traced_prims)

lemma disp_exec_done: "disp_exec now x d = Some d' \<Longrightarrow> \<exists>e. ds_done d' = ds_done d @ e"
proof (cases x)
  case (Poll lag closed)
  assume "disp_exec now x d = Some d'"
  with Poll show ?thesis
    by (auto simp: poll_def serve_def send_slot_def Let_def split: if_splits phase.splits list.splits prod.splits
        reservation.splits option.splits)
qed (auto simp: acquire_filtered_def swap_pool_def penalize_slot_def split: if_splits)

lemma run_done: "run_timed disp_exec ys d = Some d' \<Longrightarrow> \<exists>e. ds_done d' = ds_done d @ e"
proof (induction ys arbitrary: d)
  case (Cons y ys)
  obtain now x where y: "y = (now, x)" by (rule prod.exhaust)
  with Cons.prems obtain d1 where d1: "disp_exec now x d = Some d1" "run_timed disp_exec ys d1 = Some d'"
    by (auto split: option.splits)
  with Cons.IH [OF d1(2)] disp_exec_done [OF d1(1)] show ?case by auto
qed simp

definition answer_of :: "nat \<Rightarrow> dispatcher \<Rightarrow> outcome option" where
  "answer_of r d = map_of (map (\<lambda>(t, wt, out). (wt_reply wt, out)) (ds_done d)) r"

lemma reply_of_dispatch: "reply_of r g = answer_of r (gw_dispatch g)"
  by (simp add: reply_of_def answer_of_def)

lemma answer_stable: "ds_done d' = ds_done d @ e \<Longrightarrow> answer_of r d = Some out \<Longrightarrow> answer_of r d' = Some out"
  by (simp add: answer_of_def map_add_def)

subsection \<open>A step seen from the reply channels\<close>

text \<open>What a task may wait on later: what it waited on, or a channel made since; and nothing was sent.\<close>

definition follows :: "nat option \<Rightarrow> nat \<Rightarrow> call_log list \<Rightarrow> work \<Rightarrow> bool" where
  "follows a0 n0 s0 w \<longleftrightarrow> n0 \<le> gw_replies (snd w) \<and> gw_sends (snd w) = s0 \<and>
     (case awaits (tk_stage (fst w)) of
        None \<Rightarrow> True
      | Some r \<Rightarrow> a0 = Some r \<or> n0 \<le> r \<and> r < gw_replies (snd w))"

interpretation follow_frame: gateway_frame "follows a0 n0 s0" now for a0 n0 s0 now
  by unfold_locales
    (auto simp: follows_def set_stage_def put_frame_def record_request_def account_def with_governor_def
      join_queue_def Let_def enter_cooldown_def use_fallback_def split: option.splits)

definition new_send :: "nat option \<Rightarrow> work \<Rightarrow> work \<Rightarrow> bool" where
  "new_send a0 w w' \<longleftrightarrow> (\<exists>lg. a0 = Some (lg_reply lg) \<and> gw_sends (snd w') = gw_sends (snd w) @ [lg] \<and>
     gw_replies (snd w') = gw_replies (snd w) \<and> awaits (tk_stage (fst w')) = None \<and>
     reply_of (lg_reply lg) (snd w) = Some (Delivered (lg_slot lg) (lg_stamp lg)))"

lemma step_uses:
  assumes "step wr now ev w = Some w'"
  shows "follows (awaits (tk_stage (fst w))) (gw_replies (snd w)) (gw_sends (snd w)) w' \<or>
    new_send (awaits (tk_stage (fst w))) w w'"
proof -
  let ?I = "follows (awaits (tk_stage (fst w))) (gw_replies (snd w)) (gw_sends (snd w))"
  have i: "?I w" by (simp add: follows_def split: option.split)
  show ?thesis
  proof (cases "ev = Slot_resolved")
    case False
    then show ?thesis using follow_frame.step_other [OF i assms] by blast
  next
    case True
    with assms obtain r where r: "awaits (tk_stage (fst w)) = Some r"
      "slot_ready wr r w = Some w' \<or>
       (\<exists>which deadline rest hits err. catalog_slot wr now which r deadline rest hits err w = Some w')"
      by (cases "tk_stage (fst w)"; simp add: step_def Let_def; blast)
    show ?thesis
    proof (cases "\<exists>sl stamp. reply_of r (snd w) = Some (Delivered sl stamp)")
      case False
      with follow_frame.refused [OF i] r(2) show ?thesis by blast
    next
      case True
      then obtain sl stamp where d: "reply_of r (snd w) = Some (Delivered sl stamp)" by blast
      with r show ?thesis
        by (auto simp: new_send_def slot_ready_def catalog_slot_def exchange_def Let_def set_stage_def send_upstream_def
            trace_sends.reply_frame)
    qed
  qed
qed

lemma handle_uses: "handle wr now tid req g = Some w \<Longrightarrow> follows None (gw_replies g) (gw_sends g) w"
  by (rule follow_frame.handle [of _ _ _ "new_task tid (gw_cfg g) req Opening" g])
    (simp_all add: follows_def new_task_def)

subsection \<open>Every call uses up a delivery of its own\<close>

definition matched :: "gateway \<Rightarrow> bool" where
  "matched g \<longleftrightarrow> distinct (map lg_reply (gw_sends g)) \<and>
     (\<forall>lg \<in> set (gw_sends g). lg_reply lg < gw_replies g \<and>
        reply_of (lg_reply lg) g = Some (Delivered (lg_slot lg) (lg_stamp lg)))"

definition channels_apart :: "server \<Rightarrow> bool" where
  "channels_apart s \<longleftrightarrow> (case s of (ts, g) \<Rightarrow>
     (\<forall>i t r. ts i = Some t \<longrightarrow> awaits (tk_stage t) = Some r \<longrightarrow> r < gw_replies g \<and> r \<notin> lg_reply ` set (gw_sends g)) \<and>
     (\<forall>i j t u r. ts i = Some t \<longrightarrow> ts j = Some u \<longrightarrow> awaits (tk_stage t) = Some r \<longrightarrow> awaits (tk_stage u) = Some r \<longrightarrow> i = j))"

lemma matched_later:
  assumes "matched g" "ds_done (gw_dispatch g') = ds_done (gw_dispatch g) @ e"
    and "gw_sends g' = gw_sends g" "gw_replies g \<le> gw_replies g'"
  shows "matched g'"
  using assms answer_stable [OF assms(2)] by (fastforce simp: matched_def reply_of_dispatch)

lemma channels_follow:
  assumes "channels_apart (ts, g)" "follows a0 (gw_replies g) (gw_sends g) (t', g')"
    and "matched g" "\<And>r. a0 = Some r \<Longrightarrow> \<exists>t. ts i = Some t \<and> awaits (tk_stage t) = Some r"
  shows "channels_apart (ts(i \<mapsto> t'), g')"
proof -
  have old: "r < gw_replies g \<and> r \<notin> lg_reply ` set (gw_sends g)" if "ts j = Some u" "awaits (tk_stage u) = Some r" for j u r
    using assms(1) that unfolding channels_apart_def by blast
  have one: "j = l" if "ts j = Some u" "ts l = Some v" "awaits (tk_stage u) = Some r" "awaits (tk_stage v) = Some r" for j l u v r
    using assms(1) that unfolding channels_apart_def by blast
  have sent: "n < gw_replies g" if "n \<in> lg_reply ` set (gw_sends g)" for n
    using assms(3) that by (auto simp: matched_def)
  have f: "gw_replies g \<le> gw_replies g'" "gw_sends g' = gw_sends g"
    "awaits (tk_stage t') = Some r \<Longrightarrow> a0 = Some r \<or> gw_replies g \<le> r \<and> r < gw_replies g'" for r
    using assms(2) by (auto simp: follows_def split: option.splits)
  have mine: "r < gw_replies g' \<and> r \<notin> lg_reply ` set (gw_sends g)" if "awaits (tk_stage t') = Some r" for r
    using f(1) f(3) [OF that] assms(4) [of r] old sent [of r] by (meson leD less_le_trans)
  have "j = i" if "ts j = Some u" "awaits (tk_stage u) = Some r" "awaits (tk_stage t') = Some r" for j u r
    using f(3) [OF that(3)] assms(4) [of r] old [OF that(1,2)] one [OF that(1) _ that(2)] by (meson leD)
  with mine old one f(1,2) show ?thesis
    by (auto simp: channels_apart_def split: if_splits) (meson less_le_trans)+
qed

lemma channels_send:
  assumes "channels_apart (ts, g)" "new_send (awaits (tk_stage t)) (t, g) (t', g')" "ts i = Some t"
  shows "channels_apart (ts(i \<mapsto> t'), g')"
proof -
  obtain lg where lg: "awaits (tk_stage t) = Some (lg_reply lg)" "gw_sends g' = gw_sends g @ [lg]"
    "gw_replies g' = gw_replies g" "awaits (tk_stage t') = None"
    using assms(2) by (auto simp: new_send_def)
  have "r \<noteq> lg_reply lg" if "ts j = Some u" "awaits (tk_stage u) = Some r" "j \<noteq> i" for j u r
    using assms(1,3) lg(1) that unfolding channels_apart_def by blast
  with assms(1) lg show ?thesis
    unfolding channels_apart_def by (auto split: if_splits)
qed

lemma matched_send:
  assumes "matched g" "channels_apart (ts, g)" "ts i = Some t" "new_send (awaits (tk_stage t)) (t, g) (t', g')"
    and "ds_done (gw_dispatch g') = ds_done (gw_dispatch g) @ e"
  shows "matched g'"
proof -
  obtain lg where lg: "awaits (tk_stage t) = Some (lg_reply lg)" "gw_sends g' = gw_sends g @ [lg]"
    "gw_replies g' = gw_replies g" "reply_of (lg_reply lg) g = Some (Delivered (lg_slot lg) (lg_stamp lg))"
    using assms(4) by (auto simp: new_send_def)
  have "lg_reply lg < gw_replies g" "lg_reply lg \<notin> lg_reply ` set (gw_sends g)"
    using assms(2,3) lg(1) unfolding channels_apart_def by blast+
  with assms(1) lg answer_stable [OF assms(5)] show ?thesis
    by (auto simp: matched_def reply_of_dispatch)
qed

definition dispatched :: "string \<Rightarrow> nat \<Rightarrow> instant \<Rightarrow> lane_spec list \<Rightarrow> instant \<Rightarrow> dispatcher \<Rightarrow> bool" where
  "dispatched k R t0 specs now d \<longleftrightarrow> t0 \<le> now \<and> (\<exists>ys. sorted (t0 # map fst ys) \<and>
     (\<forall>y \<in> set ys. fst y \<le> now \<and> disp_op_keeps k R (snd y)) \<and>
     run_timed disp_exec ys (new_dispatcher t0 (new_pool t0 specs)) = Some d)"

lemma dispatched_later: "dispatched k R t0 specs t d \<Longrightarrow> t \<le> now \<Longrightarrow> dispatched k R t0 specs now d"
  unfolding dispatched_def by (meson order_trans)

lemma dispatched_run:
  assumes "dispatched k R t0 specs now d" "\<forall>y \<in> set zs. fst y = now \<and> disp_op_keeps k R (snd y)"
    and "run_timed disp_exec zs d = Some d'"
  shows "dispatched k R t0 specs now d'"
proof -
  obtain ys where ys: "sorted (t0 # map fst ys)" "\<forall>y \<in> set ys. fst y \<le> now \<and> disp_op_keeps k R (snd y)"
    "run_timed disp_exec ys (new_dispatcher t0 (new_pool t0 specs)) = Some d" "t0 \<le> now"
    using assms(1) by (auto simp: dispatched_def)
  have "sorted (map fst zs)"
    using assms(2) by (induction zs) auto
  with ys assms(2,3) show ?thesis
    unfolding dispatched_def by (intro conjI exI [of _ "ys @ zs"]) (auto simp: run_timed_append sorted_append)
qed

lemma client_side_keeps: "client_side x \<Longrightarrow> disp_op_keeps k R x"
  by (cases x) auto

lemma dispatched_traced:
  assumes "dispatched k R t0 specs now d" "traced now d w"
  shows "dispatched k R t0 specs now (gw_dispatch (snd w))"
proof -
  obtain ys where "\<forall>y \<in> set ys. fst y = now \<and> client_side (snd y)" "run_timed disp_exec ys d = Some (gw_dispatch (snd w))"
    using assms(2) by (auto simp: traced_def)
  then show ?thesis
    using dispatched_run [OF assms(1), of ys] client_side_keeps by blast
qed

lemma traced_done: "traced now d w \<Longrightarrow> \<exists>e. ds_done (gw_dispatch (snd w)) = ds_done d @ e"
  using run_done by (auto simp: traced_def)

fun op_keeps :: "string \<Rightarrow> nat \<Rightarrow> server_op \<Rightarrow> bool" where
  "op_keeps k R (Reconfigure cfg specs setup) = keeps_key k R specs"
| "op_keeps k R _ = True"

definition wire_inv :: "string \<Rightarrow> nat \<Rightarrow> instant \<Rightarrow> lane_spec list \<Rightarrow> instant \<Rightarrow> server \<Rightarrow> bool" where
  "wire_inv k R t0 specs now s \<longleftrightarrow> dispatched k R t0 specs now (gw_dispatch (snd s)) \<and> matched (snd s) \<and> channels_apart s"

lemma wire_dispatch:
  assumes "wire_inv k R t0 specs now (ts, g)" "disp_exec now x (gw_dispatch g) = Some (gw_dispatch g')" "disp_op_keeps k R x"
    and "gw_sends g' = gw_sends g" "gw_replies g' = gw_replies g"
  shows "wire_inv k R t0 specs now (ts, g')"
  using assms dispatched_run [of k R t0 specs now "gw_dispatch g" "[(now, x)]"] disp_exec_done [OF assms(2)]
    matched_later [of g g'] by (auto simp: wire_inv_def channels_apart_def)

lemma wire_same:
  assumes "gw_dispatch g' = gw_dispatch g" "gw_sends g' = gw_sends g" "gw_replies g' = gw_replies g"
  shows "wire_inv k R t0 specs now (ts, g') = wire_inv k R t0 specs now (ts, g)"
  by (simp add: wire_inv_def matched_def channels_apart_def reply_of_dispatch assms)

interpretation wire_machine: timed_machine "server_exec wr" "op_keeps k R" "wire_inv k R t0 specs" for wr k R t0 specs
proof (unfold_locales, goal_cases)
  case (1 t s now x s')
  obtain ts g where s: "s = (ts, g)" by (rule prod.exhaust)
  with 1(1,2) have inv: "dispatched k R t0 specs now (gw_dispatch g)" "matched g" "channels_apart (ts, g)"
    by (auto simp: wire_inv_def intro: dispatched_later)
  then have winv: "wire_inv k R t0 specs now (ts, g)" by (simp add: wire_inv_def)
  show ?case
  proof (cases x)
    case (Arrive tid req)
    with 1(4) s obtain t' g' where h: "handle wr now tid req g = Some (t', g')" "s' = (ts(tid \<mapsto> t'), g')"
      by (auto split: if_splits option.splits)
    have tr: "traced now (gw_dispatch g) (t', g')"
      by (rule trace_frame.handle [OF traced_refl h(1)])
    then obtain e where e: "ds_done (gw_dispatch g') = ds_done (gw_dispatch g) @ e" using traced_done by fastforce
    note f = handle_uses [OF h(1)]
    have "matched g'" using matched_later [OF inv(2) e] f by (simp add: follows_def)
    moreover have "channels_apart (ts(tid \<mapsto> t'), g')" by (rule channels_follow [OF inv(3) f inv(2)]) simp
    ultimately show ?thesis
      using dispatched_traced [OF inv(1) tr] by (simp add: wire_inv_def h(2))
  next
    case (Resume tid ev)
    with 1(4) s obtain u t' g' where h: "ts tid = Some u" "step wr now ev (u, g) = Some (t', g')" "s' = (ts(tid \<mapsto> t'), g')"
      by (auto split: option.splits)
    have tr: "traced now (gw_dispatch g) (t', g')"
      by (rule trace_sends.step [OF traced_refl h(2)])
    then obtain e where e: "ds_done (gw_dispatch g') = ds_done (gw_dispatch g) @ e" using traced_done by fastforce
    from step_uses [OF h(2)] have "matched g' \<and> channels_apart (ts(tid \<mapsto> t'), g')"
    proof
      assume f: "follows (awaits (tk_stage (fst (u, g)))) (gw_replies (snd (u, g))) (gw_sends (snd (u, g))) (t', g')"
      then have "matched g'" using matched_later [OF inv(2) e] by (simp add: follows_def)
      moreover have "channels_apart (ts(tid \<mapsto> t'), g')"
        using channels_follow [OF inv(3) _ inv(2), of "awaits (tk_stage u)" t' g' tid] f h(1) by simp
      ultimately show ?thesis by blast
    next
      assume "new_send (awaits (tk_stage (fst (u, g)))) (u, g) (t', g')"
      then show ?thesis using matched_send [OF inv(2,3) h(1) _ e] channels_send [OF inv(3) _ h(1)] by simp
    qed
    then show ?thesis
      using dispatched_traced [OF inv(1) tr] by (simp add: wire_inv_def h(3))
  next
    case (Turn lag closed)
    then obtain d where d: "poll now (now + lag) closed (gw_dispatch g) = Some d" "s' = (ts, g\<lparr>gw_dispatch := d\<rparr>)"
      using 1(4) s by auto
    show ?thesis unfolding d(2)
      by (rule wire_dispatch [OF winv, of "Poll lag closed"]) (simp_all add: d(1))
  next
    case (Reconfigure cfg specs' pending)
    with 1(3,4) s show ?thesis
      by (auto intro!: wire_dispatch [OF winv, of "Swap specs'"])
  next
    case (Flush injection)
    then obtain g' where "s' = (ts, g')" "gw_dispatch g' = gw_dispatch g" "gw_sends g' = gw_sends g" "gw_replies g' = gw_replies g"
      using 1(4) s by (auto split: if_splits)
    with winv show ?thesis by (simp add: wire_same [of g' g])
  qed
next
  case (2 t s now)
  then show ?case by (auto simp: wire_inv_def intro: dispatched_later)
qed

lemma matched_count:
  assumes "distinct (map f xs)" "\<And>x. x \<in> set xs \<Longrightarrow> map_of (map (\<lambda>d. (a d, b d)) ds) (f x) = Some (h x)"
  shows "length (filter (\<lambda>x. P (h x)) xs) \<le> length (filter (\<lambda>d. P (b d)) ds)"
  using assms
proof (induction ds arbitrary: xs)
  case Nil
  then show ?case by (cases xs) auto
next
  case (Cons d ds)
  let ?here = "filter (\<lambda>x. f x = a d) xs" and ?rest = "filter (\<lambda>x. f x \<noteq> a d) xs"
  have "length ?here \<le> 1"
  proof (rule ccontr)
    assume "\<not> length ?here \<le> 1"
    then obtain x y zs where h: "?here = x # y # zs" by (cases ?here; cases "tl ?here") auto
    then have "set (x # y # zs) = {x \<in> set xs. f x = a d}" by (metis set_filter)
    then have "f x = a d" "f y = a d" by auto
    moreover have "distinct (map f ?here)" using Cons.prems(1) by (rule distinct_map_filter)
    ultimately show False by (simp add: h)
  qed
  moreover have "h x = b d" if "x \<in> set ?here" for x using Cons.prems(2) [of x] that by simp
  ultimately have "length (filter (\<lambda>x. P (h x)) ?here) \<le> (if P (b d) then 1 else 0)"
    by (cases ?here) auto
  moreover have "length (filter (\<lambda>x. P (h x)) ?rest) \<le> length (filter (\<lambda>d. P (b d)) ds)"
  proof (rule Cons.IH)
    show "distinct (map f ?rest)" using Cons.prems(1) by (rule distinct_map_filter)
  qed (use Cons.prems(2) in \<open>fastforce split: if_splits\<close>)
  moreover have "length (filter (\<lambda>x. P (h x)) xs) =
      length (filter (\<lambda>x. P (h x)) ?here) + length (filter (\<lambda>x. P (h x)) ?rest)"
    using sum_length_filter_compl [of "\<lambda>x. f x = a d" "filter (\<lambda>x. P (h x)) xs"] by (simp add: conj_commute)
  ultimately show ?case by (simp split: if_splits)
qed

lemma deliveries_filter:
  "length (filter P (deliveries d)) =
     length (filter (\<lambda>x. case delivery x of None \<Rightarrow> False | Some y \<Rightarrow> P y) (ds_done d))"
proof -
  have "length (filter P (List.map_filter delivery xs)) =
      length (filter (\<lambda>x. case delivery x of None \<Rightarrow> False | Some y \<Rightarrow> P y) xs)" for xs
    by (induction xs) (auto simp: map_filter_simps split: option.split)
  then show ?thesis by (simp add: deliveries_def)
qed

definition outcome_counts :: "(string \<Rightarrow> instant \<Rightarrow> bool) \<Rightarrow> outcome \<Rightarrow> bool" where
  "outcome_counts Q out = (case out of Delivered sl stamp \<Rightarrow> Q (sl_key sl) stamp | _ \<Rightarrow> False)"

lemma sends_within_deliveries:
  assumes "matched g"
  shows "length (filter (\<lambda>lg. Q (sl_key (lg_slot lg)) (lg_stamp lg)) (gw_sends g)) \<le>
    length (filter (\<lambda>(t, stamp, sl). Q (sl_key sl) stamp) (deliveries (gw_dispatch g)))"
proof -
  let ?h = "\<lambda>lg. Delivered (lg_slot lg) (lg_stamp lg)"
  have "length (filter (\<lambda>lg. outcome_counts Q (?h lg)) (gw_sends g)) \<le>
      length (filter (\<lambda>d. outcome_counts Q (snd (snd d))) (ds_done (gw_dispatch g)))"
  proof (rule matched_count [where f = lg_reply and a = "\<lambda>d. wt_reply (fst (snd d))" and b = "\<lambda>d. snd (snd d)"
        and h = ?h and P = "outcome_counts Q"])
    show "distinct (map lg_reply (gw_sends g))" using assms by (simp add: matched_def)
    fix lg assume "lg \<in> set (gw_sends g)"
    then have "reply_of (lg_reply lg) g = Some (?h lg)" using assms by (simp add: matched_def)
    moreover have "map (\<lambda>d. (wt_reply (fst (snd d)), snd (snd d))) (ds_done (gw_dispatch g)) =
        map (\<lambda>(t, wt, out). (wt_reply wt, out)) (ds_done (gw_dispatch g))"
      by (rule map_cong) auto
    ultimately show "map_of (map (\<lambda>d. (wt_reply (fst (snd d)), snd (snd d))) (ds_done (gw_dispatch g))) (lg_reply lg) = Some (?h lg)"
      by (simp only: reply_of_def)
  qed
  moreover have "(case delivery x of None \<Rightarrow> False | Some (t, stamp, sl) \<Rightarrow> Q (sl_key sl) stamp) = outcome_counts Q (snd (snd x))" for x
    by (cases x rule: delivery.cases) (simp_all add: outcome_counts_def)
  ultimately show ?thesis by (simp add: deliveries_filter outcome_counts_def)
qed

subsection \<open>Calls are made of their slot and their request\<close>

definition honest_body :: "wire \<Rightarrow> http_request \<Rightarrow> slot \<Rightarrow> bytes \<Rightarrow> bool" where
  "honest_body wr req sl body \<longleftrightarrow> body = hr_body req \<or> sl_stream_options sl \<and>
     (\<exists>v. wr_parse wr (hr_body req) = Some v \<and> wants_stream (Some v) \<and> injectable v \<and> body = wr_render wr (inject_usage v))"

definition honest_log :: "wire \<Rightarrow> call_log \<Rightarrow> bool" where
  "honest_log wr lg \<longleftrightarrow> lg_call lg = fetch_models (lg_slot lg) \<or>
     (\<exists>body. lg_call lg = upstream_request (lg_request lg) (lg_slot lg) body \<and>
        honest_body wr (lg_request lg) (lg_slot lg) body)"

definition honest_task :: "wire \<Rightarrow> task \<Rightarrow> bool" where
  "honest_task wr t \<longleftrightarrow> (case tk_fallback t of
     None \<Rightarrow> tk_body t = hr_body (tk_request t)
   | Some b \<Rightarrow> b = hr_body (tk_request t) \<and> tk_streaming t \<and>
       (\<exists>v. wr_parse wr b = Some v \<and> wants_stream (Some v) \<and> injectable v \<and> tk_body t = wr_render wr (inject_usage v)))"

definition honest :: "wire \<Rightarrow> work \<Rightarrow> bool" where
  "honest wr w \<longleftrightarrow> honest_task wr (fst w) \<and> (\<forall>lg \<in> set (gw_sends (snd w)). honest_log wr lg)"

interpretation honest_frame: task_frame "honest wr" now for wr now
  by unfold_locales
    (auto simp: honest_def honest_task_def set_stage_def put_frame_def record_request_def account_def with_governor_def
      join_queue_def Let_def enter_cooldown_def use_fallback_def split: option.splits)

interpretation honest_sends: sending_frame "honest wr" now for wr now
proof (unfold_locales, goal_cases)
  case (1 w r sl stamp call)
  then have "honest_log wr \<lparr>lg_reply = r, lg_stamp = stamp, lg_slot = sl, lg_request = tk_request (fst w), lg_call = call\<rparr>"
    by (auto simp: honest_log_def honest_def honest_task_def honest_body_def split: option.splits)
  with 1(1) show ?case by (simp add: honest_def honest_task_def send_upstream_def)
qed

lemma wants_usageD: "wants_usage cfg req ni m v \<Longrightarrow> wants_stream (Some v)"
  by (simp add: wants_usage_def)

lemma forward_honest:
  assumes "honest wr (t, g)" "tk_fallback t = None" "forward wr now v (t, g) = Some w" "v = wr_parse wr (hr_body (tk_request t))"
  shows "honest wr w"
proof -
  have body: "tk_body t = hr_body (tk_request t)" "\<forall>lg \<in> set (gw_sends g). honest_log wr lg"
    using assms(1,2) by (simp_all add: honest_def honest_task_def)
  then have "honest wr (t\<lparr>tk_prefer := a, tk_streaming := b, tk_wait_deadline := c, tk_prompt_estimate := d\<rparr>, g)"
    "v = Some u \<Longrightarrow> wants_usage cfg req ni m u \<Longrightarrow> honest wr (t\<lparr>tk_prefer := a, tk_streaming := True, tk_wait_deadline := c,
       tk_prompt_estimate := d, tk_body := wr_render wr (inject_usage u), tk_fallback := Some (tk_body t)\<rparr>, g)"
    for a b c d u cfg req ni m
    using assms(2,4) by (auto simp: honest_def honest_task_def wants_usage_def)
  with assms(3) show ?thesis
    by (auto simp: forward_def Let_def wants_usageD split: option.splits if_splits
        intro!: honest_frame.stage honest_frame.turn dest: wants_usageD)
qed

lemma routed_honest:
  assumes "honest wr (t, g)" "tk_fallback t = None" "routed wr now v (t, g) = Some w" "v = wr_parse wr (hr_body (tk_request t))"
  shows "honest wr w"
proof -
  have "honest wr (t\<lparr>tk_allowed := gs\<rparr>, g)" for gs
    using assms(1,2) by (simp add: honest_def honest_task_def)
  from forward_honest [OF this] assms show ?thesis
    by (auto simp: routed_def Let_def honest_frame.prims split: option.splits if_splits list.splits)
qed

lemma handle_honest:
  assumes "\<forall>lg \<in> set (gw_sends g). honest_log wr lg" "handle wr now tid req g = Some w"
  shows "honest wr w"
proof -
  have "honest wr (new_task tid cfg req s, g\<lparr>gw_inflight := n\<rparr>)" "honest wr (new_task tid cfg req s, g)"
    "honest wr ((new_task tid cfg req s)\<lparr>tk_client := a, tk_model := b, tk_path := c, tk_deadline := d\<rparr>,
       g\<lparr>gw_inflight := n, gw_labels := l\<rparr>)" for cfg s n a b c d l
    using assms(1) by (simp_all add: honest_def honest_task_def new_task_def)
  with assms(2) show ?thesis
    by (auto simp: handle_def Let_def honest_frame.prims new_task_def split: if_splits option.splits sum.splits prod.splits
        intro: routed_honest [rotated 2])
qed

definition all_honest :: "wire \<Rightarrow> server \<Rightarrow> bool" where
  "all_honest wr s \<longleftrightarrow> (\<forall>lg \<in> set (gw_sends (snd s)). honest_log wr lg) \<and> (\<forall>t \<in> ran (fst s). honest_task wr t)"

interpretation honest_machine: timed_machine "server_exec wr" "\<lambda>_. True" "\<lambda>_. all_honest wr" for wr
proof (unfold_locales, goal_cases)
  case (1 t s now x s')
  obtain ts g where s: "s = (ts, g)" by (rule prod.exhaust)
  have upd: "all_honest wr (ts(i \<mapsto> t'), g')" if "honest wr (t', g')" for i t' g'
    using that 1(1) by (auto simp: all_honest_def honest_def s ran_def)
  show ?case
  proof (cases x)
    case (Arrive tid req)
    with 1(4) s obtain t' g' where h: "handle wr now tid req g = Some (t', g')" "s' = (ts(tid \<mapsto> t'), g')"
      by (auto split: if_splits option.splits)
    have "\<forall>lg \<in> set (gw_sends g). honest_log wr lg" using 1(1) by (simp add: all_honest_def s)
    from upd [OF handle_honest [OF this h(1)]] show ?thesis by (simp add: h(2))
  next
    case (Resume tid ev)
    with 1(4) s obtain u t' g' where h: "ts tid = Some u" "step wr now ev (u, g) = Some (t', g')" "s' = (ts(tid \<mapsto> t'), g')"
      by (auto split: option.splits)
    have "honest wr (u, g)" using 1(1) h(1) by (auto simp: all_honest_def honest_def s ranI)
    from honest_sends.step [OF this h(2)] upd show ?thesis by (simp add: h(3))
  qed (use 1 s in \<open>auto simp: all_honest_def split: if_splits\<close>)
qed

subsection \<open>Properties\<close>

lemma wire_inv_run:
  assumes "keeps_key k R specs" "sorted (t0 # map fst xs)" "\<forall>x \<in> set xs. op_keeps k R (snd x)"
    and "run_timed (server_exec wr) xs (Map.empty, new_gateway t0 cfg specs setup) = Some (ts, g)"
  shows "\<exists>now. wire_inv k R t0 specs now (ts, g)"
proof -
  have "wire_inv k R t0 specs t0 (Map.empty, new_gateway t0 cfg specs setup)"
    by (auto simp: wire_inv_def dispatched_def matched_def channels_apart_def new_gateway_def intro!: exI [of _ "[]"])
  from wire_machine.inv_run [OF this assms(2-4)] show ?thesis by blast
qed

lemma calls_within_budget:
  assumes "keeps_key k R specs" "sorted (t0 # map fst xs)" "\<forall>x \<in> set xs. op_keeps k R (snd x)"
    and "run_timed (server_exec wr) xs (Map.empty, new_gateway t0 cfg specs setup) = Some (ts, g)"
  shows "length (filter (\<lambda>lg. sl_key (lg_slot lg) = k \<and> lg_stamp lg \<le> T \<and> T < lg_stamp lg + WINDOW) (gw_sends g)) \<le> R"
proof -
  obtain now where inv: "wire_inv k R t0 specs now (ts, g)"
    using wire_inv_run [OF assms] by blast
  then obtain ys where ys: "sorted (t0 # map fst ys)" "\<forall>y \<in> set ys. disp_op_keeps k R (snd y)"
    "run_timed disp_exec ys (new_dispatcher t0 (new_pool t0 specs)) = Some (gw_dispatch g)"
    by (auto simp: wire_inv_def dispatched_def)
  from inv have "matched g" by (simp add: wire_inv_def)
  note sends_within_deliveries [OF this, of "\<lambda>key stamp. key = k \<and> stamp \<le> T \<and> T < stamp + WINDOW"]
  also note deliveries_within_budget [OF assms(1) ys, of T]
  finally show ?thesis .
qed

lemma all_honest_run:
  assumes "sorted (t0 # map fst xs)"
    and "run_timed (server_exec wr) xs (Map.empty, new_gateway t0 cfg specs setup) = Some (ts, g)"
  shows "all_honest wr (ts, g)"
proof -
  have "all_honest wr (Map.empty, new_gateway t0 cfg specs setup)"
    by (simp add: all_honest_def new_gateway_def)
  from honest_machine.inv_run [OF this assms(1) _ assms(2)] show ?thesis by simp
qed

lemma injectableD: "injectable v \<Longrightarrow> get ''stream_options'' v = None"
  by (cases v) (simp_all add: injectable_def)



subsection \<open>Who pays for an upstream failure\<close>

interpretation calm: calm_frame "\<lambda>w. ds_pools (gw_dispatch (snd w)) = P" now for P now
  by unfold_locales
    (auto simp: set_stage_def put_frame_def record_request_def account_def with_governor_def join_queue_def Let_def
      acquire_filtered_def use_fallback_def split: option.split)

definition cooled :: "instant \<Rightarrow> slot \<Rightarrow> duration \<Rightarrow> pool list \<Rightarrow> pool list \<Rightarrow> bool" where
  "cooled now sl backoff ps ps' \<longleftrightarrow>
     (\<exists>q. penalize (ps ! sl_pool sl) now (sl_lane sl) backoff = Some q \<and> ps' = ps[sl_pool sl := q])"

fun cool_cause :: "stage \<Rightarrow> event \<Rightarrow> (slot \<times> duration) option" where
  "cool_cause (Exchanging sl) Connect_failed = Some (sl, secs 5)"
| "cool_cause (Sniffing sl status backoff) (Text detail taken) =
     (if is_worker_exhausted detail then None else Some (sl, backoff))"
| "cool_cause (Fetching which sl deadline rest hits err) (Catalog_reply status retry_after body) =
     (if retryable status \<and> \<not> success status then Some (sl, backoff_for retry_after) else None)"
| "cool_cause _ _ = None"

lemma cooldown_cooled:
  "enter_cooldown now sl backoff w = Some w' \<Longrightarrow>
   cooled now sl backoff (ds_pools (gw_dispatch (snd w))) (ds_pools (gw_dispatch (snd w')))"
  by (auto simp: enter_cooldown_def penalize_slot_def cooled_def split: if_splits)

lemmas calm_eqs = calm.steps [OF refl] calm.ask_next [OF refl]

lemma calm_sniffed:
  assumes "sniffed wr now sl backoff detail taken w = Some w'" "blame now sl backoff detail w = Some v"
  shows "ds_pools (gw_dispatch (snd w')) = ds_pools (gw_dispatch (snd v))"
  using assms by (auto simp: sniffed_def calm_eqs split: if_splits)

lemma step_cools:
  assumes "step wr now ev w = Some w'"
  shows "case cool_cause (tk_stage (fst w)) ev of
      None \<Rightarrow> ds_pools (gw_dispatch (snd w')) = ds_pools (gw_dispatch (snd w))
    | Some (sl, backoff) \<Rightarrow> cooled now sl backoff (ds_pools (gw_dispatch (snd w))) (ds_pools (gw_dispatch (snd w')))"
proof -
  show ?thesis
  proof (cases "tk_stage (fst w)")
    case (Exchanging sl)
    then show ?thesis
      using assms
      by (cases ev) (auto simp: step_def Let_def connect_failed_def calm_eqs split: option.splits if_splits dest: cooldown_cooled)
  next
    case (Sniffing sl status backoff)
    then show ?thesis
    proof (cases "\<exists>detail taken. ev = Text detail taken")
      case True
      then obtain detail taken v where ev: "ev = Text detail taken" "blame now sl backoff detail w = Some v"
        "sniffed wr now sl backoff detail taken w = Some w'"
        using assms Sniffing by (auto simp: step_def Let_def sniffed_def split: option.splits)
      from ev(2) calm_sniffed [OF ev(3,2)] show ?thesis
        by (auto simp: Sniffing ev(1) blame_def with_governor_def split: if_splits dest: cooldown_cooled)
    qed (use assms Sniffing in \<open>cases ev; auto simp: step_def Let_def calm_eqs split: option.splits if_splits\<close>)
  next
    case (Fetching which sl deadline rest hits err)
    then show ?thesis
      using assms
      by (cases ev) (auto simp: step_def Let_def catalog_fetched_def calm_eqs split: option.splits if_splits dest: cooldown_cooled)
  next
    case (Queued r)
    then show ?thesis
      using assms
      by (cases ev) (auto simp: step_def Let_def calm_eqs slot_ready_def exchange_def offer_heartbeat_def set_stage_def
          send_upstream_def use_fallback_def put_frame_def split: option.splits if_splits outcome.splits)
  next
    case (Cataloguing which r deadline rest hits err)
    then show ?thesis
      using assms
      by (cases ev) (auto simp: step_def Let_def catalog_slot_def calm_eqs set_stage_def
          send_upstream_def split: option.splits if_splits outcome.splits)
  qed (use assms in \<open>cases ev; auto simp: step_def Let_def calm_eqs split: option.splits if_splits\<close>)+
qed

definition blocked_until :: "string \<Rightarrow> work \<Rightarrow> instant option" where
  "blocked_until m w = ms_blocked_until (entry (gw_governor (snd w)) m)"

lemma blocked_prims:
  "blocked_until m (set_stage s w) = blocked_until m w" "blocked_until m (put_frame b w) = blocked_until m w"
  "blocked_until m (record_request st w) = blocked_until m w" "blocked_until m (drop_permit w) = blocked_until m w"
  "blocked_until m (leave_with s w) = blocked_until m w" "blocked_until m (reserve_slot w) = blocked_until m w"
  "blocked_until m (hold_permit w) = blocked_until m w"
  by (auto simp: blocked_until_def set_stage_def put_frame_def record_request_def drop_permit_def leave_with_def Let_def
      reserve_slot_def join_queue_def hold_permit_def gov_release_entry)

lemma blocked_turn: "blocked_until m (next_turn wr now w) = blocked_until m w"
proof -
  obtain gv ok where a: "admit_at (tk_model (fst (drop_permit w))) (pinned (fst (drop_permit w))) now
      (gw_governor (snd (drop_permit w))) = (gv, ok)" by (rule prod.exhaust)
  have "blocked_until m (with_governor gv (drop_permit w)) = blocked_until m (drop_permit w)"
    by (simp add: blocked_until_def with_governor_def admit_at_entry [OF a])
  then show ?thesis
    by (simp add: next_turn_def start_turn_def try_permit_def a blocked_prims timed_out_def Let_def)
qed


text \<open>
  A failed connection is retried whatever the time: the wait deadline is looked at only while no lane is
  ready, so with lanes that become ready again the request goes on past it.
\<close>

lemma connect_failure_ignores_deadline:
  assumes "step wr now Connect_failed w = Some w'" "tk_stage (fst w) = Exchanging sl" "\<not> gated (fst w)"
  shows "tk_stage (fst w') = Queued (gw_replies (snd w))"
proof -
  obtain v where v: "enter_cooldown now sl (secs 5) w = Some v" "w' = next_turn wr now v"
    using assms(1,2) by (auto simp: step_def Let_def connect_failed_def)
  then have "fst v = fst w" "gw_replies (snd v) = gw_replies (snd w)" by (auto simp: enter_cooldown_def)
  with assms(3) v(2) show ?thesis
    by (auto simp: next_turn_def drop_permit_def start_turn_def gated_def reserve_slot_def join_queue_def Let_def set_stage_def)
qed

text \<open>
  C4: nothing leaks. In every run of the server - requests arriving, waiting, streaming, failing,
  timing out, hanging up in any order, among dispatcher turns and settings changes - the in-flight
  counter is the number of requests not yet over and never above the largest cap ever configured; and
  for every model the governor's count is the number of requests that hold its permit, none of which
  is over.
\<close>

theorem requests_are_accounted:
  assumes "run_timed (server_exec wr) xs (Map.empty, new_gateway t0 cfg specs setup) = Some (ts, g)"
    and "sorted (t0 # map fst xs)" "cf_max_inflight cfg \<le> M" "\<forall>x \<in> set xs. caps_within M (snd x)"
  shows "gw_inflight g = card {i. \<exists>t. ts i = Some t \<and> \<not> finished (tk_stage t)} \<and> gw_inflight g \<le> M \<and>
    (\<forall>m. ms_inflight (entry (gw_governor g) m) = card {i. \<exists>t. ts i = Some t \<and> tk_permit t \<and> tk_model t = m}) \<and>
    (\<forall>i t. ts i = Some t \<longrightarrow> finished (tk_stage t) \<longrightarrow> \<not> tk_permit t)"
proof -
  have "within_cap M (Map.empty, new_gateway t0 cfg specs setup)"
    using assms(3) by (simp add: within_cap_def accounts_def new_gateway_def permits_def default_state_def)
  from cap_machine.inv_run [OF this assms(2,4,1)] have "accounts (ts, g)" "gw_inflight g \<le> M"
    by (simp_all add: within_cap_def)
  moreover from this(1) have "\<forall>i t. ts i = Some t \<longrightarrow> finished (tk_stage t) \<longrightarrow> \<not> tk_permit t"
    using finished_bare by (auto simp: accounts_def)
  ultimately show ?thesis
    using accounts_counts [of ts g] by (simp add: permits_def)
qed

subsection \<open>The properties at a concrete run\<close>

definition demo_wire :: wire where
  "demo_wire = \<lparr>wr_parse = (\<lambda>_. None), wr_render = (\<lambda>_. ''{}''), wr_pct = (\<lambda>s. s), wr_sha = (\<lambda>b. b),
     wr_hash = (\<lambda>_. 0), wr_status_text = (\<lambda>_. ''status''), wr_last_instant = 0\<rparr>"

definition demo_request :: http_request where
  "demo_request = \<lparr>hr_method = ''POST'', hr_path = ''/v1/rankings'', hr_path_query = ''/v1/rankings'',
     hr_headers = \<lparr>hd_cookie = None, hd_authorization = None, hd_accept = None, hd_forwarded_proto = None\<rparr>,
     hr_content_type = None, hr_deadline = [], hr_body = ''text''\<rparr>"

definition demo_cfg :: runtime_config where
  "demo_cfg = \<lparr>cf_base_url = ''u'', cf_endpoints = [\<lparr>er_name = ''nvidia'', er_base_url = ''u'', er_enabled = True, er_models = []\<rparr>],
     cf_disabled_models = [], cf_max_wait = secs 60, cf_heartbeat = secs 5, cf_models_ttl = secs 60, cf_stream_idle = 0,
     cf_request_timeout = secs 60, cf_strict_passthrough = False, cf_clients = None, cf_max_inflight = 4,
     cf_governor_enabled = False, cf_governor_overrides = []\<rparr>"

definition demo_ops :: "(instant \<times> server_op) list" where
  "demo_ops = [(1, Arrive 7 demo_request), (2, Turn 0 False), (3, Turn 0 False), (4, Resume 7 Slot_resolved)]"

definition demo_open :: gateway where
  "demo_open = new_gateway 0 demo_cfg [demo_spec ''a'' 1] False"

lemma demo_fields [simp]:
  "wr_parse demo_wire b = None" "hr_body demo_request = ''text''" "hr_deadline demo_request = []"
  "cf_max_inflight demo_cfg = 4" "cf_clients demo_cfg = None" "hr_method demo_request = ''POST''" "\<not> cf_governor_enabled demo_cfg"
  by (simp_all add: demo_wire_def demo_request_def demo_cfg_def)

lemma demo_label: "sanitize_label ''none'' = ''none''"
  by code_simp

lemma demo_model: "raw_model demo_wire demo_request None = ''none''" "label_model ''none'' {} = ({''none''}, ''none'')"
  "label_path (wr_pct demo_wire) (hr_path demo_request) = ''/v1/rankings''" "route_model demo_cfg ''none'' = Some [0]"
  by (simp_all add: raw_model_def per_model_path_id_def str_strip_prefix_def demo_request_def label_model_def
      demo_label bounded_label_def MODEL_LABEL_CAP_def
      label_path_def route_model_def demo_cfg_def del: str_strip_prefix_Some)

lemmas demo_eval = demo_open_def handle_def new_gateway_def client_of_def parse_request_deadline_def demo_model
  routed_def forward_def start_turn_def gated_def reserve_slot_def join_queue_def Let_def
  set_stage_def new_task_def wants_stream_def

lemma demo_arrives:
  "\<exists>t g. handle demo_wire 1 7 demo_request demo_open = Some (t, g) \<and>
     tk_stage t = Queued 0 \<and> gw_sends g = [] \<and> tk_request t = demo_request \<and> \<not> tk_streaming t \<and>
     gw_dispatch g = acquire_filtered 0 (1 + secs 60) None (Some [0]) (new_dispatcher 0 (new_pool 0 [demo_spec ''a'' 1]))"
  by (simp add: demo_eval) (simp add: demo_cfg_def)

lemma demo_delivers:
  "\<exists>d sl. run_timed disp_exec [(2, Poll 0 False), (3, Poll 0 False)]
     (acquire_filtered 0 (1 + secs 60) None (Some [0]) (new_dispatcher 0 (new_pool 0 [demo_spec ''a'' 1]))) = Some d \<and>
     answer_of 0 d = Some (Delivered sl 2)"
  by (simp add: demo_simps acquire_filtered_def new_dispatcher_def poll_def serve_def Let_def set_pool_def send_slot_def
      lane_endpoint_def answer_of_def GRANT_GAP_def)

lemma demo_run_end:
  "\<exists>ts g. run_timed (server_exec demo_wire) demo_ops (Map.empty, demo_open) = Some (ts, g) \<and> length (gw_sends g) = 1"
proof -
  obtain t g where a: "handle demo_wire 1 7 demo_request demo_open = Some (t, g)"
    "tk_stage t = Queued 0" "gw_sends g = []" "\<not> tk_streaming t"
    "gw_dispatch g = acquire_filtered 0 (1 + secs 60) None (Some [0]) (new_dispatcher 0 (new_pool 0 [demo_spec ''a'' 1]))"
    using demo_arrives by blast
  obtain d1 d sl where d: "poll 2 2 False (gw_dispatch g) = Some d1" "poll 3 3 False d1 = Some d"
    "answer_of 0 d = Some (Delivered sl 2)"
    using demo_delivers by (auto simp: a(5) split: option.splits)
  have "step demo_wire 4 Slot_resolved (t, g\<lparr>gw_dispatch := d\<rparr>) = Some (exchange 0 2 sl (t, g\<lparr>gw_dispatch := d\<rparr>))"
    using a(2) d(3) by (simp add: step_def Let_def slot_ready_def reply_of_dispatch)
  moreover obtain t' g' where e: "exchange 0 2 sl (t, g\<lparr>gw_dispatch := d\<rparr>) = (t', g')" by (rule prod.exhaust)
  moreover have "length (gw_sends g') = 1"
    using e a(3,4) by (auto simp: exchange_def Let_def set_stage_def send_upstream_def)
  ultimately show ?thesis
    using a(1) d(1,2) by (simp add: demo_ops_def)
qed

lemma demo_keeps: "keeps_key ''a'' 1 [demo_spec ''a'' 1]" "sorted (0 # map fst demo_ops)" "\<forall>x \<in> set demo_ops. op_keeps ''a'' 1 (snd x)"
  "\<forall>x \<in> set demo_ops. caps_within 4 (snd x)"
  by (simp_all add: keeps_key_def demo_spec_def demo_ops_def)



theorem requests_are_accounted_witness:
  "\<exists>ts g. run_timed (server_exec demo_wire) demo_ops (Map.empty, demo_open) = Some (ts, g) \<and>
     gw_inflight g = card {i. \<exists>t. ts i = Some t \<and> \<not> finished (tk_stage t)} \<and> gw_inflight g \<le> 4"
proof -
  obtain ts g where run: "run_timed (server_exec demo_wire) demo_ops (Map.empty, demo_open) = Some (ts, g)"
    using demo_run_end by blast
  from requests_are_accounted [OF run [unfolded demo_open_def] demo_keeps(2) _ demo_keeps(4)] run show ?thesis by auto
qed


text \<open>
  The rulebook accepts a concurrency override for a model id of up to 128 bytes, while the governor is
  asked about the label, of at most 64: a longer override is never looked up.
\<close>

lemma long_override_is_dead: "64 < length m \<Longrightarrow> snd (label_model raw seen) \<noteq> m"
  using sanitize_label_safe [of raw] by (auto simp: label_model_def bounded_label_def)

end
