(* ===== verification/History_Codec.thy ===== *)
theory History_Codec
  imports Auth "HOL-Library.Product_Lexorder"
begin

section \<open>History records and their lines (src/history/codec.rs)\<close>

text \<open>
  The records of the canonical history file and their one-line JSON form. The field structure
  (which fields, in which order, with which defaults and checks) is the source's and is translated;
  the text of JSON is \<open>serde_json\<close>'s and a parameter: \<open>sd_write\<close> prints a value on one line,
  \<open>sd_record\<close> reads a line with the derived deserializer of the raw record, \<open>sd_value\<close> reads it as a
  plain value. What is assumed of it is assumed line by line, as \<open>reads_back\<close>.
\<close>

subsection \<open>Records\<close>

definition FORMAT :: string where "FORMAT = ''nimproxy-history''"
definition VERSION :: nat where "VERSION = 1"

record capacity =
  cp_capacity_rpm :: nat
  cp_enabled_keys :: nat
  cp_key_rpms :: "nat list"

datatype state_kind = Counter_kind | Gauge_kind

type_synonym metric_labels = "string btree"

record state_entry =
  se_kind :: state_kind
  se_metric :: string
  se_labels :: metric_labels
  se_value :: f64

record boot_record =
  bo_timestamp :: nat
  bo_boot_id :: string
  bo_capacity :: capacity

record sample_record =
  sa_timestamp :: nat
  sa_boot_id :: string
  sa_capacity :: capacity
  sa_state :: "state_entry list"

record checkpoint_record =
  ch_timestamp :: nat
  ch_boot_id :: string
  ch_capacity :: capacity

datatype history_record =
    Boot boot_record
  | Sample sample_record
  | Checkpoint checkpoint_record

fun record_timestamp :: "history_record \<Rightarrow> nat" where
  "record_timestamp (Boot r) = bo_timestamp r"
| "record_timestamp (Sample r) = sa_timestamp r"
| "record_timestamp (Checkpoint r) = ch_timestamp r"

fun record_boot_id :: "history_record \<Rightarrow> string" where
  "record_boot_id (Boot r) = bo_boot_id r"
| "record_boot_id (Sample r) = sa_boot_id r"
| "record_boot_id (Checkpoint r) = ch_boot_id r"

fun is_boot :: "history_record \<Rightarrow> bool" where
  "is_boot (Boot _) = True"
| "is_boot _ = False"

datatype decode_error =
    Invalid_utf8
  | Invalid_json
  | Unsupported_format
  | Unsupported_version
  | Invalid_record
  | Invalid_record_kind
  | Invalid_state
  | Duplicate_series

fun diagnostic :: "decode_error \<Rightarrow> string" where
  "diagnostic Invalid_utf8 = ''invalid_utf8''"
| "diagnostic Invalid_json = ''invalid_json''"
| "diagnostic Unsupported_format = ''unsupported_format''"
| "diagnostic Unsupported_version = ''unsupported_version''"
| "diagnostic Invalid_record = ''invalid_record''"
| "diagnostic Invalid_record_kind = ''invalid_record_kind''"
| "diagnostic Invalid_state = ''invalid_state''"
| "diagnostic Duplicate_series = ''duplicate_series''"

datatype encode_error = State_not_finite | Series_repeated

subsection \<open>The raw record\<close>

record raw_entry =
  re_kind :: string
  re_metric :: string
  re_labels :: metric_labels
  re_value :: f64

datatype state_field = State_missing | State_null | State_entries "raw_entry list"

record raw_record =
  rr_format :: string
  rr_v :: nat
  rr_kind :: string
  rr_timestamp :: nat
  rr_boot_id :: string
  rr_capacity :: capacity
  rr_state :: state_field

definition dec_capacity :: "json \<Rightarrow> capacity option" where
  "dec_capacity j = do {
     fs \<leftarrow> dec_fields [''capacity_rpm'', ''enabled_keys'', ''key_rpms''] j;
     rpm \<leftarrow> required dec_u64 ''capacity_rpm'' fs;
     keys \<leftarrow> required dec_u64 ''enabled_keys'' fs;
     rpms \<leftarrow> required (dec_list dec_u64) ''key_rpms'' fs;
     Some \<lparr>cp_capacity_rpm = rpm, cp_enabled_keys = keys, cp_key_rpms = rpms\<rparr>}"

definition dec_raw_entry :: "json \<Rightarrow> raw_entry option" where
  "dec_raw_entry j = do {
     fs \<leftarrow> dec_fields [''kind'', ''metric'', ''labels'', ''value''] j;
     kind \<leftarrow> required as_str ''kind'' fs;
     metric \<leftarrow> required as_str ''metric'' fs;
     labels \<leftarrow> required (dec_btree as_str) ''labels'' fs;
     value \<leftarrow> required dec_f64 ''value'' fs;
     Some \<lparr>re_kind = kind, re_metric = metric, re_labels = labels, re_value = value\<rparr>}"

definition dec_state_field :: "json \<Rightarrow> state_field option" where
  "dec_state_field j =
     map_option (\<lambda>s. case s of None \<Rightarrow> State_null | Some es \<Rightarrow> State_entries es)
       (dec_option (dec_list dec_raw_entry) j)"

definition dec_raw_record :: "json \<Rightarrow> raw_record option" where
  "dec_raw_record j = do {
     fs \<leftarrow> dec_fields [''format'', ''v'', ''kind'', ''timestamp'', ''boot_id'', ''capacity'', ''state''] j;
     format \<leftarrow> required as_str ''format'' fs;
     v \<leftarrow> required dec_u64 ''v'' fs;
     kind \<leftarrow> required as_str ''kind'' fs;
     timestamp \<leftarrow> required dec_u64 ''timestamp'' fs;
     boot_id \<leftarrow> required as_str ''boot_id'' fs;
     capacity \<leftarrow> required dec_capacity ''capacity'' fs;
     state \<leftarrow> defaulted dec_state_field State_missing ''state'' fs;
     Some \<lparr>rr_format = format, rr_v = v, rr_kind = kind, rr_timestamp = timestamp, rr_boot_id = boot_id,
       rr_capacity = capacity, rr_state = state\<rparr>}"

text \<open>
  Reading a line: a value, or an error of one of the classes the code tells apart (end of input, a
  syntax error and whether its message is the one about a number out of range, anything else).
\<close>

datatype 'a serde_read = Got 'a | Eof_error | Syntax_error bool | Data_error

record serde =
  sd_write :: "json \<Rightarrow> bytes"
  sd_record :: "bytes \<Rightarrow> raw_record serde_read"
  sd_value :: "bytes \<Rightarrow> json option"

subsection \<open>Decoding\<close>

type_synonym series_key = "state_kind \<times> string \<times> metric_labels"

definition kind_of_text :: "string \<Rightarrow> state_kind option" where
  "kind_of_text s = (if s = ''counter'' then Some Counter_kind else if s = ''gauge'' then Some Gauge_kind else None)"

fun decode_entries :: "series_key set \<Rightarrow> raw_entry list \<Rightarrow> decode_error + state_entry list" where
  "decode_entries series [] = Ok []"
| "decode_entries series (e # es) =
     (case kind_of_text (re_kind e) of
        None \<Rightarrow> Err Invalid_state
      | Some kind \<Rightarrow>
          if \<not> f64_is_finite (re_value e) then Err Invalid_state
          else if (kind, re_metric e, re_labels e) \<in> series then Err Duplicate_series
          else bind_result (decode_entries (insert (kind, re_metric e, re_labels e) series) es)
            (\<lambda>rest. Ok (\<lparr>se_kind = kind, se_metric = re_metric e, se_labels = re_labels e,
                         se_value = re_value e\<rparr> # rest)))"

definition decode_state :: "raw_entry list \<Rightarrow> decode_error + state_entry list" where
  "decode_state raw = decode_entries {} raw"

definition decode_raw :: "raw_record \<Rightarrow> decode_error + history_record" where
  "decode_raw raw =
     (if rr_format raw \<noteq> FORMAT then Err Unsupported_format
      else if rr_v raw \<noteq> VERSION then Err Unsupported_version
      else if rr_kind raw = ''boot'' \<and> rr_state raw = State_missing then
        Ok (Boot \<lparr>bo_timestamp = rr_timestamp raw, bo_boot_id = rr_boot_id raw, bo_capacity = rr_capacity raw\<rparr>)
      else if rr_kind raw = ''checkpoint'' \<and> rr_state raw = State_missing then
        Ok (Checkpoint \<lparr>ch_timestamp = rr_timestamp raw, ch_boot_id = rr_boot_id raw, ch_capacity = rr_capacity raw\<rparr>)
      else if rr_kind raw = ''sample'' then
        (case rr_state raw of
           State_entries es \<Rightarrow> bind_result (decode_state es) (\<lambda>st.
             Ok (Sample \<lparr>sa_timestamp = rr_timestamp raw, sa_boot_id = rr_boot_id raw,
                         sa_capacity = rr_capacity raw, sa_state = st\<rparr>))
         | _ \<Rightarrow> Err Invalid_record)
      else if rr_kind raw = ''boot'' \<or> rr_kind raw = ''checkpoint'' then Err Invalid_record
      else Err Invalid_record_kind)"

definition decode_record :: "serde \<Rightarrow> bytes \<Rightarrow> decode_error + history_record" where
  "decode_record sd line =
     (if \<not> utf8_valid line then Err Invalid_utf8
      else case sd_record sd line of
             Got raw \<Rightarrow> decode_raw raw
           | Eof_error \<Rightarrow> Err Invalid_json
           | Syntax_error out_of_range \<Rightarrow> if out_of_range then Err Invalid_record else Err Invalid_json
           | Data_error \<Rightarrow> Err Invalid_record)"

subsection \<open>Encoding\<close>

fun kind_text :: "state_kind \<Rightarrow> string" where
  "kind_text Counter_kind = ''counter''"
| "kind_text Gauge_kind = ''gauge''"

definition entry_key :: "state_entry \<Rightarrow> series_key" where
  "entry_key e = (se_kind e, se_metric e, se_labels e)"

definition enc_labels :: "metric_labels \<Rightarrow> json" where
  "enc_labels m = JObject (map (\<lambda>e. (fst e, JString (snd e))) m)"

definition enc_entry :: "state_entry \<Rightarrow> json" where
  "enc_entry e = JObject [(''kind'', JString (kind_text (se_kind e))), (''metric'', JString (se_metric e)),
     (''labels'', enc_labels (se_labels e)), (''value'', enc_f64 (se_value e))]"

fun encode_entries :: "series_key set \<Rightarrow> state_entry list \<Rightarrow> encode_error + json list" where
  "encode_entries series [] = Ok []"
| "encode_entries series (e # es) =
     (if \<not> f64_is_finite (se_value e) then Err State_not_finite
      else if entry_key e \<in> series then Err Series_repeated
      else bind_result (encode_entries (insert (entry_key e) series) es) (\<lambda>rest. Ok (enc_entry e # rest)))"

definition encode_state :: "state_entry list \<Rightarrow> encode_error + json list" where
  "encode_state state = encode_entries {} state"

definition enc_capacity :: "capacity \<Rightarrow> json" where
  "enc_capacity c = JObject [(''capacity_rpm'', JNumber (PosInt (cp_capacity_rpm c))),
     (''enabled_keys'', JNumber (PosInt (cp_enabled_keys c))),
     (''key_rpms'', JArr (map (\<lambda>n. JNumber (PosInt n)) (cp_key_rpms c)))]"

definition enc_header :: "string \<Rightarrow> nat \<Rightarrow> string \<Rightarrow> capacity \<Rightarrow> (string \<times> json) list" where
  "enc_header kind timestamp boot_id cap =
     [(''format'', JString FORMAT), (''v'', JNumber (PosInt VERSION)), (''kind'', JString kind),
      (''timestamp'', JNumber (PosInt timestamp)), (''boot_id'', JString boot_id), (''capacity'', enc_capacity cap)]"

text \<open>The value \<open>serde_json::to_vec\<close> is given for a record.\<close>

fun record_value :: "history_record \<Rightarrow> encode_error + json" where
  "record_value (Boot r) = Ok (JObject (enc_header ''boot'' (bo_timestamp r) (bo_boot_id r) (bo_capacity r)))"
| "record_value (Sample r) = bind_result (encode_state (sa_state r)) (\<lambda>es.
     Ok (JObject (enc_header ''sample'' (sa_timestamp r) (sa_boot_id r) (sa_capacity r) @ [(''state'', JArr es)])))"
| "record_value (Checkpoint r) =
     Ok (JObject (enc_header ''checkpoint'' (ch_timestamp r) (ch_boot_id r) (ch_capacity r)))"

definition encode_record :: "serde \<Rightarrow> history_record \<Rightarrow> encode_error + bytes" where
  "encode_record sd r = bind_result (record_value r) (\<lambda>j. Ok (sd_write sd j))"

subsection \<open>Well-formed records\<close>

text \<open>
  What the types of the source guarantee (integers of 64 bits, label maps in key order), and what
  the codec checks of a state: finite values and no series twice.
\<close>

definition capacity_ok :: "capacity \<Rightarrow> bool" where
  "capacity_ok c \<longleftrightarrow> cp_capacity_rpm c < 2 ^ 64 \<and> cp_enabled_keys c < 2 ^ 64 \<and> list_all (\<lambda>n. n < 2 ^ 64) (cp_key_rpms c)"

definition state_ok :: "state_entry list \<Rightarrow> bool" where
  "state_ok es \<longleftrightarrow> list_all (\<lambda>e. f64_is_finite (se_value e) \<and> bt_wf (se_labels e)) es \<and> distinct (map entry_key es)"

fun record_ok :: "history_record \<Rightarrow> bool" where
  "record_ok (Boot r) \<longleftrightarrow> bo_timestamp r < 2 ^ 64 \<and> capacity_ok (bo_capacity r)"
| "record_ok (Sample r) \<longleftrightarrow> sa_timestamp r < 2 ^ 64 \<and> capacity_ok (sa_capacity r) \<and> state_ok (sa_state r)"
| "record_ok (Checkpoint r) \<longleftrightarrow> ch_timestamp r < 2 ^ 64 \<and> capacity_ok (ch_capacity r)"

definition raw_of_entry :: "state_entry \<Rightarrow> raw_entry" where
  "raw_of_entry e = \<lparr>re_kind = kind_text (se_kind e), re_metric = se_metric e, re_labels = se_labels e, re_value = se_value e\<rparr>"

fun raw_of :: "history_record \<Rightarrow> raw_record" where
  "raw_of (Boot r) = \<lparr>rr_format = FORMAT, rr_v = VERSION, rr_kind = ''boot'', rr_timestamp = bo_timestamp r,
     rr_boot_id = bo_boot_id r, rr_capacity = bo_capacity r, rr_state = State_missing\<rparr>"
| "raw_of (Sample r) = \<lparr>rr_format = FORMAT, rr_v = VERSION, rr_kind = ''sample'', rr_timestamp = sa_timestamp r,
     rr_boot_id = sa_boot_id r, rr_capacity = sa_capacity r, rr_state = State_entries (map raw_of_entry (sa_state r))\<rparr>"
| "raw_of (Checkpoint r) = \<lparr>rr_format = FORMAT, rr_v = VERSION, rr_kind = ''checkpoint'', rr_timestamp = ch_timestamp r,
     rr_boot_id = ch_boot_id r, rr_capacity = ch_capacity r, rr_state = State_missing\<rparr>"

lemma kind_of_text_Some: "kind_of_text s = Some k \<Longrightarrow> kind_text k = s"
  by (auto simp: kind_of_text_def split: if_splits)

lemma raw_of_entry_fields [simp]:
  "re_kind (raw_of_entry e) = kind_text (se_kind e)" "re_metric (raw_of_entry e) = se_metric e"
  "re_labels (raw_of_entry e) = se_labels e" "re_value (raw_of_entry e) = se_value e"
  by (simp_all add: raw_of_entry_def)

lemma entry_key_fold: "(se_kind e, se_metric e, se_labels e) = entry_key e"
  by (simp add: entry_key_def)

lemma raw_entry_eqI:
  "kind_of_text (re_kind r) = Some k \<Longrightarrow>
     r = raw_of_entry \<lparr>se_kind = k, se_metric = re_metric r, se_labels = re_labels r, se_value = re_value r\<rparr>"
  by (cases r) (simp add: raw_of_entry_def kind_of_text_Some)

lemma kind_of_text_text [simp]: "kind_of_text (kind_text k) = Some k"
  by (cases k) (simp_all add: kind_of_text_def)

lemma encode_entries_Ok:
  "list_all (\<lambda>e. f64_is_finite (se_value e)) es \<Longrightarrow> distinct (map entry_key es) \<Longrightarrow> series \<inter> entry_key ` set es = {} \<Longrightarrow>
     encode_entries series es = Ok (map enc_entry es)"
  by (induction series es rule: encode_entries.induct) auto

lemma encode_entries_accepts:
  "encode_entries series es = Ok js \<Longrightarrow>
     list_all (\<lambda>e. f64_is_finite (se_value e)) es \<and> distinct (map entry_key es) \<and> series \<inter> entry_key ` set es = {}"
  by (induction series es arbitrary: js rule: encode_entries.induct)
    (auto simp: bind_result_Ok_iff split: if_splits)

lemma encode_state_Ok: "state_ok es \<Longrightarrow> encode_state es = Ok (map enc_entry es)"
  unfolding encode_state_def state_ok_def by (rule encode_entries_Ok) (auto simp: list_all_iff)

lemma decode_entries_raw:
  "list_all (\<lambda>e. f64_is_finite (se_value e)) es \<Longrightarrow> distinct (map entry_key es) \<Longrightarrow> series \<inter> entry_key ` set es = {} \<Longrightarrow>
     decode_entries series (map raw_of_entry es) = Ok es"
proof (induction es arbitrary: series)
  case (Cons e es)
  then have "decode_entries (insert (entry_key e) series) (map raw_of_entry es) = Ok es" by simp
  with Cons.prems show ?case by (simp add: entry_key_fold)
qed simp

lemma decode_entries_sound:
  "decode_entries series raw = Ok es \<Longrightarrow> raw = map raw_of_entry es \<and>
     list_all (\<lambda>e. f64_is_finite (se_value e)) es \<and> distinct (map entry_key es) \<and> series \<inter> entry_key ` set es = {}"
proof (induction series raw arbitrary: es rule: decode_entries.induct)
  case (2 series r rs)
  then obtain k rest where k: "kind_of_text (re_kind r) = Some k" "f64_is_finite (re_value r)"
      "(k, re_metric r, re_labels r) \<notin> series"
      and rest: "decode_entries (insert (k, re_metric r, re_labels r) series) rs = Ok rest"
      and es: "es = \<lparr>se_kind = k, se_metric = re_metric r, se_labels = re_labels r, se_value = re_value r\<rparr> # rest"
    by (auto simp: bind_result_Ok_iff split: option.splits if_splits)
  let ?e = "\<lparr>se_kind = k, se_metric = re_metric r, se_labels = re_labels r, se_value = re_value r\<rparr>"
  have key: "(k, re_metric r, re_labels r) = entry_key ?e" by (simp add: entry_key_def)
  from 2(1) [OF k(1) _ _ rest] k have "rs = map raw_of_entry rest"
     "list_all (\<lambda>e. f64_is_finite (se_value e)) rest" "distinct (map entry_key rest)"
     "insert (entry_key ?e) series \<inter> entry_key ` set rest = {}" by (simp_all add: key)
  moreover have "r = raw_of_entry ?e" by (rule raw_entry_eqI [OF k(1)])
  ultimately show ?case using k(2,3) es unfolding key by auto
qed simp

subsection \<open>Round trips\<close>

lemma dec_enc_capacity: "capacity_ok c \<Longrightarrow> dec_capacity (enc_capacity c) = Some c"
proof -
  assume ok: "capacity_ok c"
  have "dec_list dec_u64 (JArr (map (\<lambda>n. JNumber (PosInt n)) (cp_key_rpms c))) = Some (cp_key_rpms c)"
    using ok by (intro dec_list_enc) (auto simp: capacity_ok_def list_all_iff dec_u64_def dec_uint_def)
  then show ?thesis
    using ok by (simp add: dec_capacity_def enc_capacity_def dec_simps capacity_ok_def)
qed

lemma dec_enc_labels: "bt_wf m \<Longrightarrow> dec_btree as_str (enc_labels m) = Some m"
  unfolding enc_labels_def by (rule dec_btree_enc) auto

lemma dec_enc_entry:
  "f64_is_finite (se_value e) \<Longrightarrow> bt_wf (se_labels e) \<Longrightarrow> dec_raw_entry (enc_entry e) = Some (raw_of_entry e)"
  by (simp add: dec_raw_entry_def enc_entry_def dec_simps dec_enc_labels dec_f64_def enc_f64_def raw_of_entry_def)

lemma dec_enc_state:
  assumes "state_ok es"
  shows "dec_state_field (JArr (map enc_entry es)) = Some (State_entries (map raw_of_entry es))"
proof -
  have "those (map dec_raw_entry (map enc_entry es)) = Some (map raw_of_entry es)"
    using assms by (induction es) (auto simp: state_ok_def dec_enc_entry)
  then show ?thesis by (simp add: dec_state_field_def dec_option_def dec_list_def del: map_map)
qed

lemma dec_record_value:
  assumes "record_ok r" "record_value r = Ok j"
  shows "dec_raw_record j = Some (raw_of r)"
proof (cases r)
  case (Sample s)
  with assms have "state_ok (sa_state s)" by simp
  with Sample assms show ?thesis
    by (auto simp: dec_raw_record_def enc_header_def dec_fields_def required_def defaulted_def Let_def dec_u64_def dec_uint_def
        dec_enc_capacity dec_enc_state encode_state_Ok VERSION_def)
qed (use assms in \<open>auto simp: dec_raw_record_def enc_header_def dec_simps dec_enc_capacity VERSION_def\<close>)

lemma record_value_Ok: "record_ok r \<Longrightarrow> \<exists>j. record_value r = Ok j"
  by (cases r) (simp_all add: encode_state_Ok)

lemma decode_raw_of: "record_ok r \<Longrightarrow> decode_raw (raw_of r) = Ok r"
proof (cases r)
  case (Sample s)
  assume "record_ok r"
  with Sample have "decode_entries {} (map raw_of_entry (sa_state s)) = Ok (sa_state s)"
    by (intro decode_entries_raw) (auto simp: state_ok_def list_all_iff)
  with Sample show ?thesis by (simp add: decode_raw_def decode_state_def)
qed (simp_all add: decode_raw_def)

text \<open>
  What is assumed of \<open>serde_json\<close> for a record: the line it prints is UTF-8 text without a line feed
  and not blank, and reading that line gives what the derived deserializer makes of the value that
  was printed.
\<close>

definition blank_line :: "bytes \<Rightarrow> bool" where
  "blank_line line \<longleftrightarrow> list_all ascii_space line"

definition reads_back :: "serde \<Rightarrow> history_record \<Rightarrow> bool" where
  "reads_back sd r \<longleftrightarrow> (\<forall>j. record_value r = Ok j \<longrightarrow>
     utf8_valid (sd_write sd j) \<and> CHR 0x0A \<notin> set (sd_write sd j) \<and> \<not> blank_line (sd_write sd j) \<and>
     sd_record sd (sd_write sd j) = (case dec_raw_record j of Some raw \<Rightarrow> Got raw | None \<Rightarrow> Data_error))"

definition record_line :: "serde \<Rightarrow> history_record \<Rightarrow> bytes" where
  "record_line sd r = (case encode_record sd r of Ok l \<Rightarrow> l | Err _ \<Rightarrow> [])"

lemma encode_record_line: "record_ok r \<Longrightarrow> encode_record sd r = Ok (record_line sd r)"
  using record_value_Ok [of r] by (auto simp: record_line_def encode_record_def)

lemma decode_record_line:
  assumes "record_ok r" "reads_back sd r"
  shows "decode_record sd (record_line sd r) = Ok r"
proof -
  obtain j where j: "record_value r = Ok j" using record_value_Ok [OF assms(1)] by blast
  with assms show ?thesis
    by (simp add: record_line_def encode_record_def reads_back_def decode_record_def dec_record_value decode_raw_of)
qed

lemma record_line_shape:
  assumes "record_ok r" "reads_back sd r"
  shows "CHR 0x0A \<notin> set (record_line sd r)" "\<not> blank_line (record_line sd r)"
  using assms record_value_Ok [OF assms(1)]
  by (auto simp: record_line_def encode_record_def reads_back_def)

text \<open>
  The deserializer returns values of the declared types: integers of 64 bits, label maps in key
  order.
\<close>

definition raw_ok :: "raw_record \<Rightarrow> bool" where
  "raw_ok raw \<longleftrightarrow> rr_timestamp raw < 2 ^ 64 \<and> capacity_ok (rr_capacity raw) \<and>
     (\<forall>es. rr_state raw = State_entries es \<longrightarrow> list_all (\<lambda>e. bt_wf (re_labels e)) es)"

definition serde_typed :: "serde \<Rightarrow> bool" where
  "serde_typed sd \<longleftrightarrow> (\<forall>line raw. sd_record sd line = Got raw \<longrightarrow> raw_ok raw)"

lemma decode_raw_sound:
  assumes "decode_raw raw = Ok r" "raw_ok raw"
  shows "record_ok r \<and> raw = raw_of r"
proof -
  consider (boot) "rr_kind raw = ''boot''" "rr_state raw = State_missing"
    | (checkpoint) "rr_kind raw = ''checkpoint''" "rr_state raw = State_missing"
    | (sample) es st where "rr_kind raw = ''sample''" "rr_state raw = State_entries es" "decode_state es = Ok st"
    using assms(1) by (auto simp: decode_raw_def bind_result_Ok_iff split: if_splits state_field.splits)
  then show ?thesis
  proof cases
    case (sample es st)
    then have "es = map raw_of_entry st" "state_ok st"
      using decode_entries_sound [of "{}" es st] assms(2)
      by (auto simp: decode_state_def state_ok_def raw_ok_def list_all_iff)
    with sample assms show ?thesis
      by (auto simp: decode_raw_def raw_ok_def split: if_splits)
  qed (use assms in \<open>auto simp: decode_raw_def raw_ok_def split: if_splits\<close>)
qed

lemma decode_record_ok:
  "serde_typed sd \<Longrightarrow> decode_record sd line = Ok r \<Longrightarrow> record_ok r"
  by (auto simp: decode_record_def serde_typed_def dest: decode_raw_sound split: if_splits serde_read.splits)

lemma encode_state_refuses:
  "(\<exists>e. encode_state es = Err e) \<longleftrightarrow>
     \<not> list_all (\<lambda>e. f64_is_finite (se_value e)) es \<or> \<not> distinct (map entry_key es)"
proof (cases "encode_state es")
  case (Inl e)
  then show ?thesis using encode_entries_Ok [of es "{}"] by (auto simp: encode_state_def)
next
  case (Inr js)
  then show ?thesis using encode_entries_accepts [of "{}" es] by (simp add: encode_state_def)
qed

lemma decode_record_iff:
  assumes "serde_typed sd"
  shows "decode_record sd line = Ok r \<longleftrightarrow> utf8_valid line \<and> sd_record sd line = Got (raw_of r) \<and> record_ok r"
proof -
  have "record_ok r \<and> sd_record sd line = Got (raw_of r)" if "decode_record sd line = Ok r"
    using decode_raw_sound that assms
    by (auto simp: decode_record_def serde_typed_def split: if_splits serde_read.splits)
  then show ?thesis by (auto simp: decode_record_def decode_raw_of split: if_splits)
qed


text \<open>
  A JSON text layer for a finite table of records, to instantiate what is assumed: the line of the
  \<open>i\<close>-th record is \<open>i + 1\<close> letters.
\<close>

definition table_serde :: "history_record list \<Rightarrow> serde" where
  "table_serde rs = \<lparr>
     sd_write = (\<lambda>j. case position (\<lambda>r. record_value r = Ok j) rs of Some i \<Rightarrow> replicate (i + 1) (CHR ''x'') | None \<Rightarrow> []),
     sd_record = (\<lambda>line. if line \<noteq> [] \<and> length line \<le> length rs \<and> list_all (\<lambda>c. c = CHR ''x'') line
        then Got (raw_of (rs ! (length line - 1))) else Eof_error),
     sd_value = (\<lambda>line. None)\<rparr>"

lemma raw_of_ok: "record_ok r \<Longrightarrow> raw_ok (raw_of r)"
  by (cases r) (auto simp: raw_ok_def state_ok_def list_all_iff)

lemma table_serde_typed:
  assumes "list_all record_ok rs"
  shows "serde_typed (table_serde rs)"
proof -
  have "raw_ok (raw_of (rs ! (length line - 1)))" if "line \<noteq> []" "length line \<le> length rs" for line :: bytes
  proof -
    have "length line - 1 < length rs" using that by (cases line) auto
    with assms show ?thesis by (intro raw_of_ok) (auto simp: list_all_length)
  qed
  then show ?thesis by (auto simp: serde_typed_def table_serde_def split: if_splits)
qed

lemma utf8_valid_x: "utf8_valid (replicate n (CHR ''x''))"
proof (induction n)
  case 0 show ?case by (simp add: utf8_valid.simps)
next
  case (Suc n)
  then show ?case by (subst utf8_valid.simps) (simp add: utf8_unit_def byte_of_def)
qed

lemma table_serde_reads_back:
  assumes "list_all record_ok rs" "r \<in> set rs"
  shows "reads_back (table_serde rs) r"
proof -
  have "utf8_valid (sd_write (table_serde rs) j) \<and> CHR 0x0A \<notin> set (sd_write (table_serde rs) j) \<and>
     \<not> blank_line (sd_write (table_serde rs) j) \<and>
     sd_record (table_serde rs) (sd_write (table_serde rs) j) = (case dec_raw_record j of Some raw \<Rightarrow> Got raw | None \<Rightarrow> Data_error)"
    if j: "record_value r = Ok j" for j
  proof -
    obtain i where i: "position (\<lambda>r. record_value r = Ok j) rs = Some i"
      using assms(2) j by (metis (mono_tags, lifting) position_None option.exhaust)
    have at: "i < length rs" "record_value (rs ! i) = Ok j"
      using position_Some [OF i] by simp_all
    then have "dec_raw_record j = Some (raw_of (rs ! i))"
      using assms(1) dec_record_value by (auto simp: list_all_length)
    with i at show ?thesis
      using utf8_valid_x [of "Suc i"] by (auto simp: table_serde_def blank_line_def list_all_iff ascii_defs)
  qed
  then show ?thesis by (simp add: reads_back_def)
qed

definition demo_capacity :: capacity where
  "demo_capacity = \<lparr>cp_capacity_rpm = 80, cp_enabled_keys = 2, cp_key_rpms = [40, 40]\<rparr>"

definition demo_entry :: "f64 \<Rightarrow> state_entry" where
  "demo_entry v = \<lparr>se_kind = Counter_kind, se_metric = ''requests_total'', se_labels = [(''model'', ''m'')], se_value = v\<rparr>"

definition demo_boot :: "nat \<Rightarrow> string \<Rightarrow> history_record" where
  "demo_boot t b = Boot \<lparr>bo_timestamp = t, bo_boot_id = b, bo_capacity = demo_capacity\<rparr>"

definition demo_sample :: "nat \<Rightarrow> string \<Rightarrow> f64 \<Rightarrow> history_record" where
  "demo_sample t b v = Sample \<lparr>sa_timestamp = t, sa_boot_id = b, sa_capacity = demo_capacity, sa_state = [demo_entry v]\<rparr>"

definition demo_checkpoint :: "nat \<Rightarrow> string \<Rightarrow> history_record" where
  "demo_checkpoint t b = Checkpoint \<lparr>ch_timestamp = t, ch_boot_id = b, ch_capacity = demo_capacity\<rparr>"

lemmas demo_records = demo_boot_def demo_sample_def demo_checkpoint_def demo_entry_def demo_capacity_def

lemma demo_records_ok:
  "t < 2 ^ 64 \<Longrightarrow> record_ok (demo_boot t b)"
  "t < 2 ^ 64 \<Longrightarrow> f64_is_finite v \<Longrightarrow> record_ok (demo_sample t b v)"
  "t < 2 ^ 64 \<Longrightarrow> record_ok (demo_checkpoint t b)"
  by (simp_all add: demo_records capacity_ok_def state_ok_def bt_wf_def)


end
