(* ===== verification/History_Replay.thy ===== *)
theory History_Replay
  imports History_Codec
begin

section \<open>Replaying the history file (src/history/store.rs)\<close>

text \<open>
  The scanner of the canonical file: it reads the file line by line, keeps the epochs (a boot record,
  a sample, then samples and checkpoints of that boot) that are whole, excludes an epoch with a
  damaged line, an alien record or a time that runs backwards, and remembers where the record has
  gaps. The functions are the source's, over the pair of the scanner's state and the replay it
  builds up.
\<close>

subsection \<open>Diagnostics and gaps\<close>

record history_diagnostics =
  hd_excluded_epochs :: nat
  hd_excluded_records :: nat
  hd_inferred_resets :: nat
  hd_normalized_series :: nat
  hd_skipped_metric_lines :: nat
  hd_valid_checkpoints :: nat
  hd_valid_samples :: nat

definition no_diagnostics :: history_diagnostics where
  "no_diagnostics = \<lparr>hd_excluded_epochs = 0, hd_excluded_records = 0, hd_inferred_resets = 0,
     hd_normalized_series = 0, hd_skipped_metric_lines = 0, hd_valid_checkpoints = 0, hd_valid_samples = 0\<rparr>"

definition add_diagnostics :: "history_diagnostics \<Rightarrow> history_diagnostics \<Rightarrow> history_diagnostics" where
  "add_diagnostics delta acc = \<lparr>
     hd_excluded_epochs = hd_excluded_epochs acc + hd_excluded_epochs delta,
     hd_excluded_records = hd_excluded_records acc + hd_excluded_records delta,
     hd_inferred_resets = hd_inferred_resets acc + hd_inferred_resets delta,
     hd_normalized_series = hd_normalized_series acc + hd_normalized_series delta,
     hd_skipped_metric_lines = hd_skipped_metric_lines acc + hd_skipped_metric_lines delta,
     hd_valid_checkpoints = hd_valid_checkpoints acc + hd_valid_checkpoints delta,
     hd_valid_samples = hd_valid_samples acc + hd_valid_samples delta\<rparr>"

record diagnostic_event =
  ev_at :: nat
  ev_diagnostics :: history_diagnostics

record recovery_gap =
  gp_from :: nat
  gp_to :: nat

record replay =
  rp_records :: "history_record list"
  rp_diagnostics :: history_diagnostics
  rp_events :: "diagnostic_event list"
  rp_gaps :: "recovery_gap list"
  rp_bound :: "nat option"
  rp_needs_separator :: bool

definition empty_replay :: replay where
  "empty_replay = \<lparr>rp_records = [], rp_diagnostics = no_diagnostics, rp_events = [], rp_gaps = [],
     rp_bound = None, rp_needs_separator = False\<rparr>"

definition gap_open :: "recovery_gap \<Rightarrow> bool" where
  "gap_open g \<longleftrightarrow> gp_to g = u64_max"

definition open_gap :: "nat \<Rightarrow> replay \<Rightarrow> replay" where
  "open_gap t rp =
     (let gaps = rp_gaps rp in
      if gaps \<noteq> [] \<and> gap_open (last gaps)
      then rp\<lparr>rp_gaps := butlast gaps @ [(last gaps)\<lparr>gp_from := min (gp_from (last gaps)) t\<rparr>]\<rparr>
      else rp\<lparr>rp_gaps := gaps @ [\<lparr>gp_from = t, gp_to = u64_max\<rparr>]\<rparr>)"

definition close_open_gap :: "nat \<Rightarrow> replay \<Rightarrow> replay" where
  "close_open_gap t rp =
     (case rposition gap_open (rp_gaps rp) of
        None \<Rightarrow> rp
      | Some i \<Rightarrow> rp\<lparr>rp_gaps := (rp_gaps rp)[i := (rp_gaps rp ! i)\<lparr>gp_to := t\<rparr>]\<rparr>)"

definition note_event :: "nat \<Rightarrow> history_diagnostics \<Rightarrow> replay \<Rightarrow> replay" where
  "note_event at d rp = rp\<lparr>rp_diagnostics := add_diagnostics d (rp_diagnostics rp),
     rp_events := rp_events rp @ [\<lparr>ev_at = at, ev_diagnostics = d\<rparr>]\<rparr>"

definition exclude_record :: "nat \<Rightarrow> replay \<Rightarrow> replay" where
  "exclude_record at = note_event at (no_diagnostics\<lparr>hd_excluded_records := 1\<rparr>)"

definition advance_ordering_bound :: "nat \<Rightarrow> replay \<Rightarrow> replay" where
  "advance_ordering_bound t rp =
     rp\<lparr>rp_bound := Some (case rp_bound rp of None \<Rightarrow> t | Some previous \<Rightarrow> max previous t)\<rparr>"

subsection \<open>Epochs\<close>

record epoch =
  ep_boot_id :: string
  ep_from :: nat
  ep_records :: "history_record list"
  ep_state :: "state_entry list option"
  ep_events :: "diagnostic_event list"

datatype scanner = Await_boot | Await_sample epoch | Usable epoch | Invalid_epoch

definition new_epoch :: "boot_record \<Rightarrow> epoch" where
  "new_epoch b = \<lparr>ep_boot_id = bo_boot_id b, ep_from = bo_timestamp b, ep_records = [Boot b], ep_state = None, ep_events = []\<rparr>"

definition add_sample :: "sample_record \<Rightarrow> epoch \<Rightarrow> epoch" where
  "add_sample s e = e\<lparr>ep_state := Some (sa_state s),
     ep_events := ep_events e @ [\<lparr>ev_at = sa_timestamp s,
       ev_diagnostics = no_diagnostics\<lparr>hd_normalized_series := length (sa_state s), hd_valid_samples := 1\<rparr>\<rparr>]\<rparr>"

definition add_checkpoint :: "checkpoint_record \<Rightarrow> epoch \<Rightarrow> epoch" where
  "add_checkpoint c e = e\<lparr>
     ep_events := ep_events e @ [\<lparr>ev_at = ch_timestamp c,
       ev_diagnostics = no_diagnostics\<lparr>hd_normalized_series := (case ep_state e of None \<Rightarrow> 0 | Some st \<Rightarrow> length st),
         hd_valid_checkpoints := 1\<rparr>\<rparr>]\<rparr>"

definition push_record :: "history_record \<Rightarrow> epoch \<Rightarrow> epoch" where
  "push_record r e = e\<lparr>ep_records := ep_records e @ [r]\<rparr>"

definition exclude_epoch :: "epoch \<Rightarrow> nat option \<Rightarrow> replay \<Rightarrow> replay" where
  "exclude_epoch e damaging rp =
     (let rp = note_event (ep_from e) (no_diagnostics\<lparr>hd_excluded_epochs := 1\<rparr>) rp;
          rp = fold (\<lambda>r. exclude_record (record_timestamp r)) (ep_records e) rp;
          rp = (case damaging of None \<Rightarrow> rp | Some t \<Rightarrow> exclude_record t rp)
      in open_gap (ep_from e) rp)"

definition commit_epoch :: "epoch \<Rightarrow> replay \<Rightarrow> replay" where
  "commit_epoch e rp =
     (let rp = fold (\<lambda>ev. note_event (ev_at ev) (ev_diagnostics ev)) (ep_events e) rp
      in rp\<lparr>rp_records := rp_records rp @ ep_records e\<rparr>)"

subsection \<open>The scanner\<close>

definition invalidate :: "nat \<Rightarrow> scanner \<times> replay \<Rightarrow> scanner \<times> replay" where
  "invalidate at s =
     (Invalid_epoch,
      case fst s of
        Await_sample e \<Rightarrow> exclude_epoch e (Some at) (snd s)
      | Usable e \<Rightarrow> exclude_epoch e (Some at) (snd s)
      | Await_boot \<Rightarrow> open_gap at (exclude_record at (snd s))
      | Invalid_epoch \<Rightarrow> open_gap at (exclude_record at (snd s)))"

definition start_boot :: "boot_record \<Rightarrow> scanner \<times> replay \<Rightarrow> scanner \<times> replay" where
  "start_boot b s =
     (let rp = (case fst s of
          Await_sample e \<Rightarrow> exclude_epoch e None (snd s)
        | Usable e \<Rightarrow> commit_epoch e (snd s)
        | Await_boot \<Rightarrow> snd s
        | Invalid_epoch \<Rightarrow> snd s)
      in (Await_sample (new_epoch b), close_open_gap (bo_timestamp b) rp))"

definition ingest_record :: "history_record \<Rightarrow> scanner \<times> replay \<Rightarrow> scanner \<times> replay" where
  "ingest_record r s =
     (let t = record_timestamp r; rp = snd s in
      case fst s of
        Await_sample e \<Rightarrow>
          if ep_boot_id e = record_boot_id r
          then (case r of
                  Sample sa \<Rightarrow> (Usable (push_record r (add_sample sa e)), rp)
                | Checkpoint _ \<Rightarrow> (Invalid_epoch, exclude_epoch e (Some t) rp)
                | Boot _ \<Rightarrow> (Await_boot, rp))
          else (Invalid_epoch, exclude_epoch e (Some t) rp)
      | Usable e \<Rightarrow>
          if ep_boot_id e = record_boot_id r
          then (case r of
                  Sample sa \<Rightarrow> (Usable (push_record r (add_sample sa e)), rp)
                | Checkpoint c \<Rightarrow> (Usable (push_record r (add_checkpoint c e)), rp)
                | Boot _ \<Rightarrow> (Await_boot, rp))
          else (Invalid_epoch, exclude_epoch e (Some t) rp)
      | Await_boot \<Rightarrow> (Invalid_epoch, open_gap t (exclude_record t rp))
      | Invalid_epoch \<Rightarrow> (Invalid_epoch, open_gap t (exclude_record t rp)))"

text \<open>The arm for a boot record is the one the source marks unreachable: the scanner below starts an epoch on it.\<close>

definition trustworthy_timestamp :: "serde \<Rightarrow> bytes \<Rightarrow> nat option" where
  "trustworthy_timestamp sd line =
     (case sd_value sd line of
        None \<Rightarrow> None
      | Some v \<Rightarrow> (case get ''timestamp'' v of None \<Rightarrow> None | Some t \<Rightarrow> as_u64 t))"

datatype open_error =
    Open_io
  | Empty_canonical
  | Invalid_canonical nat decode_error
  | Unterminated_record
  | Invalid_stream nat string

definition unsupported :: "decode_error \<Rightarrow> bool" where
  "unsupported e \<longleftrightarrow> e = Unsupported_format \<or> e = Unsupported_version"

definition bound_with :: "nat option \<Rightarrow> replay \<Rightarrow> replay" where
  "bound_with at rp = (case at of None \<Rightarrow> rp | Some t \<Rightarrow> advance_ordering_bound t rp)"

definition decision_at :: "nat option \<Rightarrow> replay \<Rightarrow> nat" where
  "decision_at at rp = (case at of Some t \<Rightarrow> t | None \<Rightarrow> (case rp_bound rp of Some b \<Rightarrow> b | None \<Rightarrow> 0))"

definition damaged_line :: "serde \<Rightarrow> bytes \<Rightarrow> scanner \<times> replay \<Rightarrow> scanner \<times> replay" where
  "damaged_line sd line s =
     (let at = trustworthy_timestamp sd line; rp = bound_with at (snd s)
      in invalidate (decision_at at rp) (fst s, rp))"

definition accept_record :: "history_record \<Rightarrow> scanner \<times> replay \<Rightarrow> scanner \<times> replay" where
  "accept_record r s =
     (let t = record_timestamp r in
      if (case rp_bound (snd s) of None \<Rightarrow> False | Some bound \<Rightarrow> t < bound) then invalidate t s
      else let s = apsnd (advance_ordering_bound t) s in
        (case r of Boot b \<Rightarrow> start_boot b s | _ \<Rightarrow> ingest_record r s))"

definition scan_line :: "serde \<Rightarrow> nat \<Rightarrow> bytes \<Rightarrow> scanner \<times> replay \<Rightarrow> open_error + (scanner \<times> replay)" where
  "scan_line sd index line s =
     (if blank_line line then Ok s
      else case decode_record sd line of
             Ok r \<Rightarrow> Ok (accept_record r s)
           | Err e \<Rightarrow> if unsupported e then Err (Invalid_canonical index e) else Ok (damaged_line sd line s))"

definition scan_tail :: "serde \<Rightarrow> nat \<Rightarrow> bytes \<Rightarrow> scanner \<times> replay \<Rightarrow> open_error + (scanner \<times> replay)" where
  "scan_tail sd index line s =
     (case decode_record sd line of
        Err e \<Rightarrow> if unsupported e then Err (Invalid_canonical index e)
          else Ok (damaged_line sd line (apsnd (\<lambda>rp. rp\<lparr>rp_needs_separator := \<not> blank_line line\<rparr>) s))
      | Ok _ \<Rightarrow> Ok (damaged_line sd line (apsnd (\<lambda>rp. rp\<lparr>rp_needs_separator := \<not> blank_line line\<rparr>) s)))"

text \<open>\<open>read_until\<close>: the next line, whether a line feed ended it, and what follows.\<close>

definition read_line :: "bytes \<Rightarrow> bytes \<times> bool \<times> bytes" where
  "read_line content =
     (let rest = dropWhile (\<lambda>c. c \<noteq> CHR 0x0A) content
      in (takeWhile (\<lambda>c. c \<noteq> CHR 0x0A) content, rest \<noteq> [], drop 1 rest))"

lemma read_line_rest:
  "content \<noteq> [] \<Longrightarrow> read_line content = (line, terminated, rest) \<Longrightarrow> length rest < length content"
  using length_dropWhile_le [of "\<lambda>c. c \<noteq> CHR 0x0A" content]
  by (cases content) (auto simp: read_line_def Let_def)

function scan :: "serde \<Rightarrow> nat \<Rightarrow> bool \<Rightarrow> bytes \<Rightarrow> scanner \<times> replay \<Rightarrow> open_error + (bool \<times> scanner \<times> replay)" where
  "scan sd index saw content s =
     (if content = [] then Ok (saw, s)
      else case read_line content of
        (line, terminated, rest) \<Rightarrow>
          let saw = (saw \<or> \<not> blank_line line) in
          if terminated
          then bind_result (scan_line sd (index + 1) line s) (scan sd (index + 1) saw rest)
          else bind_result (scan_tail sd (index + 1) line s) (\<lambda>s. Ok (saw, s)))"
  by pat_completeness auto
termination
  by (relation "measure (\<lambda>(sd, index, saw, content, s). length content)")
    (auto dest: read_line_rest [OF _ sym])

declare scan.simps [simp del]

definition finish_scan :: "scanner \<times> replay \<Rightarrow> replay" where
  "finish_scan s =
     (case fst s of
        Usable e \<Rightarrow> commit_epoch e (snd s)
      | Await_sample e \<Rightarrow> exclude_epoch e None (snd s)
      | _ \<Rightarrow> snd s)"

definition validate_canonical :: "serde \<Rightarrow> bytes \<Rightarrow> open_error + replay" where
  "validate_canonical sd content =
     bind_result (scan sd 0 False content (Await_boot, empty_replay)) (\<lambda>(saw, s).
       if saw then Ok (finish_scan s) else Err Empty_canonical)"

subsection \<open>What the operations touch\<close>

named_theorems replay_simps \<open>the fields of a replay after each scanner operation\<close>

lemma note_event_fields [simp, replay_simps]:
  "rp_records (note_event at d rp) = rp_records rp" "rp_gaps (note_event at d rp) = rp_gaps rp"
  "rp_bound (note_event at d rp) = rp_bound rp" "rp_needs_separator (note_event at d rp) = rp_needs_separator rp"
  "rp_diagnostics (note_event at d rp) = add_diagnostics d (rp_diagnostics rp)"
  "rp_events (note_event at d rp) = rp_events rp @ [\<lparr>ev_at = at, ev_diagnostics = d\<rparr>]"
  by (simp_all add: note_event_def)

lemma exclude_record_fields [simp, replay_simps]:
  "rp_records (exclude_record at rp) = rp_records rp" "rp_gaps (exclude_record at rp) = rp_gaps rp"
  "rp_bound (exclude_record at rp) = rp_bound rp" "rp_needs_separator (exclude_record at rp) = rp_needs_separator rp"
  by (simp_all add: exclude_record_def)

lemma open_gap_fields [simp, replay_simps]:
  "rp_records (open_gap t rp) = rp_records rp" "rp_diagnostics (open_gap t rp) = rp_diagnostics rp"
  "rp_events (open_gap t rp) = rp_events rp" "rp_bound (open_gap t rp) = rp_bound rp"
  "rp_needs_separator (open_gap t rp) = rp_needs_separator rp"
  by (simp_all add: open_gap_def Let_def)

lemma close_open_gap_fields [simp, replay_simps]:
  "rp_records (close_open_gap t rp) = rp_records rp" "rp_diagnostics (close_open_gap t rp) = rp_diagnostics rp"
  "rp_events (close_open_gap t rp) = rp_events rp" "rp_bound (close_open_gap t rp) = rp_bound rp"
  "rp_needs_separator (close_open_gap t rp) = rp_needs_separator rp"
  by (simp_all add: close_open_gap_def split: option.splits)

lemma advance_fields [simp, replay_simps]:
  "rp_records (advance_ordering_bound t rp) = rp_records rp"
  "rp_diagnostics (advance_ordering_bound t rp) = rp_diagnostics rp"
  "rp_events (advance_ordering_bound t rp) = rp_events rp" "rp_gaps (advance_ordering_bound t rp) = rp_gaps rp"
  "rp_needs_separator (advance_ordering_bound t rp) = rp_needs_separator rp"
  by (simp_all add: advance_ordering_bound_def)

lemma bound_with_fields [simp, replay_simps]:
  "rp_records (bound_with at rp) = rp_records rp" "rp_diagnostics (bound_with at rp) = rp_diagnostics rp"
  "rp_events (bound_with at rp) = rp_events rp" "rp_gaps (bound_with at rp) = rp_gaps rp"
  "rp_needs_separator (bound_with at rp) = rp_needs_separator rp"
  by (simp_all add: bound_with_def split: option.splits)

lemma fold_exclude_fields [simp, replay_simps]:
  "rp_records (fold (\<lambda>r. exclude_record (record_timestamp r)) rs rp) = rp_records rp"
  "rp_gaps (fold (\<lambda>r. exclude_record (record_timestamp r)) rs rp) = rp_gaps rp"
  "rp_bound (fold (\<lambda>r. exclude_record (record_timestamp r)) rs rp) = rp_bound rp"
  "rp_needs_separator (fold (\<lambda>r. exclude_record (record_timestamp r)) rs rp) = rp_needs_separator rp"
  by (induction rs arbitrary: rp) simp_all

lemma fold_events_fields [simp, replay_simps]:
  "rp_records (fold (\<lambda>ev. note_event (ev_at ev) (ev_diagnostics ev)) evs rp) = rp_records rp"
  "rp_gaps (fold (\<lambda>ev. note_event (ev_at ev) (ev_diagnostics ev)) evs rp) = rp_gaps rp"
  "rp_bound (fold (\<lambda>ev. note_event (ev_at ev) (ev_diagnostics ev)) evs rp) = rp_bound rp"
  "rp_needs_separator (fold (\<lambda>ev. note_event (ev_at ev) (ev_diagnostics ev)) evs rp) = rp_needs_separator rp"
  "rp_events (fold (\<lambda>ev. note_event (ev_at ev) (ev_diagnostics ev)) evs rp) = rp_events rp @ evs"
  by (induction evs arbitrary: rp) simp_all

lemma exclude_epoch_fields [simp, replay_simps]:
  "rp_records (exclude_epoch e dam rp) = rp_records rp"
  "rp_bound (exclude_epoch e dam rp) = rp_bound rp"
  "rp_needs_separator (exclude_epoch e dam rp) = rp_needs_separator rp"
  by (simp_all add: exclude_epoch_def Let_def split: option.splits)

lemma commit_epoch_fields [simp, replay_simps]:
  "rp_records (commit_epoch e rp) = rp_records rp @ ep_records e"
  "rp_gaps (commit_epoch e rp) = rp_gaps rp" "rp_bound (commit_epoch e rp) = rp_bound rp"
  "rp_needs_separator (commit_epoch e rp) = rp_needs_separator rp"
  "rp_events (commit_epoch e rp) = rp_events rp @ ep_events e"
  by (simp_all add: commit_epoch_def Let_def)

lemma epoch_fields [simp]:
  "ep_records (new_epoch b) = [Boot b]" "ep_events (new_epoch b) = []" "ep_boot_id (new_epoch b) = bo_boot_id b"
  "ep_from (new_epoch b) = bo_timestamp b" "ep_state (new_epoch b) = None"
  "ep_records (push_record r e) = ep_records e @ [r]" "ep_events (push_record r e) = ep_events e"
  "ep_boot_id (push_record r e) = ep_boot_id e" "ep_from (push_record r e) = ep_from e"
  "ep_state (push_record r e) = ep_state e"
  "ep_records (add_sample s e) = ep_records e" "ep_boot_id (add_sample s e) = ep_boot_id e"
  "ep_from (add_sample s e) = ep_from e" "ep_state (add_sample s e) = Some (sa_state s)"
  "ep_records (add_checkpoint c e) = ep_records e" "ep_boot_id (add_checkpoint c e) = ep_boot_id e"
  "ep_from (add_checkpoint c e) = ep_from e" "ep_state (add_checkpoint c e) = ep_state e"
  by (simp_all add: new_epoch_def push_record_def add_sample_def add_checkpoint_def)

subsection \<open>Scanning as steps\<close>

inductive scan_step :: "serde \<Rightarrow> scanner \<times> replay \<Rightarrow> scanner \<times> replay \<Rightarrow> bool" for sd where
  accepted: "decode_record sd line = Ok r \<Longrightarrow> scan_step sd s (accept_record r s)"
| damaged: "scan_step sd s (damaged_line sd line s)"
| tail: "scan_step sd s (apsnd (\<lambda>rp. rp\<lparr>rp_needs_separator := b\<rparr>) s)"

abbreviation scan_steps :: "serde \<Rightarrow> scanner \<times> replay \<Rightarrow> scanner \<times> replay \<Rightarrow> bool" where
  "scan_steps sd \<equiv> (scan_step sd)\<^sup>*\<^sup>*"

lemma scan_line_steps: "scan_line sd i line s = Ok s' \<Longrightarrow> scan_steps sd s s'"
  by (auto simp: scan_line_def intro: scan_step.intros split: if_splits sum.splits)

lemma scan_tail_steps:
  assumes "scan_tail sd i line s = Ok s'"
  shows "scan_steps sd s s'"
proof -
  let ?s = "apsnd (\<lambda>rp. rp\<lparr>rp_needs_separator := \<not> blank_line line\<rparr>) s"
  have "s' = damaged_line sd line ?s"
    using assms by (auto simp: scan_tail_def split: if_splits sum.splits)
  then show ?thesis
    using scan_step.tail [of sd s "\<not> blank_line line"] scan_step.damaged [of sd ?s line]
    by (auto intro: rtranclp_trans)
qed

lemma scan_steps: "scan sd i saw content s = Ok (saw', s') \<Longrightarrow> scan_steps sd s s'"
proof (induction sd i saw content s rule: scan.induct)
  case (1 sd i saw content s)
  show ?case
  proof (cases "content = []")
    case False
    obtain line terminated rest where rl: "read_line content = (line, terminated, rest)"
      by (cases "read_line content") auto
    show ?thesis
    proof (cases terminated)
      case True
      with 1(2) False rl obtain s1 where s1: "scan_line sd (i + 1) line s = Ok s1"
        "scan sd (i + 1) (saw \<or> \<not> blank_line line) rest s1 = Ok (saw', s')"
        by (subst (asm) scan.simps) (auto simp: bind_result_Ok_iff Let_def)
      have "scan_steps sd s1 s'"
        using 1(1) [OF False rl [symmetric] refl refl True] s1(2) by (cases s1) simp
      with scan_line_steps [OF s1(1)] show ?thesis by (rule rtranclp_trans)
    next
      case False
      with 1(2) \<open>content \<noteq> []\<close> rl have "scan_tail sd (i + 1) line s = Ok s'"
        by (subst (asm) scan.simps) (auto simp: bind_result_Ok_iff Let_def)
      then show ?thesis by (rule scan_tail_steps)
    qed
  qed (use 1 in \<open>simp add: scan.simps\<close>)
qed

lemma validate_steps:
  assumes "validate_canonical sd content = Ok rp"
  obtains s where "scan_steps sd (Await_boot, empty_replay) s" "rp = finish_scan s"
  using assms by (auto simp: validate_canonical_def bind_result_Ok_iff split: if_splits dest: scan_steps)

subsection \<open>Well-formed streams\<close>

text \<open>
  The specification of the file's contents: epochs, each a boot record, a sample of that boot, and
  samples and checkpoints of that boot, in an order of time that never goes back.
\<close>

fun usable :: "history_record list \<Rightarrow> bool" where
  "usable (Boot b # Sample s # rs) \<longleftrightarrow>
     sa_boot_id s = bo_boot_id b \<and> list_all (\<lambda>r. \<not> is_boot r \<and> record_boot_id r = bo_boot_id b) rs"
| "usable _ \<longleftrightarrow> False"

function split_epochs :: "history_record list \<Rightarrow> history_record list list" where
  "split_epochs [] = []"
| "split_epochs (r # rs) = (r # takeWhile (\<lambda>r. \<not> is_boot r) rs) # split_epochs (dropWhile (\<lambda>r. \<not> is_boot r) rs)"
  by pat_completeness auto
termination
  by (relation "measure length") (auto simp: le_imp_less_Suc length_dropWhile_le)

definition in_order :: "history_record list \<Rightarrow> bool" where
  "in_order rs \<longleftrightarrow> sorted (map record_timestamp rs)"

definition stream_ok :: "history_record list \<Rightarrow> bool" where
  "stream_ok rs \<longleftrightarrow> list_all usable (split_epochs rs) \<and> in_order rs \<and> list_all record_ok rs"

lemma concat_split_epochs [simp]: "concat (split_epochs rs) = rs"
  by (induction rs rule: split_epochs.induct) simp_all

lemma split_epochs_single:
  assumes "list_all (\<lambda>r. \<not> is_boot r) rs"
  shows "split_epochs (r # rs) = [r # rs]"
proof -
  have "takeWhile (\<lambda>r. \<not> is_boot r) rs = rs" "dropWhile (\<lambda>r. \<not> is_boot r) rs = []"
    using assms by (simp_all add: list_all_iff)
  then show ?thesis by (simp only: split_epochs.simps)
qed

lemma split_epochs_append_boot:
  assumes "list_all (\<lambda>r. \<not> is_boot r) rs"
  shows "split_epochs (xs @ Boot b # rs) = split_epochs xs @ [Boot b # rs]"
proof (induction xs rule: split_epochs.induct)
  case 1
  then show ?case by (simp only: append_Nil split_epochs_single [OF assms] split_epochs.simps(1))
next
  case (2 x xs)
  show ?case
  proof (cases "\<forall>y \<in> set xs. \<not> is_boot y")
    case True
    then have "split_epochs (x # xs) = [x # xs]"
      by (intro split_epochs_single) (simp add: list_all_iff)
    moreover have "split_epochs ((x # xs) @ Boot b # rs) = (x # xs) # split_epochs (Boot b # rs)"
      using True by (simp del: split_epochs.simps add: split_epochs.simps(2) [of x] takeWhile_append2 dropWhile_append2)
    ultimately show ?thesis by (simp only: split_epochs_single [OF assms] append_Cons append_Nil)
  next
    case False
    then obtain y where "y \<in> set xs" "is_boot y" by auto
    with 2 show ?thesis by (simp add: takeWhile_append1 [of y] dropWhile_append1 [of y])
  qed
qed

lemma usable_cases:
  assumes "usable e"
  obtains b s rs where "e = Boot b # Sample s # rs" "sa_boot_id s = bo_boot_id b"
    "list_all (\<lambda>r. \<not> is_boot r) (Sample s # rs)" "list_all (\<lambda>r. record_boot_id r = bo_boot_id b) e"
  using assms by (cases e rule: usable.cases) (auto simp: list_all_iff)

lemma split_epochs_snoc: "usable e \<Longrightarrow> split_epochs (rs @ e) = split_epochs rs @ [e]"
  by (erule usable_cases) (use split_epochs_append_boot in fastforce)

lemma usable_push: "usable e \<Longrightarrow> \<not> is_boot r \<Longrightarrow> record_boot_id r = record_boot_id (hd e) \<Longrightarrow> usable (e @ [r])"
  by (cases e rule: usable.cases) auto

lemma in_order_snoc: "in_order (rs @ [r]) \<longleftrightarrow> in_order rs \<and> (\<forall>x \<in> set rs. record_timestamp x \<le> record_timestamp r)"
  by (auto simp: in_order_def sorted_append)

subsection \<open>What a replay is made of\<close>

fun pending :: "scanner \<Rightarrow> history_record list" where
  "pending (Await_sample e) = ep_records e"
| "pending (Usable e) = ep_records e"
| "pending _ = []"

fun pending_ok :: "scanner \<Rightarrow> bool" where
  "pending_ok (Await_sample e) \<longleftrightarrow> (\<exists>b. e = new_epoch b)"
| "pending_ok (Usable e) \<longleftrightarrow> usable (ep_records e) \<and> ep_boot_id e = record_boot_id (hd (ep_records e)) \<and>
     ep_from e = record_timestamp (hd (ep_records e))"
| "pending_ok _ \<longleftrightarrow> True"

definition within :: "replay \<Rightarrow> nat \<Rightarrow> bool" where
  "within rp t \<longleftrightarrow> (\<exists>b. rp_bound rp = Some b \<and> t \<le> b)"

definition replay_inv :: "scanner \<times> replay \<Rightarrow> bool" where
  "replay_inv s \<longleftrightarrow> pending_ok (fst s) \<and> list_all usable (split_epochs (rp_records (snd s))) \<and>
     in_order (rp_records (snd s) @ pending (fst s)) \<and>
     (\<forall>r \<in> set (rp_records (snd s) @ pending (fst s)). record_ok r \<and> within (snd s) (record_timestamp r))"

lemma within_advance [simp]: "within (advance_ordering_bound t rp) t"
  by (simp add: within_def advance_ordering_bound_def split: option.splits)

lemma within_advance_mono: "within rp u \<Longrightarrow> within (advance_ordering_bound t rp) u"
  by (auto simp: within_def advance_ordering_bound_def)

lemma within_bound_with: "within rp u \<Longrightarrow> within (bound_with at rp) u"
  by (auto simp: bound_with_def within_advance_mono split: option.splits)

lemma within_cong: "rp_bound rp = rp_bound rp' \<Longrightarrow> within rp u = within rp' u"
  by (simp add: within_def)

lemma in_order_prefix: "in_order (rs @ xs) \<Longrightarrow> in_order rs"
  by (simp add: in_order_def sorted_append)

lemma replay_inv_drop:
  assumes "replay_inv (st, rp)" "rp_records rp' = rp_records rp" "rp_bound rp' = rp_bound rp" "pending st' = []" "pending_ok st'"
  shows "replay_inv (st', rp')"
  using assms in_order_prefix within_cong [OF assms(3)] by (auto simp: replay_inv_def)

lemma invalidate_inv:
  assumes "replay_inv s"
  shows "replay_inv (invalidate at s)"
proof (cases s)
  case (Pair st rp)
  with assms show ?thesis
    by (auto simp: invalidate_def intro!: replay_inv_drop [of st rp] split: scanner.splits)
qed

lemma replay_inv_bound_with:
  "replay_inv (st, rp) \<Longrightarrow> replay_inv (st, bound_with at rp)"
  by (auto simp: replay_inv_def within_bound_with)

lemma damaged_line_inv: "replay_inv s \<Longrightarrow> replay_inv (damaged_line sd line s)"
  by (cases s) (simp add: damaged_line_def Let_def invalidate_inv replay_inv_bound_with)

lemma start_boot_inv:
  assumes inv: "replay_inv (st, rp)" and b: "record_ok (Boot b)" "within rp (bo_timestamp b)"
    and last: "\<forall>r \<in> set (rp_records rp @ pending st). record_timestamp r \<le> bo_timestamp b"
  shows "replay_inv (start_boot b (st, rp))"
proof -
  define rp1 where "rp1 = snd (start_boot b (st, rp))"
  have bound: "rp_bound rp1 = rp_bound rp"
    by (simp add: rp1_def start_boot_def Let_def split: scanner.splits)
  have recs: "rp_records rp1 = rp_records rp @ (case st of Usable e \<Rightarrow> ep_records e | _ \<Rightarrow> [])"
    by (simp add: rp1_def start_boot_def Let_def split: scanner.splits)
  have split: "list_all usable (split_epochs (rp_records rp1))"
    using inv by (cases st) (auto simp: recs replay_inv_def split_epochs_snoc)
  have sub: "in_order (rp_records rp1) \<and> set (rp_records rp1) \<subseteq> set (rp_records rp @ pending st)"
    using inv by (cases st) (auto simp: recs replay_inv_def dest: in_order_prefix)
  have "replay_inv (Await_sample (new_epoch b), rp1)"
    using inv b last split sub within_cong [OF bound]
    by (auto simp: replay_inv_def in_order_snoc)
  then show ?thesis by (simp add: rp1_def start_boot_def Let_def)
qed

lemma ingest_record_inv:
  assumes inv: "replay_inv (st, rp)" and r: "record_ok r" "within rp (record_timestamp r)" "\<not> is_boot r"
    and last: "\<forall>x \<in> set (rp_records rp @ pending st). record_timestamp x \<le> record_timestamp r"
  shows "replay_inv (ingest_record r (st, rp))"
proof -
  have push: "replay_inv (Usable (push_record r e'), rp)"
    if "ep_records e' = pending st" "ep_from e' = record_timestamp (hd (pending st))" "ep_boot_id e' = record_boot_id (hd (pending st))"
      "usable (pending st @ [r])" "pending st \<noteq> []" for e'
    using that inv r last in_order_snoc [of "rp_records rp @ pending st" r]
    by (auto simp: replay_inv_def)
  note drop = replay_inv_drop [OF inv]
  have drops: "replay_inv (Invalid_epoch, exclude_epoch e t rp)" "replay_inv (Invalid_epoch, open_gap u (exclude_record v rp))"
      "replay_inv (Await_boot, rp)" for e t u v
    by (rule drop; simp)+
  have pend: "pending_ok st" using inv by (simp add: replay_inv_def)
  show ?thesis
  proof (cases st)
    case (Await_sample e)
    then obtain b where b: "e = new_epoch b" using pend by auto
    have "replay_inv (Usable (push_record r (add_sample sa e)), rp)" if "r = Sample sa" "bo_boot_id b = sa_boot_id sa" for sa
      using that Await_sample b by (intro push) auto
    then show ?thesis
      using Await_sample b r(3) drops by (cases r) (auto simp: ingest_record_def Let_def)
  next
    case (Usable e)
    then have e: "usable (ep_records e)" "ep_boot_id e = record_boot_id (hd (ep_records e))"
        "ep_from e = record_timestamp (hd (ep_records e))" using pend by auto
    then have "usable (ep_records e @ [r])" if "ep_boot_id e = record_boot_id r"
      using usable_push r(3) that by metis
    moreover have "ep_records e \<noteq> []" using e(1) by auto
    ultimately have "replay_inv (Usable (push_record r e'), rp)"
      if "ep_boot_id e = record_boot_id r" "ep_records e' = ep_records e" "ep_boot_id e' = ep_boot_id e" "ep_from e' = ep_from e" for e'
      using that Usable e(2,3) by (intro push) auto
    then show ?thesis
      using Usable r(3) drops by (cases r) (auto simp: ingest_record_def Let_def)
  qed (use drops in \<open>simp_all add: ingest_record_def Let_def\<close>)
qed

lemma accept_record_inv:
  assumes inv: "replay_inv s" and r: "record_ok r"
  shows "replay_inv (accept_record r s)"
proof (cases "case rp_bound (snd s) of None \<Rightarrow> False | Some bound \<Rightarrow> record_timestamp r < bound")
  case True
  then show ?thesis using invalidate_inv [OF inv] by (simp add: accept_record_def)
next
  case False
  obtain st rp where s: "s = (st, rp)" by (cases s)
  let ?rp = "advance_ordering_bound (record_timestamp r) rp"
  have inv': "replay_inv (st, ?rp)"
    using inv s replay_inv_bound_with [of st rp "Some (record_timestamp r)"] by (simp add: bound_with_def)
  have last: "\<forall>x \<in> set (rp_records ?rp @ pending st). record_timestamp x \<le> record_timestamp r"
  proof
    fix x assume "x \<in> set (rp_records ?rp @ pending st)"
    then obtain b where "rp_bound rp = Some b" "record_timestamp x \<le> b"
      using inv by (auto simp: s replay_inv_def within_def)
    with False show "record_timestamp x \<le> record_timestamp r" by (simp add: s)
  qed
  have eq: "accept_record r s = (case r of Boot b \<Rightarrow> start_boot b (st, ?rp) | _ \<Rightarrow> ingest_record r (st, ?rp))"
    using False by (simp add: accept_record_def s Let_def)
  show ?thesis
  proof (cases r)
    case (Boot b)
    with start_boot_inv [OF inv', of b] r last within_advance [of "record_timestamp r" rp] show ?thesis
      unfolding eq by simp
  qed (use ingest_record_inv [OF inv' r within_advance _ last] in \<open>unfold eq, simp_all\<close>)
qed

lemma scan_step_inv:
  assumes "serde_typed sd" "scan_step sd s s'" "replay_inv s"
  shows "replay_inv s'"
  using assms(2)
proof cases
  case (accepted line r)
  then show ?thesis using accept_record_inv [OF assms(3)] decode_record_ok [OF assms(1)] by blast
next
  case (tail b)
  then show ?thesis using assms(3) by (cases s) (simp add: replay_inv_def within_def)
qed (use damaged_line_inv [OF assms(3)] in simp)

lemma scan_steps_inv:
  assumes "serde_typed sd" "scan_steps sd (Await_boot, empty_replay) s"
  shows "replay_inv s"
  using assms(2)
proof (induction rule: rtranclp_induct)
  case base
  then show ?case by (simp add: replay_inv_def empty_replay_def in_order_def)
next
  case (step s s')
  then show ?case using scan_step_inv [OF assms(1)] by blast
qed

lemma finish_scan_sound:
  assumes "replay_inv s"
  shows "stream_ok (rp_records (finish_scan s)) \<and>
    (\<forall>r \<in> set (rp_records (finish_scan s)). within (finish_scan s) (record_timestamp r))"
proof -
  obtain st rp where s: "s = (st, rp)" by (cases s)
  have bound: "within (finish_scan s) t \<longleftrightarrow> within rp t" for t
    by (cases st) (simp_all add: s finish_scan_def within_def)
  from assms show ?thesis
    unfolding bound
    by (cases st) (auto simp: s finish_scan_def replay_inv_def stream_ok_def list_all_iff split_epochs_snoc
        dest: in_order_prefix)
qed

subsection \<open>Every line is accounted for\<close>

text \<open>The diagnostic events of a run of records, given the last state seen before it.\<close>

fun record_events :: "state_entry list option \<Rightarrow> history_record list \<Rightarrow> diagnostic_event list" where
  "record_events st [] = []"
| "record_events st (Boot b # rs) = record_events None rs"
| "record_events st (Sample s # rs) =
     \<lparr>ev_at = sa_timestamp s, ev_diagnostics = no_diagnostics\<lparr>hd_normalized_series := length (sa_state s), hd_valid_samples := 1\<rparr>\<rparr>
     # record_events (Some (sa_state s)) rs"
| "record_events st (Checkpoint c # rs) =
     \<lparr>ev_at = ch_timestamp c, ev_diagnostics = no_diagnostics\<lparr>
        hd_normalized_series := (case st of None \<Rightarrow> 0 | Some es \<Rightarrow> length es), hd_valid_checkpoints := 1\<rparr>\<rparr>
     # record_events st rs"

fun state_after :: "state_entry list option \<Rightarrow> history_record list \<Rightarrow> state_entry list option" where
  "state_after st [] = st"
| "state_after st (Boot b # rs) = state_after None rs"
| "state_after st (Sample s # rs) = state_after (Some (sa_state s)) rs"
| "state_after st (Checkpoint c # rs) = state_after st rs"

lemma record_events_append: "record_events st (rs @ xs) = record_events st rs @ record_events (state_after st rs) xs"
  by (induction st rs rule: record_events.induct) simp_all

lemma state_after_append: "state_after st (rs @ xs) = state_after (state_after st rs) xs"
  by (induction st rs rule: state_after.induct) simp_all

definition sum_events :: "diagnostic_event list \<Rightarrow> history_diagnostics" where
  "sum_events evs = fold (\<lambda>ev. add_diagnostics (ev_diagnostics ev)) evs no_diagnostics"

lemma add_no_diagnostics [simp]: "add_diagnostics d no_diagnostics = d"
  by (simp add: add_diagnostics_def no_diagnostics_def)

lemma sum_events_snoc [simp]:
  "sum_events [] = no_diagnostics"
  "sum_events (evs @ [ev]) = add_diagnostics (ev_diagnostics ev) (sum_events evs)"
  by (simp_all add: sum_events_def)

lemma sum_events_counts:
  "hd_excluded_epochs (sum_events (record_events st rs)) = 0 \<and>
   hd_excluded_records (sum_events (record_events st rs)) = 0 \<and>
   hd_valid_samples (sum_events (record_events st rs)) = length (filter (\<lambda>r. \<exists>s. r = Sample s) rs) \<and>
   hd_valid_checkpoints (sum_events (record_events st rs)) = length (filter (\<lambda>r. \<exists>c. r = Checkpoint c) rs)"
proof -
  have "hd_excluded_epochs (fold (\<lambda>ev. add_diagnostics (ev_diagnostics ev)) (record_events st rs) d) = hd_excluded_epochs d \<and>
    hd_excluded_records (fold (\<lambda>ev. add_diagnostics (ev_diagnostics ev)) (record_events st rs) d) = hd_excluded_records d \<and>
    hd_valid_samples (fold (\<lambda>ev. add_diagnostics (ev_diagnostics ev)) (record_events st rs) d) =
      hd_valid_samples d + length (filter (\<lambda>r. \<exists>s. r = Sample s) rs) \<and>
    hd_valid_checkpoints (fold (\<lambda>ev. add_diagnostics (ev_diagnostics ev)) (record_events st rs) d) =
      hd_valid_checkpoints d + length (filter (\<lambda>r. \<exists>c. r = Checkpoint c) rs)" for d
    by (induction st rs arbitrary: d rule: record_events.induct) (simp_all add: add_diagnostics_def no_diagnostics_def)
  then show ?thesis by (simp add: sum_events_def no_diagnostics_def)
qed

fun epoch_of :: "scanner \<Rightarrow> epoch option" where
  "epoch_of (Await_sample e) = Some e"
| "epoch_of (Usable e) = Some e"
| "epoch_of _ = None"

definition excluded :: "replay \<Rightarrow> nat" where
  "excluded rp = hd_excluded_records (rp_diagnostics rp)"

definition seen_lines :: "scanner \<times> replay \<Rightarrow> nat" where
  "seen_lines s = length (rp_records (snd s)) + length (pending (fst s)) + excluded (snd s)"

definition samples_of :: "history_record list \<Rightarrow> nat" where
  "samples_of rs = length (filter (\<lambda>r. \<exists>s. r = Sample s) rs)"

definition checkpoints_of :: "history_record list \<Rightarrow> nat" where
  "checkpoints_of rs = length (filter (\<lambda>r. \<exists>c. r = Checkpoint c) rs)"

definition tallied :: "replay \<Rightarrow> bool" where
  "tallied rp \<longleftrightarrow> rp_diagnostics rp = sum_events (rp_events rp) \<and>
     hd_valid_samples (rp_diagnostics rp) = samples_of (rp_records rp) \<and>
     hd_valid_checkpoints (rp_diagnostics rp) = checkpoints_of (rp_records rp)"

definition accounted :: "scanner \<times> replay \<Rightarrow> bool" where
  "accounted s \<longleftrightarrow> tallied (snd s) \<and> (\<forall>e. epoch_of (fst s) = Some e \<longrightarrow>
     ep_events e = record_events None (ep_records e) \<and> ep_state e = state_after None (ep_records e))"

lemma excluded_simps [simp]:
  "excluded (note_event at d rp) = excluded rp + hd_excluded_records d"
  "excluded (exclude_record at rp) = Suc (excluded rp)"
  "excluded (open_gap t rp) = excluded rp" "excluded (close_open_gap t rp) = excluded rp"
  "excluded (advance_ordering_bound t rp) = excluded rp" "excluded (bound_with t' rp) = excluded rp"
  by (simp_all add: excluded_def exclude_record_def add_diagnostics_def)

lemma fold_exclude_excluded [simp]:
  "excluded (fold (\<lambda>r. exclude_record (record_timestamp r)) rs rp) = excluded rp + length rs"
  by (induction rs arbitrary: rp) simp_all

lemma exclude_epoch_excluded [simp]:
  "excluded (exclude_epoch e dam rp) = excluded rp + length (ep_records e) + (if dam = None then 0 else 1)"
  by (simp add: exclude_epoch_def Let_def no_diagnostics_def split: option.splits)

lemma tallied_note:
  "tallied rp \<Longrightarrow> hd_valid_samples d = 0 \<Longrightarrow> hd_valid_checkpoints d = 0 \<Longrightarrow> tallied (note_event at d rp)"
  by (auto simp: tallied_def add_diagnostics_def)

lemma tallied_exclude_record: "tallied rp \<Longrightarrow> tallied (exclude_record at rp)"
  by (simp add: exclude_record_def tallied_note no_diagnostics_def)

lemma tallied_same [simp]:
  "tallied (open_gap t rp) = tallied rp" "tallied (close_open_gap t rp) = tallied rp"
  "tallied (advance_ordering_bound t rp) = tallied rp" "tallied (bound_with t' rp) = tallied rp"
  "tallied (rp\<lparr>rp_needs_separator := b\<rparr>) = tallied rp"
  by (simp_all add: tallied_def)

lemma tallied_fold_exclude: "tallied rp \<Longrightarrow> tallied (fold (\<lambda>r. exclude_record (record_timestamp r)) rs rp)"
  by (induction rs arbitrary: rp) (simp_all add: tallied_exclude_record)

lemma tallied_exclude_epoch: "tallied rp \<Longrightarrow> tallied (exclude_epoch e dam rp)"
  by (auto simp: exclude_epoch_def Let_def no_diagnostics_def tallied_note tallied_fold_exclude
      intro!: tallied_exclude_record split: option.splits)

lemma fold_note_events:
  "rp_diagnostics (fold (\<lambda>ev. note_event (ev_at ev) (ev_diagnostics ev)) evs rp) =
     fold (\<lambda>ev. add_diagnostics (ev_diagnostics ev)) evs (rp_diagnostics rp)"
  by (induction evs arbitrary: rp) simp_all

lemma fold_add_diagnostics:
  "fold (\<lambda>ev. add_diagnostics (ev_diagnostics ev)) evs d = add_diagnostics (sum_events evs) d"
proof (induction evs rule: rev_induct)
  case (snoc ev evs)
  then show ?case by (simp add: add_diagnostics_def)
qed (simp add: add_diagnostics_def no_diagnostics_def)

lemma sum_events_append: "sum_events (xs @ ys) = add_diagnostics (sum_events ys) (sum_events xs)"
  using fold_add_diagnostics [of ys "sum_events xs"] by (simp add: sum_events_def)

lemma commit_epoch_diagnostics:
  "rp_diagnostics (commit_epoch e rp) = add_diagnostics (sum_events (ep_events e)) (rp_diagnostics rp)"
  by (simp add: commit_epoch_def Let_def fold_note_events fold_add_diagnostics)

lemma commit_epoch_tallied:
  assumes "tallied rp" "ep_events e = record_events None (ep_records e)"
  shows "tallied (commit_epoch e rp)" "excluded (commit_epoch e rp) = excluded rp"
proof -
  note sum_events_append [of "rp_events rp" "ep_events e"]
  then show "tallied (commit_epoch e rp)" "excluded (commit_epoch e rp) = excluded rp"
    using assms sum_events_counts [of None "ep_records e"]
    by (auto simp: tallied_def commit_epoch_diagnostics add_diagnostics_def samples_of_def checkpoints_of_def excluded_def)
qed

lemma accounted_drop: "tallied rp \<Longrightarrow> epoch_of st = None \<Longrightarrow> accounted (st, rp)"
  by (simp add: accounted_def)

lemma epoch_of_pending: "pending st = (case epoch_of st of None \<Rightarrow> [] | Some e \<Rightarrow> ep_records e)"
  by (cases st) simp_all

lemma invalidate_accounted:
  assumes "accounted s"
  shows "accounted (invalidate at s) \<and> seen_lines (invalidate at s) = Suc (seen_lines s)"
  using assms
  by (cases s; cases "fst s")
    (auto simp: invalidate_def accounted_def seen_lines_def intro: tallied_exclude_epoch tallied_exclude_record)

lemma damaged_line_accounted:
  assumes "accounted s"
  shows "accounted (damaged_line sd line s) \<and> seen_lines (damaged_line sd line s) = Suc (seen_lines s)"
proof -
  have "accounted (fst s, bound_with at (snd s)) \<and> seen_lines (fst s, bound_with at (snd s)) = seen_lines s" for at
    using assms by (simp add: accounted_def seen_lines_def)
  then show ?thesis
    using invalidate_accounted by (auto simp: damaged_line_def Let_def)
qed

lemma start_boot_accounted:
  assumes "accounted s"
  shows "accounted (start_boot b s) \<and> seen_lines (start_boot b s) = Suc (seen_lines s)"
  using assms
  by (cases s; cases "fst s")
    (auto simp: start_boot_def Let_def accounted_def seen_lines_def commit_epoch_tallied tallied_exclude_epoch)

lemma ingest_record_accounted:
  assumes "accounted s" "\<not> is_boot r"
  shows "accounted (ingest_record r s) \<and> seen_lines (ingest_record r s) = Suc (seen_lines s)"
proof -
  obtain st rp where s: "s = (st, rp)" by (cases s)
  have ev: "ep_events (add_sample sa e) = record_events None (ep_records e @ [Sample sa])"
      "ep_events (add_checkpoint c e) = record_events None (ep_records e @ [Checkpoint c])"
      "state_after None (ep_records e @ [Sample sa]) = Some (sa_state sa)"
      "state_after None (ep_records e @ [Checkpoint c]) = ep_state e"
    if "epoch_of st = Some e" for e sa c
    using that assms(1) s
    by (simp_all add: accounted_def add_sample_def add_checkpoint_def record_events_append state_after_append)
  show ?thesis
    using assms ev
    by (cases st; cases r)
      (auto simp: s ingest_record_def Let_def accounted_def seen_lines_def tallied_exclude_epoch tallied_exclude_record)
qed

lemma accept_record_accounted:
  assumes "accounted s"
  shows "accounted (accept_record r s) \<and> seen_lines (accept_record r s) = Suc (seen_lines s)"
proof -
  let ?s = "apsnd (advance_ordering_bound (record_timestamp r)) s"
  have adv: "accounted ?s \<and> seen_lines ?s = seen_lines s"
    using assms by (cases s) (simp add: accounted_def seen_lines_def)
  have "accounted (case r of Boot b \<Rightarrow> start_boot b ?s | _ \<Rightarrow> ingest_record r ?s) \<and>
      seen_lines (case r of Boot b \<Rightarrow> start_boot b ?s | _ \<Rightarrow> ingest_record r ?s) = Suc (seen_lines s)"
    using adv start_boot_accounted [of ?s] ingest_record_accounted [of ?s r] by (cases r) auto
  with invalidate_accounted [OF assms] show ?thesis by (simp add: accept_record_def Let_def)
qed

text \<open>The lines of a file that are not blank; a last line without a line feed counts even when blank.\<close>

definition counted_lines :: "bytes \<Rightarrow> nat" where
  "counted_lines content = length (filter (\<lambda>l. \<not> blank_line l) (butlast (split_on (CHR 0x0A) content))) +
     (if last (split_on (CHR 0x0A) content) = [] then 0 else 1)"

lemma split_on_not_Nil [simp]: "split_on d s \<noteq> []"
  by (induction s) (auto split: list.splits)

lemma split_on_line: "d \<notin> set line \<Longrightarrow> split_on d (line @ d # rest) = line # split_on d rest"
  by (induction line) (auto split: list.splits)

lemma split_on_tail: "d \<notin> set line \<Longrightarrow> split_on d line = [line]"
  by (induction line) auto

lemma read_line_cases:
  assumes "read_line content = (line, terminated, rest)"
  shows "CHR 0x0A \<notin> set line" "terminated \<Longrightarrow> content = line @ CHR 0x0A # rest" "\<not> terminated \<Longrightarrow> content = line"
proof -
  have l: "line = takeWhile (\<lambda>c. c \<noteq> CHR 0x0A) content" "terminated \<longleftrightarrow> dropWhile (\<lambda>c. c \<noteq> CHR 0x0A) content \<noteq> []"
      "rest = drop 1 (dropWhile (\<lambda>c. c \<noteq> CHR 0x0A) content)"
    using assms by (auto simp: read_line_def Let_def)
  show "CHR 0x0A \<notin> set line" by (auto simp: l(1) dest: set_takeWhileD)
  show "content = line @ CHR 0x0A # rest" if "terminated"
  proof -
    have "hd (dropWhile (\<lambda>c. c \<noteq> CHR 0x0A) content) = CHR 0x0A"
      using that hd_dropWhile [of "\<lambda>c. c \<noteq> CHR 0x0A" content] by (auto simp: l(2))
    then have "dropWhile (\<lambda>c. c \<noteq> CHR 0x0A) content = CHR 0x0A # rest"
      using that l(2,3) by (cases "dropWhile (\<lambda>c. c \<noteq> CHR 0x0A) content") auto
    then show ?thesis using takeWhile_dropWhile_id [of "\<lambda>c. c \<noteq> CHR 0x0A" content] l(1) by simp
  qed
  show "content = line" if "\<not> terminated"
  proof -
    have d: "dropWhile (\<lambda>c. c \<noteq> CHR 0x0A) content = []" using that l(2) by blast
    show ?thesis
      using takeWhile_dropWhile_id [of "\<lambda>c. c \<noteq> CHR 0x0A" content] unfolding d by (simp only: l(1) append_Nil2)
  qed
qed

lemma scan_line_end:
  assumes "CHR 0x0A \<notin> set line"
  shows "scan sd i saw (line @ CHR 0x0A # rest) s =
    bind_result (scan_line sd (i + 1) line s) (scan sd (i + 1) (saw \<or> \<not> blank_line line) rest)"
proof -
  have "takeWhile (\<lambda>c. c \<noteq> CHR 0x0A) (line @ CHR 0x0A # rest) = line"
    "dropWhile (\<lambda>c. c \<noteq> CHR 0x0A) (line @ CHR 0x0A # rest) = CHR 0x0A # rest"
    using assms by (induction line) auto
  then show ?thesis by (subst scan.simps) (simp add: read_line_def)
qed

lemma scan_end_of_file:
  assumes "CHR 0x0A \<notin> set line" "line \<noteq> []"
  shows "scan sd i saw line s = bind_result (scan_tail sd (i + 1) line s) (\<lambda>s. Ok (saw \<or> \<not> blank_line line, s))"
proof -
  have "takeWhile (\<lambda>c. c \<noteq> CHR 0x0A) line = line" "dropWhile (\<lambda>c. c \<noteq> CHR 0x0A) line = []"
    using assms(1) by (induction line) auto
  then have "read_line line = (line, False, [])"
    unfolding read_line_def by (simp only: Let_def) simp
  then show ?thesis using assms(2) by (subst scan.simps) simp
qed

lemma scan_empty [simp]: "scan sd i saw [] s = Ok (saw, s)"
  by (simp add: scan.simps)

text \<open>Induction over the lines of a file.\<close>

lemma content_induct [case_names empty tail line]:
  assumes "P []"
    and "\<And>line. CHR 0x0A \<notin> set line \<Longrightarrow> line \<noteq> [] \<Longrightarrow> P line"
    and "\<And>line rest. CHR 0x0A \<notin> set line \<Longrightarrow> P rest \<Longrightarrow> P (line @ CHR 0x0A # rest)"
  shows "P content"
proof (induction content rule: length_induct)
  case (1 content)
  obtain line terminated rest where rl: "read_line content = (line, terminated, rest)" by (cases "read_line content") auto
  note cs = read_line_cases [OF rl]
  show ?case
  proof (cases terminated)
    case True
    with cs(2) have "length rest < length content" by simp
    with 1 cs(1,2) True assms(3) show ?thesis by auto
  next
    case False
    with cs assms(1,2) show ?thesis by (cases "content = []") auto
  qed
qed

lemma scan_line_accounted:
  assumes "accounted s" "scan_line sd i line s = Ok s'"
  shows "accounted s' \<and> seen_lines s' = seen_lines s + (if blank_line line then 0 else 1)"
  using assms accept_record_accounted [OF assms(1)] damaged_line_accounted [OF assms(1)]
  by (auto simp: scan_line_def split: if_splits sum.splits)

lemma scan_tail_accounted:
  assumes "accounted s" "scan_tail sd i line s = Ok s'"
  shows "accounted s' \<and> seen_lines s' = Suc (seen_lines s)"
proof -
  let ?s = "apsnd (\<lambda>rp. rp\<lparr>rp_needs_separator := \<not> blank_line line\<rparr>) s"
  have "accounted ?s \<and> seen_lines ?s = seen_lines s"
    using assms(1) by (cases s) (simp add: accounted_def seen_lines_def excluded_def)
  moreover have "s' = damaged_line sd line ?s"
    using assms(2) by (auto simp: scan_tail_def split: if_splits sum.splits)
  ultimately show ?thesis using damaged_line_accounted [of ?s sd line] by simp
qed

lemma scan_accounted:
  "accounted s \<Longrightarrow> scan sd i saw content s = Ok (saw', s') \<Longrightarrow>
     accounted s' \<and> seen_lines s' = seen_lines s + counted_lines content"
proof (induction content arbitrary: i saw s rule: content_induct)
  case empty
  then show ?case by (simp add: counted_lines_def)
next
  case (tail line)
  then have "scan_tail sd (i + 1) line s = Ok s'" by (auto simp: scan_end_of_file bind_result_Ok_iff)
  from scan_tail_accounted [OF tail.prems(1) this] tail.hyps show ?case
    by (simp add: counted_lines_def split_on_tail)
next
  case (line line rest)
  then obtain s1 where s1: "scan_line sd (i + 1) line s = Ok s1"
      "scan sd (i + 1) (saw \<or> \<not> blank_line line) rest s1 = Ok (saw', s')"
    by (auto simp: scan_line_end bind_result_Ok_iff)
  from scan_line_accounted [OF line.prems(1) s1(1)] line.IH [OF _ s1(2)]
  have "accounted s' \<and> seen_lines s' = seen_lines s + (if blank_line line then 0 else 1) + counted_lines rest"
    by simp
  then show ?case using line.hyps by (simp add: counted_lines_def split_on_line)
qed

lemma finish_accounted:
  assumes "accounted s"
  shows "tallied (finish_scan s) \<and> length (rp_records (finish_scan s)) + excluded (finish_scan s) = seen_lines s"
  using assms
  by (cases s; cases "fst s")
    (auto simp: finish_scan_def accounted_def seen_lines_def commit_epoch_tallied tallied_exclude_epoch)

lemma validate_accounted:
  assumes "validate_canonical sd content = Ok rp"
  shows "tallied rp \<and> length (rp_records rp) + excluded rp = counted_lines content"
proof -
  obtain saw s where s: "scan sd 0 False content (Await_boot, empty_replay) = Ok (saw, s)" and rp: "rp = finish_scan s"
    using assms by (auto simp: validate_canonical_def bind_result_Ok_iff split: if_splits)
  have "accounted (Await_boot, empty_replay)"
    by (simp add: accounted_def tallied_def empty_replay_def samples_of_def checkpoints_of_def no_diagnostics_def)
  from scan_accounted [OF this s] have acc: "accounted s" "seen_lines s = counted_lines content"
    by (simp_all add: seen_lines_def excluded_def empty_replay_def no_diagnostics_def)
  from finish_accounted [OF acc(1)] show ?thesis by (simp add: rp acc(2))
qed

lemmas validate_tallied = validate_accounted [THEN conjunct1]

end
