(* ===== verification/History_Recovery.thy ===== *)
theory History_Recovery
  imports History_Replay
begin

section \<open>Recovery from damage\<close>

text \<open>
  What the scanner makes of a file that was written as it should be, torn in its last line, and
  continued after a restart; and what the gaps it reports cover.
\<close>

subsection \<open>Lines that were written\<close>

definition stream_bytes :: "serde \<Rightarrow> history_record list \<Rightarrow> bytes" where
  "stream_bytes sd rs = concat (map (\<lambda>r. record_line sd r @ [CHR 0x0A]) rs)"

lemma stream_bytes_simps [simp]:
  "stream_bytes sd [] = []"
  "stream_bytes sd (r # rs) = record_line sd r @ CHR 0x0A # stream_bytes sd rs"
  "stream_bytes sd (rs @ xs) = stream_bytes sd rs @ stream_bytes sd xs"
  by (simp_all add: stream_bytes_def)

definition written :: "serde \<Rightarrow> history_record list \<Rightarrow> bool" where
  "written sd rs \<longleftrightarrow> list_all (\<lambda>r. record_ok r \<and> reads_back sd r) rs"

lemma written_simps [simp]:
  "written sd []" "written sd (r # rs) \<longleftrightarrow> record_ok r \<and> reads_back sd r \<and> written sd rs"
  "written sd (rs @ xs) \<longleftrightarrow> written sd rs \<and> written sd xs"
  by (auto simp: written_def)

lemma scan_written:
  "written sd rs \<Longrightarrow> \<exists>n. scan sd i saw (stream_bytes sd rs @ rest) s = scan sd n (saw \<or> rs \<noteq> []) rest (fold accept_record rs s)"
proof (induction rs arbitrary: i saw s)
  case (Cons r rs)
  then have r: "CHR 0x0A \<notin> set (record_line sd r)" "\<not> blank_line (record_line sd r)"
    "decode_record sd (record_line sd r) = Ok r"
    by (simp_all add: record_line_shape decode_record_line)
  then have "scan_line sd (i + 1) (record_line sd r) s = Ok (accept_record r s)"
    by (simp add: scan_line_def)
  then have "scan sd i saw (stream_bytes sd (r # rs) @ rest) s = scan sd (i + 1) True (stream_bytes sd rs @ rest) (accept_record r s)"
    using r by (simp add: scan_line_end)
  with Cons.IH [of "i + 1" True "accept_record r s"] Cons.prems show ?case by auto
qed auto

text \<open>A file that was scanned to the end of a line can be scanned further.\<close>

definition ends_line :: "bytes \<Rightarrow> bool" where
  "ends_line content \<longleftrightarrow> content = [] \<or> last content = CHR 0x0A"

lemma scan_append:
  "ends_line content \<Longrightarrow> scan sd i saw content s = Ok (saw', s') \<Longrightarrow> \<exists>n. scan sd i saw (content @ rest) s = scan sd n saw' rest s'"
proof (induction content arbitrary: i saw s rule: content_induct)
  case (tail line)
  then show ?case by (metis ends_line_def last_in_set)
next
  case (line line more)
  then have "ends_line more" by (cases more) (auto simp: ends_line_def)
  moreover obtain s1 where "scan_line sd (i + 1) line s = Ok s1"
      "scan sd (i + 1) (saw \<or> \<not> blank_line line) more s1 = Ok (saw', s')"
    using line.prems(2) line.hyps by (auto simp: scan_line_end bind_result_Ok_iff)
  ultimately show ?case using line.IH line.hyps by (simp add: scan_line_end)
qed auto

lemma stream_bytes_ends_line: "ends_line (stream_bytes sd rs)"
  by (cases rs rule: rev_cases) (simp_all add: ends_line_def)

subsection \<open>An epoch on top of what was scanned\<close>

lemma start_boot_finish: "start_boot b s = (Await_sample (new_epoch b), close_open_gap (bo_timestamp b) (finish_scan s))"
  by (cases s; cases "fst s") (simp_all add: start_boot_def finish_scan_def)

lemma note_advance: "note_event at d (advance_ordering_bound t rp) = advance_ordering_bound t (note_event at d rp)"
  by (simp add: note_event_def advance_ordering_bound_def)

lemma exclude_record_advance: "exclude_record at (advance_ordering_bound t rp) = advance_ordering_bound t (exclude_record at rp)"
  by (simp add: exclude_record_def note_advance)

lemma open_gap_advance: "open_gap u (advance_ordering_bound t rp) = advance_ordering_bound t (open_gap u rp)"
  by (simp add: open_gap_def advance_ordering_bound_def Let_def)

lemma fold_advance:
  "fold (\<lambda>r. exclude_record (record_timestamp r)) rs (advance_ordering_bound t rp) =
     advance_ordering_bound t (fold (\<lambda>r. exclude_record (record_timestamp r)) rs rp)"
  "fold (\<lambda>ev. note_event (ev_at ev) (ev_diagnostics ev)) evs (advance_ordering_bound t rp) =
     advance_ordering_bound t (fold (\<lambda>ev. note_event (ev_at ev) (ev_diagnostics ev)) evs rp)"
proof -
  show "fold (\<lambda>r. exclude_record (record_timestamp r)) rs (advance_ordering_bound t rp) =
     advance_ordering_bound t (fold (\<lambda>r. exclude_record (record_timestamp r)) rs rp)"
    by (induction rs arbitrary: rp) (simp_all add: exclude_record_advance)
  show "fold (\<lambda>ev. note_event (ev_at ev) (ev_diagnostics ev)) evs (advance_ordering_bound t rp) =
     advance_ordering_bound t (fold (\<lambda>ev. note_event (ev_at ev) (ev_diagnostics ev)) evs rp)"
    by (induction evs arbitrary: rp) (simp_all add: note_advance)
qed

lemma finish_scan_advance:
  "finish_scan (st, advance_ordering_bound t rp) = advance_ordering_bound t (finish_scan (st, rp))"
  by (cases st)
    (simp_all add: finish_scan_def commit_epoch_def exclude_epoch_def Let_def fold_advance note_advance open_gap_advance,
     simp_all add: advance_ordering_bound_def)

definition bound_at_most :: "replay \<Rightarrow> nat \<Rightarrow> bool" where
  "bound_at_most rp t \<longleftrightarrow> (\<forall>b. rp_bound rp = Some b \<longrightarrow> b \<le> t)"

lemma accept_in_order:
  "bound_at_most (snd s) (record_timestamp r) \<Longrightarrow>
     accept_record r s = (case r of Boot b \<Rightarrow> start_boot b (apsnd (advance_ordering_bound (record_timestamp r)) s)
       | _ \<Rightarrow> ingest_record r (apsnd (advance_ordering_bound (record_timestamp r)) s))"
  by (auto simp: accept_record_def bound_at_most_def Let_def not_less split: option.splits)

lemma advance_at_most: "bound_at_most rp t \<Longrightarrow> rp_bound (advance_ordering_bound t rp) = Some t"
  by (auto simp: bound_at_most_def advance_ordering_bound_def max_def split: option.splits)

text \<open>The epoch after reading records onto it, and the replay with its bound at a time.\<close>

definition bounded_at :: "nat \<Rightarrow> replay \<Rightarrow> replay" where
  "bounded_at t rp = rp\<lparr>rp_bound := Some t\<rparr>"

lemma advance_bounded: "bound_at_most rp t \<Longrightarrow> advance_ordering_bound t rp = bounded_at t rp"
  using advance_at_most [of rp t] by (simp add: bounded_at_def advance_ordering_bound_def)

lemma bounded_at_again [simp]: "bounded_at t (bounded_at u rp) = bounded_at t rp"
  by (simp add: bounded_at_def)

lemma fold_usable:
  assumes "list_all (\<lambda>r. \<not> is_boot r \<and> record_boot_id r = ep_boot_id e) rs" "in_order rs"
    and "\<forall>r \<in> set rs. t \<le> record_timestamp r"
  shows "\<exists>e'. fold accept_record rs (Usable e, bounded_at t rp) = (Usable e', bounded_at (last (t # map record_timestamp rs)) rp) \<and>
    ep_records e' = ep_records e @ rs \<and> ep_boot_id e' = ep_boot_id e \<and> ep_from e' = ep_from e \<and>
    ep_events e' = ep_events e @ record_events (ep_state e) rs"
  using assms
proof (induction rs arbitrary: e t)
  case (Cons r rs)
  let ?e = "case r of Sample sa \<Rightarrow> push_record r (add_sample sa e) | Checkpoint c \<Rightarrow> push_record r (add_checkpoint c e) | Boot b \<Rightarrow> e"
  have acc: "accept_record r (Usable e, bounded_at t rp) = (Usable ?e, bounded_at (record_timestamp r) rp)"
  proof -
    have "bound_at_most (bounded_at t rp) (record_timestamp r)"
      using Cons.prems(3) by (simp add: bound_at_most_def bounded_at_def)
    with Cons.prems(1) show ?thesis
      by (cases r) (simp_all add: accept_in_order advance_bounded ingest_record_def)
  qed
  have same: "ep_boot_id ?e = ep_boot_id e" "ep_from ?e = ep_from e" using Cons.prems(1) by (cases r; simp)+
  have "in_order rs" "\<forall>x \<in> set rs. record_timestamp r \<le> record_timestamp x"
    using Cons.prems(2) by (simp_all add: in_order_def)
  with same obtain e' where e': "fold accept_record rs (Usable ?e, bounded_at (record_timestamp r) rp) =
      (Usable e', bounded_at (last (record_timestamp r # map record_timestamp rs)) rp)"
      "ep_records e' = ep_records ?e @ rs" "ep_boot_id e' = ep_boot_id ?e" "ep_from e' = ep_from ?e"
      "ep_events e' = ep_events ?e @ record_events (ep_state ?e) rs"
    using Cons.IH [of ?e "record_timestamp r"] Cons.prems(1) by auto
  have "ep_records ?e = ep_records e @ [r]" "ep_events ?e @ record_events (ep_state ?e) rs = ep_events e @ record_events (ep_state e) (r # rs)"
    using Cons.prems(1) by (cases r; simp add: add_sample_def add_checkpoint_def)+
  with e' acc same show ?case by auto
qed simp

lemma fold_epoch:
  assumes e: "usable e" "in_order e" and b: "bound_at_most rp (record_timestamp (hd e))"
  shows "\<exists>e'. fold accept_record e (st, rp) =
      (Usable e', bounded_at (record_timestamp (last e)) (close_open_gap (record_timestamp (hd e)) (finish_scan (st, rp)))) \<and>
    ep_records e' = e \<and> ep_events e' = record_events None e \<and> ep_from e' = record_timestamp (hd e)"
proof -
  obtain b s rs where el: "e = Boot b # Sample s # rs" "sa_boot_id s = bo_boot_id b"
      "list_all (\<lambda>r. \<not> is_boot r) (Sample s # rs)" "list_all (\<lambda>r. record_boot_id r = bo_boot_id b) e"
    using usable_cases [OF e(1)] .
  let ?t = "bo_timestamp b"
  let ?rp = "close_open_gap ?t (finish_scan (st, rp))"
  have close: "close_open_gap ?t (bounded_at ?t rq) = bounded_at ?t (close_open_gap ?t rq)" for rq
    by (simp add: close_open_gap_def bounded_at_def split: option.splits del: rposition_None)
  have fb: "rp_bound (finish_scan (st, rp)) = rp_bound rp"
    by (cases st) (simp_all add: finish_scan_def)
  have b1: "bound_at_most rp ?t" using b by (simp add: el)
  have boot: "accept_record (Boot b) (st, rp) = (Await_sample (new_epoch b), bounded_at ?t ?rp)"
    using b1 fb by (simp add: accept_in_order start_boot_finish finish_scan_advance advance_bounded [of "finish_scan (st, rp)"]
        bound_at_most_def close)
  have t: "?t \<le> sa_timestamp s" using e(2) by (simp add: el in_order_def)
  let ?e1 = "push_record (Sample s) (add_sample s (new_epoch b))"
  have sample: "accept_record (Sample s) (Await_sample (new_epoch b), bounded_at ?t ?rp) = (Usable ?e1, bounded_at (sa_timestamp s) ?rp)"
    using t by (simp add: accept_in_order bound_at_most_def bounded_at_def [of ?t] advance_ordering_bound_def
        ingest_record_def el(2) max_def) (simp add: bounded_at_def)
  have rest: "list_all (\<lambda>r. \<not> is_boot r \<and> record_boot_id r = ep_boot_id ?e1) rs" "in_order rs"
      "\<forall>r \<in> set rs. sa_timestamp s \<le> record_timestamp r"
    using el e(2) by (auto simp: list_all_iff in_order_def)
  from fold_usable [OF this, of ?rp] obtain e' where
    "fold accept_record rs (Usable ?e1, bounded_at (sa_timestamp s) ?rp) =
        (Usable e', bounded_at (last (sa_timestamp s # map record_timestamp rs)) ?rp)"
    "ep_records e' = Boot b # Sample s # rs" "ep_from e' = bo_timestamp b" "ep_events e' = ep_events ?e1 @ record_events (ep_state ?e1) rs"
    by auto
  moreover have "last (sa_timestamp s # map record_timestamp rs) = record_timestamp (last e)"
    by (simp add: el last_map)
  moreover have "ep_events ?e1 @ record_events (ep_state ?e1) rs = record_events None e"
    by (simp add: el add_sample_def)
  ultimately show ?thesis using boot sample by (simp add: el(1))
qed

subsection \<open>Whole files\<close>

definition flagged :: "bool \<Rightarrow> scanner \<times> replay \<Rightarrow> scanner \<times> replay" where
  "flagged b = apsnd (\<lambda>rp. rp\<lparr>rp_needs_separator := b\<rparr>)"

lemma note_flag: "note_event at d (rp\<lparr>rp_needs_separator := b\<rparr>) = (note_event at d rp)\<lparr>rp_needs_separator := b\<rparr>"
  by (simp add: note_event_def)

lemma exclude_record_flag: "exclude_record at (rp\<lparr>rp_needs_separator := b\<rparr>) = (exclude_record at rp)\<lparr>rp_needs_separator := b\<rparr>"
  by (simp add: exclude_record_def note_flag)

lemma open_gap_flag: "open_gap u (rp\<lparr>rp_needs_separator := b\<rparr>) = (open_gap u rp)\<lparr>rp_needs_separator := b\<rparr>"
  by (simp add: open_gap_def Let_def)

lemma fold_flag:
  "fold (\<lambda>r. exclude_record (record_timestamp r)) rs (rp\<lparr>rp_needs_separator := b\<rparr>) =
     (fold (\<lambda>r. exclude_record (record_timestamp r)) rs rp)\<lparr>rp_needs_separator := b\<rparr>"
  "fold (\<lambda>ev. note_event (ev_at ev) (ev_diagnostics ev)) evs (rp\<lparr>rp_needs_separator := b\<rparr>) =
     (fold (\<lambda>ev. note_event (ev_at ev) (ev_diagnostics ev)) evs rp)\<lparr>rp_needs_separator := b\<rparr>"
proof -
  show "fold (\<lambda>r. exclude_record (record_timestamp r)) rs (rp\<lparr>rp_needs_separator := b\<rparr>) =
     (fold (\<lambda>r. exclude_record (record_timestamp r)) rs rp)\<lparr>rp_needs_separator := b\<rparr>"
    by (induction rs arbitrary: rp) (simp_all add: exclude_record_flag)
  show "fold (\<lambda>ev. note_event (ev_at ev) (ev_diagnostics ev)) evs (rp\<lparr>rp_needs_separator := b\<rparr>) =
     (fold (\<lambda>ev. note_event (ev_at ev) (ev_diagnostics ev)) evs rp)\<lparr>rp_needs_separator := b\<rparr>"
    by (induction evs arbitrary: rp) (simp_all add: note_flag)
qed

lemma exclude_epoch_flag:
  "exclude_epoch e dam (rp\<lparr>rp_needs_separator := b\<rparr>) = (exclude_epoch e dam rp)\<lparr>rp_needs_separator := b\<rparr>"
  by (cases dam) (simp_all add: exclude_epoch_def Let_def note_flag fold_flag exclude_record_flag open_gap_flag)

lemma damaged_line_flag: "damaged_line sd line (flagged b s) = flagged b (damaged_line sd line s)"
proof -
  have "bound_with at (rp\<lparr>rp_needs_separator := b\<rparr>) = (bound_with at rp)\<lparr>rp_needs_separator := b\<rparr>" for at rp
    by (cases at) (simp_all add: bound_with_def advance_ordering_bound_def)
  moreover have "decision_at at (rp\<lparr>rp_needs_separator := b\<rparr>) = decision_at at rp" for at rp
    by (cases at) (simp_all add: decision_at_def)
  ultimately show ?thesis
    by (cases s; cases "fst s")
      (simp_all add: damaged_line_def flagged_def invalidate_def Let_def exclude_epoch_flag
        exclude_record_flag open_gap_flag)
qed

lemma finish_scan_flag: "finish_scan (flagged b s) = (finish_scan s)\<lparr>rp_needs_separator := b\<rparr>"
  by (cases s; cases "fst s")
    (simp_all add: finish_scan_def flagged_def exclude_epoch_flag commit_epoch_def Let_def fold_flag)

lemma accept_record_keeps_flag: "rp_needs_separator (snd (accept_record r s)) = rp_needs_separator (snd s)"
proof -
  have "rp_needs_separator (snd (ingest_record r s)) = rp_needs_separator (snd s)" for s
    by (cases s; cases "fst s"; cases r) (auto simp: ingest_record_def Let_def)
  then show ?thesis
    by (cases s; cases "fst s"; cases r)
      (auto simp: accept_record_def Let_def invalidate_def start_boot_def split: option.splits)
qed

lemma damaged_line_keeps_flag: "rp_needs_separator (snd (damaged_line sd line s)) = rp_needs_separator (snd s)"
  by (cases s; cases "fst s") (simp_all add: damaged_line_def Let_def invalidate_def)

lemma scan_keeps_flag:
  "ends_line content \<Longrightarrow> scan sd i saw content s = Ok (saw', s') \<Longrightarrow> rp_needs_separator (snd s') = rp_needs_separator (snd s)"
proof (induction content arbitrary: i saw s rule: content_induct)
  case (tail line)
  then show ?case by (metis ends_line_def last_in_set)
next
  case (line line more)
  then have "ends_line more" by (cases more) (auto simp: ends_line_def)
  moreover obtain s1 where "scan_line sd (i + 1) line s = Ok s1"
      "scan sd (i + 1) (saw \<or> \<not> blank_line line) more s1 = Ok (saw', s')"
    using line.prems(2) line.hyps by (auto simp: scan_line_end bind_result_Ok_iff)
  moreover from this(1) have "rp_needs_separator (snd s1) = rp_needs_separator (snd s)"
    by (auto simp: scan_line_def accept_record_keeps_flag damaged_line_keeps_flag split: if_splits sum.splits)
  ultimately show ?case using line.IH by simp
qed simp

lemma finish_scan_keeps [simp]:
  "rp_needs_separator (finish_scan s) = rp_needs_separator (snd s)" "rp_bound (finish_scan s) = rp_bound (snd s)"
  by (cases s; cases "fst s"; simp add: finish_scan_def)+

text \<open>
  A file the scanner can be restarted on: it ends with a line feed, or its last line is torn, that is
  neither blank nor a record.
\<close>

definition last_line :: "bytes \<Rightarrow> bytes" where
  "last_line content = last (split_on (CHR 0x0A) content)"

definition torn_or_whole :: "serde \<Rightarrow> bytes \<Rightarrow> bool" where
  "torn_or_whole sd content \<longleftrightarrow> last_line content = [] \<or>
     (\<not> blank_line (last_line content) \<and> (\<forall>r. decode_record sd (last_line content) \<noteq> Ok r))"

lemma split_last_line:
  obtains front where "content = front @ last_line content" "ends_line front" "CHR 0x0A \<notin> set (last_line content)"
proof -
  have "\<exists>front. content = front @ last_line content \<and> ends_line front \<and> CHR 0x0A \<notin> set (last_line content)"
  proof (induction content rule: content_induct)
    case empty
    show ?case by (simp add: last_line_def ends_line_def)
  next
    case (tail line)
    then show ?case by (simp add: last_line_def split_on_tail ends_line_def)
  next
    case (line line rest)
    then obtain front where "rest = front @ last_line rest" "ends_line front" "CHR 0x0A \<notin> set (last_line rest)" by blast
    with line.hyps have "line @ CHR 0x0A # rest = (line @ CHR 0x0A # front) @ last_line (line @ CHR 0x0A # rest)"
        "ends_line (line @ CHR 0x0A # front)" "CHR 0x0A \<notin> set (last_line (line @ CHR 0x0A # rest))"
      by (auto simp: last_line_def split_on_line ends_line_def)
    then show ?case by blast
  qed
  with that show thesis by blast
qed

definition separator :: "replay \<Rightarrow> bytes" where
  "separator rp = (if rp_needs_separator rp then [CHR 0x0A] else [])"

lemma scan_restart:
  assumes "validate_canonical sd content = Ok rp" "torn_or_whole sd content"
  obtains s where "rp\<lparr>rp_needs_separator := False\<rparr> = finish_scan s"
    "\<And>rest. \<exists>n. scan sd 0 False (content @ separator rp @ rest) (Await_boot, empty_replay) = scan sd n True rest s"
    "ends_line (content @ separator rp)"
proof -
  obtain front where front: "content = front @ last_line content" "ends_line front" "CHR 0x0A \<notin> set (last_line content)"
    by (rule split_last_line)
  let ?T = "last_line content" and ?s0 = "(Await_boot, empty_replay)"
  obtain s where s: "scan sd 0 False content ?s0 = Ok (True, s)" "rp = finish_scan s"
    using assms(1) by (auto simp: validate_canonical_def bind_result_Ok_iff split: if_splits)
  show thesis
  proof (cases "?T = []")
    case True
    with front have e: "ends_line content" by simp
    with s have flag: "\<not> rp_needs_separator rp" by (simp add: scan_keeps_flag empty_replay_def)
    show thesis
      using scan_append [OF e s(1)] e flag s(2) by (intro that [of s]) (auto simp: separator_def)
  next
    case False
    obtain saw1 s1 where s1: "scan sd 0 False front ?s0 = Ok (saw1, s1)"
    proof -
      have "\<exists>r. scan sd i saw front s0 = Ok r" if "scan sd i saw (front @ ?T) s0 = Ok r'" for i saw s0 r'
        using that front(2)
      proof (induction front arbitrary: i saw s0 rule: content_induct)
        case (tail line)
        then show ?case by (metis ends_line_def last_in_set)
      next
        case (line line more)
        then have "ends_line more" by (cases more) (auto simp: ends_line_def)
        with line show ?case by (auto simp: scan_line_end bind_result_Ok_iff)
      qed auto
      with s(1) front(1) that show thesis by (metis surj_pair)
    qed
    have tail: "\<exists>n. scan sd 0 False content ?s0 = scan sd n saw1 ?T s1"
      using scan_append [OF front(2) s1, of ?T] front(1) by simp
    from assms(2) False obtain e where err: "decode_record sd ?T = Err e" and nb: "\<not> blank_line ?T"
      by (auto simp: torn_or_whole_def) (metis sum.exhaust_sel)
    with tail s(1) front(3) False have dl: "s = damaged_line sd ?T (flagged True s1)" and ns: "\<not> unsupported e"
      by (auto simp: scan_end_of_file bind_result_Ok_iff scan_tail_def flagged_def split: if_splits)
    have "rp_needs_separator rp" by (simp add: s(2) dl damaged_line_keeps_flag flagged_def)
    then have sep: "separator rp = [CHR 0x0A]" by (simp add: separator_def)
    show thesis
    proof (rule that [of "damaged_line sd ?T s1"])
      have "rp_needs_separator (snd s1) = False" using scan_keeps_flag [OF front(2) s1] by (simp add: empty_replay_def)
      then have "flagged False s1 = s1" by (cases s1) (simp add: flagged_def)
      then show "rp\<lparr>rp_needs_separator := False\<rparr> = finish_scan (damaged_line sd ?T s1)"
        using finish_scan_flag [of False "damaged_line sd ?T s1"]
        by (simp add: s(2) dl damaged_line_flag finish_scan_flag) (metis damaged_line_flag finish_scan_flag)
      show "\<exists>n. scan sd 0 False (content @ separator rp @ rest) ?s0 = scan sd n True rest (damaged_line sd ?T s1)" for rest
      proof -
        obtain n where "scan sd 0 False (front @ (?T @ CHR 0x0A # rest)) ?s0 = scan sd n saw1 (?T @ CHR 0x0A # rest) s1"
          using scan_append [OF front(2) s1] by blast
        moreover have eq: "content @ separator rp @ rest = front @ (?T @ CHR 0x0A # rest)"
          using arg_cong [OF front(1), of "\<lambda>c. c @ CHR 0x0A # rest"] by (simp add: sep)
        ultimately show ?thesis
          using front(3) nb err ns unfolding eq by (auto simp: scan_line_end scan_line_def)
      qed
      show "ends_line (content @ separator rp)" by (simp add: sep ends_line_def)
    qed
  qed
qed

subsection \<open>Continuing a file\<close>

lemma resume_scan:
  assumes "validate_canonical sd content = Ok rp" "torn_or_whole sd content" "written sd rs"
  obtains s where "rp\<lparr>rp_needs_separator := False\<rparr> = finish_scan s"
    "\<And>rest. \<exists>n. scan sd 0 False (content @ separator rp @ stream_bytes sd rs @ rest) (Await_boot, empty_replay) =
       scan sd n True rest (fold accept_record rs s)"
    "ends_line (content @ separator rp @ stream_bytes sd rs)"
proof -
  obtain s where s: "rp\<lparr>rp_needs_separator := False\<rparr> = finish_scan s"
    "\<And>rest. \<exists>n. scan sd 0 False (content @ separator rp @ rest) (Await_boot, empty_replay) = scan sd n True rest s"
    "ends_line (content @ separator rp)"
    using scan_restart [OF assms(1,2)] by blast
  have "\<exists>n. scan sd 0 False (content @ separator rp @ stream_bytes sd rs @ rest) (Await_boot, empty_replay) =
     scan sd n True rest (fold accept_record rs s)" for rest
    using s(2) [of "stream_bytes sd rs @ rest"] scan_written [OF assms(3), of _ True rest s] by (metis (full_types))
  moreover have "ends_line (content @ separator rp @ stream_bytes sd rs)"
    using s(3) by (cases rs rule: rev_cases) (simp_all add: ends_line_def)
  ultimately show thesis using that s(1) by blast
qed

lemma rp_bound_flag: "rp\<lparr>rp_needs_separator := False\<rparr> = finish_scan s \<Longrightarrow> rp_bound (snd s) = rp_bound rp"
  by (metis finish_scan_keeps(2) replay.select_convs(5) replay.surjective replay.update_convs(6))

lemma open_gap_cong: "rp_gaps rp = rp_gaps rp' \<Longrightarrow> rp_gaps (open_gap t rp) = rp_gaps (open_gap t rp')"
  by (simp add: open_gap_def Let_def)

lemma exclude_epoch_gaps: "rp_gaps (exclude_epoch e dam rp) = rp_gaps (open_gap (ep_from e) rp)"
  unfolding exclude_epoch_def Let_def by (rule open_gap_cong) (simp split: option.splits)

lemma resume_epoch:
  assumes "validate_canonical sd content = Ok rp" "torn_or_whole sd content"
    and e: "usable e" "in_order e" "written sd e" "bound_at_most rp (record_timestamp (hd e))"
  shows "\<exists>rp'. validate_canonical sd (content @ separator rp @ stream_bytes sd e) = Ok rp' \<and>
    rp_records rp' = rp_records rp @ e \<and>
    rp_events rp' = rp_events rp @ record_events None e \<and>
    rp_gaps rp' = rp_gaps (close_open_gap (record_timestamp (hd e)) rp) \<and>
    rp_bound rp' = Some (record_timestamp (last e)) \<and> \<not> rp_needs_separator rp'"
    and "ends_line (content @ separator rp @ stream_bytes sd e)"
    and "CHR 0x0A \<notin> set tail \<Longrightarrow> \<not> blank_line tail \<Longrightarrow> decode_record sd tail = Err err \<Longrightarrow> \<not> unsupported err \<Longrightarrow>
      trustworthy_timestamp sd tail = None \<Longrightarrow>
      \<exists>rp'. validate_canonical sd (content @ separator rp @ stream_bytes sd e @ tail) = Ok rp' \<and>
        rp_records rp' = rp_records rp \<and>
        rp_gaps rp' = rp_gaps (open_gap (record_timestamp (hd e)) (close_open_gap (record_timestamp (hd e)) rp)) \<and>
        excluded rp' = excluded rp + length e + 1 \<and>
        rp_bound rp' = Some (record_timestamp (last e)) \<and> rp_needs_separator rp'"
proof -
  let ?t = "record_timestamp (hd e)" and ?s0 = "(Await_boot, empty_replay)"
  obtain s where s: "rp\<lparr>rp_needs_separator := False\<rparr> = finish_scan s"
    "\<And>rest. \<exists>n. scan sd 0 False (content @ separator rp @ stream_bytes sd e @ rest) ?s0 =
       scan sd n True rest (fold accept_record e s)"
    "ends_line (content @ separator rp @ stream_bytes sd e)"
    using resume_scan [OF assms(1,2) e(3)] by blast
  show "ends_line (content @ separator rp @ stream_bytes sd e)" by (rule s(3))
  obtain st rq where st: "s = (st, rq)" by (cases s)
  define rc where "rc = bounded_at (record_timestamp (last e)) (close_open_gap ?t (rp\<lparr>rp_needs_separator := False\<rparr>))"
  have "bound_at_most rq ?t" using e(4) rp_bound_flag [OF s(1)] st by (simp add: bound_at_most_def)
  from fold_epoch [OF e(1,2) this, of st] obtain e' where e': "fold accept_record e s = (Usable e', rc)"
      "ep_records e' = e" "ep_events e' = record_events None e" "ep_from e' = ?t"
    unfolding st rc_def s(1) by auto
  have gaps: "rp_gaps rc = rp_gaps (close_open_gap ?t rp)" "rp_records rc = rp_records rp" "rp_events rc = rp_events rp"
      "excluded rc = excluded rp" "\<not> rp_needs_separator rc" "rp_bound rc = Some (record_timestamp (last e))"
    by (simp_all add: rc_def bounded_at_def close_open_gap_def excluded_def split: option.splits del: rposition_None)
  show "\<exists>rp'. validate_canonical sd (content @ separator rp @ stream_bytes sd e) = Ok rp' \<and>
    rp_records rp' = rp_records rp @ e \<and> rp_events rp' = rp_events rp @ record_events None e \<and>
    rp_gaps rp' = rp_gaps (close_open_gap ?t rp) \<and> rp_bound rp' = Some (record_timestamp (last e)) \<and> \<not> rp_needs_separator rp'"
    using s(2) [of "[]"] e' gaps by (auto simp: validate_canonical_def finish_scan_def)
  show "\<exists>rp'. validate_canonical sd (content @ separator rp @ stream_bytes sd e @ tail) = Ok rp' \<and>
        rp_records rp' = rp_records rp \<and> rp_gaps rp' = rp_gaps (open_gap ?t (close_open_gap ?t rp)) \<and>
        excluded rp' = excluded rp + length e + 1 \<and>
        rp_bound rp' = Some (record_timestamp (last e)) \<and> rp_needs_separator rp'"
    if "CHR 0x0A \<notin> set tail" "\<not> blank_line tail" "decode_record sd tail = Err err" "\<not> unsupported err"
      "trustworthy_timestamp sd tail = None"
  proof -
    have "tail \<noteq> []" using that(2) by (auto simp: blank_line_def)
    then have "validate_canonical sd (content @ separator rp @ stream_bytes sd e @ tail) =
        Ok (finish_scan (damaged_line sd tail (flagged True (Usable e', rc))))"
      using s(2) [of tail] that e'(1)
      by (auto simp: validate_canonical_def scan_end_of_file scan_tail_def flagged_def)
    moreover have "damaged_line sd tail (Usable e', rc) = (Invalid_epoch, exclude_epoch e' (Some (record_timestamp (last e))) rc)"
      using that(5) gaps(6) by (simp add: damaged_line_def bound_with_def decision_at_def invalidate_def)
    moreover have "rp_gaps (open_gap ?t rc) = rp_gaps (open_gap ?t (close_open_gap ?t rp))"
      by (rule open_gap_cong) (rule gaps(1))
    ultimately show ?thesis
      using gaps e'(2,4)
      by (simp add: damaged_line_flag finish_scan_flag) (simp add: finish_scan_def excluded_def [of "_\<lparr>rp_needs_separator := _\<rparr>"]
        excluded_def [symmetric] exclude_epoch_gaps)
  qed
qed

lemma record_events_epoch: "usable e \<Longrightarrow> record_events st e = record_events None e"
  by (erule usable_cases) simp

lemma last_line_append: "ends_line front \<Longrightarrow> CHR 0x0A \<notin> set line \<Longrightarrow> last_line (front @ line) = line"
proof (induction front rule: content_induct)
  case (tail l)
  then show ?case by (metis ends_line_def last_in_set)
next
  case (line l rest)
  then have "ends_line rest" by (cases rest) (auto simp: ends_line_def)
  with line show ?case by (simp add: last_line_def split_on_line)
qed (simp add: last_line_def split_on_tail)

lemma torn_or_wholeI: "ends_line content \<Longrightarrow> torn_or_whole sd content"
  using last_line_append [of content "[]"] by (simp add: torn_or_whole_def)

lemma validate_epochs:
  assumes "es \<noteq> []" "list_all usable es" "in_order (concat es)" "written sd (concat es)"
  shows "\<exists>rp. validate_canonical sd (stream_bytes sd (concat es)) = Ok rp \<and> rp_records rp = concat es \<and>
    rp_events rp = record_events None (concat es) \<and> rp_gaps rp = [] \<and>
    rp_bound rp = Some (record_timestamp (last (concat es))) \<and> \<not> rp_needs_separator rp"
  using assms
proof (induction es rule: rev_nonempty_induct)
  case (single e)
  then have e: "usable e" "in_order e" "written sd e" "e \<noteq> []" by auto
  obtain n where "scan sd 0 False (stream_bytes sd e @ []) (Await_boot, empty_replay) =
      scan sd n True [] (fold accept_record e (Await_boot, empty_replay))"
    using scan_written [OF e(3), of 0 False "[]" "(Await_boot, empty_replay)"] e(4) by auto
  moreover have "bound_at_most empty_replay (record_timestamp (hd e))" by (simp add: bound_at_most_def empty_replay_def)
  then obtain e' where "fold accept_record e (Await_boot, empty_replay) =
      (Usable e', bounded_at (record_timestamp (last e)) (close_open_gap (record_timestamp (hd e)) (finish_scan (Await_boot, empty_replay))))"
      "ep_records e' = e" "ep_events e' = record_events None e"
    using fold_epoch [OF e(1,2), of empty_replay Await_boot] by blast
  ultimately show ?case
    by (simp add: validate_canonical_def finish_scan_def bounded_at_def empty_replay_def close_open_gap_def)
next
  case (snoc e es)
  have ne: "x \<noteq> []" if "usable x" for x using that by auto
  with snoc have e: "usable e" "in_order e" "written sd e" "e \<noteq> []" "concat es \<noteq> []"
      and io: "in_order (concat es)" "\<forall>x \<in> set (concat es). \<forall>y \<in> set e. record_timestamp x \<le> record_timestamp y"
    by (auto simp: in_order_def sorted_append list_all_iff)
  from snoc.IH snoc.prems io(1) obtain rp where rp: "validate_canonical sd (stream_bytes sd (concat es)) = Ok rp"
      "rp_records rp = concat es" "rp_events rp = record_events None (concat es)" "rp_gaps rp = []"
      "rp_bound rp = Some (record_timestamp (last (concat es)))" "\<not> rp_needs_separator rp"
    by auto
  have "bound_at_most rp (record_timestamp (hd e))"
    using io(2) [rule_format, OF last_in_set [OF e(5)] hd_in_set [OF e(4)]] rp(5) by (simp add: bound_at_most_def)
  moreover have "torn_or_whole sd (stream_bytes sd (concat es))"
    by (rule torn_or_wholeI) (rule stream_bytes_ends_line)
  moreover have "close_open_gap t rp = rp" for t by (simp add: close_open_gap_def rp(4))
  ultimately show ?case
    using resume_epoch(1) [OF rp(1) _ e(1-3)] rp e(4) record_events_epoch [OF e(1), of "state_after None (concat es)"]
    by (auto simp: separator_def record_events_append)
qed

lemma validate_stream:
  assumes "stream_ok rs" and "rs \<noteq> []" and "written sd rs"
  shows "\<exists>rp. validate_canonical sd (stream_bytes sd rs) = Ok rp \<and> rp_records rp = rs \<and> rp_gaps rp = [] \<and>
    rp_events rp = record_events None rs \<and> rp_diagnostics rp = sum_events (record_events None rs) \<and>
    rp_bound rp = Some (record_timestamp (last rs)) \<and> \<not> rp_needs_separator rp"
proof -
  have "split_epochs rs \<noteq> []" using assms(2) by (cases rs) auto
  with validate_epochs [OF this] assms obtain rp where rp: "validate_canonical sd (stream_bytes sd rs) = Ok rp" "rp_records rp = rs"
      "rp_events rp = record_events None rs" "rp_gaps rp = []" "rp_bound rp = Some (record_timestamp (last rs))" "\<not> rp_needs_separator rp"
    by (auto simp: stream_ok_def)
  moreover have "rp_diagnostics rp = sum_events (rp_events rp)"
    using validate_tallied [OF rp(1)] by (simp add: tallied_def)
  ultimately show ?thesis by simp
qed

text \<open>A stream of two boots with its text layer, on which the properties are instantiated.\<close>

definition demo_epoch :: "history_record list" where
  "demo_epoch = [demo_boot 1 ''a'', demo_sample 2 ''a'' 0, demo_checkpoint 3 ''a'']"

definition demo_next_epoch :: "history_record list" where
  "demo_next_epoch = [demo_boot 5 ''b'', demo_sample 6 ''b'' 0, demo_checkpoint 7 ''b'']"

definition demo_table :: "history_record list" where
  "demo_table = demo_epoch @ demo_next_epoch @ [demo_checkpoint 2 ''a'', demo_sample 3 ''a'' 0]"

definition demo_serde :: serde where
  "demo_serde = table_serde demo_table"

lemma demo_ok: "list_all record_ok demo_table"
  by (simp add: demo_table_def demo_epoch_def demo_next_epoch_def demo_records_ok f64_is_finite_def f64_magnitude_def f64_infinity_def)

lemma demo_typed: "serde_typed demo_serde"
  unfolding demo_serde_def by (rule table_serde_typed [OF demo_ok])

lemma demo_written: "set rs \<subseteq> set demo_table \<Longrightarrow> written demo_serde rs"
  using demo_ok table_serde_reads_back [OF demo_ok] by (auto simp: written_def list_all_iff demo_serde_def)

lemma demo_streams: "stream_ok demo_epoch" "stream_ok demo_next_epoch" "stream_ok (demo_epoch @ demo_next_epoch)"
  using demo_ok
  by (simp_all add: stream_ok_def demo_table_def demo_epoch_def demo_next_epoch_def demo_records in_order_def)

lemma demo_counts:
  "demo_epoch \<noteq> []" "length demo_epoch = 3" "samples_of demo_epoch = 1" "checkpoints_of demo_epoch = 1"
  by (simp_all add: demo_epoch_def demo_records samples_of_def checkpoints_of_def)

text \<open>
  C35: a replay is well-formed whatever the file holds. If the scanner accepts a file, damaged or
  not, the records it hands on are whole epochs (a boot, a sample of that boot, then its samples and
  checkpoints), each record well-formed, their times never going back and none beyond the ordering
  bound that the next append has to respect.
\<close>

theorem replay_is_well_formed:
  assumes "serde_typed sd" and "validate_canonical sd content = Ok rp"
  shows "stream_ok (rp_records rp) \<and>
    (rp_records rp \<noteq> [] \<longrightarrow> (\<exists>b. rp_bound rp = Some b \<and> (\<forall>r \<in> set (rp_records rp). record_timestamp r \<le> b)))"
proof -
  obtain s where "scan_steps sd (Await_boot, empty_replay) s" and rp: "rp = finish_scan s"
    using validate_steps [OF assms(2)] .
  then have "replay_inv s" using scan_steps_inv [OF assms(1)] by blast
  from finish_scan_sound [OF this] show ?thesis
    unfolding rp within_def by (cases "rp_records (finish_scan s)") auto
qed

lemma replay_is_well_formed_witness:
  "\<exists>rp. validate_canonical demo_serde (stream_bytes demo_serde demo_epoch) = Ok rp \<and> stream_ok (rp_records rp) \<and> rp_records rp \<noteq> []"
proof -
  have "written demo_serde demo_epoch" by (rule demo_written) (auto simp: demo_table_def)
  with validate_stream [OF demo_streams(1) demo_counts(1)] obtain rp where
    rp: "validate_canonical demo_serde (stream_bytes demo_serde demo_epoch) = Ok rp" "rp_records rp = demo_epoch"
    by blast
  from replay_is_well_formed [OF demo_typed rp(1)] rp demo_counts(1) show ?thesis by auto
qed

text \<open>
  Nothing is dropped silently. In the replay of any file the scanner accepts, the records handed
  on and the records reported as excluded are together the lines of the file (those that are not
  blank, and an unterminated last one); the reported samples and checkpoints are exactly those handed
  on; and the totals are the sums of the dated diagnostic events, from which a query up to any time
  counts.
\<close>

theorem replay_accounts_for_lines:
  assumes "validate_canonical sd content = Ok rp"
  shows "length (rp_records rp) + hd_excluded_records (rp_diagnostics rp) = counted_lines content \<and>
    hd_valid_samples (rp_diagnostics rp) = samples_of (rp_records rp) \<and>
    hd_valid_checkpoints (rp_diagnostics rp) = checkpoints_of (rp_records rp) \<and>
    rp_diagnostics rp = sum_events (rp_events rp)"
  using validate_accounted [OF assms] unfolding tallied_def excluded_def by blast

lemma replay_accounts_for_lines_witness:
  "\<exists>rp. validate_canonical demo_serde (stream_bytes demo_serde demo_epoch) = Ok rp \<and>
     3 + hd_excluded_records (rp_diagnostics rp) = counted_lines (stream_bytes demo_serde demo_epoch) \<and>
     hd_valid_samples (rp_diagnostics rp) = 1 \<and> hd_valid_checkpoints (rp_diagnostics rp) = 1"
proof -
  have "written demo_serde demo_epoch" by (rule demo_written) (auto simp: demo_table_def)
  with validate_stream [OF demo_streams(1) demo_counts(1)] obtain rp where
    rp: "validate_canonical demo_serde (stream_bytes demo_serde demo_epoch) = Ok rp" "rp_records rp = demo_epoch"
    by blast
  from replay_accounts_for_lines [OF rp(1), unfolded rp(2) demo_counts(2-4)] rp(1) show ?thesis by blast
qed

text \<open>
  A file written without damage is replayed exactly. The lines of any well-formed stream of
  records give back those records, no gap, no exclusion, and the diagnostics of exactly those
  records.
\<close>

theorem clean_file_replays:
  assumes "stream_ok rs" and "rs \<noteq> []" and "written sd rs"
  shows "\<exists>rp. validate_canonical sd (stream_bytes sd rs) = Ok rp \<and> rp_records rp = rs \<and> rp_gaps rp = [] \<and>
    rp_events rp = record_events None rs \<and> rp_diagnostics rp = sum_events (record_events None rs) \<and>
    rp_bound rp = Some (record_timestamp (last rs)) \<and> \<not> rp_needs_separator rp"
  by (rule validate_stream [OF assms])

lemma clean_file_replays_witness:
  "\<exists>rp. validate_canonical demo_serde (stream_bytes demo_serde (demo_epoch @ demo_next_epoch)) = Ok rp \<and>
     rp_records rp = demo_epoch @ demo_next_epoch \<and> rp_gaps rp = [] \<and> rp_bound rp = Some 7"
proof -
  have "written demo_serde (demo_epoch @ demo_next_epoch)" by (rule demo_written) (auto simp: demo_table_def)
  from clean_file_replays [OF demo_streams(3) _ this] show ?thesis
    by (auto simp: demo_epoch_def demo_next_epoch_def demo_records)
qed

text \<open>
  C29: a crash in the middle of a line costs the running epoch and nothing else. Let a file be
  accepted, ended properly or torn in its last line. A restart writes the separator it needs and an
  epoch; then the next replay is the old one with that epoch added and the open gap closed at its
  boot. If instead the epoch's last line is torn, that epoch is the only loss: the earlier records
  are all there, its records and the torn line are the ones newly excluded, and a gap is open from its
  boot on. Either way the file can be continued the same way again.
\<close>

theorem crash_costs_one_epoch:
  assumes "validate_canonical sd content = Ok rp" and "torn_or_whole sd content"
    and "usable e" and "in_order e" and "written sd e" and "bound_at_most rp (record_timestamp (hd e))"
    and "CHR 0x0A \<notin> set torn" and "\<not> blank_line torn" and "decode_record sd torn = Err err" and "\<not> unsupported err"
    and "trustworthy_timestamp sd torn = None"
  shows "\<exists>rp1 rp2. validate_canonical sd (content @ separator rp @ stream_bytes sd e) = Ok rp1 \<and>
    rp_records rp1 = rp_records rp @ e \<and> rp_events rp1 = rp_events rp @ record_events None e \<and>
    rp_gaps rp1 = rp_gaps (close_open_gap (record_timestamp (hd e)) rp) \<and>
    torn_or_whole sd (content @ separator rp @ stream_bytes sd e) \<and>
    validate_canonical sd (content @ separator rp @ stream_bytes sd e @ torn) = Ok rp2 \<and>
    rp_records rp2 = rp_records rp \<and>
    hd_excluded_records (rp_diagnostics rp2) = hd_excluded_records (rp_diagnostics rp) + length e + 1 \<and>
    rp_gaps rp2 = rp_gaps (open_gap (record_timestamp (hd e)) (close_open_gap (record_timestamp (hd e)) rp)) \<and>
    torn_or_whole sd (content @ separator rp @ stream_bytes sd e @ torn)"
proof -
  note r = resume_epoch [OF assms(1-6)]
  have "last_line (content @ separator rp @ stream_bytes sd e @ torn) = torn"
    using last_line_append [OF r(2) assms(7)] by simp
  then have "torn_or_whole sd (content @ separator rp @ stream_bytes sd e @ torn)"
    using assms(8,9) by (simp add: torn_or_whole_def)
  with r(1) r(3) [OF assms(7-11)] torn_or_wholeI [OF r(2)] show ?thesis
    unfolding excluded_def by blast
qed

lemma crash_costs_one_epoch_witness:
  "\<exists>rp rp1 rp2. validate_canonical demo_serde (stream_bytes demo_serde demo_epoch @ ''y'') = Ok rp \<and> rp_needs_separator rp \<and>
     validate_canonical demo_serde (stream_bytes demo_serde demo_epoch @ ''y'' @ separator rp @ stream_bytes demo_serde demo_next_epoch) = Ok rp1 \<and>
     rp_records rp1 = rp_records rp @ demo_next_epoch \<and>
     validate_canonical demo_serde (stream_bytes demo_serde demo_epoch @ ''y'' @ separator rp @ stream_bytes demo_serde demo_next_epoch @ ''y'') = Ok rp2 \<and>
     rp_records rp2 = rp_records rp"
proof -
  have w: "written demo_serde demo_epoch" "written demo_serde demo_next_epoch" by (rule demo_written; auto simp: demo_table_def)+
  have torn: "CHR 0x0A \<notin> set ''y''" "\<not> blank_line ''y''" "decode_record demo_serde ''y'' = Err Invalid_json"
      "\<not> unsupported Invalid_json" "trustworthy_timestamp demo_serde ''y'' = None"
    by (simp_all add: blank_line_def ascii_defs decode_record_def utf8_valid.simps utf8_unit_def byte_of_def demo_serde_def
        table_serde_def unsupported_def trustworthy_timestamp_def)
  have us: "usable demo_epoch" "in_order demo_epoch" "usable demo_next_epoch" "in_order demo_next_epoch"
    by (simp_all add: demo_epoch_def demo_next_epoch_def demo_records in_order_def)
  obtain n where "scan demo_serde 0 False (stream_bytes demo_serde demo_epoch @ ''y'') (Await_boot, empty_replay) =
      scan demo_serde n True ''y'' (fold accept_record demo_epoch (Await_boot, empty_replay))"
    using scan_written [OF w(1), of 0 False "''y''" "(Await_boot, empty_replay)"] demo_counts(1) by auto
  then have rp: "validate_canonical demo_serde (stream_bytes demo_serde demo_epoch @ ''y'') =
      Ok (finish_scan (damaged_line demo_serde ''y'' (flagged True (fold accept_record demo_epoch (Await_boot, empty_replay)))))"
    using torn by (simp add: validate_canonical_def scan_end_of_file scan_tail_def flagged_def)
  let ?rp = "finish_scan (damaged_line demo_serde ''y'' (flagged True (fold accept_record demo_epoch (Await_boot, empty_replay))))"
  have "last_line (stream_bytes demo_serde demo_epoch @ ''y'') = ''y''"
    using last_line_append [OF stream_bytes_ends_line torn(1)] .
  then have t: "torn_or_whole demo_serde (stream_bytes demo_serde demo_epoch @ ''y'')"
    using torn(2,3) by (simp add: torn_or_whole_def)
  have b: "bound_at_most ?rp (record_timestamp (hd demo_next_epoch))" and "rp_needs_separator ?rp"
    using torn(5) by (simp_all add: bound_at_most_def demo_epoch_def demo_next_epoch_def demo_records accept_record_def
        start_boot_def ingest_record_def Let_def damaged_line_def invalidate_def finish_scan_def flagged_def bound_with_def
        advance_ordering_bound_def empty_replay_def)
  with crash_costs_one_epoch [OF rp t us(3,4) w(2) b torn] rp show ?thesis by auto
qed

subsection \<open>What the gaps cover\<close>

definition reached :: "replay \<Rightarrow> nat" where
  "reached rp = (case rp_bound rp of None \<Rightarrow> 0 | Some b \<Rightarrow> b)"

definition in_gap :: "recovery_gap list \<Rightarrow> nat \<Rightarrow> bool" where
  "in_gap gaps t \<longleftrightarrow> (\<exists>g \<in> set gaps. gp_from g \<le> t \<and> t \<le> gp_to g)"

definition covered :: "replay \<Rightarrow> bool" where
  "covered rp \<longleftrightarrow> (\<forall>ev \<in> set (rp_events rp). hd_excluded_epochs (ev_diagnostics ev) \<noteq> 0 \<longrightarrow>
     in_gap (rp_gaps rp) (ev_at ev) \<and> ev_at ev \<le> reached rp)"

lemma in_gap_open_gap: "in_gap (rp_gaps rp) t \<Longrightarrow> in_gap (rp_gaps (open_gap u rp)) t"
proof (cases "rp_gaps rp" rule: rev_cases)
  case (snoc gs g)
  then show "in_gap (rp_gaps rp) t \<Longrightarrow> in_gap (rp_gaps (open_gap u rp)) t"
    by (auto simp: in_gap_def open_gap_def Let_def)
qed (simp add: in_gap_def)

lemma in_gap_opened: "t \<le> u64_max \<Longrightarrow> in_gap (rp_gaps (open_gap t rp)) t"
  by (cases "rp_gaps rp" rule: rev_cases) (auto simp: in_gap_def open_gap_def Let_def gap_open_def)

lemma in_gap_closed:
  assumes "in_gap (rp_gaps rp) t" "t \<le> u"
  shows "in_gap (rp_gaps (close_open_gap u rp)) t"
proof (cases "rposition gap_open (rp_gaps rp)")
  case None
  then show ?thesis using assms(1) unfolding close_open_gap_def None by simp
next
  case (Some i)
  then have i: "i < length (rp_gaps rp)" by (rule rposition_Some [THEN conjunct1])
  from assms(1) obtain j where j: "j < length (rp_gaps rp)" "gp_from (rp_gaps rp ! j) \<le> t" "t \<le> gp_to (rp_gaps rp ! j)"
    by (auto simp: in_gap_def in_set_conv_nth)
  let ?gs = "(rp_gaps rp)[i := (rp_gaps rp ! i)\<lparr>gp_to := u\<rparr>]"
  have "gp_from (?gs ! j) \<le> t \<and> t \<le> gp_to (?gs ! j)"
    using j i assms(2) by (cases "i = j") simp_all
  moreover have "?gs ! j \<in> set ?gs" using j(1) by simp
  ultimately show ?thesis unfolding in_gap_def close_open_gap_def Some by auto
qed

lemma reached_simps [simp]:
  "reached (note_event at d rp) = reached rp" "reached (exclude_record at rp) = reached rp"
  "reached (open_gap t rp) = reached rp" "reached (close_open_gap t rp) = reached rp"
  "reached (exclude_epoch e dam rp) = reached rp" "reached (commit_epoch e rp) = reached rp"
  "reached (rp\<lparr>rp_needs_separator := b\<rparr>) = reached rp"
  by (simp_all add: reached_def)

lemma covered_note: "covered rp \<Longrightarrow> hd_excluded_epochs d = 0 \<Longrightarrow> covered (note_event at d rp)"
  by (auto simp: covered_def)

lemma covered_exclude_record: "covered rp \<Longrightarrow> covered (exclude_record at rp)"
  by (simp add: exclude_record_def covered_note no_diagnostics_def)

lemma covered_open_gap: "covered rp \<Longrightarrow> covered (open_gap t rp)"
  by (auto simp: covered_def intro: in_gap_open_gap)

lemma covered_close: "covered rp \<Longrightarrow> reached rp \<le> t \<Longrightarrow> covered (close_open_gap t rp)"
  by (fastforce simp: covered_def intro: in_gap_closed)

lemma covered_fold_exclude: "covered rp \<Longrightarrow> covered (fold (\<lambda>r. exclude_record (record_timestamp r)) rs rp)"
  by (induction rs arbitrary: rp) (simp_all add: covered_exclude_record)

lemma covered_mono: "covered rp \<Longrightarrow> rp_events rp' = rp_events rp \<Longrightarrow> rp_gaps rp' = rp_gaps rp \<Longrightarrow> reached rp \<le> reached rp' \<Longrightarrow> covered rp'"
  by (fastforce simp: covered_def)

text \<open>An epoch is excluded with a gap from its boot on; until the gap is opened its event is the only one not covered.\<close>

lemma covered_exclude_epoch:
  assumes "covered rp" "ep_from e \<le> reached rp" "ep_from e \<le> u64_max"
  shows "covered (exclude_epoch e dam rp)"
proof -
  let ?ev = "\<lparr>ev_at = ep_from e, ev_diagnostics = no_diagnostics\<lparr>hd_excluded_epochs := 1\<rparr>\<rparr>"
  define rp1 where "rp1 = (case dam of None \<Rightarrow> id | Some t \<Rightarrow> exclude_record t)
    (fold (\<lambda>r. exclude_record (record_timestamp r)) (ep_records e) rp)"
  have "covered rp1"
    using assms(1) by (auto simp: rp1_def covered_fold_exclude covered_exclude_record split: option.splits)
  moreover have "reached rp1 = reached rp"
    by (simp add: rp1_def reached_def split: option.splits)
  moreover have ev: "set (rp_events (exclude_epoch e dam rp)) \<subseteq> insert ?ev (set (rp_events rp1))"
  proof -
    have fold_ev: "rp_events (fold (\<lambda>r. exclude_record (record_timestamp r)) rs rq) = rp_events rq @
        map (\<lambda>r. \<lparr>ev_at = record_timestamp r, ev_diagnostics = no_diagnostics\<lparr>hd_excluded_records := 1\<rparr>\<rparr>) rs" for rs rq
      by (induction rs arbitrary: rq) (simp_all add: exclude_record_def)
    then show ?thesis
      by (cases dam) (auto simp: exclude_epoch_def Let_def rp1_def exclude_record_def)
  qed
  moreover have "rp_gaps (exclude_epoch e dam rp) = rp_gaps (open_gap (ep_from e) rp1)"
    unfolding exclude_epoch_gaps by (rule open_gap_cong) (simp add: rp1_def split: option.splits)
  ultimately show ?thesis
    using assms(2,3) in_gap_opened [of "ep_from e" rp1] covered_open_gap [of rp1 "ep_from e"]
    unfolding covered_def by (fastforce simp: reached_def)
qed

definition covering :: "scanner \<times> replay \<Rightarrow> bool" where
  "covering s \<longleftrightarrow> covered (snd s) \<and> (\<forall>e. epoch_of (fst s) = Some e \<longrightarrow>
     ep_from e \<le> reached (snd s) \<and> ep_from e \<le> u64_max \<and> (\<forall>ev \<in> set (ep_events e). hd_excluded_epochs (ev_diagnostics ev) = 0))"

lemma covered_commit:
  "covered rp \<Longrightarrow> \<forall>ev \<in> set (ep_events e). hd_excluded_epochs (ev_diagnostics ev) = 0 \<Longrightarrow> covered (commit_epoch e rp)"
  by (auto simp: covered_def)

lemma covering_finish: "covering s \<Longrightarrow> covered (finish_scan s)"
  by (cases s; cases "fst s") (auto simp: finish_scan_def covering_def covered_commit covered_exclude_epoch)

lemma covering_invalid: "covered rp \<Longrightarrow> covering (Invalid_epoch, rp)"
  by (simp add: covering_def)

lemma covering_excluded:
  "covering (st, rp) \<Longrightarrow> epoch_of st = Some e \<Longrightarrow> covered (exclude_epoch e dam rp)"
  by (simp add: covering_def covered_exclude_epoch)

lemma covering_alien: "covering (st, rp) \<Longrightarrow> covered (open_gap t (exclude_record u rp))"
  by (simp add: covering_def covered_open_gap covered_exclude_record)

lemma covering_advance: "covering (st, rp) \<Longrightarrow> covering (st, advance_ordering_bound t rp)"
proof -
  have r: "reached rp \<le> reached (advance_ordering_bound t rp)"
    by (auto simp: reached_def advance_ordering_bound_def split: option.splits)
  assume "covering (st, rp)"
  with r show ?thesis
    using covered_mono [of rp "advance_ordering_bound t rp"] by (auto simp: covering_def intro: order_trans)
qed

lemma covering_bound_with: "covering (st, rp) \<Longrightarrow> covering (st, bound_with at rp)"
  by (cases at) (simp_all add: bound_with_def covering_advance)

lemma covering_invalidate: "covering s \<Longrightarrow> covering (invalidate at s)"
  by (cases s; cases "fst s")
    (auto simp: invalidate_def intro!: covering_invalid intro: covering_excluded covering_alien)

lemma covering_ingest:
  assumes "covering (st, rp)" "\<not> is_boot r"
  shows "covering (ingest_record r (st, rp))"
proof (cases "epoch_of st")
  case None
  then show ?thesis
    using covering_alien [OF assms(1)] by (cases st) (simp_all add: ingest_record_def Let_def covering_invalid)
next
  case (Some e)
  note x = covering_excluded [OF assms(1) Some, THEN covering_invalid]
  have "covering (Usable (push_record r (add_sample sa e)), rp)" "covering (Usable (push_record r (add_checkpoint c e)), rp)" for sa c
    using assms(1) Some by (auto simp: covering_def add_sample_def add_checkpoint_def no_diagnostics_def)
  with x Some assms(2) show ?thesis
    by (cases st; cases r) (auto simp: ingest_record_def Let_def)
qed

lemma covering_accept:
  assumes "covering s" "record_ok r"
  shows "covering (accept_record r s)"
proof (cases "case rp_bound (snd s) of None \<Rightarrow> False | Some bound \<Rightarrow> record_timestamp r < bound")
  case True
  then show ?thesis using covering_invalidate [OF assms(1)] by (simp add: accept_record_def)
next
  case False
  obtain st rp where s: "s = (st, rp)" by (cases s)
  let ?t = "record_timestamp r"
  let ?rp = "advance_ordering_bound ?t rp"
  have eq: "accept_record r s = (case r of Boot b \<Rightarrow> start_boot b (st, ?rp) | _ \<Rightarrow> ingest_record r (st, ?rp))"
    using False by (simp add: accept_record_def s Let_def)
  have cov: "covering (st, ?rp)" using assms(1) s by (simp add: covering_advance)
  show ?thesis
  proof (cases r)
    case (Boot b)
    have r: "reached ?rp = bo_timestamp b"
      using False s Boot by (auto simp: reached_def advance_ordering_bound_def split: option.splits)
    then have "reached (finish_scan (st, ?rp)) = bo_timestamp b" by (simp add: reached_def)
    moreover have "bo_timestamp b \<le> u64_max" using assms(2) Boot by (simp add: u64_max_def)
    ultimately show ?thesis
      unfolding eq using covering_finish [OF cov] Boot by (simp add: start_boot_finish covering_def covered_close)
  qed (use covering_ingest [OF cov] in \<open>unfold eq, simp_all\<close>)
qed

lemma scan_steps_covering:
  assumes "serde_typed sd" "scan_steps sd (Await_boot, empty_replay) s"
  shows "covering s"
  using assms(2)
proof (induction rule: rtranclp_induct)
  case base
  then show ?case by (simp add: covering_def covered_def empty_replay_def)
next
  case (step s s')
  from step.hyps(2) show ?case
  proof cases
    case (accepted line r)
    then show ?thesis using covering_accept [OF step.IH] decode_record_ok [OF assms(1)] by blast
  next
    case (damaged line)
    then show ?thesis using step.IH
      by (cases s) (simp add: damaged_line_def Let_def covering_invalidate covering_bound_with)
  next
    case (tail b)
    then show ?thesis using step.IH
      by (cases s) (auto simp: covering_def intro: covered_mono)
  qed
qed

text \<open>
  The gaps tell where history is missing. Whatever the file, every epoch the replay excluded
  began inside a reported gap, and still does after the restart has closed the open gap at its boot
  time.
\<close>

theorem excluded_epochs_lie_in_gaps:
  assumes "serde_typed sd" and "validate_canonical sd content = Ok rp" and "bound_at_most rp boot"
    and "ev \<in> set (rp_events rp)" and "hd_excluded_epochs (ev_diagnostics ev) \<noteq> 0"
  shows "in_gap (rp_gaps rp) (ev_at ev) \<and> in_gap (rp_gaps (close_open_gap boot rp)) (ev_at ev)"
proof -
  obtain s where "scan_steps sd (Await_boot, empty_replay) s" and rp: "rp = finish_scan s"
    using validate_steps [OF assms(2)] .
  then have "covered rp" using scan_steps_covering [OF assms(1)] covering_finish by blast
  moreover from this have "covered (close_open_gap boot rp)"
    using assms(3) by (intro covered_close) (auto simp: reached_def bound_at_most_def split: option.splits)
  ultimately show ?thesis using assms(4,5) by (auto simp: covered_def)
qed

lemma excluded_epochs_lie_in_gaps_witness:
  "\<exists>rp ev. validate_canonical demo_serde (stream_bytes demo_serde [demo_boot 1 ''a'']) = Ok rp \<and> ev \<in> set (rp_events rp) \<and>
     hd_excluded_epochs (ev_diagnostics ev) = 1 \<and> in_gap (rp_gaps rp) (ev_at ev) \<and> in_gap (rp_gaps (close_open_gap 5 rp)) (ev_at ev)"
proof -
  have w: "written demo_serde [demo_boot 1 ''a'']" by (rule demo_written) (auto simp: demo_table_def demo_epoch_def)
  obtain n where "scan demo_serde 0 False (stream_bytes demo_serde [demo_boot 1 ''a''] @ []) (Await_boot, empty_replay) =
      scan demo_serde n True [] (fold accept_record [demo_boot 1 ''a''] (Await_boot, empty_replay))"
    using scan_written [OF w, of 0 False "[]" "(Await_boot, empty_replay)"] by auto
  then have rp: "validate_canonical demo_serde (stream_bytes demo_serde [demo_boot 1 ''a'']) =
      Ok (finish_scan (fold accept_record [demo_boot 1 ''a''] (Await_boot, empty_replay)))"
    by (simp add: validate_canonical_def)
  let ?rp = "finish_scan (fold accept_record [demo_boot 1 ''a''] (Await_boot, empty_replay))"
  let ?ev = "\<lparr>ev_at = 1, ev_diagnostics = no_diagnostics\<lparr>hd_excluded_epochs := 1\<rparr>\<rparr>"
  have "bound_at_most ?rp 5" "?ev \<in> set (rp_events ?rp)"
    by (simp_all add: bound_at_most_def demo_records accept_record_def start_boot_def Let_def finish_scan_def
        advance_ordering_bound_def empty_replay_def exclude_epoch_def new_epoch_def exclude_record_def note_event_def)
  with excluded_epochs_lie_in_gaps [OF demo_typed rp, of 5 ?ev] rp show ?thesis by auto
qed

end
