(* ===== verification/History_Compaction.thy ===== *)
theory History_Compaction
  imports History_Recovery
begin

section \<open>Which records compaction retains (src/history/store.rs)\<close>

text \<open>
  \<open>retained_compaction_records\<close> as the source writes it, over indices of each epoch, and what it
  keeps: of every epoch with a record inside the retention window (and of the running one) the boot
  record, the last sample before the window as the baseline of what follows, and everything in the
  window.
\<close>

declare rposition_None [simp del]

definition old_sample :: "nat \<Rightarrow> history_record \<Rightarrow> bool" where
  "old_sample cutoff r = (case r of Sample s \<Rightarrow> sa_timestamp s < cutoff | _ \<Rightarrow> False)"

definition is_live_epoch :: "string \<Rightarrow> bool \<Rightarrow> history_record list \<Rightarrow> bool" where
  "is_live_epoch live_boot_id live_epoch_usable e \<longleftrightarrow> live_epoch_usable \<and>
     (case e of Boot b # _ \<Rightarrow> bo_boot_id b = live_boot_id | _ \<Rightarrow> False)"

definition retained_epoch :: "nat \<Rightarrow> string \<Rightarrow> bool \<Rightarrow> history_record list \<Rightarrow> history_record list" where
  "retained_epoch cutoff live_boot_id live_epoch_usable e =
     (if is_live_epoch live_boot_id live_epoch_usable e \<or> list_ex (\<lambda>r. cutoff \<le> record_timestamp r) e
      then let baseline = rposition (old_sample cutoff) e
           in map snd (filter (\<lambda>(i, r). i = 0 \<or> Some i = baseline \<or> cutoff \<le> record_timestamp r) (enumerate 0 e))
      else [])"

function retained_compaction_records :: "nat \<Rightarrow> string \<Rightarrow> bool \<Rightarrow> history_record list \<Rightarrow> history_record list" where
  "retained_compaction_records cutoff live_boot_id live_epoch_usable [] = []"
| "retained_compaction_records cutoff live_boot_id live_epoch_usable (r # rs) =
     retained_epoch cutoff live_boot_id live_epoch_usable (r # takeWhile (\<lambda>r. \<not> is_boot r) rs) @
     retained_compaction_records cutoff live_boot_id live_epoch_usable (dropWhile (\<lambda>r. \<not> is_boot r) rs)"
  by pat_completeness auto
termination
  by (relation "measure (\<lambda>(c, l, u, rs). length rs)") (auto simp: le_imp_less_Suc length_dropWhile_le)

lemma retained_epochs:
  "retained_compaction_records c l u rs = concat (map (retained_epoch c l u) (split_epochs rs))"
  by (induction c l u rs rule: retained_compaction_records.induct) simp_all

subsection \<open>One epoch\<close>

definition old_record :: "nat \<Rightarrow> history_record \<Rightarrow> bool" where
  "old_record cutoff r \<longleftrightarrow> record_timestamp r < cutoff"

definition baseline_of :: "nat \<Rightarrow> history_record list \<Rightarrow> history_record list" where
  "baseline_of cutoff rs = (case rposition (old_sample cutoff) rs of None \<Rightarrow> [] | Some i \<Rightarrow> [rs ! i])"

text \<open>What is kept of the records after the boot: the baseline and the records in the window.\<close>

definition window_part :: "nat \<Rightarrow> history_record list \<Rightarrow> history_record list" where
  "window_part cutoff rs = baseline_of cutoff rs @ filter (\<lambda>r. \<not> old_record cutoff r) rs"

lemma old_sample_old: "old_sample cutoff r \<Longrightarrow> old_record cutoff r"
  by (cases r) (simp_all add: old_sample_def old_record_def)

lemma enumerate_pick:
  "map snd (filter (\<lambda>(i, r). Q r) (enumerate n xs)) = filter Q xs"
  by (induction xs arbitrary: n) auto

lemma enumerate_one:
  assumes "i < length xs" "\<not> Q (xs ! i)" "\<forall>j > i. j < length xs \<longrightarrow> \<not> P (xs ! j)" "\<forall>j < i. \<not> Q (xs ! j)"
  shows "map snd (filter (\<lambda>(j, r). j = n + i \<or> Q r) (enumerate n xs)) = xs ! i # filter Q xs"
  using assms(1,2,4)
proof (induction xs arbitrary: n i)
  case (Cons x xs)
  show ?case
  proof (cases i)
    case 0
    have "filter (\<lambda>(j, r). j = n \<or> Q r) (enumerate (Suc n) xs) = filter (\<lambda>(j, r). Q r) (enumerate (Suc n) xs)"
      by (rule filter_cong) (auto simp: in_set_enumerate_eq)
    with 0 Cons.prems show ?thesis by (simp add: enumerate_pick)
  next
    case (Suc k)
    have "\<forall>j < k. \<not> Q (xs ! j)" using Cons.prems(3) Suc by auto
    with Cons.IH [of k "Suc n"] Cons.prems Suc show ?thesis
      by (auto simp: nth_Cons split: nat.splits)
  qed
qed simp

lemma in_order_old_prefix:
  assumes "in_order rs" "i < length rs" "old_record cutoff (rs ! i)" "j \<le> i"
  shows "old_record cutoff (rs ! j)"
  using assms sorted_nth_mono [of "map record_timestamp rs" j i] by (auto simp: in_order_def old_record_def)

lemma retained_tail:
  assumes "in_order rs"
  shows "map snd (filter (\<lambda>(i, r). Some i = map_option Suc (rposition (old_sample cutoff) rs) \<or> \<not> old_record cutoff r) (enumerate 1 rs))
    = window_part cutoff rs"
proof (cases "rposition (old_sample cutoff) rs")
  case None
  then show ?thesis
    unfolding window_part_def baseline_of_def None by (simp add: enumerate_pick)
next
  case (Some i)
  from rposition_Some [OF Some] have i: "i < length rs" "old_record cutoff (rs ! i)" by (auto intro: old_sample_old)
  then have "\<forall>j < i. \<not> \<not> old_record cutoff (rs ! j)" using in_order_old_prefix [OF assms i] by auto
  with enumerate_one [of i rs "\<lambda>r. \<not> old_record cutoff r" "\<lambda>_. False" 1] i show ?thesis
    unfolding window_part_def baseline_of_def Some by simp
qed

lemma retained_epoch_boot:
  assumes "in_order rs"
  shows "retained_epoch c l u (Boot b # rs) =
    (if (u \<and> bo_boot_id b = l) \<or> c \<le> bo_timestamp b \<or> list_ex (\<lambda>r. \<not> old_record c r) rs then Boot b # window_part c rs else [])"
proof -
  have pos: "rposition (old_sample c) (Boot b # rs) = map_option Suc (rposition (old_sample c) rs)"
    by (cases "rposition (old_sample c) rs") (simp_all add: old_sample_def [of c "Boot b"])
  have "filter (\<lambda>(i, r). i = 0 \<or> Some i = map_option Suc (rposition (old_sample c) rs) \<or> c \<le> record_timestamp r) (enumerate 1 rs) =
    filter (\<lambda>(i, r). Some i = map_option Suc (rposition (old_sample c) rs) \<or> \<not> old_record c r) (enumerate 1 rs)"
    by (rule filter_cong) (auto simp: in_set_enumerate_eq old_record_def)
  with retained_tail [OF assms, of c]
  have tail: "map snd (filter (\<lambda>(i, r). i = 0 \<or> Some i = map_option Suc (rposition (old_sample c) rs) \<or> c \<le> record_timestamp r)
      (enumerate 1 rs)) = window_part c rs"
    by simp
  show ?thesis
    unfolding retained_epoch_def pos Let_def is_live_epoch_def
    using tail by (simp add: old_record_def [abs_def] not_less)
qed

lemma baseline_of_Cons:
  "baseline_of c (r # rs) = (if baseline_of c rs \<noteq> [] then baseline_of c rs else if old_sample c r then [r] else [])"
  by (auto simp: baseline_of_def split: option.splits)

lemma baseline_sample: "x \<in> set (baseline_of c rs) \<Longrightarrow> old_sample c x \<and> x \<in> set rs"
  using rposition_Some [of "old_sample c" rs] by (auto simp: baseline_of_def split: option.splits)

subsection \<open>The retained stream\<close>

lemma in_order_subseq: "subseq xs ys \<Longrightarrow> in_order ys \<Longrightarrow> in_order xs"
  by (induction rule: list_emb.induct) (auto simp: in_order_def dest: list_emb_set)

lemma window_part_subseq:
  assumes "in_order rs"
  shows "subseq (window_part c rs) rs"
proof (cases "rposition (old_sample c) rs")
  case None
  then show ?thesis unfolding window_part_def baseline_of_def None by simp
next
  case (Some i)
  from rposition_Some [OF Some] have i: "i < length rs" "old_record c (rs ! i)" by (auto intro: old_sample_old)
  have "filter (\<lambda>r. \<not> old_record c r) (take i rs) = []"
    using in_order_old_prefix [OF assms i] by (auto simp: filter_empty_conv in_set_conv_nth)
  with i have "filter (\<lambda>r. \<not> old_record c r) rs = filter (\<lambda>r. \<not> old_record c r) (drop (Suc i) rs)"
    by (subst id_take_nth_drop [OF i(1)]) simp
  moreover have "subseq ([rs ! i] @ filter (\<lambda>r. \<not> old_record c r) (drop (Suc i) rs)) (take i rs @ rs ! i # drop (Suc i) rs)"
    by (simp add: subseq_drop_many)
  ultimately show ?thesis
    unfolding window_part_def baseline_of_def Some using id_take_nth_drop [OF i(1)] by simp
qed

lemma window_part_usable:
  assumes "usable (Boot b # rs)" "in_order rs"
  shows "usable (Boot b # window_part c rs)"
proof -
  obtain s more where rs: "rs = Sample s # more" "sa_boot_id s = bo_boot_id b"
      "list_all (\<lambda>r. \<not> is_boot r \<and> record_boot_id r = bo_boot_id b) rs"
    using assms(1) by (cases rs) (auto elim: usable.elims)
  have all: "list_all (\<lambda>r. \<not> is_boot r \<and> record_boot_id r = bo_boot_id b) (filter Q rs)" for Q
    using rs(3) by (auto simp: list_all_iff)
  show ?thesis
  proof (cases "baseline_of c rs")
    case Nil
    then have "\<not> old_record c (Sample s)"
      by (auto simp: rs(1) baseline_of_Cons old_sample_def old_record_def split: if_splits)
    then have "\<forall>r \<in> set rs. \<not> old_record c r"
      using assms(2) rs(1) by (auto simp: in_order_def old_record_def)
    then have "window_part c rs = rs" by (simp add: window_part_def Nil)
    with assms(1) show ?thesis by simp
  next
    case (Cons x xs)
    then have x: "x \<in> set rs" "old_sample c x" "xs = []"
      using baseline_sample [of x c rs] by (auto simp: baseline_of_def split: option.splits)
    then obtain s' where "x = Sample s'" by (auto simp: old_sample_def split: history_record.splits)
    with x rs(3) all Cons show ?thesis by (auto simp: window_part_def list_all_iff)
  qed
qed

lemma subseq_concat: "e \<in> set es \<Longrightarrow> subseq e (concat es)"
  by (induction es) (auto intro: list_emb_append2 list_emb_prefix)

lemma split_epoch_in:
  assumes "stream_ok rs" "e \<in> set (split_epochs rs)"
  obtains b tl where "e = Boot b # tl" "usable e" "in_order tl" "list_all record_ok e"
proof -
  have u: "usable e" using assms by (auto simp: stream_ok_def list_all_iff)
  have "subseq e rs" using subseq_concat [OF assms(2)] by simp
  then have e: "in_order e" "set e \<subseteq> set rs"
    using assms(1) by (auto simp: stream_ok_def intro: in_order_subseq dest: list_emb_set)
  from e(2) assms(1) have ok: "list_all record_ok e"
    unfolding stream_ok_def list_all_iff by blast
  from usable_cases [OF u] obtain b s more where b: "e = Boot b # Sample s # more" by metis
  with e(1) have "in_order (Sample s # more)" by (simp add: in_order_def)
  with that b u ok show thesis by blast
qed

lemma retained_epoch_cases:
  assumes "stream_ok rs" "e \<in> set (split_epochs rs)"
  shows "retained_epoch c l u e = [] \<and> (\<forall>r \<in> set e. old_record c r) \<or>
    usable (retained_epoch c l u e) \<and> subseq (retained_epoch c l u e) e \<and>
    hd (retained_epoch c l u e) = hd e \<and>
    filter (\<lambda>r. \<not> old_record c r) (tl (retained_epoch c l u e)) = filter (\<lambda>r. \<not> old_record c r) (tl e)"
proof -
  obtain b tl where e: "e = Boot b # tl" "usable e" "in_order tl" using split_epoch_in [OF assms] by metis
  have "filter (\<lambda>r. \<not> old_record c r) (baseline_of c tl) = []"
    using baseline_sample old_sample_old by (fastforce simp: filter_empty_conv)
  then have "filter (\<lambda>r. \<not> old_record c r) (window_part c tl) = filter (\<lambda>r. \<not> old_record c r) tl"
    by (simp add: window_part_def)
  with e window_part_usable [of b tl c] window_part_subseq [OF e(3), of c] show ?thesis
    by (auto simp: retained_epoch_boot list_ex_iff old_record_def not_le)
qed

lemma split_epochs_concat: "list_all usable es \<Longrightarrow> split_epochs (concat es) = es"
  by (induction es rule: rev_induct) (simp_all add: split_epochs_snoc)

lemma split_retained:
  assumes "stream_ok rs"
  shows "split_epochs (retained_compaction_records c l u rs) = filter (\<lambda>e. e \<noteq> []) (map (retained_epoch c l u) (split_epochs rs))"
proof -
  have "list_all usable (filter (\<lambda>e. e \<noteq> []) (map (retained_epoch c l u) (split_epochs rs)))"
    using retained_epoch_cases [OF assms] by (auto simp: list_all_iff)
  moreover have "concat (filter (\<lambda>e. e \<noteq> []) es) = concat es" for es :: "history_record list list"
    by (induction es) auto
  ultimately show ?thesis
    using split_epochs_concat by (metis retained_epochs)
qed

lemma retained_subseq:
  assumes "stream_ok rs"
  shows "subseq (retained_compaction_records c l u rs) rs"
proof -
  have "subseq (concat (map (retained_epoch c l u) es)) (concat es)" if "set es \<subseteq> set (split_epochs rs)" for es
    using that
  proof (induction es)
    case (Cons e es)
    then have "subseq (retained_epoch c l u e) e" using retained_epoch_cases [OF assms, of e c l u] by auto
    with Cons show ?case by (auto intro: list_emb_append_mono)
  qed simp
  from this [of "split_epochs rs"] show ?thesis by (simp add: retained_epochs)
qed

lemma retained_stream_ok:
  assumes "stream_ok rs"
  shows "stream_ok (retained_compaction_records c l u rs)"
proof -
  note sub = retained_subseq [OF assms, of c l u]
  have "list_all usable (split_epochs (retained_compaction_records c l u rs))"
    unfolding split_retained [OF assms] using retained_epoch_cases [OF assms] by (auto simp: list_all_iff)
  moreover have "list_all record_ok (retained_compaction_records c l u rs)"
    using assms sub by (auto simp: stream_ok_def list_all_iff dest: list_emb_set)
  ultimately show ?thesis
    using assms in_order_subseq [OF sub] by (simp add: stream_ok_def)
qed

lemma retained_recent:
  assumes "stream_ok rs"
  shows "filter (\<lambda>r. \<not> old_record c r) (retained_compaction_records c l u rs) = filter (\<lambda>r. \<not> old_record c r) rs"
proof -
  let ?f = "filter (\<lambda>r. \<not> old_record c r)"
  have one: "?f (retained_epoch c l u e) = ?f e" if e: "e \<in> set (split_epochs rs)" for e
    using retained_epoch_cases [OF assms e, of c l u]
  proof (elim disjE conjE)
    assume r: "usable (retained_epoch c l u e)" "hd (retained_epoch c l u e) = hd e" "?f (tl (retained_epoch c l u e)) = ?f (tl e)"
    obtain b tl where "e = Boot b # tl" using split_epoch_in [OF assms e] by metis
    with r show ?thesis by (cases "retained_epoch c l u e") auto
  qed (auto simp: filter_empty_conv)
  have "?f (concat (map (retained_epoch c l u) es)) = ?f (concat es)" if "set es \<subseteq> set (split_epochs rs)" for es
    using that by (induction es) (auto simp: one)
  from this [of "split_epochs rs"] show ?thesis by (simp add: retained_epochs)
qed

lemma baseline_of_none: "\<forall>r \<in> set rs. \<not> old_record c r \<Longrightarrow> baseline_of c rs = []"
  using baseline_sample [of _ c rs] old_sample_old by (metis list.set_intros(1) neq_Nil_conv)

lemma window_part_idem: "window_part c (window_part c rs) = window_part c rs"
proof (cases "baseline_of c rs")
  case Nil
  then show ?thesis by (simp add: window_part_def baseline_of_none)
next
  case (Cons x xs)
  then have "xs = []" "old_sample c x" using baseline_sample [of x c rs] by (auto simp: baseline_of_def split: option.splits)
  with Cons old_sample_old [of c x] show ?thesis
    by (simp add: window_part_def baseline_of_Cons baseline_of_none)
qed

lemma retained_idem:
  assumes "stream_ok rs"
  shows "retained_compaction_records c l u (retained_compaction_records c l u rs) = retained_compaction_records c l u rs"
proof -
  have one: "retained_epoch c l u (retained_epoch c l u e) = retained_epoch c l u e"
    if e: "e \<in> set (split_epochs rs)" "retained_epoch c l u e \<noteq> []" for e
  proof -
    obtain b tl where b: "e = Boot b # tl" "in_order tl" using split_epoch_in [OF assms e(1)] by metis
    have "in_order (window_part c tl)" using in_order_subseq [OF window_part_subseq [OF b(2)] b(2)] .
    moreover have "list_ex (\<lambda>r. \<not> old_record c r) tl \<Longrightarrow> list_ex (\<lambda>r. \<not> old_record c r) (window_part c tl)"
      by (auto simp: window_part_def list_ex_iff)
    ultimately show ?thesis
      using e(2) b by (auto simp: retained_epoch_boot window_part_idem split: if_splits)
  qed
  have "map (retained_epoch c l u) (filter (\<lambda>e. e \<noteq> []) (map (retained_epoch c l u) es)) =
      filter (\<lambda>e. e \<noteq> []) (map (retained_epoch c l u) es)" if "set es \<subseteq> set (split_epochs rs)" for es
    using that by (induction es) (auto simp: one)
  from this [of "split_epochs rs"] show ?thesis
    using split_retained [OF assms] concat_split_epochs by (metis order_refl retained_epochs)
qed

lemma rposition_snoc_not: "\<not> P x \<Longrightarrow> rposition P (xs @ [x]) = rposition P xs"
  by (induction xs) (auto split: option.splits)

lemma baseline_of_snoc: "baseline_of c (rs @ [r]) = (if old_sample c r then [r] else baseline_of c rs)"
proof (cases "old_sample c r")
  case True
  then show ?thesis by (simp add: baseline_of_def rposition_snoc)
next
  case False
  then show ?thesis
    using rposition_Some [of "old_sample c" rs]
    by (auto simp: baseline_of_def rposition_snoc_not nth_append split: option.splits)
qed

text \<open>The last state of an epoch survives in its window.\<close>

lemma window_part_state:
  "in_order rs \<Longrightarrow> list_all (\<lambda>r. \<not> is_boot r) rs \<Longrightarrow> state_after None (window_part c rs) = state_after None rs"
proof (induction rs rule: rev_induct)
  case (snoc r rs)
  then have IH: "state_after None (window_part c rs) = state_after None rs" by (auto simp: in_order_def sorted_append)
  show ?case
  proof (cases "old_record c r")
    case True
    then have "\<forall>x \<in> set rs. old_record c x"
      using snoc.prems(1) by (auto simp: in_order_snoc old_record_def)
    then have f: "filter (\<lambda>x. \<not> old_record c x) rs = []" by (simp add: filter_empty_conv)
    show ?thesis
    proof (cases r)
      case (Sample s)
      with True have "old_sample c r" by (simp add: old_sample_def old_record_def)
      with f True Sample show ?thesis by (simp add: window_part_def baseline_of_snoc state_after_append)
    next
      case (Checkpoint x)
      then have "\<not> old_sample c r" by (simp add: old_sample_def)
      with f True Checkpoint IH show ?thesis by (simp add: window_part_def baseline_of_snoc state_after_append)
    qed (use snoc.prems(2) in simp)
  next
    case False
    then have "\<not> old_sample c r" using old_sample_old by blast
    with False have "window_part c (rs @ [r]) = window_part c rs @ [r]" by (simp add: window_part_def baseline_of_snoc)
    with IH show ?thesis by (simp add: state_after_append)
  qed
qed (simp add: window_part_def baseline_of_def)


lemma demo_retained: "retained_compaction_records 7 ''b'' True (demo_epoch @ demo_next_epoch) = demo_next_epoch"
  by (simp add: demo_epoch_def demo_next_epoch_def demo_records retained_epoch_def is_live_epoch_def old_sample_def
      numeral_eq_Suc)


end
