(* ===== verification/History_Store.thy ===== *)
theory History_Store
  imports History_Compaction
begin

section \<open>The history store (src/history/store.rs)\<close>

text \<open>
  Opening, appending to and compacting the canonical file. The state is the store and the bytes of
  the file; every call to the file system takes its outcome from an argument (which of the calls
  fail, and how much of a write reached the file before it failed), so the theorems hold for every
  way the calls can fail. The file is the one the store's append handle and the path both name.
\<close>

definition CANONICAL_NAME :: string where "CANONICAL_NAME = ''history-v1.jsonl''"
definition TEMP_PREFIX :: string where "TEMP_PREFIX = ''history-v1.jsonl.tmp-''"

definition stale_temporary_count :: "string list \<Rightarrow> nat" where
  "stale_temporary_count names = foldl (\<lambda>count name. count + (if prefix TEMP_PREFIX name then 1 else 0)) 0 names"

subsection \<open>Equality of states\<close>

text \<open>The derived \<open>PartialEq\<close>: structural, with the IEEE equality on the values.\<close>

definition entry_eq :: "state_entry \<Rightarrow> state_entry \<Rightarrow> bool" where
  "entry_eq a b \<longleftrightarrow> se_kind a = se_kind b \<and> se_metric a = se_metric b \<and> se_labels a = se_labels b \<and>
     f64_eq (se_value a) (se_value b)"

definition state_eq :: "state_entry list \<Rightarrow> state_entry list \<Rightarrow> bool" where
  "state_eq = list_all2 entry_eq"

fun record_eq :: "history_record \<Rightarrow> history_record \<Rightarrow> bool" where
  "record_eq (Boot a) (Boot b) \<longleftrightarrow> a = b"
| "record_eq (Sample a) (Sample b) \<longleftrightarrow> sa_timestamp a = sa_timestamp b \<and> sa_boot_id a = sa_boot_id b \<and>
     sa_capacity a = sa_capacity b \<and> state_eq (sa_state a) (sa_state b)"
| "record_eq (Checkpoint a) (Checkpoint b) \<longleftrightarrow> a = b"
| "record_eq _ _ \<longleftrightarrow> False"

subsection \<open>The store\<close>

record history_store =
  hs_boot_id :: string
  hs_last_state :: "state_entry list option"
  hs_replay :: replay
  hs_last_timestamp :: "nat option"
  hs_poisoned :: bool

datatype write_error = Encode_failed | Write_io | Poisoned_store | Timestamp_regression

definition write_error_to_open :: "write_error \<Rightarrow> open_error" where
  "write_error_to_open e = Open_io"

definition regresses :: "nat option \<Rightarrow> history_record \<Rightarrow> bool" where
  "regresses last_timestamp next_record \<longleftrightarrow>
     (case last_timestamp of None \<Rightarrow> False | Some previous \<Rightarrow> record_timestamp next_record < previous)"

definition ensure_open_timestamp :: "nat option \<Rightarrow> history_record \<Rightarrow> open_error + unit" where
  "ensure_open_timestamp last_timestamp next_record =
     fail_if (regresses last_timestamp next_record) (Invalid_stream 0 ''timestamp regresses'')"

definition ensure_runtime_timestamp :: "nat option \<Rightarrow> history_record \<Rightarrow> write_error + unit" where
  "ensure_runtime_timestamp last_timestamp next_record = fail_if (regresses last_timestamp next_record) Timestamp_regression"

text \<open>
  A write and the sync after it: \<open>None\<close> when both succeed, \<open>Some n\<close> when one fails with \<open>n\<close> bytes of
  the data in the file (all of them when the sync fails).
\<close>

type_synonym write_fault = "nat option"

definition write_bytes :: "write_fault \<Rightarrow> bytes \<Rightarrow> bytes \<Rightarrow> bytes \<times> (write_error + unit)" where
  "write_bytes fault data content =
     (case fault of None \<Rightarrow> (content @ data, Ok ()) | Some n \<Rightarrow> (content @ take n data, Err Write_io))"

definition append_record :: "serde \<Rightarrow> write_fault \<Rightarrow> history_record \<Rightarrow> bytes \<Rightarrow> bytes \<times> (write_error + unit)" where
  "append_record sd fault r content =
     (case encode_record sd r of
        Err _ \<Rightarrow> (content, Err Encode_failed)
      | Ok encoded \<Rightarrow> write_bytes fault (encoded @ [CHR 0x0A]) content)"

definition append_recovery_separator :: "write_fault \<Rightarrow> bool \<Rightarrow> bytes \<Rightarrow> bytes \<times> (write_error + unit)" where
  "append_recovery_separator fault needs_separator content =
     (if \<not> needs_separator then (content, Ok ()) else write_bytes fault [CHR 0x0A] content)"

subsection \<open>Opening\<close>

text \<open>
  The outcome of publishing a first boot record: the hard link made, a failure before it, a failure
  after it (removing the temporary or syncing the directory), or the link lost to another process
  whose file has the given bytes.
\<close>

datatype publish_outcome = Linked | Failed_before_link | Failed_after_link | Already_exists bytes

record open_io =
  oi_can_open :: bool
  oi_publish :: publish_outcome
  oi_handle :: bool
  oi_separator :: write_fault
  oi_boot :: write_fault

definition fresh_store :: "string \<Rightarrow> replay \<Rightarrow> history_store" where
  "fresh_store boot_id rp = \<lparr>hs_boot_id = boot_id, hs_last_state = None, hs_replay = rp,
     hs_last_timestamp = (if rp_records rp = [] then None else Some (record_timestamp (last (rp_records rp)))),
     hs_poisoned = False\<rparr>"

definition open_existing ::
  "serde \<Rightarrow> open_io \<Rightarrow> boot_record \<Rightarrow> bytes \<Rightarrow> bytes \<times> (open_error + history_store)" where
  "open_existing sd io boot content =
     (case validate_canonical sd content of
        Err e \<Rightarrow> (content, Err e)
      | Ok rp \<Rightarrow>
          (case ensure_open_timestamp (rp_bound rp) (Boot boot) of
             Err e \<Rightarrow> (content, Err e)
           | Ok _ \<Rightarrow>
               if \<not> oi_handle io then (content, Err Open_io)
               else case append_recovery_separator (oi_separator io) (rp_needs_separator rp) content of
                 (content, Err e) \<Rightarrow> (content, Err (write_error_to_open e))
               | (content, Ok _) \<Rightarrow>
                   (case append_record sd (oi_boot io) (Boot boot) content of
                      (content, Err e) \<Rightarrow> (content, Err (write_error_to_open e))
                    | (content, Ok _) \<Rightarrow>
                        (content, Ok (fresh_store (bo_boot_id boot)
                           (close_open_gap (bo_timestamp boot) (rp\<lparr>rp_records := rp_records rp @ [Boot boot]\<rparr>)))))))"

definition publish_first_boot :: "serde \<Rightarrow> publish_outcome \<Rightarrow> boot_record \<Rightarrow> bytes option \<times> (bool + unit)" where
  "publish_first_boot sd outcome boot =
     (case encode_record sd (Boot boot) of
        Err _ \<Rightarrow> (None, Err False)
      | Ok encoded \<Rightarrow>
          (case outcome of
             Linked \<Rightarrow> (Some (encoded @ [CHR 0x0A]), Ok ())
           | Failed_before_link \<Rightarrow> (None, Err False)
           | Failed_after_link \<Rightarrow> (Some (encoded @ [CHR 0x0A]), Err False)
           | Already_exists other \<Rightarrow> (Some other, Err True)))"

definition open_store ::
  "serde \<Rightarrow> open_io \<Rightarrow> boot_record \<Rightarrow> bytes option \<Rightarrow> bytes option \<times> (open_error + history_store)" where
  "open_store sd io boot disk =
     (if \<not> oi_can_open io then (disk, Err Open_io)
      else case disk of
        Some content \<Rightarrow> apfst Some (open_existing sd io boot content)
      | None \<Rightarrow>
          (case publish_first_boot sd (oi_publish io) boot of
             (disk, Ok _) \<Rightarrow>
               if oi_handle io then (disk, Ok (fresh_store (bo_boot_id boot) (empty_replay\<lparr>rp_records := [Boot boot]\<rparr>)))
               else (disk, Err Open_io)
           | (Some other, Err True) \<Rightarrow> apfst Some (open_existing sd io boot other)
           | (disk, Err _) \<Rightarrow> (disk, Err Open_io)))"

subsection \<open>Appending\<close>

type_synonym store_file = "history_store \<times> bytes"

definition put_record :: "serde \<Rightarrow> write_fault \<Rightarrow> history_record \<Rightarrow> store_file \<Rightarrow> store_file \<times> (write_error + unit)" where
  "put_record sd fault r s =
     (case ensure_runtime_timestamp (hs_last_timestamp (fst s)) r of
        Err e \<Rightarrow> (s, Err e)
      | Ok _ \<Rightarrow>
          (case append_record sd fault r (snd s) of
             (content, Err e) \<Rightarrow> (((fst s)\<lparr>hs_poisoned := True\<rparr>, content), Err e)
           | (content, Ok _) \<Rightarrow> (((fst s)\<lparr>hs_last_timestamp := Some (record_timestamp r)\<rparr>, content), Ok ())))"

definition checkpoint_inner :: "serde \<Rightarrow> write_fault \<Rightarrow> nat \<Rightarrow> capacity \<Rightarrow> store_file \<Rightarrow> store_file \<times> (write_error + unit)" where
  "checkpoint_inner sd fault timestamp cap s =
     (if hs_poisoned (fst s) then (s, Err Poisoned_store)
      else put_record sd fault
        (Checkpoint \<lparr>ch_timestamp = timestamp, ch_boot_id = hs_boot_id (fst s), ch_capacity = cap\<rparr>) s)"

definition same_state :: "state_entry list option \<Rightarrow> state_entry list \<Rightarrow> bool" where
  "same_state last_state state = (case last_state of None \<Rightarrow> False | Some previous \<Rightarrow> state_eq previous state)"

definition append_sample ::
  "serde \<Rightarrow> write_fault \<Rightarrow> nat \<Rightarrow> capacity \<Rightarrow> state_entry list \<Rightarrow> store_file \<Rightarrow> store_file \<times> (write_error + unit)" where
  "append_sample sd fault timestamp cap state s =
     (if hs_poisoned (fst s) then (s, Err Poisoned_store)
      else if same_state (hs_last_state (fst s)) state then checkpoint_inner sd fault timestamp cap s
      else case put_record sd fault
          (Sample \<lparr>sa_timestamp = timestamp, sa_boot_id = hs_boot_id (fst s), sa_capacity = cap, sa_state = state\<rparr>) s of
        (s, Err e) \<Rightarrow> (s, Err e)
      | (s, Ok _) \<Rightarrow> (((fst s)\<lparr>hs_last_state := Some state\<rparr>, snd s), Ok ()))"

definition take_replay :: "history_store \<Rightarrow> replay \<times> history_store" where
  "take_replay hs = (hs_replay hs, hs\<lparr>hs_replay := empty_replay\<rparr>)"

definition file_bytes :: "bool \<Rightarrow> store_file \<Rightarrow> nat option" where
  "file_bytes metadata_ok s = (if metadata_ok then Some (length (snd s)) else None)"

subsection \<open>Compacting\<close>

definition compaction_needed :: "nat \<Rightarrow> history_store \<Rightarrow> bool" where
  "compaction_needed cutoff hs =
     (let rp = hs_replay hs in
      if rp_gaps rp \<noteq> [] \<or> rp_needs_separator rp \<or> hd_excluded_epochs (rp_diagnostics rp) \<noteq> 0 \<or>
        hd_excluded_records (rp_diagnostics rp) \<noteq> 0 then True
      else
        let (records, fresh_boot) =
          (case rev (rp_records rp) of
             Boot b # older \<Rightarrow> if bo_boot_id b = hs_boot_id hs \<and> hs_last_state hs = None
               then (rev older, [Boot b]) else (rp_records rp, [])
           | _ \<Rightarrow> (rp_records rp, []))
        in \<not> list_all2 record_eq (retained_compaction_records cutoff (hs_boot_id hs) False records @ fresh_boot) (rp_records rp))"

datatype compaction_outcome = Durable | Deferred | Superseded | Committed_sync_pending

record compaction_io =
  ci_temporary :: bool
  ci_write :: bool
  ci_rename :: bool
  ci_directory_sync :: bool

fun find_map :: "('a \<Rightarrow> 'b option) \<Rightarrow> 'a list \<Rightarrow> 'b option" where
  "find_map f [] = None"
| "find_map f (x # xs) = (case f x of None \<Rightarrow> find_map f xs | Some y \<Rightarrow> Some y)"

definition sample_state_of :: "string \<Rightarrow> history_record \<Rightarrow> state_entry list option" where
  "sample_state_of boot_id r = (case r of Sample s \<Rightarrow> if sa_boot_id s = boot_id then Some (sa_state s) else None | _ \<Rightarrow> None)"

fun write_records :: "serde \<Rightarrow> history_record list \<Rightarrow> bytes \<Rightarrow> bytes option" where
  "write_records sd [] content = Some content"
| "write_records sd (r # rs) content =
     (case encode_record sd r of Err _ \<Rightarrow> None | Ok l \<Rightarrow> write_records sd rs (content @ l @ [CHR 0x0A]))"

definition replacement_ok :: "history_record list \<Rightarrow> replay \<Rightarrow> bool" where
  "replacement_ok retained rp \<longleftrightarrow> list_all2 record_eq (rp_records rp) retained \<and> rp_gaps rp = [] \<and> \<not> rp_needs_separator rp \<and>
     hd_excluded_epochs (rp_diagnostics rp) = 0 \<and> hd_excluded_records (rp_diagnostics rp) = 0"

text \<open>\<open>Err ()\<close> is the \<open>io::Error\<close> with which the compaction gives up before it replaces the file.\<close>

definition compact_if_authorized ::
  "serde \<Rightarrow> compaction_io \<Rightarrow> bool \<Rightarrow> nat \<Rightarrow> store_file \<Rightarrow> store_file \<times> (unit + compaction_outcome)" where
  "compact_if_authorized sd io authorized cutoff s =
     (case validate_canonical sd (snd s) of
        Err _ \<Rightarrow> (s, Err ())
      | Ok rp \<Rightarrow>
          if list_ex (\<lambda>g. cutoff < gp_to g) (rp_gaps rp) \<or> hs_last_state (fst s) = None then (s, Ok Deferred)
          else
            let retained = retained_compaction_records cutoff (hs_boot_id (fst s)) (hs_last_state (fst s) \<noteq> None) (rp_records rp)
            in if \<not> ci_temporary io then (s, Err ())
            else case write_records sd retained [] of
              None \<Rightarrow> (s, Err ())
            | Some output \<Rightarrow>
                if \<not> ci_write io then (s, Err ())
                else case validate_canonical sd output of
                  Err _ \<Rightarrow> (s, Err ())
                | Ok replacement \<Rightarrow>
                    if \<not> replacement_ok retained replacement then (s, Err ())
                    else if \<not> authorized then (s, Ok Superseded)
                    else if \<not> ci_rename io then (s, Err ())
                    else
                      (((fst s)\<lparr>
                         hs_last_timestamp := (if rp_records replacement = [] then None
                           else Some (record_timestamp (last (rp_records replacement)))),
                         hs_last_state := find_map (sample_state_of (hs_boot_id (fst s))) (rev (rp_records replacement)),
                         hs_replay := replacement\<rparr>, output),
                       Ok (if ci_directory_sync io then Durable else Committed_sync_pending)))"

subsection \<open>The store tracks the file\<close>

text \<open>Where the scanner stands at the end of a file.\<close>

definition scanned :: "serde \<Rightarrow> bytes \<Rightarrow> scanner \<times> replay \<Rightarrow> bool" where
  "scanned sd content s \<longleftrightarrow> ends_line content \<and> scan sd 0 False content (Await_boot, empty_replay) = Ok (True, s)"

lemma scanned_validate: "scanned sd content s \<Longrightarrow> validate_canonical sd content = Ok (finish_scan s)"
  by (simp add: scanned_def validate_canonical_def)

lemma scanned_torn_or_whole: "scanned sd content s \<Longrightarrow> torn_or_whole sd content"
  by (simp add: scanned_def torn_or_wholeI)

lemma scanned_steps: "scanned sd content s \<Longrightarrow> scan_steps sd (Await_boot, empty_replay) s"
  by (auto simp: scanned_def dest: scan_steps)

lemma scanned_append:
  assumes "scanned sd content s" "record_ok r" "reads_back sd r"
  shows "scanned sd (content @ record_line sd r @ [CHR 0x0A]) (accept_record r s)"
proof -
  have w: "written sd [r]" using assms(2,3) by simp
  from scan_append [of content sd 0 False "(Await_boot, empty_replay)" True s "stream_bytes sd [r] @ []"] assms(1)
  obtain n where "scan sd 0 False (content @ stream_bytes sd [r] @ []) (Await_boot, empty_replay) =
      scan sd n True (stream_bytes sd [r] @ []) s" by (auto simp: scanned_def)
  moreover obtain m where "scan sd n True (stream_bytes sd [r] @ []) s = scan sd m True [] (accept_record r s)"
    using scan_written [OF w, of n True "[]" s] by auto
  ultimately show ?thesis by (simp add: scanned_def ends_line_def)
qed

text \<open>
  The store and its file agree: the file ends with a line, and the scanner would stand in the
  running epoch, with the store's boot id, last state and last timestamp.
\<close>

fun in_epoch :: "history_store \<Rightarrow> scanner \<Rightarrow> bool" where
  "in_epoch hs (Await_sample e) \<longleftrightarrow> ep_boot_id e = hs_boot_id hs \<and> hs_last_state hs = None"
| "in_epoch hs (Usable e) \<longleftrightarrow> ep_boot_id e = hs_boot_id hs \<and> hs_last_state hs \<noteq> None \<and> ep_state e = hs_last_state hs"
| "in_epoch hs _ \<longleftrightarrow> False"

definition tracks :: "serde \<Rightarrow> store_file \<Rightarrow> bool" where
  "tracks sd sf \<longleftrightarrow> (\<exists>st rq. scanned sd (snd sf) (st, rq) \<and> in_epoch (fst sf) st \<and>
     hs_last_timestamp (fst sf) = rp_bound rq \<and> rp_bound rq \<noteq> None)"

lemma tracksI:
  "scanned sd content (st, rq) \<Longrightarrow> in_epoch hs st \<Longrightarrow> hs_last_timestamp hs = rp_bound rq \<Longrightarrow> rp_bound rq \<noteq> None \<Longrightarrow>
     tracks sd (hs, content)"
  by (auto simp: tracks_def)

lemma tracksE:
  assumes "tracks sd (hs, content)"
  obtains st rq e where "scanned sd content (st, rq)" "in_epoch hs st" "epoch_of st = Some e" "ep_boot_id e = hs_boot_id hs"
    "hs_last_timestamp hs = rp_bound rq" "rp_bound rq \<noteq> None"
proof -
  obtain st rq where "scanned sd content (st, rq)" "in_epoch hs st" "hs_last_timestamp hs = rp_bound rq" "rp_bound rq \<noteq> None"
    using assms by (auto simp: tracks_def)
  with that show thesis by (cases st) auto
qed

lemma regresses_bound: "\<not> regresses (rp_bound rq) r \<Longrightarrow> bound_at_most rq (record_timestamp r)"
  by (auto simp: regresses_def bound_at_most_def)

text \<open>A record that may be written: well-formed, and read back by the text layer.\<close>

definition writable :: "serde \<Rightarrow> history_record \<Rightarrow> bool" where
  "writable sd r \<longleftrightarrow> record_ok r \<and> reads_back sd r"

lemma append_record_ok:
  assumes "writable sd r"
  shows "append_record sd None r content = (content @ record_line sd r @ [CHR 0x0A], Ok ())"
  using encode_record_line [of r sd] assms by (simp add: append_record_def write_bytes_def writable_def)

lemma put_record_cases:
  assumes "writable sd r"
  shows "put_record sd fault r (hs, content) =
    (if regresses (hs_last_timestamp hs) r then ((hs, content), Err Timestamp_regression)
     else case fault of
       None \<Rightarrow> ((hs\<lparr>hs_last_timestamp := Some (record_timestamp r)\<rparr>, content @ record_line sd r @ [CHR 0x0A]), Ok ())
     | Some n \<Rightarrow> ((hs\<lparr>hs_poisoned := True\<rparr>, content @ take n (record_line sd r @ [CHR 0x0A])), Err Write_io))"
  using encode_record_line [of r sd] assms
  by (simp add: put_record_def ensure_runtime_timestamp_def fail_if_def append_record_def write_bytes_def writable_def
      split: option.splits)

lemma accept_sample:
  assumes "bound_at_most rq (sa_timestamp s)" "epoch_of st = Some e" "ep_boot_id e = sa_boot_id s"
  shows "accept_record (Sample s) (st, rq) = (Usable (push_record (Sample s) (add_sample s e)), bounded_at (sa_timestamp s) rq)"
  using assms by (cases st) (simp_all add: accept_in_order advance_bounded ingest_record_def Let_def)

lemma accept_checkpoint:
  assumes "bound_at_most rq (ch_timestamp c)" "ep_boot_id e = ch_boot_id c"
  shows "accept_record (Checkpoint c) (Usable e, rq) = (Usable (push_record (Checkpoint c) (add_checkpoint c e)), bounded_at (ch_timestamp c) rq)"
  using assms by (simp add: accept_in_order advance_bounded ingest_record_def Let_def)

lemma bounded_at_bound [simp]: "rp_bound (bounded_at t rq) = Some t"
  by (simp add: bounded_at_def)

lemma put_sample_tracks:
  assumes "tracks sd (hs, content)" "writable sd (Sample s)" "sa_boot_id s = hs_boot_id hs"
    and "put_record sd fault (Sample s) (hs, content) = (sf, Ok ())"
  shows "tracks sd ((fst sf)\<lparr>hs_last_state := Some (sa_state s)\<rparr>, snd sf)"
proof -
  obtain st rq e where t: "scanned sd content (st, rq)" "epoch_of st = Some e" "ep_boot_id e = hs_boot_id hs"
      "hs_last_timestamp hs = rp_bound rq" using tracksE [OF assms(1)] by metis
  have f: "\<not> regresses (rp_bound rq) (Sample s)" "fault = None"
      "sf = (hs\<lparr>hs_last_timestamp := Some (sa_timestamp s)\<rparr>, content @ record_line sd (Sample s) @ [CHR 0x0A])"
    using assms(4) unfolding put_record_cases [OF assms(2)] t(4) by (auto split: if_splits option.splits)
  have "scanned sd (snd sf) (Usable (push_record (Sample s) (add_sample s e)), bounded_at (sa_timestamp s) rq)"
    unfolding f(3) using scanned_append [OF t(1), of "Sample s"] assms(2,3) accept_sample [OF _ t(2), of rq s]
      regresses_bound [OF f(1)] t(3) by (simp add: writable_def)
  then show ?thesis
    using t(3) f(3) by (intro tracksI) auto
qed

lemma put_checkpoint_tracks:
  assumes "tracks sd (hs, content)" "hs_last_state hs \<noteq> None" "writable sd (Checkpoint c)" "ch_boot_id c = hs_boot_id hs"
    and "put_record sd fault (Checkpoint c) (hs, content) = (sf, Ok ())"
  shows "tracks sd sf"
proof -
  obtain st rq where t: "scanned sd content (st, rq)" "in_epoch hs st" "hs_last_timestamp hs = rp_bound rq"
    using tracksE [OF assms(1)] by metis
  with assms(2) obtain e where e: "st = Usable e" "ep_boot_id e = hs_boot_id hs" "ep_state e = hs_last_state hs" by (cases st) auto
  have f: "\<not> regresses (rp_bound rq) (Checkpoint c)" "fault = None"
      "sf = (hs\<lparr>hs_last_timestamp := Some (ch_timestamp c)\<rparr>, content @ record_line sd (Checkpoint c) @ [CHR 0x0A])"
    using assms(5) unfolding put_record_cases [OF assms(3)] t(3) by (auto split: if_splits option.splits)
  have "scanned sd (snd sf) (Usable (push_record (Checkpoint c) (add_checkpoint c e)), bounded_at (ch_timestamp c) rq)"
    unfolding f(3) using scanned_append [OF t(1), of "Checkpoint c"] assms(3,4) accept_checkpoint [of rq c e]
      regresses_bound [OF f(1)] e(1,2) by (simp add: writable_def)
  then have "tracks sd (fst sf, snd sf)"
    using e(2,3) f(3) assms(2) by (intro tracksI) auto
  then show ?thesis by simp
qed

lemma append_sample_tracks:
  assumes "tracks sd (hs, content)"
    and "writable sd (Sample \<lparr>sa_timestamp = t, sa_boot_id = hs_boot_id hs, sa_capacity = cap, sa_state = state\<rparr>)"
    and "writable sd (Checkpoint \<lparr>ch_timestamp = t, ch_boot_id = hs_boot_id hs, ch_capacity = cap\<rparr>)"
    and "append_sample sd fault t cap state (hs, content) = (sf, Ok ())"
  shows "tracks sd sf"
proof -
  let ?s = "\<lparr>sa_timestamp = t, sa_boot_id = hs_boot_id hs, sa_capacity = cap, sa_state = state\<rparr>"
  let ?c = "\<lparr>ch_timestamp = t, ch_boot_id = hs_boot_id hs, ch_capacity = cap\<rparr>"
  show ?thesis
  proof (cases "same_state (hs_last_state hs) state")
    case True
    then have "hs_last_state hs \<noteq> None" by (auto simp: same_state_def split: option.splits)
    moreover have "put_record sd fault (Checkpoint ?c) (hs, content) = (sf, Ok ())"
      using assms(4) True by (auto simp: append_sample_def checkpoint_inner_def split: if_splits)
    ultimately show ?thesis using put_checkpoint_tracks [OF assms(1) _ assms(3)] by simp
  next
    case False
    then obtain sf1 where "put_record sd fault (Sample ?s) (hs, content) = (sf1, Ok ())"
        "sf = ((fst sf1)\<lparr>hs_last_state := Some state\<rparr>, snd sf1)"
      using assms(4) by (auto simp: append_sample_def split: if_splits prod.splits sum.splits)
    then show ?thesis using put_sample_tracks [OF assms(1,2)] by auto
  qed
qed

lemma scanned_restart:
  assumes "validate_canonical sd content = Ok rp" "torn_or_whole sd content"
  shows "\<exists>s. scanned sd (content @ separator rp) s \<and> finish_scan s = rp\<lparr>rp_needs_separator := False\<rparr>"
proof -
  obtain s where s: "rp\<lparr>rp_needs_separator := False\<rparr> = finish_scan s"
    "\<And>rest. \<exists>n. scan sd 0 False (content @ separator rp @ rest) (Await_boot, empty_replay) = scan sd n True rest s"
    "ends_line (content @ separator rp)"
    using scan_restart [OF assms] by blast
  from s(2) [of "[]"] s(3) have "scanned sd (content @ separator rp) s" by (auto simp: scanned_def)
  with s(1) show ?thesis by metis
qed

lemma accept_boot:
  assumes "bound_at_most (snd s) (bo_timestamp b)"
  shows "\<exists>rq. accept_record (Boot b) s = (Await_sample (new_epoch b), rq) \<and> rp_bound rq = Some (bo_timestamp b) \<and>
    rp_records rq = rp_records (finish_scan s)"
proof -
  obtain st rp where s: "s = (st, rp)" by (cases s)
  have "rp_bound (finish_scan (st, rp)) = rp_bound rp" by (cases st) (simp_all add: finish_scan_def)
  then have b: "bound_at_most (finish_scan (st, rp)) (bo_timestamp b)" using assms by (simp add: s bound_at_most_def)
  have "accept_record (Boot b) s = (Await_sample (new_epoch b),
      close_open_gap (bo_timestamp b) (bounded_at (bo_timestamp b) (finish_scan (st, rp))))"
    using assms by (simp add: s accept_in_order start_boot_finish finish_scan_advance advance_bounded [OF b])
  then show ?thesis by (simp add: s bounded_at_def)
qed

text \<open>What a successful open of an existing file leaves.\<close>

lemma open_existing_Ok:
  assumes "open_existing sd io boot content = (content', Ok hs)" "writable sd (Boot boot)"
  obtains rp where "validate_canonical sd content = Ok rp" "bound_at_most rp (bo_timestamp boot)"
    "content' = content @ separator rp @ record_line sd (Boot boot) @ [CHR 0x0A]"
    "hs = fresh_store (bo_boot_id boot) (close_open_gap (bo_timestamp boot) (rp\<lparr>rp_records := rp_records rp @ [Boot boot]\<rparr>))"
proof -
  obtain rp where rp: "validate_canonical sd content = Ok rp" "\<not> regresses (rp_bound rp) (Boot boot)"
    using assms(1) by (auto simp: open_existing_def ensure_open_timestamp_def fail_if_def split: sum.splits if_splits)
  have "append_recovery_separator (oi_separator io) (rp_needs_separator rp) content = (content @ separator rp, Ok ())"
    using assms(1) rp
    by (auto simp: open_existing_def ensure_open_timestamp_def fail_if_def append_recovery_separator_def separator_def write_bytes_def
        split: sum.splits if_splits prod.splits option.splits)
  moreover have "oi_handle io" using assms(1) rp by (auto simp: open_existing_def ensure_open_timestamp_def fail_if_def split: if_splits)
  ultimately have "append_record sd (oi_boot io) (Boot boot) (content @ separator rp) = (content', Ok ())"
     "hs = fresh_store (bo_boot_id boot) (close_open_gap (bo_timestamp boot) (rp\<lparr>rp_records := rp_records rp @ [Boot boot]\<rparr>))"
    using assms(1) rp
    by (auto simp: open_existing_def ensure_open_timestamp_def fail_if_def split: sum.splits prod.splits)
  moreover have "content' = content @ separator rp @ record_line sd (Boot boot) @ [CHR 0x0A]"
    using calculation(1) encode_record_line [of "Boot boot" sd] assms(2)
    by (auto simp: append_record_def write_bytes_def writable_def split: option.splits)
  ultimately show thesis using that rp regresses_bound [OF rp(2)] by simp
qed

lemma fresh_store_fields [simp]:
  "hs_boot_id (fresh_store b rp) = b" "hs_last_state (fresh_store b rp) = None" "hs_replay (fresh_store b rp) = rp"
  "hs_poisoned (fresh_store b rp) = False"
  "hs_last_timestamp (fresh_store b rp) = (if rp_records rp = [] then None else Some (record_timestamp (last (rp_records rp))))"
  by (simp_all add: fresh_store_def)

text \<open>The file right after an open: the scanner stands after the boot record, behind the replayed records.\<close>

definition opened :: "serde \<Rightarrow> boot_record \<Rightarrow> history_store \<Rightarrow> bytes \<Rightarrow> bool" where
  "opened sd boot hs content \<longleftrightarrow> (\<exists>rq. scanned sd content (Await_sample (new_epoch boot), rq) \<and>
     rp_bound rq = Some (bo_timestamp boot) \<and> rp_records (hs_replay hs) = rp_records rq @ [Boot boot]) \<and>
     hs_boot_id hs = bo_boot_id boot \<and> hs_last_state hs = None \<and> hs_last_timestamp hs = Some (bo_timestamp boot) \<and>
     \<not> hs_poisoned hs"

lemma opened_tracks: "opened sd boot hs content \<Longrightarrow> tracks sd (hs, content)"
  unfolding opened_def by (elim conjE exE) (rule tracksI, auto)

lemma open_existing_opened:
  assumes "open_existing sd io boot content = (content', Ok hs)" "writable sd (Boot boot)" "torn_or_whole sd content"
  shows "opened sd boot hs content'"
proof -
  obtain rp where rp: "validate_canonical sd content = Ok rp" "bound_at_most rp (bo_timestamp boot)"
    "content' = content @ separator rp @ record_line sd (Boot boot) @ [CHR 0x0A]"
    "hs = fresh_store (bo_boot_id boot) (close_open_gap (bo_timestamp boot) (rp\<lparr>rp_records := rp_records rp @ [Boot boot]\<rparr>))"
    using open_existing_Ok [OF assms(1,2)] .
  obtain s where s: "scanned sd (content @ separator rp) s" "finish_scan s = rp\<lparr>rp_needs_separator := False\<rparr>"
    using scanned_restart [OF rp(1) assms(3)] by blast
  have "rp_bound (snd s) = rp_bound rp" using rp_bound_flag [of rp s] s(2) by simp
  then have "bound_at_most (snd s) (bo_timestamp boot)" using rp(2) by (simp add: bound_at_most_def)
  then obtain rq where rq: "accept_record (Boot boot) s = (Await_sample (new_epoch boot), rq)" "rp_bound rq = Some (bo_timestamp boot)"
      "rp_records rq = rp_records (finish_scan s)"
    using accept_boot by blast
  have "scanned sd content' (Await_sample (new_epoch boot), rq)"
    using scanned_append [OF s(1), of "Boot boot"] assms(2) rq(1) by (simp add: rp(3) writable_def)
  then show ?thesis using rq(2,3) s(2) by (auto simp: opened_def rp(4))
qed

lemma publish_opened:
  assumes "writable sd (Boot boot)"
  shows "opened sd boot (fresh_store (bo_boot_id boot) (empty_replay\<lparr>rp_records := [Boot boot]\<rparr>)) (record_line sd (Boot boot) @ [CHR 0x0A])"
proof -
  have w: "written sd [Boot boot]" using assms by (simp add: writable_def)
  obtain n where "scan sd 0 False (stream_bytes sd [Boot boot] @ []) (Await_boot, empty_replay) =
      scan sd n True [] (accept_record (Boot boot) (Await_boot, empty_replay))"
    using scan_written [OF w, of 0 False "[]" "(Await_boot, empty_replay)"] by auto
  moreover have "bound_at_most (snd (Await_boot, empty_replay)) (bo_timestamp boot)" by (simp add: bound_at_most_def empty_replay_def)
  then obtain rq where rq: "accept_record (Boot boot) (Await_boot, empty_replay) = (Await_sample (new_epoch boot), rq)" "rp_bound rq = Some (bo_timestamp boot)"
      "rp_records rq = rp_records (finish_scan (Await_boot, empty_replay))"
    using accept_boot by blast
  ultimately have "scanned sd (record_line sd (Boot boot) @ [CHR 0x0A]) (Await_sample (new_epoch boot), rq)"
    by (simp add: scanned_def ends_line_def)
  then show ?thesis using rq(2,3) by (auto simp: opened_def finish_scan_def empty_replay_def)
qed

lemma publish_first_boot_eq:
  "writable sd (Boot boot) \<Longrightarrow> publish_first_boot sd outcome boot =
     (case outcome of
        Linked \<Rightarrow> (Some (record_line sd (Boot boot) @ [CHR 0x0A]), Ok ())
      | Failed_before_link \<Rightarrow> (None, Err False)
      | Failed_after_link \<Rightarrow> (Some (record_line sd (Boot boot) @ [CHR 0x0A]), Err False)
      | Already_exists other \<Rightarrow> (Some other, Err True))"
  using encode_record_line [of "Boot boot" sd] by (simp add: publish_first_boot_def writable_def)

text \<open>A successful open either continued an existing file or published a first boot record.\<close>

lemma open_store_Ok:
  assumes "open_store sd io boot disk = (disk', Ok hs)" "writable sd (Boot boot)"
  obtains (continued) c c' where "disk = Some c \<or> oi_publish io = Already_exists c" "disk' = Some c'"
      "open_existing sd io boot c = (c', Ok hs)"
    | (published) "disk' = Some (record_line sd (Boot boot) @ [CHR 0x0A])"
      "hs = fresh_store (bo_boot_id boot) (empty_replay\<lparr>rp_records := [Boot boot]\<rparr>)"
proof (cases disk)
  case (Some c)
  obtain c' r where "open_existing sd io boot c = (c', r)" by (rule prod.exhaust)
  with Some assms(1) continued [of c c'] show thesis by (simp add: open_store_def split: if_splits)
next
  case None
  then have o: "oi_can_open io" "(case publish_first_boot sd (oi_publish io) boot of
             (disk, Ok _) \<Rightarrow>
               if oi_handle io then (disk, Ok (fresh_store (bo_boot_id boot) (empty_replay\<lparr>rp_records := [Boot boot]\<rparr>)))
               else (disk, Err Open_io)
           | (Some other, Err True) \<Rightarrow> apfst Some (open_existing sd io boot other)
           | (disk, Err _) \<Rightarrow> (disk, Err Open_io)) = (disk', Ok hs)"
    using assms(1) by (simp_all add: open_store_def split: if_splits)
  show thesis
  proof (cases "oi_publish io")
    case Linked
    with o(2) published show thesis by (simp add: publish_first_boot_eq [OF assms(2)] split: if_splits)
  next
    case (Already_exists c)
    obtain c' r where "open_existing sd io boot c = (c', r)" by (rule prod.exhaust)
    with Already_exists o(2) continued [of c c'] show thesis by (simp add: publish_first_boot_eq [OF assms(2)])
  qed (use o(2) in \<open>simp_all add: publish_first_boot_eq [OF assms(2)]\<close>)
qed

lemma open_store_opened:
  assumes "open_store sd io boot disk = (disk', Ok hs)" "writable sd (Boot boot)"
    and "\<And>c. disk = Some c \<or> oi_publish io = Already_exists c \<Longrightarrow> torn_or_whole sd c"
  shows "\<exists>content. disk' = Some content \<and> opened sd boot hs content"
  using assms(1,2)
proof (cases rule: open_store_Ok)
  case (continued c c')
  then show ?thesis using open_existing_opened [OF _ assms(2) assms(3)] by blast
next
  case published
  with publish_opened [OF assms(2)] show ?thesis by simp
qed

lemma open_store_tracks:
  assumes "open_store sd io boot disk = (disk', Ok hs)" "writable sd (Boot boot)"
    and "\<And>c. disk = Some c \<or> oi_publish io = Already_exists c \<Longrightarrow> torn_or_whole sd c"
  shows "\<exists>content. disk' = Some content \<and> tracks sd (hs, content) \<and> hs_boot_id hs = bo_boot_id boot"
proof -
  obtain content where "disk' = Some content" "opened sd boot hs content"
    using open_store_opened [OF assms] by blast
  moreover from this have "hs_boot_id hs = bo_boot_id boot" by (simp add: opened_def)
  ultimately show ?thesis using opened_tracks by blast
qed

subsection \<open>Compaction keeps track\<close>

definition clean_scan :: "scanner \<times> replay \<Rightarrow> bool" where
  "clean_scan s \<longleftrightarrow> (excluded (snd s) = 0 \<longrightarrow>
     (case fst s of
        Await_boot \<Rightarrow> rp_records (snd s) = [] \<and> rp_bound (snd s) = None
      | Invalid_epoch \<Rightarrow> False
      | _ \<Rightarrow> rp_bound (snd s) = Some (record_timestamp (last (rp_records (snd s) @ pending (fst s))))))"

lemma excluded_invalidate: "excluded (snd (invalidate at s)) \<noteq> 0"
  by (cases s; cases "fst s") (simp_all add: invalidate_def)

lemma clean_scan_invalidate: "clean_scan (invalidate at s)"
  using excluded_invalidate [of at s] unfolding clean_scan_def by blast

lemma accept_record_clean:
  assumes "clean_scan s"
  shows "clean_scan (accept_record r s)"
proof (cases "case rp_bound (snd s) of None \<Rightarrow> False | Some bound \<Rightarrow> record_timestamp r < bound")
  case True
  then show ?thesis by (simp add: accept_record_def clean_scan_invalidate)
next
  case False
  obtain st rp where s: "s = (st, rp)" by (cases s)
  let ?rp = "advance_ordering_bound (record_timestamp r) rp"
  have eq: "accept_record r s = (case r of Boot b \<Rightarrow> start_boot b (st, ?rp) | _ \<Rightarrow> ingest_record r (st, ?rp))"
    using False by (simp add: accept_record_def s Let_def)
  have b: "rp_bound ?rp = Some (record_timestamp r)"
    using False by (auto simp: s advance_ordering_bound_def split: option.splits)
  show ?thesis
  proof (cases r)
    case (Boot x)
    with b show ?thesis
      unfolding eq by (cases st) (simp_all add: start_boot_def clean_scan_def)
  next
    case (Sample x)
    with b show ?thesis
      unfolding eq by (cases st) (simp_all add: ingest_record_def Let_def clean_scan_def)
  next
    case (Checkpoint x)
    with b show ?thesis
      unfolding eq by (cases st) (simp_all add: ingest_record_def Let_def clean_scan_def)
  qed
qed

lemma scan_steps_clean: "scan_steps sd (Await_boot, empty_replay) s \<Longrightarrow> clean_scan s"
proof (induction rule: rtranclp_induct)
  case base
  then show ?case by (simp add: clean_scan_def empty_replay_def)
next
  case (step s s')
  from step.hyps(2) step.IH show ?case
  proof cases
    case (damaged line)
    then show ?thesis by (simp add: damaged_line_def Let_def clean_scan_invalidate)
  next
    case (tail b)
    then show ?thesis using step.IH
      by (cases s) (auto simp: clean_scan_def excluded_def split: scanner.splits)
  qed (simp add: accept_record_clean)
qed

lemma find_map_append: "find_map f (xs @ ys) = (case find_map f xs of None \<Rightarrow> find_map f ys | Some y \<Rightarrow> Some y)"
  by (induction xs) (auto split: option.splits)

lemma last_sample_state:
  "list_all (\<lambda>r. \<not> is_boot r \<and> record_boot_id r = b) rs \<Longrightarrow> find_map (sample_state_of b) (rev rs) = state_after None rs"
proof (induction rs rule: rev_induct)
  case (snoc r rs)
  then show ?case by (cases r) (simp_all add: sample_state_of_def state_after_append)
qed simp

lemma epoch_sample_state:
  assumes "usable e"
  shows "find_map (sample_state_of (record_boot_id (hd e))) (rev e) = state_after None e \<and> state_after None e \<noteq> None"
proof -
  obtain b s rs where e: "e = Boot b # Sample s # rs" "sa_boot_id s = bo_boot_id b"
      "list_all (\<lambda>r. \<not> is_boot r) (Sample s # rs)" "list_all (\<lambda>r. record_boot_id r = bo_boot_id b) e"
    using usable_cases [OF assms] .
  then have l: "list_all (\<lambda>r. \<not> is_boot r \<and> record_boot_id r = bo_boot_id b) (Sample s # rs)" by (simp add: list_all_iff)
  have "state_after (Some st) xs \<noteq> None" if "list_all (\<lambda>r. \<not> is_boot r) xs" for st xs
    using that by (induction "Some st" xs arbitrary: st rule: state_after.induct) auto
  then have "state_after None (Sample s # rs) \<noteq> None" using e(3) by simp
  then show ?thesis
    using last_sample_state [OF l] by (auto simp: e(1) find_map_append split: option.splits)
qed

definition boot_id_of :: "history_record \<Rightarrow> string option" where
  "boot_id_of r = (case r of Boot b \<Rightarrow> Some (bo_boot_id b) | _ \<Rightarrow> None)"

lemma last_boot_id:
  assumes "usable e"
  shows "find_map boot_id_of (rev (rs @ e)) = Some (record_boot_id (hd e))"
proof -
  obtain b s more where e: "e = Boot b # more" "list_all (\<lambda>r. \<not> is_boot r) more"
    using usable_cases [OF assms] by metis
  have "find_map boot_id_of xs = None" if "list_all (\<lambda>r. \<not> is_boot r) xs" for xs
    using that by (induction xs) (auto simp: boot_id_of_def split: history_record.splits)
  then have "find_map boot_id_of (rev more) = None" using e(2) by simp
  then show ?thesis by (simp add: e(1) find_map_append boot_id_of_def)
qed

lemma record_eq_boot_id: "list_all2 record_eq xs ys \<Longrightarrow> find_map boot_id_of (rev xs) = find_map boot_id_of (rev ys)"
proof -
  have "find_map boot_id_of xs = find_map boot_id_of ys" if "list_all2 record_eq xs ys" for xs ys
    using that
  proof (induction rule: list_all2_induct)
    case (Cons x xs y ys)
    have "boot_id_of x = boot_id_of y"
      using Cons.hyps(1) by (cases x; cases y) (simp_all add: boot_id_of_def)
    with Cons.IH show ?case by (simp split: option.split)
  qed simp
  then show "list_all2 record_eq xs ys \<Longrightarrow> find_map boot_id_of (rev xs) = find_map boot_id_of (rev ys)"
    by (metis list_all2_rev)
qed

lemma usable_boot_ids: "usable e \<Longrightarrow> x \<in> set e \<Longrightarrow> record_boot_id x = record_boot_id (hd e)"
  by (erule usable_cases) (auto simp: list_all_iff)

lemma write_records_ends_line: "write_records sd rs content = Some out \<Longrightarrow> ends_line content \<Longrightarrow> ends_line out"
  by (induction sd rs content rule: write_records.induct) (auto simp: ends_line_def split: sum.splits)

lemma scanned_accounted: "scanned sd content s \<Longrightarrow> accounted s"
proof -
  assume s: "scanned sd content s"
  have "accounted (Await_boot, empty_replay)"
    by (simp add: accounted_def tallied_def empty_replay_def samples_of_def checkpoints_of_def no_diagnostics_def)
  from scan_accounted [OF this, of sd 0 False content True s] s show ?thesis by (simp add: scanned_def)
qed

text \<open>A replay without exclusions and with records ends in an epoch that is committed.\<close>

lemma clean_replay_ends:
  assumes "serde_typed sd" "scanned sd content s" "excluded (finish_scan s) = 0" "rp_records (finish_scan s) \<noteq> []"
  obtains e rq where "s = (Usable e, rq)" "usable (ep_records e)" "ep_boot_id e = record_boot_id (hd (ep_records e))"
    "ep_state e = state_after None (ep_records e)" "rp_records (finish_scan s) = rp_records rq @ ep_records e"
    "rp_bound rq = Some (record_timestamp (last (rp_records (finish_scan s))))"
proof -
  obtain st rq where s: "s = (st, rq)" by (cases s)
  note steps = scanned_steps [OF assms(2)]
  have clean: "clean_scan (st, rq)" and inv: "replay_inv (st, rq)" and acc: "accounted (st, rq)"
    using scan_steps_clean [OF steps] scan_steps_inv [OF assms(1) steps] scanned_accounted [OF assms(2)] by (simp_all add: s)
  show thesis
  proof (cases st)
    case (Usable e)
    with assms(3) acc have "excluded rq = 0"
      by (simp add: s finish_scan_def accounted_def commit_epoch_tallied(2))
    with clean inv acc Usable show thesis
      by (intro that [of e rq]) (simp_all add: s finish_scan_def clean_scan_def replay_inv_def accounted_def)
  qed (use assms(3,4) clean inv s in \<open>auto simp: finish_scan_def clean_scan_def replay_inv_def\<close>)
qed

lemma compaction_tracks:
  assumes "serde_typed sd" "tracks sd (hs, content)"
    and "compact_if_authorized sd io authorized cutoff (hs, content) = (sf, Ok outcome)"
    and "outcome = Durable \<or> outcome = Committed_sync_pending"
  shows "tracks sd sf \<and> hs_boot_id (fst sf) = hs_boot_id hs \<and> hs_poisoned (fst sf) = hs_poisoned hs \<and>
    (\<exists>rp replacement. validate_canonical sd content = Ok rp \<and> validate_canonical sd (snd sf) = Ok replacement \<and>
       replacement_ok (retained_compaction_records cutoff (hs_boot_id hs) True (rp_records rp)) replacement)"
proof -
  from tracksE [OF assms(2)] obtain st rq where t: "scanned sd content (st, rq)" "in_epoch hs st" by metis
  let ?rp = "finish_scan (st, rq)"
  let ?ret = "retained_compaction_records cutoff (hs_boot_id hs) True (rp_records ?rp)"
  have val: "validate_canonical sd content = Ok ?rp" by (rule scanned_validate [OF t(1)])
  from assms(3,4) val have some: "hs_last_state hs \<noteq> None" by (auto simp: compact_if_authorized_def Let_def split: if_splits)
  with assms(3,4) val obtain out rep where o: "write_records sd ?ret [] = Some out" "validate_canonical sd out = Ok rep"
      "replacement_ok ?ret rep"
      "sf = (hs\<lparr>hs_last_timestamp := (if rp_records rep = [] then None else Some (record_timestamp (last (rp_records rep)))),
        hs_last_state := find_map (sample_state_of (hs_boot_id hs)) (rev (rp_records rep)), hs_replay := rep\<rparr>, out)"
    by (auto simp: compact_if_authorized_def Let_def split: if_splits option.splits sum.splits)
  obtain e0 where e0: "st = Usable e0" "ep_boot_id e0 = hs_boot_id hs"
    using t(2) some by (cases st) auto
  have "pending_ok (fst (st, rq))"
    using scan_steps_inv [OF assms(1) scanned_steps [OF t(1)]] by (simp add: replay_inv_def)
  with e0 have u0: "usable (ep_records e0)" "record_boot_id (hd (ep_records e0)) = hs_boot_id hs" by simp_all
  have ok: "stream_ok (rp_records ?rp)"
    using finish_scan_sound [OF scan_steps_inv [OF assms(1) scanned_steps [OF t(1)]]] by blast
  have split: "split_epochs (rp_records ?rp) = split_epochs (rp_records rq) @ [ep_records e0]"
    by (simp add: e0(1) finish_scan_def split_epochs_snoc [OF u0(1)])
  let ?last = "retained_epoch cutoff (hs_boot_id hs) True (ep_records e0)"
  obtain b tl where b: "ep_records e0 = Boot b # tl" "in_order tl"
    using split_epoch_in [OF ok, of "ep_records e0"] split by (metis in_set_conv_decomp)
  then have last: "?last = Boot b # window_part cutoff tl"
    using u0(2) by (simp add: retained_epoch_boot)
  with retained_epoch_cases [OF ok, of "ep_records e0" cutoff "hs_boot_id hs" True] split
  have "usable ?last" "record_boot_id (hd ?last) = hs_boot_id hs" using u0(2) b(1) by auto
  then have ids: "find_map boot_id_of (rev ?ret) = Some (hs_boot_id hs)"
    using last_boot_id [of ?last "concat (map (retained_epoch cutoff (hs_boot_id hs) True) (split_epochs (rp_records rq)))"]
    by (simp add: retained_epochs split)
  have eq: "list_all2 record_eq (rp_records rep) ?ret" and ex: "excluded rep = 0"
    using o(3) by (simp_all add: replacement_ok_def excluded_def)
  then have ids': "find_map boot_id_of (rev (rp_records rep)) = Some (hs_boot_id hs)"
    using record_eq_boot_id ids by metis
  then have ne: "rp_records rep \<noteq> []" by auto
  obtain saw s where "scan sd 0 False out (Await_boot, empty_replay) = Ok (saw, s)" "saw" "rep = finish_scan s"
    using o(2) by (auto simp: validate_canonical_def bind_result_Ok_iff split: if_splits)
  then have s: "scanned sd out s" "rep = finish_scan s"
    using write_records_ends_line [OF o(1)] by (simp_all add: scanned_def ends_line_def)
  obtain e rq' where e: "s = (Usable e, rq')" "usable (ep_records e)" "ep_boot_id e = record_boot_id (hd (ep_records e))"
    "ep_state e = state_after None (ep_records e)" "rp_records rep = rp_records rq' @ ep_records e"
    "rp_bound rq' = Some (record_timestamp (last (rp_records rep)))"
    using clean_replay_ends [OF assms(1) s(1)] ex ne unfolding s(2) by metis
  have id: "ep_boot_id e = hs_boot_id hs"
    using ids' last_boot_id [OF e(2), of "rp_records rq'"] e(3,5) by simp
  have st: "find_map (sample_state_of (hs_boot_id hs)) (rev (rp_records rep)) = ep_state e \<and> ep_state e \<noteq> None"
    using epoch_sample_state [OF e(2)] e(3,4,5) id by (auto simp: find_map_append)
  have "tracks sd sf"
    unfolding o(4) using s(1) e(1,6) id st ne by (intro tracksI) auto
  with o val show ?thesis by auto
qed

subsection \<open>Runs of the store\<close>

datatype store_op =
    Op_sample write_fault nat capacity "state_entry list"
  | Op_compact compaction_io bool nat
  | Op_take_replay

fun store_step :: "serde \<Rightarrow> store_op \<Rightarrow> store_file \<Rightarrow> store_file" where
  "store_step sd (Op_sample fault t cap state) s = fst (append_sample sd fault t cap state s)"
| "store_step sd (Op_compact io authorized cutoff) s = fst (compact_if_authorized sd io authorized cutoff s)"
| "store_step sd Op_take_replay s = (snd (take_replay (fst s)), snd s)"

definition store_run :: "serde \<Rightarrow> store_op list \<Rightarrow> store_file \<Rightarrow> store_file" where
  "store_run sd ops s = fold (store_step sd) ops s"

fun op_writable :: "serde \<Rightarrow> string \<Rightarrow> store_op \<Rightarrow> bool" where
  "op_writable sd b (Op_sample fault t cap state) \<longleftrightarrow>
     writable sd (Sample \<lparr>sa_timestamp = t, sa_boot_id = b, sa_capacity = cap, sa_state = state\<rparr>) \<and>
     writable sd (Checkpoint \<lparr>ch_timestamp = t, ch_boot_id = b, ch_capacity = cap\<rparr>)"
| "op_writable sd b _ \<longleftrightarrow> True"

text \<open>What every append leaves, however it ends.\<close>

definition sample_record_of :: "string \<Rightarrow> nat \<Rightarrow> capacity \<Rightarrow> state_entry list \<Rightarrow> history_record" where
  "sample_record_of b t cap state = Sample \<lparr>sa_timestamp = t, sa_boot_id = b, sa_capacity = cap, sa_state = state\<rparr>"

definition checkpoint_record_of :: "string \<Rightarrow> nat \<Rightarrow> capacity \<Rightarrow> history_record" where
  "checkpoint_record_of b t cap = Checkpoint \<lparr>ch_timestamp = t, ch_boot_id = b, ch_capacity = cap\<rparr>"

lemma append_sample_outcomes:
  assumes "op_writable sd (hs_boot_id hs) (Op_sample fault t cap state)"
    and "append_sample sd fault t cap state (hs, content) = (sf, res)"
  shows "hs_boot_id (fst sf) = hs_boot_id hs \<and>
    (hs_poisoned hs \<longrightarrow> sf = (hs, content) \<and> res = Err Poisoned_store) \<and>
    (\<not> hs_poisoned hs \<longrightarrow> (case res of
        Ok _ \<Rightarrow> \<not> hs_poisoned (fst sf)
      | Err Timestamp_regression \<Rightarrow> sf = (hs, content)
      | Err e \<Rightarrow> e = Write_io \<and> hs_poisoned (fst sf) \<and>
          (\<exists>n r. fault = Some n \<and> r \<in> {sample_record_of (hs_boot_id hs) t cap state, checkpoint_record_of (hs_boot_id hs) t cap} \<and>
             \<not> regresses (hs_last_timestamp hs) r \<and> snd sf = content @ take n (record_line sd r @ [CHR 0x0A]))))"
proof -
  have w: "writable sd (sample_record_of (hs_boot_id hs) t cap state)" "writable sd (checkpoint_record_of (hs_boot_id hs) t cap)"
    using assms(1) by (simp_all add: sample_record_of_def checkpoint_record_of_def)
  note p = put_record_cases [OF w(1), of fault hs content] put_record_cases [OF w(2), of fault hs content]
  show ?thesis
    using assms(2)
    by (cases "same_state (hs_last_state hs) state")
      (auto simp: append_sample_def checkpoint_inner_def sample_record_of_def [symmetric] checkpoint_record_of_def [symmetric] p
        split: if_splits option.splits)
qed

lemma compact_outcomes:
  assumes "serde_typed sd" "tracks sd (hs, content)" "compact_if_authorized sd io authorized cutoff (hs, content) = (sf, res)"
  shows "tracks sd sf \<and> hs_boot_id (fst sf) = hs_boot_id hs \<and> hs_poisoned (fst sf) = hs_poisoned hs"
proof (cases "res = Ok Durable \<or> res = Ok Committed_sync_pending")
  case True
  with compaction_tracks [OF assms(1,2)] assms(3) show ?thesis by blast
next
  case False
  then have "sf = (hs, content)"
    using assms(3) by (auto simp: compact_if_authorized_def Let_def split: if_splits option.splits sum.splits)
  with assms(2) show ?thesis by simp
qed

lemma compact_poison: "hs_poisoned (fst (fst (compact_if_authorized sd io authorized cutoff s))) = hs_poisoned (fst s) \<and>
    hs_boot_id (fst (fst (compact_if_authorized sd io authorized cutoff s))) = hs_boot_id (fst s)"
  by (auto simp: compact_if_authorized_def Let_def split: if_splits option.splits sum.splits)

lemma store_step_tracks:
  assumes "serde_typed sd" "op_writable sd (hs_boot_id (fst s)) op" "\<not> hs_poisoned (fst s) \<longrightarrow> tracks sd s"
  shows "hs_boot_id (fst (store_step sd op s)) = hs_boot_id (fst s) \<and>
    (\<not> hs_poisoned (fst (store_step sd op s)) \<longrightarrow> tracks sd (store_step sd op s))"
proof -
  obtain hs content where s: "s = (hs, content)" by (cases s)
  show ?thesis
  proof (cases op)
    case (Op_sample fault t cap state)
    obtain sf res where r: "append_sample sd fault t cap state (hs, content) = (sf, res)" by (rule prod.exhaust)
    have o: "op_writable sd (hs_boot_id hs) (Op_sample fault t cap state)" using assms(2) Op_sample s by simp
    note out = append_sample_outcomes [OF o r]
    show ?thesis
    proof (cases res)
      case (Inl e)
      with out r Op_sample s assms(3) show ?thesis by (cases e) auto
    next
      case (Inr u)
      with out have "\<not> hs_poisoned hs" by auto
      with Inr out o assms(3) s append_sample_tracks [of sd hs content t cap state fault sf] r Op_sample show ?thesis by simp
    qed
  next
    case (Op_compact io authorized cutoff)
    obtain sf res where r: "compact_if_authorized sd io authorized cutoff (hs, content) = (sf, res)" by (rule prod.exhaust)
    with compact_poison [of sd io authorized cutoff s] compact_outcomes [OF assms(1) _ r] assms(3) s Op_compact
    show ?thesis by auto
  next
    case Op_take_replay
    have "tracks sd (hs\<lparr>hs_replay := empty_replay\<rparr>, content)" if t: "tracks sd (hs, content)"
    proof -
      from tracksE [OF t] obtain st rq where x: "scanned sd content (st, rq)" "in_epoch hs st"
          "hs_last_timestamp hs = rp_bound rq" "rp_bound rq \<noteq> None" by metis
      then have "in_epoch (hs\<lparr>hs_replay := empty_replay\<rparr>) st" by (cases st) simp_all
      with x show ?thesis by (intro tracksI) auto
    qed
    with assms(3) s Op_take_replay show ?thesis by (simp add: take_replay_def)
  qed
qed

lemma store_run_tracks:
  assumes "serde_typed sd" "list_all (op_writable sd (hs_boot_id (fst s))) ops" "\<not> hs_poisoned (fst s) \<longrightarrow> tracks sd s"
  shows "hs_boot_id (fst (store_run sd ops s)) = hs_boot_id (fst s) \<and>
    (\<not> hs_poisoned (fst (store_run sd ops s)) \<longrightarrow> tracks sd (store_run sd ops s))"
  using assms(2,3)
proof (induction ops arbitrary: s)
  case (Cons op ops)
  then have st: "hs_boot_id (fst (store_step sd op s)) = hs_boot_id (fst s)"
      "\<not> hs_poisoned (fst (store_step sd op s)) \<longrightarrow> tracks sd (store_step sd op s)"
    using store_step_tracks [OF assms(1), of s op] by auto
  with Cons.IH [of "store_step sd op s"] Cons.prems(1) show ?case by (simp add: store_run_def)
qed (simp add: store_run_def)

end
