(* ===== verification/Float64.thy ===== *)
theory Float64
  imports Json_Value
begin

section \<open>f64 arithmetic\<close>

text \<open>
  The arithmetic of \<open>f64\<close> that the history uses, on bit patterns: addition, subtraction,
  multiplication and division rounded to nearest, ties to even, and \<open>str::parse::<f64>\<close>. A finite
  value is a whole number times a power of two; an operation computes the exact result and rounds
  it once. A division keeps enough bits of the quotient, and one more that says whether there is a
  remainder.
\<close>

subsection \<open>Rounding\<close>

text \<open>The value of a finite number without its sign: \<open>m\<close> times two to the \<open>e\<close>.\<close>

definition f64_parts :: "f64 \<Rightarrow> nat \<times> int" where
  "f64_parts x =
     (let ex = f64_magnitude x div 2 ^ 52; fr = f64_magnitude x mod 2 ^ 52
      in if ex = 0 then (fr, - 1074) else (fr + 2 ^ 52, int ex - 1075))"

definition half_even :: "nat \<Rightarrow> nat \<Rightarrow> nat" where
  "half_even m s =
     (let q = m div 2 ^ s; r = m mod 2 ^ s
      in if 2 ^ s < 2 * r \<or> (2 * r = 2 ^ s \<and> odd q) then q + 1 else q)"

text \<open>The magnitude bits of \<open>m\<close> times two to the \<open>e\<close>, with 53 bits or fewer near zero.\<close>

definition round_magnitude :: "nat \<Rightarrow> int \<Rightarrow> nat" where
  "round_magnitude m e =
     (if m = 0 then 0
      else let q = max (e + int (bit_length m) - 53) (- 1074);
               mant = (if q \<le> e then m * 2 ^ nat (e - q) else half_even m (nat (q - e)))
           in min f64_infinity (nat (q + 1074) * 2 ^ 52 + mant))"

text \<open>The magnitude bits of \<open>a / b\<close> times two to the \<open>e\<close>.\<close>

definition round_ratio :: "nat \<Rightarrow> nat \<Rightarrow> int \<Rightarrow> nat" where
  "round_ratio a b e =
     (let k = 55 + bit_length b; q = a * 2 ^ k div b; r = a * 2 ^ k mod b
      in round_magnitude (2 * q + (if r = 0 then 0 else 1)) (e - int k - 1))"

definition f64_make :: "bool \<Rightarrow> nat \<Rightarrow> f64" where
  "f64_make negative magnitude = word_of_nat (if negative then 2 ^ 63 + magnitude else magnitude)"

definition f64_nan :: f64 where
  "f64_nan = 0x7FF8000000000000"

definition f64_is_infinite :: "f64 \<Rightarrow> bool" where
  "f64_is_infinite x \<longleftrightarrow> f64_magnitude x = f64_infinity"

definition f64_is_zero :: "f64 \<Rightarrow> bool" where
  "f64_is_zero x \<longleftrightarrow> f64_magnitude x = 0"

definition f64_neg :: "f64 \<Rightarrow> f64" where
  "f64_neg x = f64_make (\<not> f64_negative x) (f64_magnitude x)"

subsection \<open>Operations\<close>

text \<open>A finite number as a whole multiple of two to the \<open>e\<close>, with its sign.\<close>

definition f64_scaled :: "f64 \<Rightarrow> int \<Rightarrow> int" where
  "f64_scaled x e = (case f64_parts x of (m, ex) \<Rightarrow>
     (if f64_negative x then - 1 else 1) * int m * 2 ^ nat (ex - e))"

definition f64_add :: "f64 \<Rightarrow> f64 \<Rightarrow> f64" where
  "f64_add x y =
     (if f64_is_nan x \<or> f64_is_nan y then f64_nan
      else if f64_is_infinite x then
        (if f64_is_infinite y \<and> f64_negative x \<noteq> f64_negative y then f64_nan else x)
      else if f64_is_infinite y then y
      else let e = min (snd (f64_parts x)) (snd (f64_parts y)); s = f64_scaled x e + f64_scaled y e
           in if s = 0 then f64_make (f64_negative x \<and> f64_negative y) 0
              else f64_make (s < 0) (round_magnitude (nat \<bar>s\<bar>) e))"

definition f64_sub :: "f64 \<Rightarrow> f64 \<Rightarrow> f64" where
  "f64_sub x y = f64_add x (f64_neg y)"

definition f64_mul :: "f64 \<Rightarrow> f64 \<Rightarrow> f64" where
  "f64_mul x y =
     (let negative = (f64_negative x \<noteq> f64_negative y) in
      if f64_is_nan x \<or> f64_is_nan y then f64_nan
      else if f64_is_infinite x \<or> f64_is_infinite y then
        (if f64_is_zero x \<or> f64_is_zero y then f64_nan else f64_make negative f64_infinity)
      else case (f64_parts x, f64_parts y) of ((m, e), (n, d)) \<Rightarrow> f64_make negative (round_magnitude (m * n) (e + d)))"

definition f64_div :: "f64 \<Rightarrow> f64 \<Rightarrow> f64" where
  "f64_div x y =
     (let negative = (f64_negative x \<noteq> f64_negative y) in
      if f64_is_nan x \<or> f64_is_nan y then f64_nan
      else if f64_is_infinite x then (if f64_is_infinite y then f64_nan else f64_make negative f64_infinity)
      else if f64_is_infinite y then f64_make negative 0
      else if f64_is_zero y then (if f64_is_zero x then f64_nan else f64_make negative f64_infinity)
      else case (f64_parts x, f64_parts y) of ((m, e), (n, d)) \<Rightarrow> f64_make negative (round_ratio m n (e - d)))"

subsection \<open>Parsing\<close>

definition digits_value :: "string \<Rightarrow> nat" where
  "digits_value s = foldl (\<lambda>n c. n * 10 + (byte_of c - 48)) 0 s"

text \<open>An exponent part, if there is one: \<open>e\<close>, a sign, digits.\<close>

definition parse_exponent :: "string \<Rightarrow> int option" where
  "parse_exponent s =
     (case s of
        [] \<Rightarrow> Some 0
      | c # s \<Rightarrow>
          if to_lower_char c \<noteq> CHR ''e'' then None
          else
            let (negative, digits) =
              (case s of d # t \<Rightarrow> if d = CHR ''-'' then (True, t) else if d = CHR ''+'' then (False, t) else (False, s) | [] \<Rightarrow> (False, s))
            in if digits \<noteq> [] \<and> list_all ascii_digit digits
               then Some (if negative then - int (digits_value digits) else int (digits_value digits)) else None)"

definition decimal_magnitude :: "nat \<Rightarrow> int \<Rightarrow> nat" where
  "decimal_magnitude d k = (if 0 \<le> k then round_magnitude (d * 10 ^ nat k) 0 else round_ratio d (10 ^ nat (- k)) 0)"

definition parse_unsigned :: "string \<Rightarrow> nat option" where
  "parse_unsigned s =
     (if to_ascii_lower s = ''inf'' \<or> to_ascii_lower s = ''infinity'' then Some f64_infinity
      else if to_ascii_lower s = ''nan'' then Some (f64_magnitude f64_nan)
      else
        let whole = takeWhile ascii_digit s; rest = dropWhile ascii_digit s;
            (frac, rest) = (case rest of c # t \<Rightarrow> if c = CHR ''.'' then (takeWhile ascii_digit t, dropWhile ascii_digit t) else ([], rest)
              | [] \<Rightarrow> ([], []))
        in if whole = [] \<and> frac = [] then None
           else map_option (\<lambda>e. decimal_magnitude (digits_value (whole @ frac)) (e - int (length frac))) (parse_exponent rest))"

definition parse_f64 :: "string \<Rightarrow> f64 option" where
  "parse_f64 s =
     (case s of
        [] \<Rightarrow> None
      | c # t \<Rightarrow>
          if c = CHR ''-'' then map_option (f64_make True) (parse_unsigned t)
          else if c = CHR ''+'' then map_option (f64_make False) (parse_unsigned t)
          else map_option (f64_make False) (parse_unsigned s))"

subsection \<open>Zeros of either sign\<close>

text \<open>
  The two zeros are equal for \<open>==\<close>, so a state that differs from the last one in the sign of a zero
  is stored as a repetition. What is computed from it is equal too.
\<close>

lemma bit_length_bounds: "0 < n \<Longrightarrow> 2 ^ (bit_length n - 1) \<le> n \<and> n < 2 ^ bit_length n \<and> 0 < bit_length n"
proof (induction n rule: bit_length.induct)
  case (1 n)
  then have b: "bit_length n = Suc (bit_length (n div 2))" by (simp add: bit_length.simps [of n])
  show ?case
  proof (cases "n div 2 = 0")
    case True
    then have "n = 1" using 1(2) by simp
    then show ?thesis by (simp add: bit_length.simps)
  next
    case False
    with 1 have i: "2 ^ (bit_length (n div 2) - 1) \<le> n div 2" "n div 2 < 2 ^ bit_length (n div 2)" "0 < bit_length (n div 2)"
      by simp_all
    moreover have "n = 2 * (n div 2) + n mod 2" "n mod 2 < 2" by simp_all
    moreover have "(2 :: nat) ^ bit_length n = 2 * 2 ^ bit_length (n div 2)" "bit_length n - 1 = bit_length (n div 2)"
      by (simp_all add: b)
    moreover have "(2 :: nat) ^ bit_length (n div 2) = 2 * 2 ^ (bit_length (n div 2) - 1)"
      using i(3) by (simp flip: power_Suc)
    ultimately show ?thesis using b by (simp only:) linarith
  qed
qed

lemma bit_length_unique:
  assumes "2 ^ k \<le> n" "n < 2 ^ Suc k"
  shows "bit_length n = Suc k"
proof -
  have "(0 :: nat) < 2 ^ k" by simp
  with assms(1) have "0 < n" by linarith
  note b = bit_length_bounds [OF this]
  have "(2 :: nat) ^ k < 2 ^ bit_length n" "(2 :: nat) ^ (bit_length n - 1) < 2 ^ Suc k" using assms b by linarith+
  then have "k < bit_length n" "bit_length n - 1 < Suc k" by (simp_all only: power_strict_increasing_iff)
  with b show ?thesis by simp
qed

lemma bit_length_shift: "0 < n \<Longrightarrow> bit_length (n * 2 ^ k) = bit_length n + k"
proof -
  assume n: "0 < n"
  note b = bit_length_bounds [OF n]
  then obtain l where l: "bit_length n = Suc l" by (cases "bit_length n") auto
  have "2 ^ (l + k) \<le> n * 2 ^ k" "n * 2 ^ k < 2 ^ Suc (l + k)"
    using b by (simp_all add: l power_add)
  then have "bit_length (n * 2 ^ k) = Suc (l + k)" by (rule bit_length_unique)
  with l show ?thesis by simp
qed

lemma half_even_shift: "half_even (m * 2 ^ k) (k + s) = half_even m s"
proof -
  have "m * 2 ^ k div 2 ^ (k + s) = m div 2 ^ s"
    unfolding power_add mult.commute [of m] by (rule div_mult_mult1) simp
  moreover have "m * 2 ^ k mod 2 ^ (k + s) = m mod 2 ^ s * 2 ^ k"
    unfolding power_add mult.commute [of m] mult.commute [of "m mod 2 ^ s"] by (rule mod_mult_mult1)
  moreover have "2 ^ (k + s) < 2 * (m mod 2 ^ s * 2 ^ k) \<longleftrightarrow> 2 ^ s < 2 * (m mod 2 ^ s)"
    "2 * (m mod 2 ^ s * 2 ^ k) = 2 ^ (k + s) \<longleftrightarrow> 2 * (m mod 2 ^ s) = 2 ^ s"
    by (simp_all add: power_add mult.commute [of "2 ^ k"] flip: mult.assoc)
  ultimately show ?thesis by (simp add: half_even_def Let_def)
qed

lemma half_even_exact: "half_even (m * 2 ^ s) s = m"
  by (simp add: half_even_def Let_def)

lemma round_magnitude_shift: "round_magnitude (m * 2 ^ k) e = round_magnitude m (e + int k)"
proof (cases "m = 0")
  case False
  define q where "q = max (e + int k + int (bit_length m) - 53) (- 1074)"
  have q: "max (e + int (bit_length (m * 2 ^ k)) - 53) (- 1074) = q"
    using False by (simp add: q_def bit_length_shift algebra_simps)
  have "(if q \<le> e then m * 2 ^ k * 2 ^ nat (e - q) else half_even (m * 2 ^ k) (nat (q - e))) =
      (if q \<le> e + int k then m * 2 ^ nat (e + int k - q) else half_even m (nat (q - (e + int k))))"
  proof -
    consider "q \<le> e" | "e < q" "q \<le> e + int k" | "e + int k < q" by linarith
    then show ?thesis
    proof cases
      case 1
      then have "nat (e + int k - q) = k + nat (e - q)" by linarith
      with 1 show ?thesis by (simp add: power_add)
    next
      case 2
      define s where "s = nat (q - e)"
      have s: "k = (k - s) + s" "nat (e + int k - q) = k - s" using 2 unfolding s_def by linarith+
      have "half_even (m * 2 ^ k) s = half_even (m * 2 ^ (k - s) * 2 ^ s) s"
        by (subst s(1)) (simp only: power_add mult.assoc)
      then have "half_even (m * 2 ^ k) s = m * 2 ^ (k - s)" by (simp only: half_even_exact)
      with 2 s show ?thesis by (simp add: s_def)
    next
      case 3
      then have "nat (q - e) = k + nat (q - (e + int k))" by linarith
      with 3 half_even_shift [of m k "nat (q - (e + int k))"] show ?thesis by simp
    qed
  qed
  with False q show ?thesis by (simp add: round_magnitude_def Let_def flip: q_def)
qed (simp add: round_magnitude_def)

lemma f64_magnitude_less: "f64_magnitude x < 2 ^ 63"
proof -
  have "take_bit 63 (unat x) < 2 ^ 63" by (rule take_bit_nat_less_exp)
  then show ?thesis unfolding f64_magnitude_def unsigned_take_bit_eq .
qed

lemma round_magnitude_parts:
  assumes "f64_is_finite x" "f64_magnitude x \<noteq> 0"
  shows "round_magnitude (fst (f64_parts x)) (snd (f64_parts x)) = f64_magnitude x"
proof -
  let ?b = "f64_magnitude x" and ?ex = "f64_magnitude x div 2 ^ 52" and ?fr = "f64_magnitude x mod 2 ^ 52"
  have b: "?b = ?ex * 2 ^ 52 + ?fr" by (simp only: div_mult_mod_eq)
  have fin: "?b < f64_infinity" using assms(1) by (simp add: f64_is_finite_def)
  have fr: "?fr < 2 ^ 52" by simp
  show ?thesis
  proof (cases "?ex = 0")
    case True
    have m: "?b = ?fr" "0 < ?fr" using b assms(2) unfolding True by simp_all
    then obtain l where l: "bit_length ?fr = Suc l" "2 ^ l \<le> ?fr" using bit_length_bounds [OF m(2)] by (cases "bit_length ?fr") auto
    then have "(2 :: nat) ^ l < 2 ^ 52" using fr by linarith
    then have "l < 52" by (simp only: power_strict_increasing_iff) 
    then have "max (- 1074 + int (bit_length ?fr) - 53) (- 1074) = (- 1074 :: int)" using l by simp
    with m fin True show ?thesis by (simp add: f64_parts_def Let_def round_magnitude_def)
  next
    case False
    have "bit_length (?fr + 2 ^ 52) = Suc 52" by (rule bit_length_unique) (use fr in simp_all)
    then have "max (int ?ex - 1075 + int (bit_length (?fr + 2 ^ 52)) - 53) (- 1074) = int ?ex - 1075" using False by simp
    moreover have "nat (int ?ex - 1075 + 1074) * 2 ^ 52 + (?fr + 2 ^ 52) = ?b"
    proof -
      have n: "nat (int ?ex - 1075 + 1074) = ?ex - 1" by linarith
      have "(d - 1) * c + (r + c) = d * c + r" if "d \<noteq> 0" for d c r :: nat
        using that by (cases d) simp_all
      from this [OF False, of "2 ^ 52" ?fr] show ?thesis unfolding n using b by (rule trans [OF _ sym])
    qed
    ultimately show ?thesis using fin False by (simp add: f64_parts_def Let_def round_magnitude_def)
  qed
qed

lemma f64_bits: "f64_negative x \<longleftrightarrow> odd (unat x div 2 ^ 63)" "f64_magnitude x = unat x mod 2 ^ 63"
proof -
  have "bit x 63 \<longleftrightarrow> bit (unat x) 63" by (simp add: bit_unsigned_iff)
  then show "f64_negative x \<longleftrightarrow> odd (unat x div 2 ^ 63)" by (simp add: f64_negative_def bit_iff_odd)
  show "f64_magnitude x = unat x mod 2 ^ 63" unfolding f64_magnitude_def unsigned_take_bit_eq by (rule take_bit_eq_mod)
qed

lemma f64_make_parts [simp]:
  assumes "m < 2 ^ 63"
  shows "f64_negative (f64_make negative m) = negative" "f64_magnitude (f64_make negative m) = m"
proof -
  have u: "unat (f64_make negative m) = (if negative then 2 ^ 63 + m else m)"
    using assms by (simp add: f64_make_def unat_of_nat)
  have d: "(c + m) div c = 1 \<and> (c + m) mod c = m \<and> m div c = 0 \<and> m mod c = m" if "m < c" for c
    using that by (cases "c = 0") (simp_all add: div_add_self1)
  show "f64_negative (f64_make negative m) = negative" "f64_magnitude (f64_make negative m) = m"
    unfolding f64_bits u using d [OF assms] by (cases negative; simp only: if_True if_False; simp)+
qed

lemma f64_make_of: "f64_make (f64_negative x) (f64_magnitude x) = x"
proof -
  have "unat x < 2 ^ 64" using unsigned_less [of x, where 'a = nat] by simp
  then have "unat x div 2 ^ 63 = 0 \<or> unat x div 2 ^ 63 = 1" by auto
  moreover have "unat x = unat x div 2 ^ 63 * 2 ^ 63 + unat x mod 2 ^ 63" by (simp only: div_mult_mod_eq)
  ultimately have "unat x = (if f64_negative x then 2 ^ 63 + f64_magnitude x else f64_magnitude x)"
    unfolding f64_bits by (elim disjE) (simp_all only: mult_1 mult_zero_left even_zero odd_one not_False_eq_True simp_thms if_True if_False add_0)
  then have "f64_make (f64_negative x) (f64_magnitude x) = word_of_nat (unat x)" by (simp add: f64_make_def)
  then show ?thesis by simp
qed

lemma f64_ext:
  assumes "f64_magnitude x = f64_magnitude y" "f64_negative x = f64_negative y"
  shows "x = y"
proof -
  have "f64_make (f64_negative x) (f64_magnitude x) = f64_make (f64_negative y) (f64_magnitude y)" by (simp only: assms)
  then show ?thesis unfolding f64_make_of .
qed

lemma f64_rank_eq_iff:
  "f64_rank x = f64_rank y \<longleftrightarrow>
     f64_magnitude x = f64_magnitude y \<and> (f64_negative x = f64_negative y \<or> f64_magnitude x = 0)"
proof -
  have n: "(- int a = int b) = (a = b \<and> a = 0)" "(int a = - int b) = (a = b \<and> a = 0)" for a b
    by auto
  have "((if p then - int a else int a) = (if q then - int b else int b)) = (a = b \<and> (p = q \<or> a = 0))" for p q a b
    by (cases p; cases q) (auto simp: n)
  then show ?thesis unfolding f64_rank_def by this
qed

lemma f64_eq_cases: "f64_eq x y \<longleftrightarrow> \<not> f64_is_nan x \<and> \<not> f64_is_nan y \<and> (x = y \<or> (f64_is_zero x \<and> f64_is_zero y))"
proof -
  have "x = y \<longleftrightarrow> f64_magnitude x = f64_magnitude y \<and> f64_negative x = f64_negative y"
    using f64_ext by blast
  then show ?thesis
    unfolding f64_eq_def f64_is_zero_def f64_rank_eq_iff by (cases "f64_magnitude x = 0") auto
qed

lemma f64_parts_zero: "f64_is_zero x \<Longrightarrow> f64_parts x = (0, - 1074)"
  by (simp add: f64_is_zero_def f64_parts_def)

lemma f64_parts_exponent: "- 1074 \<le> snd (f64_parts x)"
  by (simp add: f64_parts_def Let_def)

lemma f64_scaled_parts:
  "f64_scaled x (- 1074) = (if f64_negative x then - 1 else 1) * int (fst (f64_parts x) * 2 ^ nat (snd (f64_parts x) + 1074))"
  by (simp add: f64_scaled_def split: prod.split)

lemma f64_parts_positive: "f64_magnitude x \<noteq> 0 \<Longrightarrow> 0 < fst (f64_parts x)"
  using div_mult_mod_eq [of "f64_magnitude x" "2 ^ 52"] by (auto simp: f64_parts_def Let_def)

lemma f64_add_commute: "f64_add x y = f64_add y x"
  by (auto simp: f64_add_def Let_def min.commute add.commute conj_commute f64_is_infinite_def intro: f64_ext)

lemma f64_zero_not_special: "f64_is_zero x \<Longrightarrow> \<not> f64_is_nan x \<and> \<not> f64_is_infinite x \<and> f64_is_finite x"
  by (simp add: f64_is_zero_def f64_is_nan_def f64_is_infinite_def f64_is_finite_def f64_infinity_def)

lemma f64_finite_not_special: "f64_is_finite x \<Longrightarrow> \<not> f64_is_nan x \<and> \<not> f64_is_infinite x"
  by (simp add: f64_is_finite_def f64_is_nan_def f64_is_infinite_def)

lemma f64_add_zero:
  assumes "f64_is_zero x" "f64_is_finite y" "\<not> f64_is_zero y"
  shows "f64_add x y = y"
proof -
  let ?m = "fst (f64_parts y)" and ?e = "snd (f64_parts y)"
  have m: "0 < ?m" "f64_magnitude y \<noteq> 0" using assms(3) by (simp_all add: f64_parts_positive f64_is_zero_def)
  let ?s = "f64_scaled y (- 1074)"
  have s: "?s \<noteq> 0" "(?s < 0) = f64_negative y" "nat \<bar>?s\<bar> = ?m * 2 ^ nat (?e + 1074)"
    using m(1) unfolding f64_scaled_parts by (auto simp: zero_less_mult_iff mult_less_0_iff nat_mult_distrib nat_power_eq)
  have "min (- 1074) ?e = - 1074" using f64_parts_exponent [of y] by simp
  moreover have "f64_scaled x (- 1074) = 0" using assms(1) by (simp add: f64_scaled_def f64_parts_zero)
  ultimately have "f64_add x y = f64_make (?s < 0) (round_magnitude (nat \<bar>?s\<bar>) (- 1074))"
    using assms s(1) f64_zero_not_special [OF assms(1)] f64_finite_not_special [OF assms(2)]
    by (simp add: f64_add_def f64_parts_zero Let_def)
  also have "round_magnitude (nat \<bar>?s\<bar>) (- 1074) = f64_magnitude y"
  proof -
    have "- 1074 + int (nat (?e + 1074)) = ?e" using f64_parts_exponent [of y] by simp
    then show ?thesis unfolding s(3) round_magnitude_shift using round_magnitude_parts [OF assms(2) m(2)] by simp
  qed
  finally show ?thesis unfolding s(2) f64_make_of .
qed

lemma f64_add_zeros: "f64_is_zero x \<Longrightarrow> f64_is_zero y \<Longrightarrow> f64_is_zero (f64_add x y)"
  using f64_zero_not_special [of x] f64_zero_not_special [of y]
  by (simp add: f64_add_def f64_parts_zero f64_scaled_def Let_def f64_is_zero_def)

lemma round_magnitude_bound: "round_magnitude m e \<le> f64_infinity"
  by (simp add: round_magnitude_def Let_def)

lemma f64_make_rounded: "\<not> f64_is_nan (f64_make negative (round_magnitude m e))"
proof -
  have "round_magnitude m e < 2 ^ 63" using round_magnitude_bound [of m e] by (simp add: f64_infinity_def)
  then show ?thesis using round_magnitude_bound [of m e] by (simp add: f64_is_nan_def)
qed

lemma f64_add_number: "f64_is_finite x \<Longrightarrow> f64_is_finite y \<Longrightarrow> \<not> f64_is_nan (f64_add x y)"
proof -
  assume f: "f64_is_finite x" "f64_is_finite y"
  have "f64_is_zero (f64_make b 0)" for b by (simp add: f64_is_zero_def)
  then show ?thesis
    using f64_make_rounded f64_finite_not_special [OF f(1)] f64_finite_not_special [OF f(2)] f64_zero_not_special
    by (simp add: f64_add_def Let_def)
qed

lemma f64_eq_refl: "\<not> f64_is_nan x \<Longrightarrow> f64_eq x x"
  by (simp add: f64_eq_def)

text \<open>Addition and subtraction of finite numbers respect \<open>==\<close>.\<close>

lemma f64_add_cong:
  assumes "f64_eq x x'" "f64_eq y y'" "f64_is_finite x" "f64_is_finite y"
  shows "f64_eq (f64_add x y) (f64_add x' y')"
proof -
  have x: "x = x' \<or> (f64_is_zero x \<and> f64_is_zero x')" and y: "y = y' \<or> (f64_is_zero y \<and> f64_is_zero y')"
    using assms(1,2) by (simp_all add: f64_eq_cases)
  have same: "f64_add x y = f64_add x' y'" if "\<not> (f64_is_zero x \<and> f64_is_zero y)"
  proof (cases "x = x'")
    case True
    then show ?thesis
      using y that f64_add_zero [of y x] f64_add_zero [of y' x] assms(3) f64_add_commute [of x y] f64_add_commute [of x y'] by auto
  next
    case False
    with x that y have "f64_is_zero x" "f64_is_zero x'" "\<not> f64_is_zero y" "y = y'" by auto
    then show ?thesis using f64_add_zero [of x y] f64_add_zero [of x' y] assms(4) by simp
  qed
  have zeros: "f64_is_zero (f64_add x y) \<and> f64_is_zero (f64_add x' y')" if "f64_is_zero x \<and> f64_is_zero y"
  proof -
    have "f64_is_zero x'" "f64_is_zero y'" using that x y by auto
    then show ?thesis using that by (simp add: f64_add_zeros)
  qed
  show ?thesis
  proof (cases "f64_is_zero x \<and> f64_is_zero y")
    case True
    then show ?thesis using zeros f64_zero_not_special unfolding f64_eq_cases by blast
  next
    case False
    then show ?thesis using same f64_eq_refl f64_add_number [OF assms(3,4)] by simp
  qed
qed

lemma f64_neg_parts: "f64_negative (f64_neg x) \<longleftrightarrow> \<not> f64_negative x" "f64_magnitude (f64_neg x) = f64_magnitude x"
  using f64_magnitude_less [of x] by (simp_all add: f64_neg_def)

lemma f64_neg_cong: "f64_eq x y \<Longrightarrow> f64_eq (f64_neg x) (f64_neg y)"
  by (auto simp: f64_eq_cases f64_is_nan_def f64_is_zero_def f64_neg_parts)

lemma f64_neg_finite: "f64_is_finite (f64_neg x) = f64_is_finite x"
  by (simp add: f64_is_finite_def f64_neg_parts)

lemma f64_sub_cong:
  "f64_eq x x' \<Longrightarrow> f64_eq y y' \<Longrightarrow> f64_is_finite x \<Longrightarrow> f64_is_finite y \<Longrightarrow> f64_eq (f64_sub x y) (f64_sub x' y')"
  unfolding f64_sub_def by (rule f64_add_cong) (simp_all add: f64_neg_cong f64_neg_finite)

lemma f64_sub_number: "f64_is_finite x \<Longrightarrow> f64_is_finite y \<Longrightarrow> \<not> f64_is_nan (f64_sub x y)"
  by (simp add: f64_sub_def f64_add_number f64_neg_finite)

end
