(* ===== verification/History_Exposition.thy ===== *)
theory History_Exposition
  imports History_Codec Float64
begin

section \<open>Metrics text (src/history.rs)\<close>

text \<open>
  What the sampler reads: the Prometheus text of the process's own metrics, line by line, with its
  limits, and its two forms, the ordered maps of counters and gauges and the list of entries of a
  history record. Skipped lines are counted. Texts are bytes of valid UTF-8.
\<close>

subsection \<open>Series\<close>

definition MAX_EXPOSITION_LINE_BYTES :: nat where "MAX_EXPOSITION_LINE_BYTES = 1024 * 1024"
definition MAX_EXPOSITION_SERIES :: nat where "MAX_EXPOSITION_SERIES = 100000"

datatype metric_key = Metric_key (mk_metric: string) (mk_labels: metric_labels)

text \<open>The derived order: the metric, then the labels as sequences of pairs.\<close>

instantiation metric_key :: linorder
begin

definition less_eq_metric_key :: "metric_key \<Rightarrow> metric_key \<Rightarrow> bool" where
  "less_eq_metric_key k l \<longleftrightarrow> (mk_metric k, mk_labels k) \<le> (mk_metric l, mk_labels l)"

definition less_metric_key :: "metric_key \<Rightarrow> metric_key \<Rightarrow> bool" where
  "less_metric_key k l \<longleftrightarrow> (mk_metric k, mk_labels k) < (mk_metric l, mk_labels l)"

instance
proof
  fix k l :: metric_key
  assume "k \<le> l" "l \<le> k"
  then have "(mk_metric k, mk_labels k) = (mk_metric l, mk_labels l)"
    unfolding less_eq_metric_key_def by (rule order.antisym)
  then show "k = l" by (simp add: metric_key.expand)
qed (auto simp: less_eq_metric_key_def less_metric_key_def simp del: less_eq_prod_def)

end

type_synonym metric_map = "(metric_key \<times> f64) list"

record parsed_snapshot =
  ps_counters :: metric_map
  ps_gauges :: metric_map
  ps_skipped_lines :: nat

definition empty_snapshot :: parsed_snapshot where
  "empty_snapshot = \<lparr>ps_counters = [], ps_gauges = [], ps_skipped_lines = 0\<rparr>"

datatype prometheus_type = Counter_type | Gauge_type | Histogram_type

definition name_start :: "char \<Rightarrow> bool" where
  "name_start c \<longleftrightarrow> ascii_alpha c \<or> c = CHR ''_''"

definition name_char :: "char \<Rightarrow> bool" where
  "name_char c \<longleftrightarrow> ascii_alnum c \<or> c = CHR ''_''"

fun valid_metric_name :: "string \<Rightarrow> bool" where
  "valid_metric_name [] \<longleftrightarrow> False"
| "valid_metric_name (c # s) \<longleftrightarrow> (name_start c \<or> c = CHR '':'') \<and> list_all (\<lambda>c. name_char c \<or> c = CHR '':'') s"

fun valid_label_name :: "string \<Rightarrow> bool" where
  "valid_label_name [] \<longleftrightarrow> False"
| "valid_label_name (c # s) \<longleftrightarrow> name_start c \<and> list_all name_char s"

subsection \<open>Labels\<close>

text \<open>The rest of a quoted value: its text, and what follows the closing quote.\<close>

fun label_value :: "string \<Rightarrow> (string \<times> string) option" where
  "label_value [] = None"
| "label_value (c # s) =
     (if c = CHR 0x22 then Some ([], s)
      else if c = CHR 0x5C then
        (case s of
           [] \<Rightarrow> None
         | d # t \<Rightarrow>
             if d = CHR 0x22 \<or> d = CHR 0x5C then map_option (apfst (Cons d)) (label_value t)
             else if d = CHR ''n'' then map_option (apfst (Cons (CHR 0x0A))) (label_value t)
             else None)
      else map_option (apfst (Cons c)) (label_value s))"

lemma label_value_shorter: "label_value s = Some (v, t) \<Longrightarrow> length t < length s"
proof (induction s arbitrary: v rule: label_value.induct)
  case (2 c s)
  show ?case
  proof (cases "c = CHR 0x5C")
    case True
    with 2 show ?thesis by (cases s) (fastforce split: if_splits)+
  next
    case False
    with 2 show ?thesis by (fastforce split: if_splits)
  qed
qed simp

lemma trim_start_shorter: "length (trim_start s) \<le> length s"
proof (induction s rule: trim_start.induct)
  case (1 s)
  show ?case
  proof (cases "List.find (\<lambda>w. prefix w s) white_space")
    case None
    then show ?thesis by (simp add: trim_start.simps [of s])
  next
    case (Some w)
    then show ?thesis using 1 [OF Some] by (simp add: trim_start.simps [of s])
  qed
qed

text \<open>One label: its name, its value and what follows.\<close>

definition label_pair :: "string \<Rightarrow> ((string \<times> string) \<times> string) option" where
  "label_pair s =
     (let name = takeWhile name_char s in
      if \<not> valid_label_name name then None
      else case trim_start (dropWhile name_char s) of
        [] \<Rightarrow> None
      | c # t \<Rightarrow>
          if c \<noteq> CHR ''='' then None
          else case trim_start t of
            [] \<Rightarrow> None
          | d # u \<Rightarrow>
              if d \<noteq> CHR 0x22 then None
              else map_option (apfst (Pair name)) (label_value u))"

lemma label_pair_shorter:
  assumes "label_pair s = Some (nv, t)"
  shows "length t < length s"
proof -
  obtain u v w d where u: "trim_start (dropWhile name_char s) = CHR ''='' # u" "trim_start u = d # w" "label_value w = Some (v, t)"
    using assms by (auto simp: label_pair_def Let_def split: if_splits list.splits)
  have "length (dropWhile name_char s) \<le> length s" by (rule length_dropWhile_le)
  with u(1) trim_start_shorter [of "dropWhile name_char s"] have "length u < length s" by simp
  moreover have "length w < length u" using trim_start_shorter [of u] u(2) by simp
  moreover have "length t < length w" by (rule label_value_shorter [OF u(3)])
  ultimately show ?thesis by simp
qed

function parse_labels_from :: "string \<Rightarrow> metric_labels \<Rightarrow> metric_labels option" where
  "parse_labels_from s labels =
     (if trim_start s = [] then Some labels
      else case label_pair (trim_start s) of
        None \<Rightarrow> None
      | Some ((name, v), t) \<Rightarrow>
          if map_of labels name \<noteq> None then None
          else case trim_start t of
            [] \<Rightarrow> Some (bt_insert name v labels)
          | c # u \<Rightarrow> if c = CHR '','' then parse_labels_from u (bt_insert name v labels) else None)"
  by pat_completeness auto
termination
proof (relation "measure (\<lambda>(s, m). length s)", goal_cases)
  case (2 s labels nvt nv t name v c u)
  have "length t < length (trim_start s)" using label_pair_shorter [of "trim_start s" nv t] 2(2,3) by simp
  moreover have "length (trim_start t) \<le> length t" "length (trim_start s) \<le> length s" by (rule trim_start_shorter)+
  ultimately show ?case using 2(6) by simp
qed simp

declare parse_labels_from.simps [simp del]

definition parse_labels :: "string \<Rightarrow> metric_labels option" where
  "parse_labels s = parse_labels_from s []"

definition parse_metric_key :: "string \<Rightarrow> metric_key option" where
  "parse_metric_key s =
     (case position (\<lambda>c. c = CHR 0x7B) s of
        None \<Rightarrow> if valid_metric_name s then Some (Metric_key s []) else None
      | Some i \<Rightarrow>
          if last s \<noteq> CHR 0x7D then None
          else if \<not> valid_metric_name (take i s) then None
          else map_option (Metric_key (take i s)) (parse_labels (take (length s - 1 - (i + 1)) (drop (i + 1) s))))"

subsection \<open>Lines\<close>

text \<open>\<open>str::lines\<close>: the text between line feeds, without a carriage return before one; no last empty line.\<close>

definition line_text :: "string \<Rightarrow> string" where
  "line_text l = (case str_strip_suffix [CHR 0x0D] l of None \<Rightarrow> l | Some t \<Rightarrow> t)"

definition str_lines :: "string \<Rightarrow> string list" where
  "str_lines s = (let ls = split_on (CHR 0x0A) s
     in map line_text (butlast ls) @ (if last ls = [] then [] else [last ls]))"

text \<open>\<open>split_once(char::is_whitespace)\<close> and \<open>split_whitespace\<close>.\<close>

fun split_white :: "string \<Rightarrow> (string \<times> string) option" where
  "split_white [] = None"
| "split_white (c # s) = (case List.find (\<lambda>w. prefix w (c # s)) white_space of
      Some w \<Rightarrow> Some ([], drop (length w) (c # s))
    | None \<Rightarrow> map_option (apfst (Cons c)) (split_white s))"

lemma split_white_shorter: "split_white s = Some (a, b) \<Longrightarrow> length b < length s"
proof (induction s arbitrary: a)
  case (Cons c s)
  show ?case
  proof (cases "List.find (\<lambda>w. prefix w (c # s)) white_space")
    case None
    with Cons show ?thesis by fastforce
  next
    case (Some w)
    then have "w \<in> set white_space" by (auto simp: find_Some_iff)
    then have "w \<noteq> []" by (rule white_space_nonempty)
    with Some Cons.prems show ?thesis by (cases w) auto
  qed
qed simp

function white_fields :: "string \<Rightarrow> string list" where
  "white_fields s =
     (if trim_start s = [] then []
      else case split_white (trim_start s) of
        None \<Rightarrow> [trim_start s]
      | Some (w, t) \<Rightarrow> w # white_fields t)"
  by pat_completeness auto
termination
proof (relation "measure length", goal_cases)
  case (2 s wt w t)
  then have "split_white (trim_start s) = Some (w, t)" by simp
  from split_white_shorter [OF this] trim_start_shorter [of s] show ?case by simp
qed simp

declare white_fields.simps [simp del]

definition kind_of_type :: "string \<Rightarrow> prometheus_type option" where
  "kind_of_type = map_of [(''counter'', Counter_type), (''gauge'', Gauge_type), (''histogram'', Histogram_type)]"

definition is_counter_like :: "string \<Rightarrow> prometheus_type btree \<Rightarrow> bool" where
  "is_counter_like metric types =
     (case map_of types metric of
        Some kind \<Rightarrow> kind = Counter_type \<or> kind = Histogram_type
      | None \<Rightarrow>
          list_ex (\<lambda>sfx. case str_strip_suffix sfx metric of
             None \<Rightarrow> False | Some base \<Rightarrow> map_of types base = Some Histogram_type) [''_bucket'', ''_count'', ''_sum''] \<or>
          list_ex (\<lambda>sfx. suffix sfx metric) [''_total'', ''_bucket'', ''_count'', ''_sum''])"

text \<open>The state of the loop: what was parsed, the declared types, the number of series.\<close>

record exposition_state =
  ex_parsed :: parsed_snapshot
  ex_types :: "prometheus_type btree"
  ex_series :: nat

definition skip_line :: "exposition_state \<Rightarrow> exposition_state" where
  "skip_line x = x\<lparr>ex_parsed := (ex_parsed x)\<lparr>ps_skipped_lines := ps_skipped_lines (ex_parsed x) + 1\<rparr>\<rparr>"

definition type_line :: "string \<Rightarrow> exposition_state \<Rightarrow> exposition_state" where
  "type_line metadata x =
     (case white_fields metadata of
        [name, kind] \<Rightarrow>
          (case kind_of_type kind of
             None \<Rightarrow> x
           | Some k \<Rightarrow>
               if \<not> valid_metric_name name then x
               else if length (ex_types x) < MAX_EXPOSITION_SERIES \<or> map_of (ex_types x) name \<noteq> None
               then x\<lparr>ex_types := bt_insert name k (ex_types x)\<rparr>
               else skip_line x)
      | _ \<Rightarrow> x)"

definition sample_split :: "string \<Rightarrow> (string \<times> string) option" where
  "sample_split line =
     (case rposition (\<lambda>c. c = CHR 0x7D) line of
        None \<Rightarrow> split_white line
      | Some i \<Rightarrow> map_option (\<lambda>(_, v). (take (i + 1) line, v)) (split_white (drop (i + 1) line)))"

definition parse_sample :: "string \<Rightarrow> (metric_key \<times> f64) option" where
  "parse_sample line =
     (case sample_split line of
        None \<Rightarrow> None
      | Some (series_text, value_text) \<Rightarrow>
          let v = trim_start value_text in
          if v = [] \<or> split_white v \<noteq> None then None
          else case parse_f64 v of
            None \<Rightarrow> None
          | Some x \<Rightarrow>
              if \<not> f64_is_finite x then None
              else map_option (\<lambda>key. (key, x)) (parse_metric_key series_text))"

definition sample_line :: "string \<Rightarrow> exposition_state \<Rightarrow> exposition_state" where
  "sample_line line x =
     (if MAX_EXPOSITION_SERIES \<le> ex_series x then skip_line x
      else case parse_sample line of
        None \<Rightarrow> skip_line x
      | Some (key, v) \<Rightarrow>
          let p = ex_parsed x in
          x\<lparr>ex_series := ex_series x + 1,
            ex_parsed := (if is_counter_like (mk_metric key) (ex_types x)
              then p\<lparr>ps_counters := bt_insert key v (ps_counters p)\<rparr>
              else p\<lparr>ps_gauges := bt_insert key v (ps_gauges p)\<rparr>)\<rparr>)"

definition exposition_line :: "string \<Rightarrow> exposition_state \<Rightarrow> exposition_state" where
  "exposition_line line x =
     (if MAX_EXPOSITION_LINE_BYTES < length line then skip_line x
      else if line = [] then x
      else case str_strip_prefix ''# TYPE '' line of
        Some metadata \<Rightarrow> type_line metadata x
      | None \<Rightarrow> if hd line = CHR ''#'' then x else sample_line line x)"

definition parse_exposition :: "string \<Rightarrow> parsed_snapshot" where
  "parse_exposition text =
     ex_parsed (fold exposition_line (str_lines text) \<lparr>ex_parsed = empty_snapshot, ex_types = [], ex_series = 0\<rparr>)"

subsection \<open>Entries\<close>

definition entry_of :: "state_kind \<Rightarrow> metric_key \<times> f64 \<Rightarrow> state_entry" where
  "entry_of kind kv = \<lparr>se_kind = kind, se_metric = mk_metric (fst kv), se_labels = mk_labels (fst kv), se_value = snd kv\<rparr>"

definition canonical_state :: "parsed_snapshot \<Rightarrow> state_entry list" where
  "canonical_state p = map (entry_of Counter_kind) (ps_counters p) @ map (entry_of Gauge_kind) (ps_gauges p)"

definition put_entry :: "state_entry \<Rightarrow> parsed_snapshot \<Rightarrow> parsed_snapshot" where
  "put_entry e p =
     (let key = Metric_key (se_metric e) (se_labels e) in
      case se_kind e of
        Counter_kind \<Rightarrow> p\<lparr>ps_counters := bt_insert key (se_value e) (ps_counters p)\<rparr>
      | Gauge_kind \<Rightarrow> p\<lparr>ps_gauges := bt_insert key (se_value e) (ps_gauges p)\<rparr>)"

definition parsed_canonical_state :: "state_entry list \<Rightarrow> parsed_snapshot" where
  "parsed_canonical_state es = fold put_entry es empty_snapshot"

subsection \<open>What comes out can be stored\<close>

lemma bt_insert_values: "(k', v') \<in> set (bt_insert k v m) \<Longrightarrow> (k' = k \<and> v' = v) \<or> (k', v') \<in> set m"
  by (induction k v m rule: bt_insert.induct) (auto split: if_splits)

lemma bt_insert_length: "length (bt_insert k v m) \<le> Suc (length m)"
  by (induction k v m rule: bt_insert.induct) auto

lemma parse_labels_from_wf: "parse_labels_from s labels = Some m \<Longrightarrow> bt_wf labels \<Longrightarrow> bt_wf m"
proof (induction s labels rule: parse_labels_from.induct)
  case (1 s labels)
  show ?case
  proof (cases "trim_start s = []")
    case True
    with 1 show ?thesis by (simp add: parse_labels_from.simps [of s])
  next
    case False
    with 1(2) obtain name v t where t: "label_pair (trim_start s) = Some ((name, v), t)" "map_of labels name = None"
      by (auto simp: parse_labels_from.simps [of s] split: option.splits if_splits)
    have w: "bt_wf (bt_insert name v labels)" using 1(3) by (rule bt_insert_wf)
    show ?thesis
    proof (cases "trim_start t")
      case Nil
      with False t 1(2) w show ?thesis by (auto simp: parse_labels_from.simps [of s])
    next
      case (Cons c u)
      with False t 1(2) have c: "c = CHR '',''" "parse_labels_from u (bt_insert name v labels) = Some m"
        by (auto simp: parse_labels_from.simps [of s] split: if_splits)
      show ?thesis using 1(1) [OF False t(1) _ _ _ Cons c(1) c(2) w] t(2) by simp
    qed
  qed
qed

lemma parse_metric_key_wf: "parse_metric_key s = Some k \<Longrightarrow> bt_wf (mk_labels k)"
  using parse_labels_from_wf [of _ "[]"]
  by (auto simp: parse_metric_key_def parse_labels_def bt_wf_def split: option.splits if_splits)

text \<open>A snapshot that came from a text or from a record: ordered maps of well-formed keys and finite values.\<close>

definition metrics_ok :: "metric_map \<Rightarrow> bool" where
  "metrics_ok m \<longleftrightarrow> bt_wf m \<and> list_all (\<lambda>(k, v). bt_wf (mk_labels k) \<and> f64_is_finite v) m"

definition snapshot_ok :: "parsed_snapshot \<Rightarrow> bool" where
  "snapshot_ok p \<longleftrightarrow> metrics_ok (ps_counters p) \<and> metrics_ok (ps_gauges p)"

lemma metrics_ok_insert:
  "metrics_ok m \<Longrightarrow> bt_wf (mk_labels k) \<Longrightarrow> f64_is_finite v \<Longrightarrow> metrics_ok (bt_insert k v m)"
  by (auto simp: metrics_ok_def bt_insert_wf list_all_iff dest: bt_insert_values)

lemma empty_snapshot_ok [simp]: "snapshot_ok empty_snapshot" "metrics_ok []"
  by (simp_all add: snapshot_ok_def metrics_ok_def empty_snapshot_def bt_wf_def)

lemma parse_sample_ok: "parse_sample line = Some (k, v) \<Longrightarrow> bt_wf (mk_labels k) \<and> f64_is_finite v"
  by (auto simp: parse_sample_def Let_def parse_metric_key_wf split: option.splits prod.splits if_splits)

definition exposition_inv :: "exposition_state \<Rightarrow> bool" where
  "exposition_inv x \<longleftrightarrow> snapshot_ok (ex_parsed x) \<and> ex_series x \<le> MAX_EXPOSITION_SERIES \<and>
     length (ps_counters (ex_parsed x)) + length (ps_gauges (ex_parsed x)) \<le> ex_series x"

lemma exposition_line_inv:
  assumes "exposition_inv x"
  shows "exposition_inv (exposition_line line x)"
proof -
  have skip: "exposition_inv (skip_line x)"
    using assms by (simp add: exposition_inv_def skip_line_def snapshot_ok_def)
  moreover have "exposition_inv (type_line metadata x)" for metadata
    using assms skip by (auto simp: type_line_def exposition_inv_def split: list.splits option.splits)
  moreover have "exposition_inv (sample_line line x)"
  proof (cases "parse_sample line")
    case None
    with skip show ?thesis by (simp add: sample_line_def)
  next
    case (Some kv)
    obtain k v where kv: "kv = (k, v)" by (cases kv)
    note ok = parse_sample_ok [OF Some [unfolded kv]]
    have l: "length (bt_insert k v (ps_counters (ex_parsed x))) + length (ps_gauges (ex_parsed x)) \<le> Suc (ex_series x)"
      "length (ps_counters (ex_parsed x)) + length (bt_insert k v (ps_gauges (ex_parsed x))) \<le> Suc (ex_series x)"
      using assms bt_insert_length [of k v "ps_counters (ex_parsed x)"] bt_insert_length [of k v "ps_gauges (ex_parsed x)"]
      unfolding exposition_inv_def by linarith+
    show ?thesis
    proof (cases "MAX_EXPOSITION_SERIES \<le> ex_series x")
      case True
      with skip show ?thesis by (simp add: sample_line_def)
    next
      case False
      with assms ok l Some kv show ?thesis
        by (simp add: sample_line_def Let_def exposition_inv_def snapshot_ok_def metrics_ok_insert)
    qed
  qed
  ultimately show ?thesis using assms by (simp add: exposition_line_def split: option.split)
qed

lemma parse_exposition_ok:
  "snapshot_ok (parse_exposition text) \<and>
   length (ps_counters (parse_exposition text)) + length (ps_gauges (parse_exposition text)) \<le> MAX_EXPOSITION_SERIES"
proof -
  have "exposition_inv (fold exposition_line lines x)" if "exposition_inv x" for lines x
    using that by (induction lines arbitrary: x) (simp_all add: exposition_line_inv)
  from this [of "\<lparr>ex_parsed = empty_snapshot, ex_types = [], ex_series = 0\<rparr>" "str_lines text"] show ?thesis
    unfolding parse_exposition_def exposition_inv_def by (auto simp: empty_snapshot_def snapshot_ok_def)
qed

lemma metrics_distinct: "metrics_ok m \<Longrightarrow> distinct (map (entry_key \<circ> entry_of kind) m)"
proof -
  assume "metrics_ok m"
  then have "distinct (map fst m)" using strict_sorted_iff [of "map fst m"] by (simp add: metrics_ok_def bt_wf_def)
  moreover have "inj_on (\<lambda>k. (kind, mk_metric k, mk_labels k)) (set (map fst m))"
    by (auto simp: inj_on_def metric_key.expand)
  ultimately have "distinct (map (\<lambda>k. (kind, mk_metric k, mk_labels k)) (map fst m))" by (simp only: distinct_map)
  then show ?thesis by (simp add: entry_key_def entry_of_def o_def)
qed

lemma canonical_state_ok: "snapshot_ok p \<Longrightarrow> state_ok (canonical_state p)"
proof -
  assume p: "snapshot_ok p"
  have "list_all (\<lambda>e. f64_is_finite (se_value e) \<and> bt_wf (se_labels e)) (map (entry_of kind) m)" if "metrics_ok m" for kind m
    using that by (auto simp: metrics_ok_def list_all_iff entry_of_def)
  moreover have "(entry_key (entry_of Gauge_kind a) = entry_key (entry_of Counter_kind b)) = False"
      "(entry_key (entry_of Counter_kind a) = entry_key (entry_of Gauge_kind b)) = False" for a b
    by (simp_all add: entry_key_def entry_of_def)
  ultimately show ?thesis
    using p metrics_distinct [of "ps_counters p" Counter_kind] metrics_distinct [of "ps_gauges p" Gauge_kind]
    by (auto simp: state_ok_def canonical_state_def snapshot_ok_def)
qed

lemma put_entries:
  "fold put_entry (map (entry_of Counter_kind) m) p = p\<lparr>ps_counters := foldl (\<lambda>m e. bt_insert (fst e) (snd e) m) (ps_counters p) m\<rparr>"
  "fold put_entry (map (entry_of Gauge_kind) m) p = p\<lparr>ps_gauges := foldl (\<lambda>m e. bt_insert (fst e) (snd e) m) (ps_gauges p) m\<rparr>"
proof -
  show "fold put_entry (map (entry_of Counter_kind) m) p = p\<lparr>ps_counters := foldl (\<lambda>m e. bt_insert (fst e) (snd e) m) (ps_counters p) m\<rparr>"
    by (induction m arbitrary: p) (simp_all add: put_entry_def entry_of_def)
  show "fold put_entry (map (entry_of Gauge_kind) m) p = p\<lparr>ps_gauges := foldl (\<lambda>m e. bt_insert (fst e) (snd e) m) (ps_gauges p) m\<rparr>"
    by (induction m arbitrary: p) (simp_all add: put_entry_def entry_of_def)
qed

lemma parsed_canonical: "snapshot_ok p \<Longrightarrow> parsed_canonical_state (canonical_state p) = p\<lparr>ps_skipped_lines := 0\<rparr>"
proof -
  assume "snapshot_ok p"
  then have "bt_of_list (ps_counters p) = ps_counters p" "bt_of_list (ps_gauges p) = ps_gauges p"
    by (simp_all add: snapshot_ok_def metrics_ok_def bt_of_list_sorted)
  then show ?thesis
    by (simp add: parsed_canonical_state_def canonical_state_def put_entries empty_snapshot_def bt_of_list_def)
qed

text \<open>
  C34: whatever the metrics text, its sample can be stored. Of any text at most 100000 series are
  kept, all finite, with ordered labels and no series twice; so the record made of them always
  encodes, an append never fails for its contents, and reading the entries back gives the same
  counters and gauges.
\<close>

theorem exposition_is_storable:
  assumes "t < 2 ^ 64" and "capacity_ok cap"
  shows "(\<exists>line. encode_record sd (Sample \<lparr>sa_timestamp = t, sa_boot_id = b, sa_capacity = cap,
       sa_state = canonical_state (parse_exposition text)\<rparr>) = Ok line) \<and>
    parsed_canonical_state (canonical_state (parse_exposition text)) = (parse_exposition text)\<lparr>ps_skipped_lines := 0\<rparr> \<and>
    length (canonical_state (parse_exposition text)) \<le> MAX_EXPOSITION_SERIES"
proof -
  note p = parse_exposition_ok [of "text"]
  have "record_ok (Sample \<lparr>sa_timestamp = t, sa_boot_id = b, sa_capacity = cap, sa_state = canonical_state (parse_exposition text)\<rparr>)"
    using assms canonical_state_ok p by simp
  with encode_record_line parsed_canonical p show ?thesis by (auto simp: canonical_state_def)
qed

lemma exposition_is_storable_witness:
  "parsed_canonical_state (canonical_state (parse_exposition ''x 1'')) = (parse_exposition ''x 1'')\<lparr>ps_skipped_lines := 0\<rparr> \<and>
   (\<exists>line. encode_record (table_serde [demo_sample 7 ''b'' 0]) (Sample \<lparr>sa_timestamp = 7, sa_boot_id = ''b'', sa_capacity = demo_capacity,
       sa_state = canonical_state (parse_exposition ''x 1'')\<rparr>) = Ok line)"
  using exposition_is_storable [of 7 demo_capacity "table_serde [demo_sample 7 ''b'' 0]" "''b''" "''x 1''"] by (simp add: demo_capacity_def capacity_ok_def)

subsection \<open>What is rendered arrives\<close>

text \<open>The text format: one line per series, quotes, backslashes and line feeds of label values escaped.\<close>

fun escape_value :: "string \<Rightarrow> string" where
  "escape_value [] = []"
| "escape_value (c # s) =
     (if c = CHR 0x22 \<or> c = CHR 0x5C then CHR 0x5C # c # escape_value s
      else if c = CHR 0x0A then CHR 0x5C # CHR ''n'' # escape_value s
      else c # escape_value s)"

definition render_label :: "string \<times> string \<Rightarrow> string" where
  "render_label l = fst l @ [CHR ''='', CHR 0x22] @ escape_value (snd l) @ [CHR 0x22]"

definition render_key :: "metric_key \<Rightarrow> string" where
  "render_key k = mk_metric k @
     (if mk_labels k = [] then [] else CHR 0x7B # join_with '','' (map render_label (mk_labels k)) @ [CHR 0x7D])"

definition render_series :: "(f64 \<Rightarrow> string) \<Rightarrow> string \<Rightarrow> metric_key \<times> f64 \<Rightarrow> string list" where
  "render_series show_value kind kv =
     [''# TYPE '' @ mk_metric (fst kv) @ '' '' @ kind, render_key (fst kv) @ '' '' @ show_value (snd kv)]"

definition exposition_lines :: "(f64 \<Rightarrow> string) \<Rightarrow> parsed_snapshot \<Rightarrow> string list" where
  "exposition_lines show_value p =
     concat (map (render_series show_value ''counter'') (ps_counters p)) @
     concat (map (render_series show_value ''gauge'') (ps_gauges p))"

definition exposition_text :: "(f64 \<Rightarrow> string) \<Rightarrow> parsed_snapshot \<Rightarrow> string" where
  "exposition_text show_value p = concat (map (\<lambda>l. l @ [CHR 0x0A]) (exposition_lines show_value p))"

definition graphic :: "char \<Rightarrow> bool" where
  "graphic c \<longleftrightarrow> 33 \<le> byte_of c \<and> byte_of c < 127"

lemma name_char_graphic: "name_char c \<Longrightarrow> graphic c" "name_start c \<Longrightarrow> name_char c"
  by (auto simp: name_char_def name_start_def graphic_def ascii_defs)

lemma graphic_no_space: "graphic c \<Longrightarrow> List.find (\<lambda>w. prefix w (c # s)) white_space = None"
proof -
  have "\<forall>w \<in> set white_space. \<not> graphic (hd w)"
    by (simp add: white_space_def graphic_def byte_of_def)
  moreover have "hd w = c" if "prefix w (c # s)" "w \<in> set white_space" for w
    using that white_space_nonempty [of w] by (cases w) auto
  moreover assume "graphic c"
  ultimately show ?thesis unfolding find_None_iff by blast
qed

lemma trim_start_graphic [simp]: "graphic c \<Longrightarrow> trim_start (c # s) = c # s"
  by (simp add: trim_start.simps [of "c # s"] graphic_no_space)

lemma split_white_graphic: "list_all graphic s \<Longrightarrow> split_white (s @ CHR '' '' # t) = Some (s, t)"
proof (induction s)
  case Nil
  have "List.find (\<lambda>w. prefix w (CHR '' '' # t)) white_space = Some '' ''"
    by (simp add: white_space_def char_of_eq_iff)
  then show ?case by simp
qed (simp add: graphic_no_space)

lemma split_white_None: "list_all graphic s \<Longrightarrow> split_white s = None"
  by (induction s) (simp_all add: graphic_no_space)

lemma label_value_escape: "label_value (escape_value v @ CHR 0x22 # t) = Some (v, t)"
  by (induction v) auto

lemma valid_label_name_chars: "valid_label_name n \<Longrightarrow> list_all name_char n"
  by (cases n) (simp_all add: name_char_graphic)

lemma label_pair_render: "valid_label_name (fst l) \<Longrightarrow> label_pair (render_label l @ t) = Some (l, t)"
proof -
  assume n: "valid_label_name (fst l)"
  note c = valid_label_name_chars [OF n]
  have e: "\<not> name_char (CHR ''='')" "graphic (CHR ''='')" "graphic (CHR 0x22)"
    by (simp_all add: name_char_def ascii_defs graphic_def)
  have "takeWhile name_char (fst l @ CHR ''='' # u) = fst l" "dropWhile name_char (fst l @ CHR ''='' # u) = CHR ''='' # u" for u
    using c e(1) by (simp_all add: takeWhile_append2 dropWhile_append2 list_all_iff)
  then show ?thesis
    using n e by (simp add: label_pair_def render_label_def label_value_escape)
qed

lemma render_label_start: "valid_label_name (fst l) \<Longrightarrow> \<exists>c u. render_label l @ t = c # u \<and> graphic c"
  by (cases "fst l") (auto simp: render_label_def name_char_graphic)

lemma parse_labels_from_render:
  assumes "list_all (\<lambda>l. valid_label_name (fst l)) ls" "distinct (map fst ls)" "\<forall>l \<in> set ls. map_of m (fst l) = None" "bt_wf m" "ls \<noteq> []"
  shows "parse_labels_from (join_with '','' (map render_label ls)) m = Some (foldl (\<lambda>m e. bt_insert (fst e) (snd e) m) m ls)"
  using assms
proof (induction ls arbitrary: m)
  case (Cons l ls)
  let ?m = "bt_insert (fst l) (snd l) m"
  have comma: "graphic (CHR '','')" by (simp add: graphic_def byte_of_def)
  have n: "valid_label_name (fst l)" "map_of m (fst l) = None" using Cons.prems by simp_all
  have step: "parse_labels_from (render_label l @ t) m =
      (case trim_start t of [] \<Rightarrow> Some ?m | c # u \<Rightarrow> if c = CHR '','' then parse_labels_from u ?m else None)" for t
  proof -
    obtain c u where c: "render_label l @ t = c # u" "graphic c" using render_label_start [OF n(1)] by blast
    then have "trim_start (render_label l @ t) = render_label l @ t" by (simp only: trim_start_graphic)
    moreover obtain name v where "l = (name, v)" by (cases l)
    ultimately show ?thesis
      using c n label_pair_render [OF n(1), of t] unfolding parse_labels_from.simps [of "render_label l @ t"] by (simp split: list.split)
  qed
  show ?case
  proof (cases ls)
    case Nil
    then show ?thesis using step [of "[]"] by (simp add: trim_start.simps [of "[]"] white_space_def)
  next
    case (Cons l' ls')
    have "map_of ?m (fst x) = None" if "x \<in> set ls" for x
    proof -
      have "fst x \<in> fst ` set ls" using that by simp
      moreover have "fst l \<notin> fst ` set ls" using Cons.prems(2) by simp
      ultimately have "fst x \<noteq> fst l" by metis
      with that Cons.prems(3,4) show ?thesis by (simp add: bt_insert_lookup)
    qed
    moreover have "bt_wf ?m" using Cons.prems(4) by (rule bt_insert_wf)
    ultimately have "parse_labels_from (join_with '','' (map render_label ls)) ?m = Some (foldl (\<lambda>m e. bt_insert (fst e) (snd e) m) ?m ls)"
      using Cons.prems Cons by (intro Cons.IH) simp_all
    then show ?thesis using step [of "'','' @ join_with '','' (map render_label ls)"] comma Cons by simp
  qed
qed simp

lemma parse_labels_render:
  assumes "list_all (\<lambda>l. valid_label_name (fst l)) ls" "bt_wf ls" "ls \<noteq> []"
  shows "parse_labels (join_with '','' (map render_label ls)) = Some ls"
proof -
  have "distinct (map fst ls)" using assms(2) strict_sorted_iff [of "map fst ls"] by (simp add: bt_wf_def)
  then show ?thesis
    using parse_labels_from_render [OF assms(1), of "[]"] assms(2,3) bt_of_list_sorted [OF assms(2)]
    by (simp add: parse_labels_def bt_of_list_def) (simp add: bt_wf_def)
qed

definition key_ok :: "metric_key \<Rightarrow> bool" where
  "key_ok k \<longleftrightarrow> valid_metric_name (mk_metric k) \<and> bt_wf (mk_labels k) \<and> list_all (\<lambda>l. valid_label_name (fst l)) (mk_labels k)"

lemma valid_metric_name_chars: "valid_metric_name n \<Longrightarrow> list_all (\<lambda>c. graphic c \<and> c \<noteq> CHR 0x7B \<and> c \<noteq> CHR 0x7D \<and> c \<noteq> CHR 0x0A) n \<and> n \<noteq> [] \<and> hd n \<noteq> CHR ''#''"
proof -
  have c: "graphic c \<and> c \<noteq> CHR 0x7B \<and> c \<noteq> CHR 0x7D \<and> c \<noteq> CHR 0x0A" if "name_char c \<or> c = CHR '':''" for c
    using that by (auto simp: name_char_def ascii_defs graphic_def)
  have s: "c \<noteq> CHR ''#'' \<and> name_char c \<or> c = CHR '':''" if "name_start c \<or> c = CHR '':''" for c
    using that name_char_graphic(2) [of c] by (auto simp: name_start_def ascii_defs)
  assume "valid_metric_name n"
  then show ?thesis using c s by (cases n) (auto simp: list_all_iff)
qed

lemma position_append: "list_all (\<lambda>c. \<not> P c) s \<Longrightarrow> P c \<Longrightarrow> position P (s @ c # t) = Some (length s)"
  by (induction s) auto

lemma parse_metric_key_render: "key_ok k \<Longrightarrow> parse_metric_key (render_key k) = Some k"
proof -
  assume k: "key_ok k"
  note m = valid_metric_name_chars [of "mk_metric k"]
  show ?thesis
  proof (cases "mk_labels k = []")
    case True
    have "position (\<lambda>c. c = CHR 0x7B) (mk_metric k) = None" using k m by (auto simp: key_ok_def list_all_iff)
    with True k show ?thesis by (cases k) (simp add: parse_metric_key_def render_key_def key_ok_def del: position_None)
  next
    case False
    let ?ls = "join_with '','' (map render_label (mk_labels k))"
    have "position (\<lambda>c. c = CHR 0x7B) (mk_metric k @ CHR 0x7B # ?ls @ [CHR 0x7D]) = Some (length (mk_metric k))"
      using k m by (intro position_append) (auto simp: key_ok_def list_all_iff)
    with False k show ?thesis
      by (cases k) (simp add: parse_metric_key_def render_key_def key_ok_def parse_labels_render)
  qed
qed

text \<open>The text of a value, as it may stand at the end of a line.\<close>

definition value_text_ok :: "string \<Rightarrow> f64 \<Rightarrow> bool" where
  "value_text_ok s v \<longleftrightarrow> s \<noteq> [] \<and> list_all (\<lambda>c. graphic c \<and> c \<noteq> CHR 0x7D) s \<and> parse_f64 s = Some v \<and> f64_is_finite v"

lemma rposition_in_append: "list_all (\<lambda>c. \<not> P c) t \<Longrightarrow> P c \<Longrightarrow> rposition P (s @ c # t) = Some (length s)"
proof (induction s)
  case Nil
  then have "rposition P t = None" by (auto simp: list_all_iff)
  with Nil show ?case by (simp del: rposition_None)
qed simp

lemma render_key_shape:
  assumes "key_ok k" "list_all (\<lambda>c. graphic c \<and> c \<noteq> CHR 0x7D) v"
  shows "sample_split (render_key k @ '' '' @ v) = Some (render_key k, v)"
proof -
  note m = valid_metric_name_chars [of "mk_metric k"]
  have g: "list_all graphic (mk_metric k)" "list_all (\<lambda>c. c \<noteq> CHR 0x7D) (mk_metric k)"
    using assms(1) m by (auto simp: key_ok_def list_all_iff)
  show ?thesis
  proof (cases "mk_labels k = []")
    case True
    have "rposition (\<lambda>c. c = CHR 0x7D) (mk_metric k @ '' '' @ v) = None"
      using g(2) assms(2) by (auto simp: list_all_iff)
    with True split_white_graphic [OF g(1), of v] show ?thesis
      by (simp add: sample_split_def render_key_def del: rposition_None)
  next
    case False
    let ?front = "mk_metric k @ CHR 0x7B # join_with '','' (map render_label (mk_labels k))"
    have "list_all (\<lambda>c. c \<noteq> CHR 0x7D) (CHR '' '' # v)" using assms(2) by (auto simp: list_all_iff)
    then have "rposition (\<lambda>c. c = CHR 0x7D) (?front @ CHR 0x7D # CHR '' '' # v) = Some (length ?front)"
      by (intro rposition_in_append) simp_all
    moreover have "split_white (CHR '' '' # v) = Some ([], v)" using split_white_graphic [of "[]" v] by simp
    ultimately show ?thesis using False by (simp add: sample_split_def render_key_def)
  qed
qed

lemma parse_sample_render:
  assumes "key_ok k" "value_text_ok s v"
  shows "parse_sample (render_key k @ '' '' @ s) = Some (k, v)"
proof -
  have v: "list_all graphic s" "list_all (\<lambda>c. graphic c \<and> c \<noteq> CHR 0x7D) s" "s \<noteq> []"
    using assms(2) by (auto simp: value_text_ok_def list_all_iff)
  then have "trim_start s = s" by (cases s) simp_all
  with v assms render_key_shape [OF assms(1) v(2)] show ?thesis
    by (simp add: parse_sample_def value_text_ok_def split_white_None parse_metric_key_render)
qed

definition with_series :: "prometheus_type \<Rightarrow> metric_key \<times> f64 \<Rightarrow> exposition_state \<Rightarrow> exposition_state" where
  "with_series kind kv x = (let p = ex_parsed x in
     x\<lparr>ex_types := bt_insert (mk_metric (fst kv)) kind (ex_types x), ex_series := ex_series x + 1,
       ex_parsed := (if kind = Gauge_type then p\<lparr>ps_gauges := bt_insert (fst kv) (snd kv) (ps_gauges p)\<rparr>
         else p\<lparr>ps_counters := bt_insert (fst kv) (snd kv) (ps_counters p)\<rparr>)\<rparr>)"

definition lines_short :: "string list \<Rightarrow> bool" where
  "lines_short ls \<longleftrightarrow> list_all (\<lambda>l. length l \<le> MAX_EXPOSITION_LINE_BYTES) ls"

definition types_inv :: "exposition_state \<Rightarrow> bool" where
  "types_inv x \<longleftrightarrow> bt_wf (ex_types x) \<and> length (ex_types x) \<le> ex_series x"

lemma white_fields_two: "list_all graphic a \<Longrightarrow> list_all graphic b \<Longrightarrow> a \<noteq> [] \<Longrightarrow> b \<noteq> [] \<Longrightarrow> white_fields (a @ CHR '' '' # b) = [a, b]"
proof -
  assume ab: "list_all graphic a" "list_all graphic b" "a \<noteq> []" "b \<noteq> []"
  have t: "trim_start (a @ CHR '' '' # b) = a @ CHR '' '' # b" "trim_start b = b" using ab by (cases a; cases b; simp)+
  have "white_fields b = [b]" using ab(4) t(2) split_white_None [OF ab(2)] by (simp add: white_fields.simps [of b])
  then show ?thesis using ab(3) t(1) split_white_graphic [OF ab(1), of b] by (simp add: white_fields.simps [of "a @ CHR '' '' # b"])
qed

lemma render_series_step:
  assumes "key_ok (fst kv)" "value_text_ok (show_value (snd kv)) (snd kv)" "lines_short (render_series show_value kind kv)"
    and "(kind = ''counter'' \<and> k = Counter_type) \<or> (kind = ''gauge'' \<and> k = Gauge_type)"
    and "types_inv x" "ex_series x < MAX_EXPOSITION_SERIES"
  shows "fold exposition_line (render_series show_value kind kv) x = with_series k kv x"
proof -
  let ?m = "mk_metric (fst kv)"
  note m = valid_metric_name_chars [of ?m]
  have name: "valid_metric_name ?m" using assms(1) by (simp add: key_ok_def)
  then have g: "list_all graphic ?m" "?m \<noteq> []" "hd ?m \<noteq> CHR ''#''" using m by (auto simp: list_all_iff)
  have kd: "list_all graphic kind" "kind \<noteq> []" "kind_of_type kind = Some k"
    using assms(4) by (auto simp: graphic_def byte_of_def kind_of_type_def)
  have "white_fields (?m @ '' '' @ kind) = [?m, kind]" using white_fields_two [OF g(1) kd(1) g(2) kd(2)] by simp
  moreover have "length (ex_types x) < MAX_EXPOSITION_SERIES" using assms(5,6) by (simp add: types_inv_def)
  ultimately have t: "type_line (?m @ '' '' @ kind) x = x\<lparr>ex_types := bt_insert ?m k (ex_types x)\<rparr>"
    using name kd(3) by (simp add: type_line_def)
  have t': "exposition_line (''# TYPE '' @ ?m @ '' '' @ kind) x = x\<lparr>ex_types := bt_insert ?m k (ex_types x)\<rparr>"
    using t assms(3) by (simp add: exposition_line_def lines_short_def render_series_def str_strip_prefix_def)
  let ?x = "x\<lparr>ex_types := bt_insert ?m k (ex_types x)\<rparr>"
  let ?l = "render_key (fst kv) @ '' '' @ show_value (snd kv)"
  obtain c u where l: "?l = c # u" "c \<noteq> CHR ''#''" using g by (cases ?m) (auto simp: render_key_def)
  then have "str_strip_prefix ''# TYPE '' ?l = None" by (simp add: str_strip_prefix_def)
  with l assms(3) have "exposition_line ?l ?x = sample_line ?l ?x"
    by (simp add: exposition_line_def lines_short_def render_series_def)
  also have "\<dots> = with_series k kv x"
  proof -
    have "map_of (bt_insert ?m k (ex_types x)) ?m = Some k" using assms(5) by (simp add: types_inv_def bt_insert_lookup)
    then have "is_counter_like ?m (bt_insert ?m k (ex_types x)) = (k \<noteq> Gauge_type)" using assms(4) by (auto simp: is_counter_like_def)
    moreover have "parse_sample ?l = Some kv" using parse_sample_render [OF assms(1,2)] by simp
    ultimately show ?thesis using assms(6) by (cases kv) (simp add: sample_line_def with_series_def Let_def)
  qed
  finally show ?thesis using t' by (simp add: render_series_def)
qed

lemma with_series_inv: "types_inv x \<Longrightarrow> types_inv (with_series k kv x)"
  using bt_insert_length [of "mk_metric (fst kv)" k "ex_types x"]
  by (simp add: types_inv_def with_series_def Let_def bt_insert_wf)

lemma render_rows:
  assumes "list_all (\<lambda>kv. key_ok (fst kv) \<and> value_text_ok (show_value (snd kv)) (snd kv)) m"
    and "lines_short (concat (map (render_series show_value kind) m))"
    and "(kind = ''counter'' \<and> k = Counter_type) \<or> (kind = ''gauge'' \<and> k = Gauge_type)"
    and "types_inv x" "ex_series x + length m \<le> MAX_EXPOSITION_SERIES"
  shows "fold exposition_line (concat (map (render_series show_value kind) m)) x = fold (with_series k) m x \<and>
    types_inv (fold (with_series k) m x) \<and> ex_series (fold (with_series k) m x) = ex_series x + length m"
  using assms
proof (induction m arbitrary: x)
  case (Cons kv m)
  have "fold exposition_line (render_series show_value kind kv) x = with_series k kv x"
    using Cons.prems by (intro render_series_step) (simp_all add: lines_short_def)
  moreover have "ex_series (with_series k kv x) = Suc (ex_series x)" by (simp add: with_series_def Let_def)
  ultimately show ?case
    using Cons.IH [of "with_series k kv x"] Cons.prems with_series_inv by (simp add: lines_short_def)
qed simp

lemma with_series_parsed:
  "ex_parsed (fold (with_series Counter_type) m x) =
     (ex_parsed x)\<lparr>ps_counters := foldl (\<lambda>m e. bt_insert (fst e) (snd e) m) (ps_counters (ex_parsed x)) m\<rparr>"
  "ex_parsed (fold (with_series Gauge_type) m x) =
     (ex_parsed x)\<lparr>ps_gauges := foldl (\<lambda>m e. bt_insert (fst e) (snd e) m) (ps_gauges (ex_parsed x)) m\<rparr>"
proof -
  show "ex_parsed (fold (with_series Counter_type) m x) =
      (ex_parsed x)\<lparr>ps_counters := foldl (\<lambda>m e. bt_insert (fst e) (snd e) m) (ps_counters (ex_parsed x)) m\<rparr>"
    by (induction m arbitrary: x) (simp_all add: with_series_def Let_def)
  show "ex_parsed (fold (with_series Gauge_type) m x) =
      (ex_parsed x)\<lparr>ps_gauges := foldl (\<lambda>m e. bt_insert (fst e) (snd e) m) (ps_gauges (ex_parsed x)) m\<rparr>"
    by (induction m arbitrary: x) (simp_all add: with_series_def Let_def)
qed

lemma escape_value_lines: "CHR 0x0A \<notin> set (escape_value s)"
  by (induction s) auto

lemma render_key_lines: "key_ok k \<Longrightarrow> CHR 0x0A \<notin> set (render_key k)"
proof -
  assume k: "key_ok k"
  have lab: "CHR 0x0A \<notin> set (render_label l)" if "valid_label_name (fst l)" for l
    using valid_label_name_chars [OF that] escape_value_lines [of "snd l"]
    by (auto simp: render_label_def list_all_iff name_char_def ascii_defs)
  have "CHR 0x0A \<notin> set (join_with '','' ls)" if "\<forall>l \<in> set ls. CHR 0x0A \<notin> set l" for ls
    using that by (induction "'',''" ls rule: join_with.induct) auto
  then show ?thesis
    using k lab valid_metric_name_chars [of "mk_metric k"] by (auto simp: render_key_def key_ok_def list_all_iff)
qed

lemma split_on_lines:
  "\<forall>l \<in> set ls. CHR 0x0A \<notin> set l \<Longrightarrow> split_on (CHR 0x0A) (concat (map (\<lambda>l. l @ [CHR 0x0A]) ls)) = ls @ [[]]"
  by (induction ls) (simp_all add: split_on_append)

lemma str_lines_of_lines:
  assumes "\<forall>l \<in> set ls. CHR 0x0A \<notin> set l \<and> l \<noteq> [] \<and> last l \<noteq> CHR 0x0D"
  shows "str_lines (concat (map (\<lambda>l. l @ [CHR 0x0A]) ls)) = ls"
proof -
  have "line_text l = l" if "l \<noteq> []" "last l \<noteq> CHR 0x0D" for l
    using that by (cases l rule: rev_cases) (auto simp: line_text_def split: option.split)
  then show ?thesis using assms by (simp add: str_lines_def split_on_lines map_idI)
qed

lemma render_series_lines:
  assumes "key_ok (fst kv)" "value_text_ok (show_value (snd kv)) (snd kv)" "kind \<in> {''counter'', ''gauge''}"
    and "l \<in> set (render_series show_value kind kv)"
  shows "CHR 0x0A \<notin> set l \<and> l \<noteq> [] \<and> last l \<noteq> CHR 0x0D"
proof -
  have g: "\<not> graphic (CHR 0x0A)" "\<not> graphic (CHR 0x0D)" by (simp_all add: graphic_def byte_of_def)
  have "list_all graphic (mk_metric (fst kv))" using assms(1) valid_metric_name_chars by (auto simp: key_ok_def list_all_iff)
  moreover have v: "list_all graphic (show_value (snd kv))" "show_value (snd kv) \<noteq> []"
    using assms(2) by (auto simp: value_text_ok_def list_all_iff)
  have "last (show_value (snd kv)) \<in> set (show_value (snd kv))" using v(2) by (rule last_in_set)
  then have "last (show_value (snd kv)) \<noteq> CHR 0x0D" using v(1) g(2) by (auto simp: list_all_iff)
  ultimately show ?thesis
    using assms(3,4) g v render_key_lines [OF assms(1)] by (auto simp: render_series_def list_all_iff)
qed

lemma parse_rendered:
  assumes "snapshot_ok p" and "ps_skipped_lines p = 0"
    and "list_all (\<lambda>kv. key_ok (fst kv) \<and> value_text_ok (show_value (snd kv)) (snd kv)) (ps_counters p @ ps_gauges p)"
    and "length (ps_counters p) + length (ps_gauges p) \<le> MAX_EXPOSITION_SERIES"
    and "lines_short (exposition_lines show_value p)"
  shows "parse_exposition (exposition_text show_value p) = p"
proof -
  let ?x = "\<lparr>ex_parsed = empty_snapshot, ex_types = [], ex_series = 0\<rparr>"
  let ?cs = "concat (map (render_series show_value ''counter'') (ps_counters p))"
  let ?gs = "concat (map (render_series show_value ''gauge'') (ps_gauges p))"
  have "\<forall>l \<in> set (exposition_lines show_value p). CHR 0x0A \<notin> set l \<and> l \<noteq> [] \<and> last l \<noteq> CHR 0x0D"
  proof
    fix l assume "l \<in> set (exposition_lines show_value p)"
    then obtain kind kv where "kind \<in> {''counter'', ''gauge''}" "kv \<in> set (ps_counters p @ ps_gauges p)" "l \<in> set (render_series show_value kind kv)"
      by (auto simp: exposition_lines_def)
    with assms(3) show "CHR 0x0A \<notin> set l \<and> l \<noteq> [] \<and> last l \<noteq> CHR 0x0D"
      by (intro render_series_lines) (auto simp: list_all_iff)
  qed
  then have "str_lines (exposition_text show_value p) = exposition_lines show_value p"
    unfolding exposition_text_def by (rule str_lines_of_lines)
  then have ls: "str_lines (exposition_text show_value p) = ?cs @ ?gs" by (simp only: exposition_lines_def)
  have short: "lines_short ?cs" "lines_short ?gs" using assms(5) by (simp_all add: lines_short_def exposition_lines_def)
  have rows: "list_all (\<lambda>kv. key_ok (fst kv) \<and> value_text_ok (show_value (snd kv)) (snd kv)) (ps_counters p)"
    "list_all (\<lambda>kv. key_ok (fst kv) \<and> value_text_ok (show_value (snd kv)) (snd kv)) (ps_gauges p)" using assms(3) by simp_all
  have "types_inv ?x" by (simp add: types_inv_def bt_wf_def)
  with render_rows [OF rows(1) short(1), of Counter_type ?x] assms(4) have c:
    "fold exposition_line ?cs ?x = fold (with_series Counter_type) (ps_counters p) ?x"
    "types_inv (fold (with_series Counter_type) (ps_counters p) ?x)"
    "ex_series (fold (with_series Counter_type) (ps_counters p) ?x) = length (ps_counters p)" by simp_all
  with render_rows [OF rows(2) short(2), of Gauge_type "fold (with_series Counter_type) (ps_counters p) ?x"] assms(4)
  have "fold exposition_line (?cs @ ?gs) ?x = fold (with_series Gauge_type) (ps_gauges p) (fold (with_series Counter_type) (ps_counters p) ?x)"
    by simp
  then have "parse_exposition (exposition_text show_value p) =
      empty_snapshot\<lparr>ps_counters := bt_of_list (ps_counters p), ps_gauges := bt_of_list (ps_gauges p)\<rparr>"
    unfolding parse_exposition_def ls by (simp add: with_series_parsed empty_snapshot_def bt_of_list_def)
  moreover have "bt_of_list (ps_counters p) = ps_counters p" "bt_of_list (ps_gauges p) = ps_gauges p"
    using assms(1) by (simp_all add: snapshot_ok_def metrics_ok_def bt_of_list_sorted)
  ultimately show ?thesis using assms(2) by (simp add: empty_snapshot_def)
qed


definition demo_snapshot :: parsed_snapshot where
  "demo_snapshot = \<lparr>ps_counters = [(Metric_key ''requests_total'' [(''model'', CHR 0x22 # ''}'')], 0x3FF0000000000000)],
     ps_gauges = [(Metric_key ''queue'' [], 0x3FF0000000000000)], ps_skipped_lines = 0\<rparr>"


end
