(* ===== verification/History_Index.thy ===== *)
theory History_Index
  imports History_Store History_Exposition
begin

section \<open>The history index (src/history.rs)\<close>

text \<open>
  What the dashboard queries: the points in memory, made from the records of the store at the start
  and from the samples after it, with counters turned into increments; and the rollup of a window
  of time into totals and buckets. The sample clock, the rendered metrics and the retention in days
  are arguments. The reader of the older \<open>history.jsonl\<close> is reached from tests only.
\<close>

definition SAMPLE_SECS :: nat where "SAMPLE_SECS = 300"
definition COMPACT_AFTER_EXPIRED_SAMPLES :: nat where "COMPACT_AFTER_EXPIRED_SAMPLES = 288"

subsection \<open>Counters to increments\<close>

text \<open>\<open>f64::EPSILON\<close> with a minus sign: two to the minus 52.\<close>

definition minus_epsilon :: f64 where
  "minus_epsilon = 0xBCB0000000000000"

record normalized_metrics =
  nm_deltas :: metric_map
  nm_gauges :: metric_map
  nm_inferred_reset :: bool

definition counter_drops :: "parsed_snapshot \<Rightarrow> metric_key \<times> f64 \<Rightarrow> bool" where
  "counter_drops previous kv =
     (case map_of (ps_counters previous) (fst kv) of
        None \<Rightarrow> False
      | Some before \<Rightarrow> f64_less (f64_sub (snd kv) before) minus_epsilon)"

definition counter_delta :: "bool \<Rightarrow> parsed_snapshot option \<Rightarrow> metric_key \<times> f64 \<Rightarrow> f64" where
  "counter_delta reset_epoch previous kv =
     (if reset_epoch then snd kv
      else case Option.bind previous (\<lambda>p. map_of (ps_counters p) (fst kv)) of
        None \<Rightarrow> snd kv
      | Some before \<Rightarrow>
          let delta = f64_sub (snd kv) before
          in if f64_less_eq minus_epsilon delta \<and> f64_less delta 0 then 0 else delta)"

definition normalize :: "parsed_snapshot option \<Rightarrow> parsed_snapshot \<Rightarrow> bool \<Rightarrow> normalized_metrics" where
  "normalize previous current reset =
     (let inferred = \<not> reset \<and> (case previous of None \<Rightarrow> False | Some p \<Rightarrow> list_ex (counter_drops p) (ps_counters current))
      in \<lparr>nm_deltas = map (\<lambda>kv. (fst kv, counter_delta (reset \<or> inferred) previous kv)) (ps_counters current),
          nm_gauges = ps_gauges current, nm_inferred_reset = inferred\<rparr>)"

subsection \<open>Points\<close>

record capacity_snapshot =
  cs_enabled_lanes :: nat
  cs_rpms :: "nat list"
  cs_capacity_rpm :: nat

definition canonical_capacity :: "capacity_snapshot \<Rightarrow> capacity" where
  "canonical_capacity c = \<lparr>cp_capacity_rpm = cs_capacity_rpm c, cp_enabled_keys = cs_enabled_lanes c, cp_key_rpms = cs_rpms c\<rparr>"

definition capacity_snapshot_of :: "capacity \<Rightarrow> capacity_snapshot" where
  "capacity_snapshot_of c = \<lparr>cs_enabled_lanes = cp_enabled_keys c, cs_rpms = cp_key_rpms c, cs_capacity_rpm = cp_capacity_rpm c\<rparr>"

record indexed_point =
  ip_t :: nat
  ip_deltas :: metric_map
  ip_gauges :: metric_map
  ip_capacity :: "capacity_snapshot option"

record history_inner =
  hi_points :: "indexed_point list"
  hi_revision :: "64 word"
  hi_available_from :: "nat option"
  hi_available_to :: "nat option"
  hi_diagnostics :: history_diagnostics
  hi_last_parsed :: "parsed_snapshot option"
  hi_last_sample_boot :: "string option"
  hi_recovery_gaps :: "recovery_gap list"
  hi_recovery_events :: "diagnostic_event list"
  hi_recovery_events_complete :: bool

definition empty_inner :: history_inner where
  "empty_inner = \<lparr>hi_points = [], hi_revision = 0, hi_available_from = None, hi_available_to = None,
     hi_diagnostics = no_diagnostics, hi_last_parsed = None, hi_last_sample_boot = None, hi_recovery_gaps = [],
     hi_recovery_events = [], hi_recovery_events_complete = False\<rparr>"

definition head_option :: "'a list \<Rightarrow> 'a option" where
  "head_option xs = (case xs of [] \<Rightarrow> None | x # _ \<Rightarrow> Some x)"

definition last_option :: "'a list \<Rightarrow> 'a option" where
  "last_option xs = head_option (rev xs)"

definition set_available :: "history_inner \<Rightarrow> history_inner" where
  "set_available inner = inner\<lparr>hi_available_from := map_option ip_t (head_option (hi_points inner)),
     hi_available_to := map_option ip_t (last_option (hi_points inner))\<rparr>"

definition retain_from :: "nat \<Rightarrow> history_inner \<Rightarrow> history_inner" where
  "retain_from cutoff inner = inner\<lparr>hi_points := filter (\<lambda>p. cutoff \<le> ip_t p) (hi_points inner)\<rparr>"

definition foreign_boot :: "string \<Rightarrow> history_inner \<Rightarrow> bool" where
  "foreign_boot boot_id inner \<longleftrightarrow> hi_last_parsed inner \<noteq> None \<and> hi_last_sample_boot inner \<noteq> Some boot_id"

subsection \<open>Replaying records\<close>

definition ingest_canonical_sample ::
  "nat \<Rightarrow> string \<Rightarrow> capacity \<Rightarrow> parsed_snapshot \<Rightarrow> nat option \<Rightarrow> history_inner \<Rightarrow> history_inner" where
  "ingest_canonical_sample timestamp boot_id cap current cutoff inner =
     (let n = normalize (hi_last_parsed inner) current (foreign_boot boot_id inner); d = hi_diagnostics inner in
      inner\<lparr>
        hi_diagnostics := d\<lparr>hd_valid_samples := hd_valid_samples d + 1,
          hd_inferred_resets := hd_inferred_resets d + (if nm_inferred_reset n then 1 else 0),
          hd_normalized_series := hd_normalized_series d + (length (nm_deltas n) + length (nm_gauges n))\<rparr>,
        hi_points := (if case cutoff of None \<Rightarrow> True | Some c \<Rightarrow> c \<le> timestamp
          then hi_points inner @ [\<lparr>ip_t = timestamp, ip_deltas = nm_deltas n, ip_gauges = nm_gauges n,
            ip_capacity = Some (capacity_snapshot_of cap)\<rparr>]
          else hi_points inner),
        hi_revision := hi_revision inner + 1,
        hi_last_parsed := Some current,
        hi_last_sample_boot := Some boot_id\<rparr>)"

record enrich_state =
  en_inner :: history_inner
  en_boot :: "string option"
  en_state :: "state_entry list option"
  en_resets :: "(nat \<times> nat) list"

definition enrich_sample :: "nat option \<Rightarrow> nat \<Rightarrow> string \<Rightarrow> capacity \<Rightarrow> state_entry list \<Rightarrow> enrich_state \<Rightarrow> enrich_state" where
  "enrich_sample cutoff t boot_id cap state x =
     (let inner = ingest_canonical_sample t boot_id cap (parsed_canonical_state state) cutoff (en_inner x);
          count = hd_inferred_resets (hi_diagnostics inner) - hd_inferred_resets (hi_diagnostics (en_inner x))
      in x\<lparr>en_inner := inner,
           en_resets := (if 0 < count
             then bt_insert t ((case map_of (en_resets x) t of None \<Rightarrow> 0 | Some n \<Rightarrow> n) + count) (en_resets x)
             else en_resets x)\<rparr>)"

definition enrich_record :: "nat option \<Rightarrow> history_record \<Rightarrow> enrich_state \<Rightarrow> enrich_state" where
  "enrich_record cutoff r x =
     (case r of
        Boot b \<Rightarrow> x\<lparr>en_boot := Some (bo_boot_id b), en_state := None\<rparr>
      | Sample s \<Rightarrow>
          (enrich_sample cutoff (sa_timestamp s) (sa_boot_id s) (sa_capacity s) (sa_state s) x)
            \<lparr>en_boot := Some (sa_boot_id s), en_state := Some (sa_state s)\<rparr>
      | Checkpoint c \<Rightarrow>
          if en_boot x = Some (ch_boot_id c) then
            (case en_state x of
               None \<Rightarrow> x
             | Some state \<Rightarrow> enrich_sample cutoff (ch_timestamp c) (ch_boot_id c) (ch_capacity c) state x)
          else x)"

definition push_reset :: "nat \<times> nat \<Rightarrow> replay \<Rightarrow> replay" where
  "push_reset tc rp =
     (let d = no_diagnostics\<lparr>hd_inferred_resets := snd tc\<rparr> in
      rp\<lparr>rp_events := rp_events rp @ [\<lparr>ev_at = fst tc, ev_diagnostics = d\<rparr>],
         rp_diagnostics := (rp_diagnostics rp)\<lparr>hd_inferred_resets := hd_inferred_resets (rp_diagnostics rp) + snd tc\<rparr>\<rparr>)"

definition enrich_canonical_replay ::
  "replay \<Rightarrow> history_inner \<Rightarrow> history_record list \<Rightarrow> nat option \<Rightarrow> replay \<times> history_inner" where
  "enrich_canonical_replay rp inner records cutoff =
     (let x = fold (enrich_record cutoff) records \<lparr>en_inner = inner, en_boot = None, en_state = None, en_resets = []\<rparr>
      in (fold push_reset (en_resets x) rp, set_available (en_inner x)))"

text \<open>The index a start makes of the replay of its store.\<close>

definition open_inner :: "replay \<Rightarrow> nat option \<Rightarrow> history_inner" where
  "open_inner rp cutoff =
     (case enrich_canonical_replay rp empty_inner (rp_records rp) cutoff of (rp, inner) \<Rightarrow>
        inner\<lparr>hi_diagnostics := rp_diagnostics rp, hi_recovery_gaps := rp_gaps rp, hi_recovery_events := rp_events rp,
          hi_recovery_events_complete := True\<rparr>)"

text \<open>After a compaction only the diagnostics are replaced, and only if no sample came in between.\<close>

definition install_canonical_replay_if_unchanged ::
  "replay \<Rightarrow> 64 word \<Rightarrow> nat option \<Rightarrow> history_inner \<Rightarrow> history_inner" where
  "install_canonical_replay_if_unchanged rp expected cutoff inner =
     (if hi_revision inner \<noteq> expected then inner
      else case enrich_canonical_replay rp empty_inner (rp_records rp) cutoff of (rp, _) \<Rightarrow>
        inner\<lparr>hi_diagnostics := rp_diagnostics rp, hi_recovery_gaps := rp_gaps rp, hi_recovery_events := rp_events rp,
          hi_recovery_events_complete := True, hi_revision := hi_revision inner + 1\<rparr>)"

subsection \<open>Appending\<close>

definition retention_cutoff :: "nat \<Rightarrow> nat \<Rightarrow> nat" where
  "retention_cutoff now days = now - sat_mul64 days 86400"

text \<open>The time a sample is given: not before the last point and the last record.\<close>

definition sample_time :: "nat \<Rightarrow> history_inner \<Rightarrow> nat option \<Rightarrow> nat" where
  "sample_time t inner canonical_last = foldl max t (List.map_filter id [hi_available_to inner, canonical_last])"

text \<open>The index after a sample, and the number of points that expired.\<close>

definition append_inner ::
  "string \<Rightarrow> nat \<Rightarrow> nat \<Rightarrow> parsed_snapshot \<Rightarrow> capacity_snapshot \<Rightarrow> history_inner \<Rightarrow> history_inner \<times> nat" where
  "append_inner boot_id days t current cap inner =
     (let n = normalize (hi_last_parsed inner) current (foreign_boot boot_id inner);
          d = no_diagnostics\<lparr>hd_inferred_resets := (if nm_inferred_reset n then 1 else 0),
            hd_normalized_series := length (nm_deltas n) + length (nm_gauges n),
            hd_skipped_metric_lines := ps_skipped_lines current, hd_valid_samples := 1\<rparr>;
          inner1 = inner\<lparr>hi_diagnostics := add_diagnostics d (hi_diagnostics inner),
            hi_recovery_events := (if hi_recovery_events_complete inner
              then hi_recovery_events inner @ [\<lparr>ev_at = t, ev_diagnostics = d\<rparr>] else hi_recovery_events inner)\<rparr>;
          inner2 = (if 0 < days then retain_from (retention_cutoff t days) inner1 else inner1);
          inner3 = inner2\<lparr>hi_points := hi_points inner2 @ [\<lparr>ip_t = t, ip_deltas = nm_deltas n, ip_gauges = nm_gauges n,
            ip_capacity = Some cap\<rparr>], hi_revision := hi_revision inner2 + 1\<rparr>
      in ((set_available inner3)\<lparr>hi_last_parsed := Some current, hi_last_sample_boot := Some boot_id\<rparr>,
          length (hi_points inner1) - length (hi_points inner2)))"

text \<open>Retention shortened by the settings: the index at once, the file later.\<close>

definition prune_inner :: "nat \<Rightarrow> history_inner \<Rightarrow> history_inner \<times> nat" where
  "prune_inner cutoff inner =
     (let inner1 = retain_from cutoff inner; removed = length (hi_points inner) - length (hi_points inner1);
          inner2 = (if 0 < removed then inner1\<lparr>hi_revision := hi_revision inner1 + 1\<rparr> else inner1)
      in (set_available inner2, removed))"

end
