(* ===== verification/History_Rollup.thy ===== *)
theory History_Rollup
  imports History_Index
begin

section \<open>Rollups (src/history.rs)\<close>

text \<open>
  A window of the index summed up: totals, latest gauges, and at most a thousand buckets of equal
  width; what the gaps say about its completeness; and the live values against the last sample.
\<close>

subsection \<open>Metric maps\<close>

record metric_value =
  mv_labels :: metric_labels
  mv_metric :: string
  mv_value :: f64

definition metric_values :: "metric_map \<Rightarrow> metric_value list" where
  "metric_values m = map (\<lambda>(k, v). \<lparr>mv_labels = mk_labels k, mv_metric = mk_metric k, mv_value = v\<rparr>) m"

definition add_metric :: "metric_key \<times> f64 \<Rightarrow> metric_map \<Rightarrow> metric_map" where
  "add_metric kv totals =
     bt_insert (fst kv) (f64_add (case map_of totals (fst kv) of None \<Rightarrow> 0 | Some x \<Rightarrow> x) (snd kv)) totals"

definition add_metrics :: "metric_map \<Rightarrow> metric_map \<Rightarrow> metric_map" where
  "add_metrics totals values = fold add_metric values totals"

definition extend_metrics :: "metric_map \<Rightarrow> metric_map \<Rightarrow> metric_map" where
  "extend_metrics m values = fold (\<lambda>kv m. bt_insert (fst kv) (snd kv) m) values m"

subsection \<open>Buckets\<close>

record capacity_rollup =
  cr_average_rpm :: f64
  cr_latest_rpms :: "nat list"

record rollup_point =
  ro_capacity :: "capacity_rollup option"
  ro_duration_seconds :: nat
  ro_from :: nat
  ro_to :: nat
  ro_values :: "metric_value list"

record bucket_accumulator =
  bk_deltas :: metric_map
  bk_gauges :: metric_map
  bk_from :: "nat option"
  bk_to :: "nat option"
  bk_duration_seconds :: nat
  bk_capacity_weight :: f64
  bk_capacity_duration :: nat
  bk_known_capacity_duration :: nat
  bk_latest_rpms :: "nat list"

definition empty_bucket :: bucket_accumulator where
  "empty_bucket = \<lparr>bk_deltas = [], bk_gauges = [], bk_from = None, bk_to = None, bk_duration_seconds = 0,
     bk_capacity_weight = 0, bk_capacity_duration = 0, bk_known_capacity_duration = 0, bk_latest_rpms = []\<rparr>"

definition finish_bucket :: "bucket_accumulator \<Rightarrow> rollup_point option" where
  "finish_bucket b =
     (case (bk_from b, bk_to b) of
        (Some since, Some until) \<Rightarrow> Some \<lparr>
          ro_capacity = (if 0 < bk_capacity_duration b \<and> bk_known_capacity_duration b = bk_capacity_duration b
            then Some \<lparr>cr_average_rpm = f64_div (bk_capacity_weight b) (f64_of_nat (bk_capacity_duration b)),
              cr_latest_rpms = bk_latest_rpms b\<rparr>
            else None),
          ro_duration_seconds = bk_duration_seconds b, ro_from = since, ro_to = until,
          ro_values = metric_values (extend_metrics (bk_deltas b) (bk_gauges b))\<rparr>
      | _ \<Rightarrow> None)"

definition widen :: "(nat \<Rightarrow> nat \<Rightarrow> nat) \<Rightarrow> nat \<Rightarrow> nat option \<Rightarrow> nat option" where
  "widen f x current = Some (case current of None \<Rightarrow> x | Some c \<Rightarrow> f c x)"

definition add_capacity :: "nat \<Rightarrow> capacity_snapshot option \<Rightarrow> bucket_accumulator \<Rightarrow> bucket_accumulator" where
  "add_capacity duration cap b =
     (case cap of
        None \<Rightarrow> b
      | Some c \<Rightarrow> b\<lparr>
          bk_capacity_weight := f64_add (bk_capacity_weight b) (f64_mul (f64_of_nat (cs_capacity_rpm c)) (f64_of_nat duration)),
          bk_known_capacity_duration := bk_known_capacity_duration b + duration,
          bk_latest_rpms := cs_rpms c\<rparr>)"

definition add_to_bucket :: "nat \<Rightarrow> nat \<Rightarrow> indexed_point \<Rightarrow> bucket_accumulator \<Rightarrow> bucket_accumulator" where
  "add_to_bucket interval_start interval_end p b =
     (let duration = interval_end - interval_start in
      add_capacity duration (ip_capacity p) (b\<lparr>
        bk_deltas := add_metrics (bk_deltas b) (ip_deltas p),
        bk_gauges := extend_metrics (bk_gauges b) (ip_gauges p),
        bk_from := widen min interval_start (bk_from b),
        bk_to := widen max interval_end (bk_to b),
        bk_duration_seconds := bk_duration_seconds b + duration,
        bk_capacity_duration := bk_capacity_duration b + duration\<rparr>))"

subsection \<open>Windows\<close>

record rollup =
  rl_available_from :: "nat option"
  rl_available_to :: "nat option"
  rl_effective_from :: "nat option"
  rl_effective_to :: "nat option"
  rl_totals :: "metric_value list"
  rl_latest :: "metric_value list"
  rl_points :: "rollup_point list"
  rl_diagnostics :: history_diagnostics
  rl_history_revision :: "64 word"

record history_window =
  hw_complete :: bool
  hw_data :: rollup
  hw_diagnostics :: history_diagnostics

definition diagnostics_at :: "history_inner \<Rightarrow> nat \<Rightarrow> history_diagnostics" where
  "diagnostics_at inner until =
     (if \<not> hi_recovery_events_complete inner then hi_diagnostics inner
      else fold (\<lambda>ev acc. add_diagnostics (ev_diagnostics ev) acc)
        (filter (\<lambda>ev. ev_at ev \<le> until) (hi_recovery_events inner)) no_diagnostics)"

text \<open>\<open>partition_point\<close> of a slice on which the predicate holds up to some index, and not after it.\<close>

definition partition_point :: "('a \<Rightarrow> bool) \<Rightarrow> 'a list \<Rightarrow> nat" where
  "partition_point P xs = length (takeWhile P xs)"

record rollup_state =
  ru_totals :: metric_map
  ru_latest :: metric_map
  ru_buckets :: "bucket_accumulator list"

definition bucket_index :: "nat \<Rightarrow> nat \<Rightarrow> nat \<Rightarrow> indexed_point \<Rightarrow> nat" where
  "bucket_index since until budget p = min ((ip_t p - since) * budget div (until - since)) (budget - 1)"

text \<open>The interval a point stands for, which the very first point does not know the start of.\<close>

definition interval_start :: "nat \<Rightarrow> indexed_point list \<Rightarrow> nat \<Rightarrow> nat" where
  "interval_start since points i = (if i = 0 then max (ip_t (points ! i)) since else max (ip_t (points ! (i - 1))) since)"

definition rollup_index :: "nat \<Rightarrow> nat \<Rightarrow> nat \<Rightarrow> indexed_point list \<Rightarrow> nat \<Rightarrow> rollup_state \<Rightarrow> rollup_state" where
  "rollup_index since until budget points i u =
     (let p = points ! i; j = bucket_index since until budget p in
      u\<lparr>ru_totals := add_metrics (ru_totals u) (ip_deltas p),
        ru_latest := extend_metrics (ru_latest u) (ip_gauges p),
        ru_buckets := (ru_buckets u)[j := add_to_bucket (interval_start since points i) (min (ip_t p) until) p (ru_buckets u ! j)]\<rparr>)"

definition window_complete :: "nat \<Rightarrow> nat \<Rightarrow> history_inner \<Rightarrow> bool" where
  "window_complete since until inner \<longleftrightarrow> \<not> (until \<le> since \<or> hi_points inner = [] \<or>
     list_ex (\<lambda>g. gp_from g < until \<and> since < gp_to g) (hi_recovery_gaps inner))"

definition empty_window :: "nat \<Rightarrow> history_inner \<Rightarrow> history_window" where
  "empty_window until inner = \<lparr>hw_complete = False,
     hw_data = \<lparr>rl_available_from = hi_available_from inner, rl_available_to = hi_available_to inner,
       rl_effective_from = None, rl_effective_to = None, rl_totals = [], rl_latest = [], rl_points = [],
       rl_diagnostics = diagnostics_at inner until, rl_history_revision = hi_revision inner\<rparr>,
     hw_diagnostics = diagnostics_at inner until\<rparr>"

definition rollup_window :: "nat \<Rightarrow> nat \<Rightarrow> nat \<Rightarrow> history_inner \<Rightarrow> history_window" where
  "rollup_window since until point_count inner =
     (if until \<le> since then empty_window until inner
      else
        let points = hi_points inner;
            first = partition_point (\<lambda>p. ip_t p \<le> since) points;
            past = partition_point (\<lambda>p. ip_t p \<le> until) points
        in if first = past then empty_window until inner
        else
          let budget = min (max point_count 2) 1000;
              u = fold (rollup_index since until budget points) [first..<past]
                \<lparr>ru_totals = [], ru_latest = [], ru_buckets = replicate budget empty_bucket\<rparr>
          in \<lparr>hw_complete = window_complete since until inner,
               hw_data = \<lparr>rl_available_from = hi_available_from inner, rl_available_to = hi_available_to inner,
                 rl_effective_from = Some (if first = 0 then ip_t (points ! first) else max since (ip_t (points ! (first - 1)))),
                 rl_effective_to = Some (ip_t (points ! (past - 1))),
                 rl_totals = metric_values (ru_totals u), rl_latest = metric_values (ru_latest u),
                 rl_points = List.map_filter finish_bucket (ru_buckets u),
                 rl_diagnostics = diagnostics_at inner until, rl_history_revision = hi_revision inner\<rparr>,
               hw_diagnostics = diagnostics_at inner until\<rparr>)"

subsection \<open>Live values\<close>

record metrics_tail =
  tl_base_history_revision :: "64 word"
  tl_from :: "nat option"
  tl_to :: nat
  tl_totals :: "metric_value list"

record current_metrics =
  cm_available_from :: "nat option"
  cm_available_to :: "nat option"
  cm_metrics :: "metric_value list"
  cm_tail :: metrics_tail

definition current_window :: "string \<Rightarrow> nat \<Rightarrow> string \<Rightarrow> history_inner \<Rightarrow> current_metrics" where
  "current_window boot_id t exposition inner =
     (let current = parse_exposition exposition;
          n = normalize (hi_last_parsed inner) current (foreign_boot boot_id inner)
      in \<lparr>cm_available_from = hi_available_from inner, cm_available_to = hi_available_to inner,
           cm_metrics = metric_values (extend_metrics (ps_counters current) (ps_gauges current)),
           cm_tail = \<lparr>tl_base_history_revision = hi_revision inner, tl_from = hi_available_to inner, tl_to = t,
             tl_totals = metric_values (nm_deltas n)\<rparr>\<rparr>)"

subsection \<open>Points of a window\<close>

definition index_ok :: "history_inner \<Rightarrow> bool" where
  "index_ok inner \<longleftrightarrow> sorted (map ip_t (hi_points inner)) \<and> set_available inner = inner"

definition in_window :: "nat \<Rightarrow> nat \<Rightarrow> indexed_point \<Rightarrow> bool" where
  "in_window since until p \<longleftrightarrow> since < ip_t p \<and> ip_t p \<le> until"

lemma partition_point_sorted:
  "sorted (map ip_t ps) \<Longrightarrow> i < length ps \<Longrightarrow> i < partition_point (\<lambda>p. ip_t p \<le> x) ps \<longleftrightarrow> ip_t (ps ! i) \<le> x"
proof (induction ps arbitrary: i)
  case (Cons p ps)
  then show ?case by (cases i) (auto simp: partition_point_def set_conv_nth)
qed simp

lemma partition_point_length: "partition_point P ps \<le> length ps"
  by (simp add: partition_point_def length_takeWhile_le)

lemma window_indices:
  assumes "sorted (map ip_t ps)"
  shows "i \<in> set [partition_point (\<lambda>p. ip_t p \<le> since) ps..<partition_point (\<lambda>p. ip_t p \<le> until) ps] \<longleftrightarrow>
    i < length ps \<and> in_window since until (ps ! i)"
proof (cases "i < length ps")
  case True
  then show ?thesis
    using partition_point_sorted [OF assms True, of since] partition_point_sorted [OF assms True, of until]
    by (auto simp: in_window_def not_less)
next
  case False
  then show ?thesis using partition_point_length [of "\<lambda>p. ip_t p \<le> until" ps] by auto
qed

lemma filter_indices: "filter P ps = map ((!) ps) (filter (\<lambda>i. P (ps ! i)) [0..<length ps])"
proof (induction ps rule: rev_induct)
  case (snoc p ps)
  have "filter (\<lambda>i. P ((ps @ [p]) ! i)) [0..<length ps] = filter (\<lambda>i. P (ps ! i)) [0..<length ps]"
    by (intro filter_cong) (simp_all add: nth_append)
  moreover have "map ((!) (ps @ [p])) (filter (\<lambda>i. P (ps ! i)) [0..<length ps]) = map ((!) ps) (filter (\<lambda>i. P (ps ! i)) [0..<length ps])"
    by (simp add: nth_append)
  ultimately show ?case using snoc by simp
qed simp

lemma filter_upt: "a \<le> b \<Longrightarrow> b \<le> n \<Longrightarrow> filter (\<lambda>i. i \<in> set [a..<b]) [0..<n] = [a..<b]"
proof -
  assume "a \<le> b" "b \<le> n"
  then have "[0..<n] = [0..<a] @ [a..<b] @ [b..<n]"
    by (metis le_trans upt_add_eq_append le_add_diff_inverse zero_le)
  then show ?thesis by (auto simp: filter_empty_conv intro!: filter_id_conv [THEN iffD2])
qed

lemma window_index_list:
  assumes "sorted (map ip_t ps)" "since \<le> until"
  shows "filter (\<lambda>i. in_window since until (ps ! i)) [0..<length ps] =
    [partition_point (\<lambda>p. ip_t p \<le> since) ps..<partition_point (\<lambda>p. ip_t p \<le> until) ps]"
proof -
  let ?a = "partition_point (\<lambda>p. ip_t p \<le> since) ps" and ?b = "partition_point (\<lambda>p. ip_t p \<le> until) ps"
  have "?a \<le> ?b"
  proof (rule ccontr)
    assume "\<not> ?a \<le> ?b"
    then have b: "?b < length ps" using partition_point_length [of "\<lambda>p. ip_t p \<le> since" ps] by linarith
    from partition_point_sorted [OF assms(1) b, of since] partition_point_sorted [OF assms(1) b, of until] \<open>\<not> ?a \<le> ?b\<close> assms(2)
    show False by simp
  qed
  then have "[?a..<?b] = filter (\<lambda>i. i \<in> set [?a..<?b]) [0..<length ps]"
    by (simp add: filter_upt partition_point_length del: set_upt)
  also have "\<dots> = filter (\<lambda>i. in_window since until (ps ! i)) [0..<length ps]"
    using window_indices [OF assms(1), of _ since until] by (intro filter_cong refl) auto
  finally show ?thesis by simp
qed

lemma window_points:
  assumes "sorted (map ip_t ps)" "since \<le> until"
  shows "map ((!) ps) [partition_point (\<lambda>p. ip_t p \<le> since) ps..<partition_point (\<lambda>p. ip_t p \<le> until) ps] =
    filter (in_window since until) ps"
  by (simp add: filter_indices [of "in_window since until" ps] window_index_list [OF assms])

subsection \<open>A window as its points, grouped\<close>

definition window_budget :: "nat \<Rightarrow> nat" where
  "window_budget point_count = min (max point_count 2) 1000"

text \<open>The points of a window, each with the start of the interval it stands for.\<close>

definition window_intervals :: "nat \<Rightarrow> nat \<Rightarrow> indexed_point list \<Rightarrow> (nat \<times> indexed_point) list" where
  "window_intervals since until points =
     filter (\<lambda>sp. in_window since until (snd sp)) (map (\<lambda>i. (interval_start since points i, points ! i)) [0..<length points])"

definition bucket_of :: "nat \<Rightarrow> nat \<Rightarrow> nat \<Rightarrow> indexed_point list \<Rightarrow> nat \<Rightarrow> bucket_accumulator" where
  "bucket_of since until budget points j =
     fold (\<lambda>(start, p). add_to_bucket start (ip_t p) p)
       (filter (\<lambda>sp. bucket_index since until budget (snd sp) = j) (window_intervals since until points)) empty_bucket"

definition window_totals :: "nat \<Rightarrow> nat \<Rightarrow> indexed_point list \<Rightarrow> metric_map" where
  "window_totals since until points = fold (\<lambda>p totals. add_metrics totals (ip_deltas p)) (filter (in_window since until) points) []"

definition window_latest :: "nat \<Rightarrow> nat \<Rightarrow> indexed_point list \<Rightarrow> metric_map" where
  "window_latest since until points = fold (\<lambda>p latest. extend_metrics latest (ip_gauges p)) (filter (in_window since until) points) []"

lemma fold_grouped:
  "\<forall>x \<in> set xs. f x < length B \<Longrightarrow> j < length B \<Longrightarrow>
   fold (\<lambda>x B. B[f x := g x (B ! f x)]) xs B ! j = fold g (filter (\<lambda>x. f x = j) xs) (B ! j)"
  by (induction xs arbitrary: B) auto

lemma fold_grouped_length: "length (fold (\<lambda>x B. B[f x := g x (B ! f x)]) xs B) = length B"
  by (induction xs arbitrary: B) auto

lemma rollup_fold_fields:
  "ru_totals (fold (rollup_index since until budget points) is u) = fold (\<lambda>i totals. add_metrics totals (ip_deltas (points ! i))) is (ru_totals u)"
  "ru_latest (fold (rollup_index since until budget points) is u) = fold (\<lambda>i latest. extend_metrics latest (ip_gauges (points ! i))) is (ru_latest u)"
  "ru_buckets (fold (rollup_index since until budget points) is u) =
     fold (\<lambda>i B. B[bucket_index since until budget (points ! i) :=
       add_to_bucket (interval_start since points i) (min (ip_t (points ! i)) until) (points ! i) (B ! bucket_index since until budget (points ! i))])
     is (ru_buckets u)"
  by (induction "is" arbitrary: u) (simp_all add: rollup_index_def Let_def)

lemma fold_map_cong:
  "map g xs = ys \<Longrightarrow> fold (\<lambda>x. h (g x)) xs z = fold h ys z"
  by (induction xs arbitrary: ys z) auto

lemma window_intervals_indices:
  assumes "sorted (map ip_t ps)" "since \<le> until"
  shows "window_intervals since until ps = map (\<lambda>i. (interval_start since ps i, ps ! i))
    [partition_point (\<lambda>p. ip_t p \<le> since) ps..<partition_point (\<lambda>p. ip_t p \<le> until) ps]"
proof -
  let ?I = "[partition_point (\<lambda>p. ip_t p \<le> since) ps..<partition_point (\<lambda>p. ip_t p \<le> until) ps]"
  have "filter (\<lambda>i. in_window since until (ps ! i)) [0..<length ps] = ?I"
    by (rule window_index_list [OF assms])
  then show ?thesis by (simp add: window_intervals_def filter_map comp_def)
qed

lemma bucket_index_bounded: "0 < budget \<Longrightarrow> bucket_index since until budget p < budget"
  by (simp add: bucket_index_def min_less_iff_disj)

lemma window_budget_bounds: "2 \<le> window_budget n" "window_budget n \<le> 1000"
  by (simp_all add: window_budget_def)

lemma finish_empty_bucket: "finish_bucket empty_bucket = None"
  by (simp add: finish_bucket_def empty_bucket_def)

lemma rollup_buckets_grouped:
  assumes "sorted (map ip_t ps)" "since < until" "0 < budget"
  shows "ru_buckets (fold (rollup_index since until budget ps)
      [partition_point (\<lambda>p. ip_t p \<le> since) ps..<partition_point (\<lambda>p. ip_t p \<le> until) ps]
      \<lparr>ru_totals = [], ru_latest = [], ru_buckets = replicate budget empty_bucket\<rparr>) =
    map (bucket_of since until budget ps) [0..<budget]" (is "ru_buckets (fold ?step ?I ?u) = _")
proof (rule nth_equalityI)
  let ?f = "\<lambda>i. bucket_index since until budget (ps ! i)"
  let ?g = "\<lambda>i. add_to_bucket (interval_start since ps i) (min (ip_t (ps ! i)) until) (ps ! i)"
  note u = rollup_fold_fields(3) [of since until budget ps ?I ?u]
  show len: "length (ru_buckets (fold ?step ?I ?u)) = length (map (bucket_of since until budget ps) [0..<budget])"
    using u fold_grouped_length [of ?f ?g ?I "replicate budget empty_bucket"] by simp
  fix j assume "j < length (ru_buckets (fold ?step ?I ?u))"
  then have j: "j < budget" using len by simp
  have "ru_buckets (fold ?step ?I ?u) ! j = fold ?g (filter (\<lambda>i. ?f i = j) ?I) empty_bucket"
    unfolding u using fold_grouped [of ?I ?f "replicate budget empty_bucket" j ?g] bucket_index_bounded [OF assms(3)] j by simp
  also have "\<dots> = fold (\<lambda>(start, p). add_to_bucket start (ip_t p) p)
      (map (\<lambda>i. (interval_start since ps i, ps ! i)) (filter (\<lambda>i. ?f i = j) ?I)) empty_bucket"
    using window_indices [OF assms(1), of _ since until]
    by (simp add: fold_map comp_def) (rule fold_cong, auto simp: in_window_def min_def)
  also have "\<dots> = bucket_of since until budget ps j"
    using window_intervals_indices [OF assms(1), of since until] assms(2) by (simp add: bucket_of_def filter_map comp_def)
  finally show "ru_buckets (fold ?step ?I ?u) ! j = map (bucket_of since until budget ps) [0..<budget] ! j" using j by simp
qed

definition demo_point :: "nat \<Rightarrow> indexed_point" where
  "demo_point t = \<lparr>ip_t = t, ip_deltas = [(Metric_key ''requests_total'' [], 0x3FF0000000000000)], ip_gauges = [], ip_capacity = None\<rparr>"

definition demo_inner :: history_inner where
  "demo_inner = set_available (empty_inner\<lparr>hi_points := [demo_point 10, demo_point 20]\<rparr>)"

lemma demo_inner_ok: "index_ok demo_inner"
  by (simp add: index_ok_def demo_inner_def set_available_def empty_inner_def demo_point_def head_option_def last_option_def)

lemma demo_inner_points: "hi_points demo_inner = [demo_point 10, demo_point 20]"
  by (simp add: demo_inner_def set_available_def)

text \<open>
  C27: a rollup is the grouping of the points of its window. The one pass with binary searches and
  an array of accumulators gives: totals that sum the increments of exactly the points after the
  start and up to the end, the latest gauges among them, and for each of the buckets the summary of
  the points that fall into it; a bucket no point falls into is left out.
\<close>

theorem rollup_groups_points:
  assumes "index_ok inner" and "since < until"
  shows "rl_totals (hw_data (rollup_window since until n inner)) = metric_values (window_totals since until (hi_points inner)) \<and>
    rl_latest (hw_data (rollup_window since until n inner)) = metric_values (window_latest since until (hi_points inner)) \<and>
    rl_points (hw_data (rollup_window since until n inner)) =
      List.map_filter (\<lambda>j. finish_bucket (bucket_of since until (window_budget n) (hi_points inner) j)) [0..<window_budget n]"
proof -
  let ?ps = "hi_points inner" and ?b = "window_budget n"
  let ?a = "partition_point (\<lambda>p. ip_t p \<le> since) ?ps" and ?z = "partition_point (\<lambda>p. ip_t p \<le> until) ?ps"
  have s: "sorted (map ip_t ?ps)" using assms(1) by (simp add: index_ok_def)
  have b: "0 < ?b" using window_budget_bounds(1) [of n] by simp
  note w = window_points [OF s less_imp_le [OF assms(2)]]
  let ?u = "\<lparr>ru_totals = [], ru_latest = [], ru_buckets = replicate ?b empty_bucket\<rparr>"
  let ?f = "fold (rollup_index since until ?b ?ps) [?a..<?z] ?u"
  note buckets = rollup_buckets_grouped [OF s assms(2) b]
  have totals: "ru_totals ?f = window_totals since until ?ps" "ru_latest ?f = window_latest since until ?ps"
    unfolding rollup_fold_fields window_totals_def window_latest_def
    by (simp_all add: w [symmetric] fold_map comp_def)
  show ?thesis
  proof (cases "?a = ?z")
    case True
    then have "bucket_of since until ?b ?ps = (\<lambda>j. empty_bucket)"
      using window_intervals_indices [OF s less_imp_le [OF assms(2)]] by (simp add: bucket_of_def fun_eq_iff)
    moreover have "List.map_filter (\<lambda>j. None :: rollup_point option) xs = []" for xs :: "nat list" by (simp add: List.map_filter_def)
    moreover have "metric_values [] = []" by (simp add: metric_values_def)
    ultimately show ?thesis
      using True assms(2) w by (simp add: rollup_window_def empty_window_def window_totals_def window_latest_def finish_empty_bucket)
  next
    case False
    then have "rl_totals (hw_data (rollup_window since until n inner)) = metric_values (ru_totals ?f)"
      "rl_latest (hw_data (rollup_window since until n inner)) = metric_values (ru_latest ?f)"
      "rl_points (hw_data (rollup_window since until n inner)) = List.map_filter finish_bucket (ru_buckets ?f)"
      using assms(2) by (simp_all add: rollup_window_def Let_def window_budget_def)
    with totals buckets show ?thesis by (simp add: List.map_filter_def filter_map comp_def)
  qed
qed

lemma rollup_groups_points_witness:
  "rl_totals (hw_data (rollup_window 10 100 5 demo_inner)) = metric_values [(Metric_key ''requests_total'' [], f64_add 0 0x3FF0000000000000)]"
proof -
  have "filter (in_window 10 100) (hi_points demo_inner) = [demo_point 20]" by (simp add: demo_inner_points in_window_def demo_point_def)
  then have "window_totals 10 100 (hi_points demo_inner) = [(Metric_key ''requests_total'' [], f64_add 0 0x3FF0000000000000)]"
    by (simp add: window_totals_def demo_point_def add_metrics_def add_metric_def)
  with rollup_groups_points [OF demo_inner_ok, of 10 100 5] show ?thesis by simp
qed

subsection \<open>Buckets tile the window\<close>

fun tiles :: "nat \<Rightarrow> nat \<Rightarrow> rollup_point list \<Rightarrow> bool" where
  "tiles a z [] \<longleftrightarrow> a = z"
| "tiles a z (r # rs) \<longleftrightarrow> ro_from r = a \<and> a \<le> ro_to r \<and> ro_duration_seconds r = ro_to r - a \<and> tiles (ro_to r) z rs"

lemma tiles_append: "tiles a z (rs @ ss) \<longleftrightarrow> (\<exists>m. tiles a m rs \<and> tiles m z ss)"
  by (induction rs arbitrary: a) auto

lemma tiles_le: "tiles a z rs \<Longrightarrow> a \<le> z"
  by (induction rs arbitrary: a) (auto intro: le_trans)

lemma tiles_duration: "tiles a z rs \<Longrightarrow> a + sum_list (map ro_duration_seconds rs) = z"
  by (induction rs arbitrary: a) force+

definition bucket_covers :: "nat \<Rightarrow> nat \<Rightarrow> bucket_accumulator \<Rightarrow> bool" where
  "bucket_covers a z b \<longleftrightarrow> a \<le> z \<and> bk_from b = Some a \<and> bk_to b = Some z \<and> bk_duration_seconds b = z - a"

lemma bucket_covers_tiles: "bucket_covers a z b \<Longrightarrow> \<exists>r. finish_bucket b = Some r \<and> tiles a z [r]"
  by (simp add: bucket_covers_def finish_bucket_def)

lemma add_to_bucket_covers:
  "a \<le> z \<Longrightarrow> bucket_covers a z (add_to_bucket a z p empty_bucket)"
  "bucket_covers a m b \<Longrightarrow> m \<le> z \<Longrightarrow> bucket_covers a z (add_to_bucket m z p b)"
  by (auto simp: bucket_covers_def add_to_bucket_def add_capacity_def Let_def widen_def empty_bucket_def split: option.split)

text \<open>The accumulators after some points: those before the current bucket tile up to it, those after it are empty.\<close>

definition tiled_up_to :: "nat \<Rightarrow> nat \<Rightarrow> nat \<Rightarrow> bucket_accumulator list \<Rightarrow> bool" where
  "tiled_up_to a t j B \<longleftrightarrow> (\<exists>xs b n m. B = xs @ b # replicate n empty_bucket \<and> length xs = j \<and>
     tiles a m (List.map_filter finish_bucket xs) \<and> bucket_covers m t b)"

lemma map_filter_empty_buckets: "List.map_filter finish_bucket (replicate n empty_bucket) = []"
  by (simp add: List.map_filter_def finish_empty_bucket)

lemma tiled_up_to_tiles: "tiled_up_to a t j B \<Longrightarrow> tiles a t (List.map_filter finish_bucket B)"
proof -
  assume "tiled_up_to a t j B"
  then obtain xs b n m where B: "B = xs @ b # replicate n empty_bucket"
    and t: "tiles a m (List.map_filter finish_bucket xs)" "bucket_covers m t b" by (auto simp: tiled_up_to_def)
  from bucket_covers_tiles [OF t(2)] obtain r where "finish_bucket b = Some r" "tiles m t [r]" by blast
  moreover have "List.map_filter finish_bucket [b] = [r]" using \<open>finish_bucket b = Some r\<close> by (simp add: List.map_filter_def)
  ultimately show ?thesis
    using t(1) map_filter_empty_buckets [of n] by (auto simp: B List.map_filter_def tiles_append)
qed

lemma update_middle: "length ys = k \<Longrightarrow> (ys @ x # zs)[k := f ((ys @ x # zs) ! k)] = ys @ f x # zs"
  by (simp add: list_update_append nth_append)

lemma replicate_split: "j < n \<Longrightarrow> replicate n x = replicate j x @ x # replicate (n - Suc j) x"
proof -
  assume "j < n"
  then have "n = j + Suc (n - Suc j)" by simp
  then show ?thesis by (metis replicate_add replicate_Suc)
qed

lemma tiled_start:
  assumes "j < budget" "a \<le> z"
  shows "tiled_up_to a z j ((replicate budget empty_bucket)[j := add_to_bucket a z p (replicate budget empty_bucket ! j)])"
proof -
  let ?xs = "replicate j empty_bucket" and ?ys = "replicate (budget - Suc j) empty_bucket"
  have "(replicate budget empty_bucket)[j := add_to_bucket a z p (replicate budget empty_bucket ! j)] = ?xs @ add_to_bucket a z p empty_bucket # ?ys"
    unfolding replicate_split [OF assms(1), of empty_bucket] by (rule update_middle) simp
  moreover have "tiles a a (List.map_filter finish_bucket (replicate j empty_bucket))" by (simp add: map_filter_empty_buckets)
  ultimately show ?thesis unfolding tiled_up_to_def using add_to_bucket_covers(1) [OF assms(2), of p]
    by (intro exI conjI) (assumption | simp)+
qed

lemma tiled_step:
  assumes "tiled_up_to a t j B" "j \<le> k" "k < length B" "t \<le> z"
  shows "tiled_up_to a z k (B[k := add_to_bucket t z p (B ! k)])"
proof -
  obtain xs b n m where B: "B = xs @ b # replicate n empty_bucket" "length xs = j"
    and t: "tiles a m (List.map_filter finish_bucket xs)" "bucket_covers m t b" using assms(1) by (auto simp: tiled_up_to_def)
  show ?thesis
  proof (cases "k = j")
    case True
    have "B[k := add_to_bucket t z p (B ! k)] = xs @ add_to_bucket t z p b # replicate n empty_bucket"
      using update_middle [of xs k b "replicate n empty_bucket" "add_to_bucket t z p"] B True by simp
    then show ?thesis unfolding tiled_up_to_def using t(1) add_to_bucket_covers(2) [OF t(2) assms(4)] B(2) True by blast
  next
    case False
    then obtain d where d: "k = j + Suc d" using assms(2) by (metis le_neq_implies_less less_imp_Suc_add add_Suc_right)
    have dn: "d < n" using assms(3) B d by simp
    then obtain e where e: "n = d + Suc e" by (metis less_imp_Suc_add add_Suc_right)
    let ?xs = "xs @ b # replicate d empty_bucket"
    have len: "length ?xs = k" using B(2) d by simp
    have "B = ?xs @ empty_bucket # replicate e empty_bucket" using B(1) e by (simp add: replicate_add replicate_app_Cons_same)
    then have "B[k := add_to_bucket t z p (B ! k)] = ?xs @ add_to_bucket t z p empty_bucket # replicate e empty_bucket"
      using update_middle [OF len, of empty_bucket "replicate e empty_bucket" "add_to_bucket t z p"] by simp
    moreover have "tiled_up_to a t j ?xs" unfolding tiled_up_to_def using B(2) t by blast
    then have "tiles a t (List.map_filter finish_bucket ?xs)" by (rule tiled_up_to_tiles)
    ultimately show ?thesis unfolding tiled_up_to_def using len add_to_bucket_covers(1) [OF assms(4), of p]
      by (intro exI conjI) (assumption | simp)+
  qed
qed

lemma bucket_index_mono: "ip_t p \<le> ip_t q \<Longrightarrow> bucket_index since until budget p \<le> bucket_index since until budget q"
  unfolding bucket_index_def by (intro min.mono div_le_mono mult_le_mono1 diff_le_mono order.refl)

lemma tiled_fold:
  assumes "sorted (map ip_t ps)" "0 < budget" "length B = budget" "B = replicate budget empty_bucket" "first < k"
    and "\<forall>i \<in> {first..<k}. i < length ps \<and> in_window since until (ps ! i)"
  shows "tiled_up_to (interval_start since ps first) (ip_t (ps ! (k - 1))) (bucket_index since until budget (ps ! (k - 1)))
    (fold (\<lambda>i B. B[bucket_index since until budget (ps ! i) :=
       add_to_bucket (interval_start since ps i) (min (ip_t (ps ! i)) until) (ps ! i) (B ! bucket_index since until budget (ps ! i))])
     [first..<k] B)"
  using Suc_leI [OF assms(5)] assms(6)
proof (induction rule: nat_induct_at_least [case_names Base Step])
  case Base
  then have "in_window since until (ps ! first)" "first < length ps" by simp_all
  moreover have "interval_start since ps first \<le> ip_t (ps ! first)"
    using calculation assms(1) by (auto simp: interval_start_def in_window_def sorted_iff_nth_mono)
  ultimately show ?case
    using tiled_start [OF bucket_index_bounded [OF assms(2)]] assms(4) by (simp add: in_window_def min_absorb1)
next
  case (Step k)
  let ?g = "\<lambda>i B. B[bucket_index since until budget (ps ! i) :=
       add_to_bucket (interval_start since ps i) (min (ip_t (ps ! i)) until) (ps ! i) (B ! bucket_index since until budget (ps ! i))]"
  have k: "k < length ps" "in_window since until (ps ! k)" "in_window since until (ps ! (k - 1))" "first < k"
    using Step.hyps bspec [OF Step.prems, of k] bspec [OF Step.prems, of "k - 1"] by (simp_all add: diff_le_mono2 le_diff_conv2 less_SucI)
  have mono: "ip_t (ps ! (k - 1)) \<le> ip_t (ps ! k)" using assms(1) k(1) by (simp add: sorted_iff_nth_mono)
  have "interval_start since ps k = ip_t (ps ! (k - 1))" using k(3,4) by (simp add: interval_start_def in_window_def)
  moreover have "length (fold ?g [first..<k] B) = budget" using fold_grouped_length [where xs = "[first..<k]"] assms(3) by metis
  ultimately have "tiled_up_to (interval_start since ps first) (ip_t (ps ! k)) (bucket_index since until budget (ps ! k))
      ((fold ?g [first..<k] B)[bucket_index since until budget (ps ! k) :=
        add_to_bucket (ip_t (ps ! (k - 1))) (ip_t (ps ! k)) (ps ! k) (fold ?g [first..<k] B ! bucket_index since until budget (ps ! k))])"
    using Step.IH Step.prems bucket_index_bounded [OF assms(2)] by (intro tiled_step [OF _ bucket_index_mono [OF mono]] mono) simp_all
  then show ?case using k \<open>interval_start since ps k = _\<close> by (simp add: in_window_def min_absorb1)
qed

text \<open>
  C28: the buckets of a window tile it. When no point lies in the window there is no bucket and no
  effective range. Otherwise the buckets follow each other without gap or overlap, each as long as
  it says, from the effective start (the last point before the window, or its start) to the last
  point in it, and there are at most as many as asked for, between 2 and 1000.
\<close>

theorem rollup_tiles:
  assumes "index_ok inner" and "since < until" and r_def: "r = hw_data (rollup_window since until n inner)"
  shows "if filter (in_window since until) (hi_points inner) = []
    then rl_points r = [] \<and> rl_effective_from r = None \<and> rl_effective_to r = None
    else \<exists>a z. rl_effective_from r = Some a \<and> rl_effective_to r = Some z \<and> since \<le> a \<and> a \<le> z \<and> z \<le> until \<and>
      tiles a z (rl_points r) \<and> length (rl_points r) \<le> min (max n 2) 1000"
proof -
  let ?ps = "hi_points inner" and ?b = "window_budget n"
  let ?a = "partition_point (\<lambda>p. ip_t p \<le> since) ?ps" and ?z = "partition_point (\<lambda>p. ip_t p \<le> until) ?ps"
  let ?u = "\<lparr>ru_totals = [], ru_latest = [], ru_buckets = replicate ?b empty_bucket\<rparr>"
  have s: "sorted (map ip_t ?ps)" using assms(1) by (simp add: index_ok_def)
  have b: "0 < ?b" using window_budget_bounds(1) [of n] by simp
  note w = window_points [OF s less_imp_le [OF assms(2)]] and i = window_indices [OF s, of _ since until]
  show ?thesis
  proof (cases "?a = ?z")
    case True
    then show ?thesis using w assms(2) by (simp add: r_def rollup_window_def empty_window_def)
  next
    case False
    have "?a < ?z"
    proof (rule ccontr)
      assume "\<not> ?a < ?z"
      then have "?z < length ?ps" "\<not> ip_t (?ps ! ?z) \<le> until" "ip_t (?ps ! ?z) \<le> since"
        using False partition_point_length [of "\<lambda>p. ip_t p \<le> since" ?ps] partition_point_sorted [OF s, of ?z until]
          partition_point_sorted [OF s, of ?z since] by simp_all
      then show False using assms(2) by simp
    qed
    then have i1: "?z - 1 \<in> set [?a..<?z]" "?a \<in> set [?a..<?z]" by auto
    then have z: "?a < length ?ps" "in_window since until (?ps ! ?a)" "in_window since until (?ps ! (?z - 1))"
      using i by blast+
    have ne: "filter (in_window since until) ?ps \<noteq> []" using w \<open>?a < ?z\<close> by (metis length_0_conv length_map length_upt zero_less_diff less_numeral_extra(3))
    have r: "rl_effective_from r = Some (interval_start since ?ps ?a)" "rl_effective_to r = Some (ip_t (?ps ! (?z - 1)))"
      "rl_points r = List.map_filter finish_bucket (ru_buckets (fold (rollup_index since until ?b ?ps) [?a..<?z] ?u))"
      using False assms(2) z(2)
      by (auto simp add: r_def rollup_window_def Let_def window_budget_def interval_start_def in_window_def max_def)
    have "\<forall>k \<in> {?a..<?z}. k < length ?ps \<and> in_window since until (?ps ! k)" using i by simp
    from tiled_fold [OF s b length_replicate refl \<open>?a < ?z\<close> this]
    have t: "tiles (interval_start since ?ps ?a) (ip_t (?ps ! (?z - 1))) (rl_points r)"
      unfolding r rollup_fold_fields by (intro tiled_up_to_tiles) simp
    have "length (ru_buckets (fold (rollup_index since until ?b ?ps) [?a..<?z] ?u)) = ?b"
      using rollup_buckets_grouped [OF s assms(2) b] by (metis length_map length_upt diff_zero)
    then have len: "length (rl_points r) \<le> ?b"
      unfolding r(3) List.map_filter_def by (metis length_filter_le length_map)
    have a: "since \<le> interval_start since ?ps ?a" by (simp add: interval_start_def)
    have az: "interval_start since ?ps ?a \<le> ip_t (?ps ! (?z - 1))" using t tiles_le by blast
    have "ip_t (?ps ! (?z - 1)) \<le> until" using z(3) by (simp add: in_window_def)
    with ne r(1,2) a az t len show ?thesis unfolding window_budget_def [symmetric] by (simp only: if_False) blast
  qed
qed

lemma rollup_tiles_witness:
  "\<exists>a z. rl_effective_from (hw_data (rollup_window 0 100 5 demo_inner)) = Some a \<and>
     rl_effective_to (hw_data (rollup_window 0 100 5 demo_inner)) = Some z \<and>
     tiles a z (rl_points (hw_data (rollup_window 0 100 5 demo_inner)))"
proof -
  have "filter (in_window 0 100) (hi_points demo_inner) \<noteq> []" by (simp add: demo_inner_points in_window_def demo_point_def)
  with rollup_tiles [OF demo_inner_ok, of 0 100 "hw_data (rollup_window 0 100 5 demo_inner)" 5] show ?thesis
    by (simp only: if_False refl zero_less_numeral) blast
qed

end
