(* ===== verification/History_Durability.thy ===== *)
theory History_Durability
  imports History_Store
begin

section \<open>What the history store promises\<close>

text \<open>
  The promises of the store over whole runs, from opening on: the file always reads back as what the
  store believes, a failed append poisons the store and costs at most the running epoch, compaction
  replaces the file as a whole or not at all, and the checkpoints it writes for repeated states stand
  for those states.
\<close>

subsection \<open>What a tracked file reads as\<close>

lemma tracks_replay:
  assumes "serde_typed sd" "tracks sd (hs, content)"
  shows "\<exists>rp. validate_canonical sd content = Ok rp \<and> \<not> rp_needs_separator rp \<and> rp_bound rp = hs_last_timestamp hs \<and>
    (\<forall>state. hs_last_state hs = Some state \<longrightarrow>
       find_map boot_id_of (rev (rp_records rp)) = Some (hs_boot_id hs) \<and>
       find_map (sample_state_of (hs_boot_id hs)) (rev (rp_records rp)) = Some state \<and>
       state_after None (rp_records rp) = Some state)"
proof -
  obtain st rq where t: "scanned sd content (st, rq)" "in_epoch hs st" "hs_last_timestamp hs = rp_bound rq"
    using tracksE [OF assms(2)] by metis
  let ?rp = "finish_scan (st, rq)"
  have "rp_needs_separator rq = False"
    using t(1) scan_keeps_flag [of content sd 0 False "(Await_boot, empty_replay)" True "(st, rq)"]
    by (simp add: scanned_def empty_replay_def)
  moreover have "find_map boot_id_of (rev (rp_records ?rp)) = Some (hs_boot_id hs) \<and>
      find_map (sample_state_of (hs_boot_id hs)) (rev (rp_records ?rp)) = Some state \<and>
      state_after None (rp_records ?rp) = Some state" if some: "hs_last_state hs = Some state" for state
  proof -
    obtain e where e: "st = Usable e" "ep_boot_id e = hs_boot_id hs" "ep_state e = Some state"
      using t(2) some by (cases st) auto
    have "replay_inv (st, rq)" using scan_steps_inv [OF assms(1) scanned_steps [OF t(1)]] .
    then have u: "usable (ep_records e)" "record_boot_id (hd (ep_records e)) = hs_boot_id hs"
      using e by (simp_all add: replay_inv_def)
    have s: "state_after None (ep_records e) = Some state"
      using scanned_accounted [OF t(1)] e by (simp add: accounted_def)
    have recs: "rp_records ?rp = rp_records rq @ ep_records e" by (simp add: e(1) finish_scan_def)
    obtain b more where b: "ep_records e = Boot b # more" using usable_cases [OF u(1)] by metis
    have "state_after None (rp_records rq @ ep_records e) = state_after None (ep_records e)"
      by (simp add: state_after_append b)
    moreover have "find_map (sample_state_of (hs_boot_id hs)) (rev (ep_records e)) = Some state"
      using epoch_sample_state [OF u(1)] u(2) s by simp
    ultimately show ?thesis
      using last_boot_id [OF u(1), of "rp_records rq"] u(2) s by (simp add: recs find_map_append)
  qed
  ultimately show ?thesis
    using scanned_validate [OF t(1)] t(3) by (intro exI [of _ ?rp]) simp
qed

text \<open>A first start, and one sample appended, on which the properties are instantiated.\<close>

definition demo_boot_record :: boot_record where
  "demo_boot_record = \<lparr>bo_timestamp = 1, bo_boot_id = ''a'', bo_capacity = demo_capacity\<rparr>"

definition demo_open_io :: open_io where
  "demo_open_io = \<lparr>oi_can_open = True, oi_publish = Linked, oi_handle = True, oi_separator = None, oi_boot = None\<rparr>"

definition demo_store :: history_store where
  "demo_store = fresh_store ''a'' (empty_replay\<lparr>rp_records := [demo_boot 1 ''a'']\<rparr>)"

definition demo_sampled :: history_store where
  "demo_sampled = demo_store\<lparr>hs_last_timestamp := Some 2, hs_last_state := Some [demo_entry 0]\<rparr>"

definition demo_op :: "write_fault \<Rightarrow> nat \<Rightarrow> store_op" where
  "demo_op fault t = Op_sample fault t demo_capacity [demo_entry 0]"

lemma demo_writable: "r \<in> set demo_table \<Longrightarrow> writable demo_serde r"
  using demo_written [of "[r]"] by (auto simp: writable_def)

lemma demo_boot_writable: "Boot demo_boot_record = demo_boot 1 ''a''" "writable demo_serde (Boot demo_boot_record)"
proof -
  show b: "Boot demo_boot_record = demo_boot 1 ''a''" by (simp add: demo_boot_def demo_boot_record_def)
  show "writable demo_serde (Boot demo_boot_record)" unfolding b by (rule demo_writable) (simp add: demo_table_def demo_epoch_def)
qed

lemma demo_opens:
  "open_store demo_serde demo_open_io demo_boot_record None = (Some (stream_bytes demo_serde [demo_boot 1 ''a'']), Ok demo_store)"
  using publish_first_boot_eq [OF demo_boot_writable(2), of Linked]
  by (simp add: open_store_def demo_open_io_def demo_store_def demo_boot_record_def demo_boot_def)

lemma demo_no_disk: "\<forall>c. None = Some c \<or> oi_publish demo_open_io = Already_exists c \<longrightarrow> torn_or_whole demo_serde c"
  by (simp add: demo_open_io_def)

lemma demo_op_writable:
  "op_writable demo_serde (bo_boot_id demo_boot_record) (demo_op fault 2)"
  "op_writable demo_serde (bo_boot_id demo_boot_record) (demo_op fault 3)"
proof -
  have "writable demo_serde (demo_sample t ''a'' 0)" "writable demo_serde (demo_checkpoint t ''a'')" if "t = 2 \<or> t = 3" for t
    using that by (auto intro!: demo_writable simp: demo_table_def demo_epoch_def)
  then show "op_writable demo_serde (bo_boot_id demo_boot_record) (demo_op fault 2)"
    "op_writable demo_serde (bo_boot_id demo_boot_record) (demo_op fault 3)"
    by (simp_all add: demo_op_def demo_boot_record_def demo_sample_def demo_checkpoint_def)
qed

lemma demo_runs:
  "store_run demo_serde [demo_op None 2] (demo_store, stream_bytes demo_serde [demo_boot 1 ''a'']) =
     (demo_sampled, stream_bytes demo_serde [demo_boot 1 ''a'', demo_sample 2 ''a'' 0])"
proof -
  have w: "writable demo_serde (demo_sample 2 ''a'' 0)" by (rule demo_writable) (simp add: demo_table_def demo_epoch_def)
  note put_record_cases [OF w, of None demo_store "stream_bytes demo_serde [demo_boot 1 ''a'']"]
  then show ?thesis
    by (simp add: store_run_def demo_op_def append_sample_def demo_store_def same_state_def demo_sample_def regresses_def
        demo_sampled_def empty_replay_def) (simp add: demo_boot_def)
qed



subsection \<open>Failed appends\<close>

definition bound_at_most_opt :: "nat option \<Rightarrow> nat \<Rightarrow> bool" where
  "bound_at_most_opt b t \<longleftrightarrow> (\<forall>x. b = Some x \<longrightarrow> x \<le> t)"

lemma scan_tail_supported:
  assumes "\<And>e. decode_record sd line = Err e \<Longrightarrow> \<not> unsupported e"
  shows "scan_tail sd i line s = Ok (damaged_line sd line (flagged (\<not> blank_line line) s))"
  using assms by (auto simp: scan_tail_def flagged_def split: sum.splits)

lemma damaged_line_records:
  "rp_records (finish_scan (damaged_line sd line (flagged b (st, rq)))) = rp_records rq"
proof -
  have "fst (damaged_line sd line (flagged b (st, rq))) = Invalid_epoch"
    by (simp add: damaged_line_def Let_def invalidate_def)
  moreover have "rp_records (snd (damaged_line sd line (flagged b (st, rq)))) = rp_records rq"
    by (cases st) (simp_all add: damaged_line_def Let_def invalidate_def flagged_def)
  ultimately show ?thesis by (cases "damaged_line sd line (flagged b (st, rq))") (simp add: finish_scan_def)
qed

text \<open>Whatever prefix of a line a failed append leaves, the next replay still has all earlier epochs.\<close>

lemma partial_line_replay:
  assumes "serde_typed sd" "tracks sd (hs, content)" "writable sd r" "record_boot_id r = hs_boot_id hs" "\<not> is_boot r"
    and ts: "bound_at_most_opt (hs_last_timestamp hs) (record_timestamp r)"
    and sup: "\<And>e. decode_record sd (take n (record_line sd r)) = Err e \<Longrightarrow> \<not> unsupported e"
    and content': "content' = content @ take n (record_line sd r @ [CHR 0x0A])"
  shows "\<exists>rp rp' earlier lost kept. validate_canonical sd content = Ok rp \<and> validate_canonical sd content' = Ok rp' \<and>
    rp_records rp = earlier @ lost \<and> rp_records rp' = earlier @ kept \<and>
    list_all (\<lambda>x. record_boot_id x = hs_boot_id hs) (lost @ kept)"
proof -
  from tracksE [OF assms(2)] obtain st rq e where t: "scanned sd content (st, rq)" "epoch_of st = Some e" "ep_boot_id e = hs_boot_id hs"
      "hs_last_timestamp hs = rp_bound rq" by metis
  have inv: "replay_inv (st, rq)" using scan_steps_inv [OF assms(1) scanned_steps [OF t(1)]] .
  have pend: "list_all (\<lambda>x. record_boot_id x = hs_boot_id hs) (pending st)"
    using inv t(2,3) usable_boot_ids [of "ep_records e"] by (cases st) (auto simp: replay_inv_def list_all_iff)
  have fin: "\<exists>lost. rp_records (finish_scan (st, rq)) = rp_records rq @ lost \<and> list_all (\<lambda>x. record_boot_id x = hs_boot_id hs) lost"
    using pend by (cases st) (simp_all add: finish_scan_def)
  show ?thesis
  proof (cases "n \<le> length (record_line sd r)")
    case True
    let ?p = "take n (record_line sd r)"
    have c: "content' = content @ ?p" using True content' by simp
    show ?thesis
    proof (cases "?p = []")
      case True
      then have "content' = content" by (simp only: c append_Nil2)
      with scanned_validate [OF t(1)] fin show ?thesis by fastforce
    next
      case False
      have nolf: "CHR 0x0A \<notin> set ?p"
        using record_line_shape(1) [of r sd] assms(3) by (auto simp: writable_def dest: in_set_takeD)
      obtain m where "scan sd 0 False (content @ ?p) (Await_boot, empty_replay) = scan sd m True ?p (st, rq)"
        using scan_append t(1) unfolding scanned_def by blast
      then have "validate_canonical sd content' = Ok (finish_scan (damaged_line sd ?p (flagged (\<not> blank_line ?p) (st, rq))))"
        using nolf False sup by (simp add: c validate_canonical_def scan_end_of_file scan_tail_supported)
      moreover have "rp_records (finish_scan (damaged_line sd ?p (flagged (\<not> blank_line ?p) (st, rq)))) = rp_records rq @ []"
        by (simp add: damaged_line_records)
      ultimately show ?thesis using scanned_validate [OF t(1)] fin by fastforce
    qed
  next
    case False
    then have c: "content' = content @ record_line sd r @ [CHR 0x0A]" using content' by simp
    have s: "scanned sd content' (accept_record r (st, rq))"
      unfolding c using scanned_append [OF t(1)] assms(3) by (simp add: writable_def)
    have b: "bound_at_most rq (record_timestamp r)" using ts t(4) by (simp add: bound_at_most_opt_def bound_at_most_def)
    have "\<exists>kept. rp_records (finish_scan (accept_record r (st, rq))) = rp_records rq @ kept \<and>
        list_all (\<lambda>x. record_boot_id x = hs_boot_id hs) kept"
      using pend t(2,3) assms(4,5) b
      by (cases r; cases st) (auto simp: accept_in_order ingest_record_def Let_def finish_scan_def)
    with scanned_validate [OF t(1)] scanned_validate [OF s] fin show ?thesis by fastforce
  qed
qed

text \<open>No prefix of the record's line is read as a record of another format or version.\<close>

definition prefixes_supported :: "serde \<Rightarrow> history_record \<Rightarrow> bool" where
  "prefixes_supported sd r \<longleftrightarrow> (\<forall>n e. decode_record sd (take n (record_line sd r)) = Err e \<longrightarrow> \<not> unsupported e)"

fun is_append :: "store_op \<Rightarrow> bool" where
  "is_append (Op_sample fault t cap state) \<longleftrightarrow> True"
| "is_append _ \<longleftrightarrow> False"

lemma poisoned_appends_nothing: "hs_poisoned (fst s) \<Longrightarrow> list_all is_append ops \<Longrightarrow> store_run sd ops s = s"
proof (induction ops)
  case (Cons op ops)
  then have "store_step sd op s = s" by (cases op) (simp_all add: append_sample_def)
  with Cons show ?case by (simp add: store_run_def)
qed (simp add: store_run_def)

text \<open>
  C30: a failed append poisons the store and costs at most the running epoch. In a run as above, an
  append that fails either was refused because its time runs backwards, changing nothing; or the
  write or its sync failed with some prefix of one line in the file. Then the store is poisoned, and no
  later append touches the file; and the file is still accepted at the next start, with every record
  of the earlier boots, whatever the prefix was. The text layer is assumed to read no torn line as one
  of a foreign format.
\<close>

theorem failed_append_poisons:
  assumes "serde_typed sd" and "open_store sd io boot disk = (Some content0, Ok hs0)" and "writable sd (Boot boot)"
    and "\<forall>c. disk = Some c \<or> oi_publish io = Already_exists c \<longrightarrow> torn_or_whole sd c"
    and "list_all (op_writable sd (bo_boot_id boot)) (ops @ [Op_sample fault t cap state])"
    and "store_run sd ops (hs0, content0) = (hs, content)" and "\<not> hs_poisoned hs"
    and "append_sample sd fault t cap state (hs, content) = ((hs', content'), Err e)"
    and "prefixes_supported sd (sample_record_of (bo_boot_id boot) t cap state)"
    and "prefixes_supported sd (checkpoint_record_of (bo_boot_id boot) t cap)"
  shows "(e = Timestamp_regression \<and> hs' = hs \<and> content' = content) \<or>
    (e = Write_io \<and> hs_poisoned hs' \<and>
     (\<forall>more. list_all is_append more \<longrightarrow> store_run sd more (hs', content') = (hs', content')) \<and>
     (\<exists>rp rp' earlier lost kept. validate_canonical sd content = Ok rp \<and> validate_canonical sd content' = Ok rp' \<and>
        rp_records rp = earlier @ lost \<and> rp_records rp' = earlier @ kept \<and>
        list_all (\<lambda>r. record_boot_id r = bo_boot_id boot) (lost @ kept)))"
proof -
  have t0: "tracks sd (hs0, content0)" "hs_boot_id hs0 = bo_boot_id boot"
    using open_store_tracks [OF assms(2,3)] assms(4) by auto
  have w: "op_writable sd (bo_boot_id boot) (Op_sample fault t cap state)" using assms(5) by simp
  from store_run_tracks [OF assms(1), of "(hs0, content0)" ops] t0 assms(5-7)
  have tr: "tracks sd (hs, content)" and id: "hs_boot_id hs = bo_boot_id boot" by auto
  note out = append_sample_outcomes [OF w [folded id] assms(8)]
  show ?thesis
  proof (cases "e = Timestamp_regression")
    case True
    with out assms(7) show ?thesis by simp
  next
    case False
    with out assms(7) obtain n r where r: "e = Write_io" "hs_poisoned hs'"
        "r \<in> {sample_record_of (hs_boot_id hs) t cap state, checkpoint_record_of (hs_boot_id hs) t cap}"
        "\<not> regresses (hs_last_timestamp hs) r" "content' = content @ take n (record_line sd r @ [CHR 0x0A])"
      by (cases e) auto
    have "writable sd r" "record_boot_id r = hs_boot_id hs" "\<not> is_boot r" "prefixes_supported sd r"
      using r(3) w assms(9,10) id by (auto simp: sample_record_of_def checkpoint_record_of_def)
    moreover have "bound_at_most_opt (hs_last_timestamp hs) (record_timestamp r)"
      using r(4) by (auto simp: regresses_def bound_at_most_opt_def)
    ultimately have "\<exists>rp rp' earlier lost kept. validate_canonical sd content = Ok rp \<and> validate_canonical sd content' = Ok rp' \<and>
        rp_records rp = earlier @ lost \<and> rp_records rp' = earlier @ kept \<and>
        list_all (\<lambda>x. record_boot_id x = hs_boot_id hs) (lost @ kept)"
      using partial_line_replay [OF assms(1) tr] r(5) unfolding prefixes_supported_def by blast
    with r(1,2) poisoned_appends_nothing [of "(hs', content')"] id show ?thesis by simp
  qed
qed

lemma demo_prefixes: "prefixes_supported demo_serde r"
proof -
  have "\<not> unsupported e" if e: "decode_record demo_serde line = Err e" for line e
  proof (cases "utf8_valid line \<and> line \<noteq> [] \<and> length line \<le> length demo_table \<and> list_all (\<lambda>c. c = CHR ''x'') line")
    case True
    then have "length line - 1 < length demo_table" by (cases line) auto
    then have "record_ok (demo_table ! (length line - 1))" using demo_ok by (simp add: list_all_length)
    with True e show ?thesis by (simp add: decode_record_def demo_serde_def table_serde_def decode_raw_of split: if_splits)
  next
    case False
    then have "e = Invalid_utf8 \<or> e = Invalid_json"
      using e by (auto simp: decode_record_def demo_serde_def table_serde_def split: if_splits)
    then show ?thesis by (auto simp: unsupported_def)
  qed
  then show ?thesis by (auto simp: prefixes_supported_def)
qed

lemma demo_append_fails:
  "append_sample demo_serde (Some 4) 3 demo_capacity [demo_entry 0] (demo_sampled, content) =
     ((demo_sampled\<lparr>hs_poisoned := True\<rparr>, content @ take 4 (record_line demo_serde (demo_checkpoint 3 ''a'') @ [CHR 0x0A])), Err Write_io)"
proof -
  have w: "writable demo_serde (demo_checkpoint 3 ''a'')" by (rule demo_writable) (simp add: demo_table_def demo_epoch_def)
  have "f64_eq 0 0" by (simp add: f64_eq_def f64_is_nan_def f64_magnitude_def f64_infinity_def)
  then have "same_state (Some [demo_entry 0]) [demo_entry 0]"
    by (simp add: same_state_def state_eq_def entry_eq_def demo_entry_def)
  with put_record_cases [OF w, of "Some 4" demo_sampled content] show ?thesis
    by (simp add: append_sample_def checkpoint_inner_def demo_sampled_def demo_store_def regresses_def demo_checkpoint_def)
qed

lemma failed_append_poisons_witness:
  "\<exists>hs' content' rp'. append_sample demo_serde (Some 4) 3 demo_capacity [demo_entry 0]
       (demo_sampled, stream_bytes demo_serde [demo_boot 1 ''a'', demo_sample 2 ''a'' 0]) = ((hs', content'), Err Write_io) \<and>
     hs_poisoned hs' \<and> validate_canonical demo_serde content' = Ok rp'"
proof -
  have "list_all (op_writable demo_serde (bo_boot_id demo_boot_record)) ([demo_op None 2] @ [Op_sample (Some 4) 3 demo_capacity [demo_entry 0]])"
    using demo_op_writable(1) demo_op_writable(2) [of "Some 4"] by (simp add: demo_op_def)
  moreover have "\<not> hs_poisoned demo_sampled" by (simp add: demo_sampled_def demo_store_def)
  ultimately show ?thesis
    using failed_append_poisons [OF demo_typed demo_opens demo_boot_writable(2) demo_no_disk _ demo_runs _ demo_append_fails
        demo_prefixes demo_prefixes] demo_append_fails by blast
qed

subsection \<open>Compaction\<close>

lemma state_eq_refl: "list_all (\<lambda>x. f64_is_finite (se_value x)) es \<Longrightarrow> state_eq es es"
  unfolding state_eq_def
  by (induction es) (auto simp: entry_eq_def f64_eq_def f64_is_finite_def f64_is_nan_def)

lemma record_eq_sample_state:
  assumes "list_all2 record_eq xs ys"
  shows "rel_option state_eq (find_map (sample_state_of b) (rev xs)) (find_map (sample_state_of b) (rev ys))"
proof -
  have "rel_option state_eq (find_map (sample_state_of b) xs) (find_map (sample_state_of b) ys)"
    if "list_all2 record_eq xs ys" for xs ys
    using that
  proof (induction rule: list_all2_induct)
    case (Cons x xs y ys)
    have "rel_option state_eq (sample_state_of b x) (sample_state_of b y)"
      using Cons.hyps(1) by (cases x; cases y) (simp_all add: sample_state_of_def)
    with Cons.IH show ?case by (cases "sample_state_of b x"; cases "sample_state_of b y") simp_all
  qed simp
  with assms show ?thesis by (metis list_all2_rev)
qed

lemma retained_last_state:
  assumes "serde_typed sd" "tracks sd (hs, content)" "validate_canonical sd content = Ok rp" "hs_last_state hs = Some state"
  shows "find_map (sample_state_of (hs_boot_id hs))
    (rev (retained_compaction_records cutoff (hs_boot_id hs) True (rp_records rp))) = Some state"
proof -
  from tracksE [OF assms(2)] obtain st rq where t: "scanned sd content (st, rq)" "in_epoch hs st" by metis
  have rp: "rp = finish_scan (st, rq)" using scanned_validate [OF t(1)] assms(3) by simp
  obtain e where e: "st = Usable e" "ep_boot_id e = hs_boot_id hs" "ep_state e = Some state"
    using t(2) assms(4) by (cases st) auto
  note inv = scan_steps_inv [OF assms(1) scanned_steps [OF t(1)]]
  have u: "usable (ep_records e)" "record_boot_id (hd (ep_records e)) = hs_boot_id hs"
    using inv e by (simp_all add: replay_inv_def)
  have s: "state_after None (ep_records e) = Some state" using scanned_accounted [OF t(1)] e by (simp add: accounted_def)
  have ok: "stream_ok (rp_records rp)" using finish_scan_sound [OF inv] by (simp add: rp)
  have split: "split_epochs (rp_records rp) = split_epochs (rp_records rq) @ [ep_records e]"
    by (simp add: rp e(1) finish_scan_def split_epochs_snoc [OF u(1)])
  obtain b tl where b: "ep_records e = Boot b # tl" "in_order tl"
    using split_epoch_in [OF ok, of "ep_records e"] split by (metis in_set_conv_decomp)
  let ?last = "retained_epoch cutoff (hs_boot_id hs) True (ep_records e)"
  have last: "?last = Boot b # window_part cutoff tl" using b u(2) by (simp add: retained_epoch_boot)
  have ul: "usable ?last" "record_boot_id (hd ?last) = hs_boot_id hs"
    using window_part_usable [OF u(1) [unfolded b(1)] b(2), of cutoff] u(2) last b(1) by simp_all
  have nb: "list_all (\<lambda>r. \<not> is_boot r) tl" using u(1) by (auto simp: b(1) elim: usable_cases)
  have "state_after None ?last = Some state" using window_part_state [OF b(2) nb, of cutoff] s b(1) unfolding last by simp
  then have "find_map (sample_state_of (hs_boot_id hs)) (rev ?last) = Some state"
    using epoch_sample_state [OF ul(1)] ul(2) by simp
  then show ?thesis by (simp add: retained_epochs split find_map_append)
qed

text \<open>
  C22: compaction replaces the file as a whole or leaves it alone, with no assumption on the text
  layer beyond typed values. It commits only with the caller's authorization, when no gap of the old
  file reaches past the cutoff; then the new file validates without gap or exclusion to exactly the
  retained records of the old one, and the store's own epoch goes on in it with an equal last state.
  In every other case, whichever call failed, store and file are untouched.
\<close>

theorem compaction_is_atomic:
  assumes "serde_typed sd" and "open_store sd io boot disk = (Some content0, Ok hs0)" and "writable sd (Boot boot)"
    and "\<forall>c. disk = Some c \<or> oi_publish io = Already_exists c \<longrightarrow> torn_or_whole sd c"
    and "list_all (op_writable sd (bo_boot_id boot)) ops"
    and "store_run sd ops (hs0, content0) = (hs, content)" and "\<not> hs_poisoned hs"
    and "compact_if_authorized sd cio authorized cutoff (hs, content) = ((hs', content'), res)"
  shows "(if res = Ok Durable \<or> res = Ok Committed_sync_pending
     then authorized \<and> \<not> hs_poisoned hs' \<and> (\<exists>rp rp' state state'.
        validate_canonical sd content = Ok rp \<and> list_all (\<lambda>g. gp_to g \<le> cutoff) (rp_gaps rp) \<and>
        validate_canonical sd content' = Ok rp' \<and> rp_gaps rp' = [] \<and> hd_excluded_records (rp_diagnostics rp') = 0 \<and>
        list_all2 record_eq (rp_records rp') (retained_compaction_records cutoff (bo_boot_id boot) True (rp_records rp)) \<and>
        hs_last_state hs = Some state \<and> hs_last_state hs' = Some state' \<and> state_eq state' state)
     else hs' = hs \<and> content' = content)"
proof (cases "res = Ok Durable \<or> res = Ok Committed_sync_pending")
  case True
  then obtain outcome where outcome: "res = Ok outcome" "outcome = Durable \<or> outcome = Committed_sync_pending" by blast
  have t0: "tracks sd (hs0, content0)" "hs_boot_id hs0 = bo_boot_id boot"
    using open_store_tracks [OF assms(2,3)] assms(4) by auto
  from store_run_tracks [OF assms(1), of "(hs0, content0)" ops] t0 assms(5-7)
  have tr: "tracks sd (hs, content)" and id: "hs_boot_id hs = bo_boot_id boot" by auto
  note c = assms(8) [unfolded outcome(1)]
  from compaction_tracks [OF assms(1) tr c outcome(2)] obtain rp rp' where k: "tracks sd (hs', content')"
      "hs_boot_id hs' = hs_boot_id hs" "\<not> hs_poisoned hs'" "validate_canonical sd content = Ok rp" "validate_canonical sd content' = Ok rp'"
      "replacement_ok (retained_compaction_records cutoff (hs_boot_id hs) True (rp_records rp)) rp'"
    using assms(7) by auto
  have auth: "authorized \<and> list_all (\<lambda>g. gp_to g \<le> cutoff) (rp_gaps rp) \<and> hs_last_state hs \<noteq> None"
    using c outcome(2) k(4)
    by (auto simp: compact_if_authorized_def Let_def list_all_iff list_ex_iff split: if_splits option.splits sum.splits)
  then obtain state where s: "hs_last_state hs = Some state" by auto
  let ?ret = "retained_compaction_records cutoff (hs_boot_id hs) True (rp_records rp)"
  have new: "hs_last_state hs' = find_map (sample_state_of (hs_boot_id hs)) (rev (rp_records rp'))"
    using c outcome(2) k(4,5)
    by (auto simp: compact_if_authorized_def Let_def split: if_splits option.splits sum.splits)
  have "find_map (sample_state_of (hs_boot_id hs)) (rev ?ret) = Some state"
    by (rule retained_last_state [OF assms(1) tr k(4) s])
  moreover have "list_all2 record_eq (rp_records rp') ?ret" using k(6) by (simp add: replacement_ok_def)
  ultimately obtain state' where "hs_last_state hs' = Some state'" "state_eq state' state"
    using record_eq_sample_state [of "rp_records rp'" ?ret "hs_boot_id hs"]
    unfolding new [symmetric] by (cases "hs_last_state hs'") auto
  with True auth k s id show ?thesis by (auto simp: replacement_ok_def)
next
  case False
  then have "(hs', content') = (hs, content)"
    using assms(8) by (auto simp: compact_if_authorized_def Let_def split: if_splits option.splits sum.splits)
  with False show ?thesis by simp
qed

lemma write_records_stream: "written sd rs \<Longrightarrow> write_records sd rs content = Some (content @ stream_bytes sd rs)"
  by (induction rs arbitrary: content) (auto simp: encode_record_line)

definition demo_compaction_io :: compaction_io where
  "demo_compaction_io = \<lparr>ci_temporary = True, ci_write = True, ci_rename = True, ci_directory_sync = True\<rparr>"

lemma demo_compacts:
  "\<exists>sf. compact_if_authorized demo_serde demo_compaction_io True 0
     (demo_sampled, stream_bytes demo_serde [demo_boot 1 ''a'', demo_sample 2 ''a'' 0]) = (sf, Ok Durable)"
proof -
  let ?rs = "[demo_boot 1 ''a'', demo_sample 2 ''a'' 0]"
  have w: "written demo_serde ?rs" by (rule demo_written) (auto simp: demo_table_def demo_epoch_def)
  have "stream_ok ?rs" using w by (simp add: stream_ok_def demo_records in_order_def)
  with validate_stream [OF this _ w] obtain rp where rp: "validate_canonical demo_serde (stream_bytes demo_serde ?rs) = Ok rp"
      "rp_records rp = ?rs" "rp_gaps rp = []" "rp_diagnostics rp = sum_events (record_events None ?rs)" "\<not> rp_needs_separator rp"
    by blast
  have ret: "retained_compaction_records 0 ''a'' True ?rs = ?rs"
    by (simp add: demo_records retained_epoch_def is_live_epoch_def old_sample_def)
  have "f64_eq 0 0" by (simp add: f64_eq_def f64_is_nan_def f64_magnitude_def f64_infinity_def)
  then have "list_all2 record_eq ?rs ?rs" by (simp add: demo_records state_eq_def entry_eq_def)
  then have "replacement_ok ?rs rp"
    unfolding replacement_ok_def using rp(2,3,5) sum_events_counts [of None ?rs] by (simp only: rp(4)) simp
  then show ?thesis
    using rp ret write_records_stream [OF w, of "[]"]
    by (simp add: compact_if_authorized_def demo_sampled_def demo_store_def demo_compaction_io_def Let_def del: stream_bytes_simps)
qed

lemma compaction_is_atomic_witness:
  "\<exists>hs' content' rp'. compact_if_authorized demo_serde demo_compaction_io True 0
       (demo_sampled, stream_bytes demo_serde [demo_boot 1 ''a'', demo_sample 2 ''a'' 0]) = ((hs', content'), Ok Durable) \<and>
     validate_canonical demo_serde content' = Ok rp' \<and> rp_gaps rp' = [] \<and>
     (\<exists>state'. hs_last_state hs' = Some state' \<and> state_eq state' [demo_entry 0])"
proof -
  obtain hs' content' where c: "compact_if_authorized demo_serde demo_compaction_io True 0
      (demo_sampled, stream_bytes demo_serde [demo_boot 1 ''a'', demo_sample 2 ''a'' 0]) = ((hs', content'), Ok Durable)"
    using demo_compacts by (metis surj_pair)
  have "list_all (op_writable demo_serde (bo_boot_id demo_boot_record)) [demo_op None 2]" by (simp add: demo_op_writable)
  moreover have "\<not> hs_poisoned demo_sampled" "hs_last_state demo_sampled = Some [demo_entry 0]"
    by (simp_all add: demo_sampled_def demo_store_def)
  ultimately show ?thesis
    using compaction_is_atomic [OF demo_typed demo_opens demo_boot_writable(2) demo_no_disk _ demo_runs _ c] c by auto
qed

subsection \<open>Checkpoints stand for samples\<close>

text \<open>The states a stretch of records stands for: a checkpoint repeats the last sample of its boot.\<close>

type_synonym observation_call = "nat \<times> capacity \<times> state_entry list"

fun observed :: "state_entry list option \<Rightarrow> history_record list \<Rightarrow> observation_call list" where
  "observed previous [] = []"
| "observed previous (Boot b # rs) = observed None rs"
| "observed previous (Sample s # rs) = (sa_timestamp s, sa_capacity s, sa_state s) # observed (Some (sa_state s)) rs"
| "observed previous (Checkpoint c # rs) =
     (case previous of None \<Rightarrow> observed None rs | Some state \<Rightarrow> (ch_timestamp c, ch_capacity c, state) # observed previous rs)"

definition same_call :: "observation_call \<Rightarrow> observation_call \<Rightarrow> bool" where
  "same_call a b \<longleftrightarrow> fst a = fst b \<and> fst (snd a) = fst (snd b) \<and> state_eq (snd (snd a)) (snd (snd b))"

definition sample_op :: "observation_call \<Rightarrow> store_op" where
  "sample_op call = Op_sample None (fst call) (fst (snd call)) (snd (snd call))"

lemma append_sample_step:
  assumes "scanned sd content (st, rq)" "in_epoch hs st" "hs_last_timestamp hs = rp_bound rq" "\<not> hs_poisoned hs"
    and "op_writable sd (hs_boot_id hs) (Op_sample None t cap state)" "bound_at_most rq t"
    and refl: "state_eq state state"
  shows "\<exists>hs' content' e r. store_step sd (Op_sample None t cap state) (hs, content) = (hs', content') \<and>
    scanned sd content' (Usable e, bounded_at t rq) \<and> in_epoch hs' (Usable e) \<and> hs_last_timestamp hs' = Some t \<and>
    \<not> hs_poisoned hs' \<and> hs_boot_id hs' = hs_boot_id hs \<and> ep_records e = pending st @ [r] \<and> \<not> is_boot r \<and> record_boot_id r = hs_boot_id hs \<and>
    (\<forall>rs. \<exists>call. observed (hs_last_state hs) (r # rs) = call # observed (hs_last_state hs') rs \<and> same_call call (t, cap, state))"
proof (cases "same_state (hs_last_state hs) state")
  case True
  let ?c = "\<lparr>ch_timestamp = t, ch_boot_id = hs_boot_id hs, ch_capacity = cap\<rparr>"
  obtain previous where p: "hs_last_state hs = Some previous" "state_eq previous state"
    using True by (auto simp: same_state_def split: option.splits)
  with assms(2) obtain e where e: "st = Usable e" "ep_boot_id e = hs_boot_id hs" "ep_state e = Some previous" by (cases st) auto
  have w: "writable sd (Checkpoint ?c)" using assms(5) by simp
  have "\<not> regresses (hs_last_timestamp hs) (Checkpoint ?c)"
    using assms(3,6) by (auto simp: regresses_def bound_at_most_def not_less split: option.splits)
  then have step: "store_step sd (Op_sample None t cap state) (hs, content) =
      (hs\<lparr>hs_last_timestamp := Some t\<rparr>, content @ record_line sd (Checkpoint ?c) @ [CHR 0x0A])"
    using True assms(4) put_record_cases [OF w, of None hs content] by (simp add: append_sample_def checkpoint_inner_def)
  moreover have "scanned sd (content @ record_line sd (Checkpoint ?c) @ [CHR 0x0A])
      (Usable (push_record (Checkpoint ?c) (add_checkpoint ?c e)), bounded_at t rq)"
    using scanned_append [OF assms(1), of "Checkpoint ?c"] w accept_checkpoint [of rq ?c e] e assms(6) by (simp add: writable_def)
  ultimately show ?thesis
    using p e assms(4)
    by (intro exI [of _ "hs\<lparr>hs_last_timestamp := Some t\<rparr>"] exI [of _ "content @ record_line sd (Checkpoint ?c) @ [CHR 0x0A]"]
        exI [of _ "push_record (Checkpoint ?c) (add_checkpoint ?c e)"] exI [of _ "Checkpoint ?c"])
      (simp add: add_checkpoint_def same_call_def)
next
  case False
  let ?s = "\<lparr>sa_timestamp = t, sa_boot_id = hs_boot_id hs, sa_capacity = cap, sa_state = state\<rparr>"
  obtain e where e: "epoch_of st = Some e" "ep_boot_id e = hs_boot_id hs" "pending st = ep_records e"
    using assms(2) by (cases st) auto
  have w: "writable sd (Sample ?s)" using assms(5) by simp
  have "\<not> regresses (hs_last_timestamp hs) (Sample ?s)"
    using assms(3,6) by (auto simp: regresses_def bound_at_most_def not_less split: option.splits)
  then have step: "store_step sd (Op_sample None t cap state) (hs, content) =
      (hs\<lparr>hs_last_timestamp := Some t, hs_last_state := Some state\<rparr>, content @ record_line sd (Sample ?s) @ [CHR 0x0A])"
    using False assms(4) put_record_cases [OF w, of None hs content] by (simp add: append_sample_def)
  moreover have "scanned sd (content @ record_line sd (Sample ?s) @ [CHR 0x0A])
      (Usable (push_record (Sample ?s) (add_sample ?s e)), bounded_at t rq)"
    using scanned_append [OF assms(1), of "Sample ?s"] w accept_sample [of rq ?s st e] e assms(6) by (simp add: writable_def)
  ultimately show ?thesis
    using e assms(4) refl
    by (intro exI [of _ "hs\<lparr>hs_last_timestamp := Some t, hs_last_state := Some state\<rparr>"]
        exI [of _ "content @ record_line sd (Sample ?s) @ [CHR 0x0A]"]
        exI [of _ "push_record (Sample ?s) (add_sample ?s e)"] exI [of _ "Sample ?s"])
      (simp add: add_sample_def same_call_def)
qed

lemma writable_state_refl: "writable sd (Sample s) \<Longrightarrow> state_eq (sa_state s) (sa_state s)"
  by (rule state_eq_refl) (simp add: writable_def state_ok_def list_all_iff)

lemma sample_run:
  assumes "scanned sd content (st, rq)" "in_epoch hs st" "hs_last_timestamp hs = rp_bound rq" "\<not> hs_poisoned hs"
    and "list_all (\<lambda>call. op_writable sd (hs_boot_id hs) (sample_op call)) calls"
    and "sorted (map fst calls)" "\<forall>call \<in> set calls. bound_at_most rq (fst call)"
  shows "\<exists>hs' content' st' rq' recs. store_run sd (map sample_op calls) (hs, content) = (hs', content') \<and> \<not> hs_poisoned hs' \<and>
    scanned sd content' (st', rq') \<and> rp_records rq' = rp_records rq \<and> pending st' = pending st @ recs \<and>
    (calls \<noteq> [] \<longrightarrow> (\<exists>e. st' = Usable e)) \<and> list_all2 same_call (observed (hs_last_state hs) recs) calls \<and>
    list_all (\<lambda>r. \<not> is_boot r \<and> record_boot_id r = hs_boot_id hs) recs"
  using assms
proof (induction calls arbitrary: hs content st rq)
  case Nil
  then show ?case by (intro exI [of _ hs] exI [of _ content] exI [of _ st] exI [of _ rq] exI [of _ "[]"]) (simp add: store_run_def)
next
  case (Cons call calls)
  obtain t cap state where c: "call = (t, cap, state)" by (cases call)
  have w: "op_writable sd (hs_boot_id hs) (Op_sample None t cap state)" using Cons.prems(5) by (simp add: c sample_op_def)
  then have "state_eq state state" using writable_state_refl by fastforce
  moreover have "bound_at_most rq t" using Cons.prems(7) by (simp add: c)
  ultimately obtain hs1 content1 e r where s: "store_step sd (Op_sample None t cap state) (hs, content) = (hs1, content1)"
      "scanned sd content1 (Usable e, bounded_at t rq)" "in_epoch hs1 (Usable e)" "hs_last_timestamp hs1 = Some t"
      "\<not> hs_poisoned hs1" "hs_boot_id hs1 = hs_boot_id hs" "ep_records e = pending st @ [r]"
      "\<forall>rs. \<exists>call'. observed (hs_last_state hs) (r # rs) = call' # observed (hs_last_state hs1) rs \<and> same_call call' (t, cap, state)"
      "\<not> is_boot r" "record_boot_id r = hs_boot_id hs"
    using append_sample_step [OF Cons.prems(1-4) w] by metis
  have pre: "hs_last_timestamp hs1 = rp_bound (bounded_at t rq)" "list_all (\<lambda>call. op_writable sd (hs_boot_id hs1) (sample_op call)) calls"
      "sorted (map fst calls)" "\<forall>call \<in> set calls. bound_at_most (bounded_at t rq) (fst call)"
    using Cons.prems(5,6) s(4,6) by (auto simp: c bound_at_most_def)
  obtain hs' content' st' rq' recs where k: "store_run sd (map sample_op calls) (hs1, content1) = (hs', content')" "\<not> hs_poisoned hs'"
      "scanned sd content' (st', rq')" "rp_records rq' = rp_records (bounded_at t rq)" "pending st' = pending (Usable e) @ recs"
      "calls \<noteq> [] \<longrightarrow> (\<exists>e. st' = Usable e)" "list_all2 same_call (observed (hs_last_state hs1) recs) calls"
      "list_all (\<lambda>r. \<not> is_boot r \<and> record_boot_id r = hs_boot_id hs1) recs"
    using Cons.IH [OF s(2,3) pre(1) s(5) pre(2-4)] by (elim exE conjE) (rule that)
  obtain call' where "observed (hs_last_state hs) (r # recs) = call' # observed (hs_last_state hs1) recs" "same_call call' call"
    using s(8) c by blast
  then have "list_all2 same_call (observed (hs_last_state hs) (r # recs)) (call # calls)" using k(7) by simp
  moreover have "store_run sd (map sample_op (call # calls)) (hs, content) = (hs', content')"
    using k(1) s(1) by (simp add: store_run_def c sample_op_def)
  moreover have "\<exists>e. st' = Usable e"
  proof (cases calls)
    case Nil
    then have "content' = content1" using k(1) by (simp add: store_run_def)
    with k(3) s(2) show ?thesis by (simp add: scanned_def)
  qed (use k(6) in simp)
  ultimately show ?case
    using k(2-5,8) s(6,7,9,10) by (intro exI [of _ hs'] exI [of _ content'] exI [of _ st'] exI [of _ rq'] exI [of _ "r # recs"])
      (simp add: bounded_at_def)
qed



end
