(* ===== verification/History_Service.thy ===== *)
theory History_Service
  imports History_Rollup History_Durability
begin

section \<open>The history service (src/history.rs)\<close>

text \<open>
  The shared \<open>History\<close> object: the index, the store and its file, the retention, and the compaction
  requests between the sampler's appends, settings changes and the blocking compaction task. Every
  call is a thread of small steps. A step is one access to an atomic or one section under a lock;
  the section of the control lock is cut at each store, since others read its atomics without the
  lock. Threads interleave in any order.
\<close>

record history =
  hy_inner :: history_inner
  hy_days :: nat
  hy_dropped :: nat
  hy_pending :: bool
  hy_running :: bool
  hy_cutoff :: nat
  hy_generation :: "64 word"
  hy_control :: "64 word"
  hy_locked :: bool
  hy_boot_id :: string
  hy_store :: "store_file option"

subsection \<open>Start\<close>

definition in_memory_history :: "nat \<Rightarrow> nat \<Rightarrow> string \<Rightarrow> history" where
  "in_memory_history boot_t days boot_id = \<lparr>hy_inner = empty_inner, hy_days = days, hy_dropped = 0, hy_pending = False,
     hy_running = False, hy_cutoff = (if 0 < days then retention_cutoff boot_t days else 0), hy_generation = 0,
     hy_control = 0, hy_locked = False, hy_boot_id = boot_id, hy_store = None\<rparr>"

definition open_history :: "nat \<Rightarrow> nat \<Rightarrow> history_store \<Rightarrow> bytes \<Rightarrow> history" where
  "open_history timestamp days hs content =
     (let cutoff = (if 0 < days then Some (retention_cutoff timestamp days) else None);
          pending = (case cutoff of None \<Rightarrow> False | Some c \<Rightarrow> compaction_needed c hs);
          (rp, hs') = take_replay hs
      in (in_memory_history timestamp days (hs_boot_id hs))\<lparr>
           hy_inner := open_inner rp cutoff,
           hy_pending := pending,
           hy_cutoff := (case cutoff of None \<Rightarrow> 0 | Some c \<Rightarrow> c),
           hy_generation := of_bool pending,
           hy_control := of_bool pending,
           hy_store := Some (hs', content)\<rparr>)"

text \<open>A start whose store cannot be opened goes on without one, under a new boot id.\<close>

definition start_history ::
  "serde \<Rightarrow> open_io \<Rightarrow> nat \<Rightarrow> nat \<Rightarrow> string \<Rightarrow> string \<Rightarrow> capacity_snapshot \<Rightarrow> bytes option \<Rightarrow> bytes option \<times> history" where
  "start_history sd io timestamp days boot_id other_id cap disk =
     (case open_store sd io \<lparr>bo_timestamp = timestamp, bo_boot_id = boot_id, bo_capacity = canonical_capacity cap\<rparr> disk of
        (Some content, Ok hs) \<Rightarrow> (Some content, open_history timestamp days hs content)
      | (disk, _) \<Rightarrow> (disk, in_memory_history timestamp days other_id))"

subsection \<open>Status\<close>

record history_status =
  st_available_from :: "nat option"
  st_available_to :: "nat option"
  st_compaction_pending :: bool
  st_file_bytes :: nat
  st_persistence :: string

definition status :: "bool \<Rightarrow> bool \<Rightarrow> history \<Rightarrow> history_status" where
  "status metadata_ok append_task_failed h =
     \<lparr>st_available_from = hi_available_from (hy_inner h), st_available_to = hi_available_to (hy_inner h),
      st_compaction_pending = hy_pending h,
      st_file_bytes = (case hy_store h of None \<Rightarrow> 0 | Some sf \<Rightarrow> (case file_bytes metadata_ok sf of None \<Rightarrow> 0 | Some n \<Rightarrow> n)),
      st_persistence = (case hy_store h of
          None \<Rightarrow> ''degraded''
        | Some sf \<Rightarrow> if hs_poisoned (fst sf) \<or> append_task_failed then ''degraded'' else ''ok'')\<rparr>"

subsection \<open>Threads\<close>

text \<open>What a compaction task captured when it was started: generation, cutoff, drops.\<close>

record claim =
  cl_generation :: "64 word"
  cl_cutoff :: nat
  cl_drops :: nat

datatype ending = Ended_durable | Ended_superseded | Ended_sync_pending | Ended_other

datatype thread =
    Append_begin nat string capacity_snapshot
  | Append_index nat string capacity_snapshot "nat option"
  | Append_store nat nat "state_entry list" capacity_snapshot
  | Append_pending nat nat
  | Append_dropped nat nat
  | Forever_lock
  | Forever_generation
  | Forever_control "64 word"
  | Forever_pending
  | Retain_days nat nat
  | Retain_prune nat nat
  | Request_lock nat
  | Request_generation
  | Request_control "64 word"
  | Request_pending
  | Start_pending
  | Start_claim
  | Start_generation
  | Start_cutoff "64 word"
  | Start_dropped "64 word" nat
  | Worker_revision claim
  | Worker_compact claim "64 word"
  | Worker_install claim "64 word" replay bool
  | Worker_dropped claim
  | Worker_check claim
  | Worker_clear claim
  | Worker_recheck claim
  | Worker_days claim
  | Worker_repend claim
  | Worker_release "64 word" ending
  | Worker_newer_generation "64 word"
  | Worker_newer_days
  | Worker_newer_pending
  | Worker_again
  | Finished

record faults =
  fl_write :: write_fault
  fl_compact :: compaction_io

fun append_step :: "serde \<Rightarrow> write_fault \<Rightarrow> thread \<Rightarrow> history \<Rightarrow> (thread \<times> history) option" where
  "append_step sd fault (Append_begin t exposition cap) h =
     Some (Append_index t exposition cap (Option.bind (hy_store h) (\<lambda>sf. hs_last_timestamp (fst sf))), h)"
| "append_step sd fault (Append_index t exposition cap canonical_last) h =
     (let current = parse_exposition exposition;
          t = sample_time t (hy_inner h) canonical_last;
          (inner, expired) = append_inner (hy_boot_id h) (hy_days h) t current cap (hy_inner h)
      in Some (Append_store t (hy_days h) (canonical_state current) cap,
               h\<lparr>hy_inner := inner, hy_dropped := hy_dropped h + expired\<rparr>))"
| "append_step sd fault (Append_store t days state cap) h =
     (case hy_store h of
        None \<Rightarrow> Some (Finished, h)
      | Some sf \<Rightarrow> Some (if 0 < days then Append_pending t days else Finished,
          h\<lparr>hy_store := Some (fst (append_sample sd fault t (canonical_capacity cap) state sf))\<rparr>))"
| "append_step sd fault (Append_pending t days) h =
     Some (if hy_pending h then Request_lock (retention_cutoff t days) else Append_dropped t days, h)"
| "append_step sd fault (Append_dropped t days) h =
     Some (if COMPACT_AFTER_EXPIRED_SAMPLES < hy_dropped h then Request_lock (retention_cutoff t days) else Finished, h)"
| "append_step sd fault _ h = None"

fun retention_step :: "thread \<Rightarrow> history \<Rightarrow> (thread \<times> history) option" where
  "retention_step Forever_lock h =
     (if hy_locked h then None else Some (Forever_generation, h\<lparr>hy_locked := True, hy_days := 0\<rparr>))"
| "retention_step Forever_generation h = Some (Forever_control (hy_generation h + 1), h\<lparr>hy_generation := hy_generation h + 1\<rparr>)"
| "retention_step (Forever_control g) h = Some (Forever_pending, h\<lparr>hy_control := g\<rparr>)"
| "retention_step Forever_pending h = Some (Finished, h\<lparr>hy_pending := False, hy_locked := False\<rparr>)"
| "retention_step (Retain_days days now) h = Some (Retain_prune days now, h\<lparr>hy_days := days\<rparr>)"
| "retention_step (Retain_prune days now) h =
     (let (inner, removed) = prune_inner (retention_cutoff now days) (hy_inner h)
      in Some (if hy_store h = None then Finished else Request_lock (retention_cutoff now days),
               h\<lparr>hy_inner := inner, hy_dropped := hy_dropped h + removed\<rparr>))"
| "retention_step _ h = None"

fun request_step :: "thread \<Rightarrow> history \<Rightarrow> (thread \<times> history) option" where
  "request_step (Request_lock cutoff) h =
     (if hy_locked h then None else Some (Request_generation, h\<lparr>hy_locked := True, hy_cutoff := cutoff\<rparr>))"
| "request_step Request_generation h = Some (Request_control (hy_generation h + 1), h\<lparr>hy_generation := hy_generation h + 1\<rparr>)"
| "request_step (Request_control g) h = Some (Request_pending, h\<lparr>hy_control := g\<rparr>)"
| "request_step Request_pending h = Some (Start_pending, h\<lparr>hy_pending := True, hy_locked := False\<rparr>)"
| "request_step Start_pending h = Some (if hy_pending h then Start_claim else Finished, h)"
| "request_step Start_claim h = Some (if hy_running h then (Finished, h) else (Start_generation, h\<lparr>hy_running := True\<rparr>))"
| "request_step Start_generation h = Some (Start_cutoff (hy_generation h), h)"
| "request_step (Start_cutoff g) h = Some (Start_dropped g (hy_cutoff h), h)"
| "request_step (Start_dropped g cutoff) h =
     Some (Worker_revision \<lparr>cl_generation = g, cl_cutoff = cutoff, cl_drops = hy_dropped h\<rparr>, h)"
| "request_step _ h = None"

subsection \<open>The compaction task\<close>

definition authorized :: "claim \<Rightarrow> history \<Rightarrow> bool" where
  "authorized cl h \<longleftrightarrow> hy_control h = cl_generation cl \<and> hy_generation h = cl_generation cl \<and> hy_pending h \<and> 0 < hy_days h"

text \<open>
  The compaction holds the store lock. It takes the control lock for the authorization and keeps it
  until the rename; so it waits for that lock, unless it ends before it asks.
\<close>

definition compact_store :: "serde \<Rightarrow> compaction_io \<Rightarrow> claim \<Rightarrow> history \<Rightarrow> store_file \<Rightarrow> (store_file \<times> (unit + compaction_outcome)) option" where
  "compact_store sd io cl h sf =
     (let refused = compact_if_authorized sd io False (cl_cutoff cl) sf in
      if snd refused \<noteq> Ok Superseded then Some refused
      else if hy_locked h then None
      else Some (compact_if_authorized sd io (authorized cl h) (cl_cutoff cl) sf))"

fun after_compaction :: "claim \<Rightarrow> 64 word \<Rightarrow> store_file \<times> (unit + compaction_outcome) \<Rightarrow> thread \<times> store_file" where
  "after_compaction cl revision (sf, Ok Durable) =
     (Worker_install cl revision (fst (take_replay (fst sf))) True, snd (take_replay (fst sf)), snd sf)"
| "after_compaction cl revision (sf, Ok Committed_sync_pending) =
     (Worker_install cl revision (fst (take_replay (fst sf))) False, snd (take_replay (fst sf)), snd sf)"
| "after_compaction cl revision (sf, Ok Deferred) = (Worker_release (cl_generation cl) Ended_other, sf)"
| "after_compaction cl revision (sf, Ok Superseded) = (Worker_release (cl_generation cl) Ended_superseded, sf)"
| "after_compaction cl revision (sf, Err _) = (Worker_release (cl_generation cl) Ended_other, sf)"

fun worker_step :: "serde \<Rightarrow> compaction_io \<Rightarrow> thread \<Rightarrow> history \<Rightarrow> (thread \<times> history) option" where
  "worker_step sd io (Worker_revision cl) h = Some (Worker_compact cl (hi_revision (hy_inner h)), h)"
| "worker_step sd io (Worker_compact cl revision) h =
     (case hy_store h of
        None \<Rightarrow> None
      | Some sf \<Rightarrow>
          (case compact_store sd io cl h sf of
             None \<Rightarrow> None
           | Some r \<Rightarrow> let (th, sf) = after_compaction cl revision r in Some (th, h\<lparr>hy_store := Some sf\<rparr>)))"
| "worker_step sd io (Worker_install cl revision rp durable) h =
     Some (if durable then Worker_dropped cl else Worker_release (cl_generation cl) Ended_sync_pending,
       h\<lparr>hy_inner := install_canonical_replay_if_unchanged rp revision (Some (cl_cutoff cl)) (hy_inner h)\<rparr>)"
| "worker_step sd io (Worker_dropped cl) h = Some (Worker_check cl, h\<lparr>hy_dropped := hy_dropped h - cl_drops cl\<rparr>)"
| "worker_step sd io (Worker_check cl) h =
     Some (if hy_generation h = cl_generation cl then Worker_clear cl else Worker_release (cl_generation cl) Ended_durable, h)"
| "worker_step sd io (Worker_clear cl) h = Some (Worker_recheck cl, h\<lparr>hy_pending := False\<rparr>)"
| "worker_step sd io (Worker_recheck cl) h =
     Some (if hy_generation h \<noteq> cl_generation cl then Worker_days cl else Worker_release (cl_generation cl) Ended_durable, h)"
| "worker_step sd io (Worker_days cl) h =
     Some (if 0 < hy_days h then Worker_repend cl else Worker_release (cl_generation cl) Ended_durable, h)"
| "worker_step sd io (Worker_repend cl) h = Some (Worker_release (cl_generation cl) Ended_durable, h\<lparr>hy_pending := True\<rparr>)"
| "worker_step sd io (Worker_release g ending) h =
     Some (case ending of Ended_other \<Rightarrow> Finished | Ended_sync_pending \<Rightarrow> Worker_newer_generation g | _ \<Rightarrow> Worker_again,
       h\<lparr>hy_running := False\<rparr>)"
| "worker_step sd io (Worker_newer_generation g) h = Some (if hy_generation h \<noteq> g then Worker_newer_days else Finished, h)"
| "worker_step sd io Worker_newer_days h = Some (if 0 < hy_days h then Worker_newer_pending else Finished, h)"
| "worker_step sd io Worker_newer_pending h = Some (if hy_pending h then Worker_again else Finished, h)"
| "worker_step sd io Worker_again h = Some (if hy_pending h then Start_pending else Finished, h)"
| "worker_step sd io _ h = None"

definition thread_step :: "serde \<Rightarrow> faults \<Rightarrow> thread \<Rightarrow> history \<Rightarrow> (thread \<times> history) option" where
  "thread_step sd fl th h =
     (case append_step sd (fl_write fl) th h of
        Some r \<Rightarrow> Some r
      | None \<Rightarrow>
          (case retention_step th h of
             Some r \<Rightarrow> Some r
           | None \<Rightarrow> (case request_step th h of Some r \<Rightarrow> Some r | None \<Rightarrow> worker_step sd (fl_compact fl) th h)))"

subsection \<open>Interleavings\<close>

datatype history_call = Call_append nat string capacity_snapshot | Call_retention nat nat

fun thread_of_call :: "history_call \<Rightarrow> thread" where
  "thread_of_call (Call_append t exposition cap) = Append_begin t exposition cap"
| "thread_of_call (Call_retention days now) = (if days = 0 then Forever_lock else Retain_days days now)"

datatype history_act = Call history_call | Run nat faults

text \<open>A run also records what was committed: generation, cutoff, and whether durably.\<close>

type_synonym commit = "64 word \<times> nat \<times> bool"
type_synonym service = "history \<times> thread list \<times> commit list"

fun commit_of :: "thread \<Rightarrow> thread \<Rightarrow> commit list" where
  "commit_of (Worker_compact cl _) (Worker_install _ _ _ durable) = [(cl_generation cl, cl_cutoff cl, durable)]"
| "commit_of _ _ = []"

fun service_step :: "serde \<Rightarrow> history_act \<Rightarrow> service \<Rightarrow> service option" where
  "service_step sd (Call c) (h, ths, log) = Some (h, ths @ [thread_of_call c], log)"
| "service_step sd (Run i fl) (h, ths, log) =
     (if i < length ths then
        (case thread_step sd fl (ths ! i) h of
           None \<Rightarrow> None
         | Some (th, h) \<Rightarrow> Some (h, ths[i := th], log @ commit_of (ths ! i) th))
      else None)"

fun service_run :: "serde \<Rightarrow> history_act list \<Rightarrow> service \<Rightarrow> service option" where
  "service_run sd [] s = Some s"
| "service_run sd (a # as) s = Option.bind (service_step sd a s) (service_run sd as)"

definition at_rest :: "thread list \<Rightarrow> bool" where
  "at_rest ths \<longleftrightarrow> list_all (\<lambda>th. th = Finished) ths"

end
