(* ===== verification/History_Runs.thy ===== *)
theory History_Runs
  imports History_Service
begin

section \<open>Runs of the history service\<close>

text \<open>
  Every interleaving of appends, settings changes and compactions: the index stays sorted, so the
  rollup theorems apply to it; the control flags stay consistent; compactions serve the newest
  request and none is lost; and the threads come to rest.
\<close>

subsection \<open>The index stays sorted\<close>

lemma last_option_last: "last_option xs = (if xs = [] then None else Some (last xs))"
  by (cases xs rule: rev_cases) (simp_all add: last_option_def head_option_def)

lemma index_ok_set_available: "sorted (map ip_t (hi_points inner)) \<Longrightarrow> index_ok (set_available inner)"
  by (simp add: index_ok_def set_available_def)

lemma index_okD: "index_ok inner \<Longrightarrow> p \<in> set (hi_points inner) \<Longrightarrow> \<exists>x. hi_available_to inner = Some x \<and> ip_t p \<le> x"
proof -
  assume i: "index_ok inner" and p: "p \<in> set (hi_points inner)"
  then have "hi_available_to inner = map_option ip_t (last_option (hi_points inner))"
    by (metis index_ok_def set_available_def history_inner.select_convs(4) history_inner.surjective history_inner.update_convs(3,4))
  moreover have "ip_t p \<le> ip_t (last (hi_points inner))"
    using i p by (cases "hi_points inner" rule: rev_cases) (auto simp: index_ok_def sorted_append)
  ultimately show ?thesis using p by (auto simp: last_option_last)
qed

lemma sample_time_bounds: "t \<le> sample_time t inner c" "hi_available_to inner = Some x \<Longrightarrow> x \<le> sample_time t inner c"
    "c = Some y \<Longrightarrow> y \<le> sample_time t inner c"
  by (cases "hi_available_to inner"; cases c; simp add: sample_time_def List.map_filter_def)+

lemma sorted_filtered: "sorted (map f xs) \<Longrightarrow> sorted (map f (filter P xs))"
  by (induction xs) auto

lemma append_inner_index_ok:
  assumes "index_ok inner"
  shows "index_ok (fst (append_inner b days (sample_time t inner c) cur cap inner))"
proof -
  let ?t = "sample_time t inner c"
  have "\<forall>p \<in> set (hi_points inner). ip_t p \<le> ?t"
    using index_okD [OF assms] sample_time_bounds(2) [of inner] by (metis le_trans)
  moreover have "sorted (map ip_t (hi_points inner))" using assms by (simp add: index_ok_def)
  ultimately have "sorted (map ip_t (filter P (hi_points inner)) @ [?t])" for P
    using sorted_filtered [of ip_t "hi_points inner" P] by (auto simp: sorted_append)
  from this [where P = "\<lambda>p. True"] this [where P = "\<lambda>p. retention_cutoff ?t days \<le> ip_t p"] show ?thesis
    by (simp add: append_inner_def Let_def index_ok_def set_available_def retain_from_def)
qed

lemma prune_inner_index_ok: "index_ok inner \<Longrightarrow> index_ok (fst (prune_inner cutoff inner))"
  using sorted_filtered [of ip_t "hi_points inner" "\<lambda>p. cutoff \<le> ip_t p"]
  by (simp add: prune_inner_def Let_def index_ok_def set_available_def retain_from_def)

lemma install_index_ok: "index_ok inner \<Longrightarrow> index_ok (install_canonical_replay_if_unchanged rp r c inner)"
proof -
  assume "index_ok inner"
  then have "sorted (map ip_t (hi_points inner))" "map_option ip_t (head_option (hi_points inner)) = hi_available_from inner"
    "map_option ip_t (last_option (hi_points inner)) = hi_available_to inner"
    unfolding index_ok_def set_available_def
    by (metis history_inner.select_convs(3,4) history_inner.surjective history_inner.update_convs(3,4))+
  then show ?thesis
    by (auto simp: install_canonical_replay_if_unchanged_def index_ok_def set_available_def split: prod.split)
qed

lemma ingest_points:
  "hi_points (ingest_canonical_sample t b cap cur cutoff inner) = hi_points inner \<or>
   (\<exists>q. ip_t q = t \<and> hi_points (ingest_canonical_sample t b cap cur cutoff inner) = hi_points inner @ [q])"
  by (simp add: ingest_canonical_sample_def Let_def)

lemma enrich_record_points:
  "hi_points (en_inner (enrich_record cutoff r x)) = hi_points (en_inner x) \<or>
   (\<exists>q. ip_t q = record_timestamp r \<and> hi_points (en_inner (enrich_record cutoff r x)) = hi_points (en_inner x) @ [q])"
  using ingest_points by (cases r) (auto simp: enrich_record_def enrich_sample_def Let_def split: option.split)

lemma enrich_sorted:
  assumes "sorted (map record_timestamp rs)" "sorted (map ip_t (hi_points (en_inner x)))"
    and "\<forall>p \<in> set (hi_points (en_inner x)). \<forall>r \<in> set rs. ip_t p \<le> record_timestamp r"
  shows "sorted (map ip_t (hi_points (en_inner (fold (enrich_record cutoff) rs x))))"
  using assms
proof (induction rs arbitrary: x)
  case (Cons r rs)
  from enrich_record_points [of cutoff r x] Cons.prems
  have "sorted (map ip_t (hi_points (en_inner (enrich_record cutoff r x))))"
    "\<forall>p \<in> set (hi_points (en_inner (enrich_record cutoff r x))). \<forall>r \<in> set rs. ip_t p \<le> record_timestamp r"
    by (auto simp: sorted_append)
  with Cons.IH [of "enrich_record cutoff r x"] Cons.prems(1) show ?case by simp
qed simp

lemma open_inner_index_ok:
  assumes "sorted (map record_timestamp (rp_records rp))"
  shows "index_ok (open_inner rp cutoff)"
proof -
  have "sorted (map ip_t (hi_points (en_inner (fold (enrich_record cutoff) (rp_records rp)
      \<lparr>en_inner = empty_inner, en_boot = None, en_state = None, en_resets = []\<rparr>))))"
    using assms by (intro enrich_sorted) (simp_all add: empty_inner_def)
  then show ?thesis
    by (simp add: open_inner_def enrich_canonical_replay_def Let_def index_ok_def set_available_def)
qed

lemma empty_inner_index_ok: "index_ok empty_inner"
  by (simp add: index_ok_def empty_inner_def set_available_def head_option_def last_option_def)

text \<open>The records a store opens with are in time order.\<close>

lemma open_store_sorted:
  assumes "serde_typed sd" "open_store sd io boot disk = (Some content, Ok hs)" "writable sd (Boot boot)"
  shows "sorted (map record_timestamp (rp_records (hs_replay hs)))"
  using assms(2,3)
proof (cases rule: open_store_Ok)
  case (continued c c')
  from open_existing_Ok [OF continued(3) assms(3)] obtain rp where rp: "validate_canonical sd c = Ok rp"
    "bound_at_most rp (bo_timestamp boot)"
    "hs = fresh_store (bo_boot_id boot) (close_open_gap (bo_timestamp boot) (rp\<lparr>rp_records := rp_records rp @ [Boot boot]\<rparr>))"
    by blast
  obtain s where "scan_steps sd (Await_boot, empty_replay) s" "rp = finish_scan s" using validate_steps [OF rp(1)] .
  then have "stream_ok (rp_records rp)" "\<forall>r \<in> set (rp_records rp). within rp (record_timestamp r)"
    using finish_scan_sound [OF scan_steps_inv [OF assms(1)]] by blast+
  moreover have "record_timestamp r \<le> bo_timestamp boot" if "r \<in> set (rp_records rp)" for r
    using calculation(2) rp(2) that by (fastforce simp: within_def bound_at_most_def split: option.splits)
  ultimately show ?thesis
    by (auto simp: rp(3) fresh_store_def close_open_gap_def stream_ok_def in_order_def sorted_append split: option.splits)
next
  case published
  then show ?thesis by (simp add: fresh_store_def)
qed

lemma start_index_ok:
  assumes "serde_typed sd" "writable sd (Boot \<lparr>bo_timestamp = t, bo_boot_id = b, bo_capacity = canonical_capacity cap\<rparr>)"
  shows "index_ok (hy_inner (snd (start_history sd io t days b b' cap disk)))"
proof (cases "open_store sd io \<lparr>bo_timestamp = t, bo_boot_id = b, bo_capacity = canonical_capacity cap\<rparr> disk")
  case (Pair disk' res)
  show ?thesis
  proof (cases "\<exists>content hs. disk' = Some content \<and> res = Ok hs")
    case True
    then obtain content hs where r: "disk' = Some content" "res = Ok hs" by blast
    from open_store_sorted [OF assms(1) _ assms(2)] Pair r have "sorted (map record_timestamp (rp_records (hs_replay hs)))" by blast
    from open_inner_index_ok [OF this] show ?thesis
      by (simp add: start_history_def Pair r open_history_def take_replay_def Let_def)
  next
    case False
    then have "snd (start_history sd io t days b b' cap disk) = in_memory_history t days b'"
      by (cases disk'; cases res) (auto simp: start_history_def Pair)
    then show ?thesis by (simp add: in_memory_history_def empty_inner_index_ok)
  qed
qed

lemma thread_step_inner:
  assumes "thread_step sd fl th h = Some (th', h')" "index_ok (hy_inner h)"
  shows "index_ok (hy_inner h')"
  using assms append_inner_index_ok prune_inner_index_ok install_index_ok
  by (cases th) (auto simp: thread_step_def Let_def split: if_splits option.splits prod.splits, (metis fst_conv)+)

text \<open>
  What every thread keeps, the service keeps. \<open>keeps\<close> may speak of the commits so far; \<open>fits\<close> is
  what a thread carries along between its steps.
\<close>

locale service_contract =
  fixes keeps :: "serde \<Rightarrow> history \<Rightarrow> commit list \<Rightarrow> bool"
    and fits :: "commit list \<Rightarrow> thread \<Rightarrow> bool"
  assumes thread_keeps: "thread_step sd fl th h = Some (th', h') \<Longrightarrow> keeps sd h log \<Longrightarrow> fits log th \<Longrightarrow>
      keeps sd h' (log @ commit_of th th') \<and> fits (log @ commit_of th th') th'"
    and fits_mono: "fits log th \<Longrightarrow> fits (log @ more_log) th"
    and call_fits: "fits log (thread_of_call c)"
begin

lemma service_step_keeps:
  assumes "service_step sd a (h, ths, log) = Some (h', ths', log')" "keeps sd h log" "list_all (fits log) ths"
  shows "keeps sd h' log' \<and> list_all (fits log') ths'"
proof (cases a)
  case (Call c)
  then show ?thesis using assms by (auto simp: call_fits)
next
  case (Run i fl)
  then obtain th where i: "i < length ths" and th: "thread_step sd fl (ths ! i) h = Some (th, h')"
      and eq: "ths' = ths[i := th]" "log' = log @ commit_of (ths ! i) th"
    using assms(1) by (auto split: if_splits option.splits)
  have "fits log (ths ! i)" using assms(3) i by (simp add: list_all_length)
  from thread_keeps [OF th assms(2) this] have "keeps sd h' log'" "fits log' th" by (simp_all add: eq)
  moreover have "list_all (fits log') ths" using assms(3) fits_mono by (auto simp: eq list_all_iff)
  ultimately show ?thesis using i by (auto simp: eq(1) list_all_length nth_list_update)
qed

lemma service_run_keeps:
  assumes "service_run sd as (h, ths, log) = Some (h', ths', log')" "keeps sd h log" "list_all (fits log) ths"
  shows "keeps sd h' log' \<and> list_all (fits log') ths'"
  using assms
proof (induction "as" arbitrary: h ths log)
  case (Cons a "as")
  then obtain h1 ths1 log1 where s: "service_step sd a (h, ths, log) = Some (h1, ths1, log1)"
      "service_run sd as (h1, ths1, log1) = Some (h', ths', log')" by (auto simp: bind_eq_Some_conv)
  from Cons.IH [OF s(2)] service_step_keeps [OF s(1) Cons.prems(2,3)] show ?case by blast
qed simp

end

interpretation index_order: service_contract "\<lambda>sd h log. index_ok (hy_inner h)" "\<lambda>log th. True"
  by unfold_locales (auto dest: thread_step_inner)

subsection \<open>Counting threads\<close>

fun claimed :: "thread \<Rightarrow> bool" where
  "claimed Start_generation \<longleftrightarrow> True"
| "claimed (Start_cutoff _) \<longleftrightarrow> True"
| "claimed (Start_dropped _ _) \<longleftrightarrow> True"
| "claimed (Worker_revision _) \<longleftrightarrow> True"
| "claimed (Worker_compact _ _) \<longleftrightarrow> True"
| "claimed (Worker_install _ _ _ _) \<longleftrightarrow> True"
| "claimed (Worker_dropped _) \<longleftrightarrow> True"
| "claimed (Worker_check _) \<longleftrightarrow> True"
| "claimed (Worker_clear _) \<longleftrightarrow> True"
| "claimed (Worker_recheck _) \<longleftrightarrow> True"
| "claimed (Worker_days _) \<longleftrightarrow> True"
| "claimed (Worker_repend _) \<longleftrightarrow> True"
| "claimed (Worker_release _ _) \<longleftrightarrow> True"
| "claimed _ \<longleftrightarrow> False"

fun in_section :: "thread \<Rightarrow> bool" where
  "in_section Forever_generation \<longleftrightarrow> True"
| "in_section (Forever_control _) \<longleftrightarrow> True"
| "in_section Forever_pending \<longleftrightarrow> True"
| "in_section Request_generation \<longleftrightarrow> True"
| "in_section (Request_control _) \<longleftrightarrow> True"
| "in_section Request_pending \<longleftrightarrow> True"
| "in_section _ \<longleftrightarrow> False"

abbreviation count_threads :: "(thread \<Rightarrow> bool) \<Rightarrow> thread list \<Rightarrow> nat" where
  "count_threads P ths \<equiv> length (filter P ths)"

lemma count_update:
  "i < length ths \<Longrightarrow> count_threads P (ths[i := th]) + of_bool (P (ths ! i)) = count_threads P ths + of_bool (P th)"
proof (induction ths arbitrary: i)
  case (Cons x ths)
  show ?case
  proof (cases i)
    case (Suc j)
    with Cons.IH [of j] Cons.prems show ?thesis by simp
  qed simp
qed simp

lemma count_one:
  "count_threads P ths \<le> 1 \<Longrightarrow> i < length ths \<Longrightarrow> j < length ths \<Longrightarrow> P (ths ! i) \<Longrightarrow> P (ths ! j) \<Longrightarrow> i = j"
proof (rule ccontr)
  assume c: "count_threads P ths \<le> 1" "i < length ths" "j < length ths" "P (ths ! i)" "P (ths ! j)" "i \<noteq> j"
  have "card {i, j} \<le> card {k. k < length ths \<and> P (ths ! k)}" using c by (intro card_mono) auto
  with c show False by (simp add: length_filter_conv_card)
qed

lemma set_update_cases: "x \<in> set (ths[i := th]) \<Longrightarrow> x = th \<or> x \<in> set ths"
  using set_update_subset_insert by fastforce

lemma set_update_other: "x \<in> set ths \<Longrightarrow> i < length ths \<Longrightarrow> x \<noteq> ths ! i \<Longrightarrow> x \<in> set (ths[i := th])"
  by (metis in_set_conv_nth length_list_update nth_list_update_neq)

definition counts_ok :: "service \<Rightarrow> bool" where
  "counts_ok s \<longleftrightarrow> (case s of (h, ths, log) \<Rightarrow>
     count_threads claimed ths = of_bool (hy_running h) \<and> count_threads in_section ths = of_bool (hy_locked h))"

lemma commit_of_shape: "commit_of a b = (case a of Worker_compact cl _ \<Rightarrow>
    (case b of Worker_install _ _ _ d \<Rightarrow> [(cl_generation cl, cl_cutoff cl, d)] | _ \<Rightarrow> []) | _ \<Rightarrow> [])"
  by (cases a; cases b) simp_all

lemma after_compaction_thread:
  "after_compaction cl r q = (th, sf) \<Longrightarrow>
     (\<exists>rp d. th = Worker_install cl r rp d) \<or> th = Worker_release (cl_generation cl) Ended_other \<or>
     th = Worker_release (cl_generation cl) Ended_superseded"
  by (cases "(cl, r, q)" rule: after_compaction.cases) auto

lemma service_stepE:
  assumes "service_step sd (Run i fl) (h, ths, log) = Some (h', ths', log')"
  obtains th' where "i < length ths" "thread_step sd fl (ths ! i) h = Some (th', h')" "ths' = ths[i := th']"
    "log' = log @ commit_of (ths ! i) th'"
  using assms by (auto split: if_splits option.splits)

lemma thread_step_flags:
  assumes "thread_step sd fl th h = Some (th', h')"
  shows "of_bool (claimed th') + (of_bool (hy_running h) :: nat) = of_bool (claimed th) + of_bool (hy_running h') \<or>
      (claimed th \<and> \<not> claimed th' \<and> \<not> hy_running h')"
    and "(in_section th \<longrightarrow> hy_locked h \<longrightarrow> hy_locked h' \<longrightarrow> in_section th') \<and> (in_section th' \<and> \<not> in_section th \<longrightarrow> \<not> hy_locked h \<and> hy_locked h') \<and>
      (\<not> in_section th \<and> \<not> in_section th' \<longrightarrow> hy_locked h' = hy_locked h) \<and> (in_section th \<and> \<not> in_section th' \<longrightarrow> \<not> hy_locked h') \<and>
      (in_section th \<and> in_section th' \<longrightarrow> hy_locked h' = hy_locked h)"
  using assms
  by (cases th; force simp: thread_step_def Let_def split: if_splits option.splits prod.splits ending.splits dest!: after_compaction_thread)+

lemma counts_ok_run:
  assumes "service_step sd (Run i fl) (h, ths, log) = Some (h', ths', log')" "counts_ok (h, ths, log)"
  shows "counts_ok (h', ths', log')"
proof -
  obtain th' where s: "i < length ths" "thread_step sd fl (ths ! i) h = Some (th', h')" "ths' = ths[i := th']"
    using service_stepE [OF assms(1)] by metis
  have pos: "P (ths ! i) \<Longrightarrow> 0 < count_threads P ths" for P using s(1) by (auto simp: filter_empty_conv)
  show ?thesis
    using assms(2) thread_step_flags [OF s(2)] count_update [OF s(1), of claimed th'] count_update [OF s(1), of in_section th']
      pos [of claimed] pos [of in_section]
    unfolding counts_ok_def s(3) prod.case
    by (cases "claimed (ths ! i)"; cases "claimed th'"; cases "in_section (ths ! i)"; cases "in_section th'") (auto split: if_splits)
qed

subsection \<open>Generations\<close>

text \<open>The generation a thread has captured, the request it captured, and the claim it committed durably.\<close>

fun captured_generation :: "thread \<Rightarrow> 64 word option" where
  "captured_generation (Start_cutoff g) = Some g"
| "captured_generation (Start_dropped g _) = Some g"
| "captured_generation (Worker_revision cl) = Some (cl_generation cl)"
| "captured_generation (Worker_compact cl _) = Some (cl_generation cl)"
| "captured_generation (Worker_install cl _ _ _) = Some (cl_generation cl)"
| "captured_generation (Worker_dropped cl) = Some (cl_generation cl)"
| "captured_generation (Worker_check cl) = Some (cl_generation cl)"
| "captured_generation (Worker_clear cl) = Some (cl_generation cl)"
| "captured_generation (Worker_recheck cl) = Some (cl_generation cl)"
| "captured_generation _ = None"

fun captured_request :: "thread \<Rightarrow> (64 word \<times> nat) option" where
  "captured_request (Start_dropped g c) = Some (g, c)"
| "captured_request (Worker_revision cl) = Some (cl_generation cl, cl_cutoff cl)"
| "captured_request (Worker_compact cl _) = Some (cl_generation cl, cl_cutoff cl)"
| "captured_request (Worker_install cl _ _ _) = Some (cl_generation cl, cl_cutoff cl)"
| "captured_request (Worker_dropped cl) = Some (cl_generation cl, cl_cutoff cl)"
| "captured_request (Worker_check cl) = Some (cl_generation cl, cl_cutoff cl)"
| "captured_request (Worker_clear cl) = Some (cl_generation cl, cl_cutoff cl)"
| "captured_request (Worker_recheck cl) = Some (cl_generation cl, cl_cutoff cl)"
| "captured_request _ = None"

fun committed_request :: "thread \<Rightarrow> (64 word \<times> nat) option" where
  "committed_request (Worker_install cl _ _ True) = Some (cl_generation cl, cl_cutoff cl)"
| "committed_request (Worker_dropped cl) = Some (cl_generation cl, cl_cutoff cl)"
| "committed_request (Worker_check cl) = Some (cl_generation cl, cl_cutoff cl)"
| "committed_request (Worker_clear cl) = Some (cl_generation cl, cl_cutoff cl)"
| "committed_request (Worker_recheck cl) = Some (cl_generation cl, cl_cutoff cl)"
| "committed_request _ = None"

text \<open>After \<open>n\<close> steps the counter has been raised at most \<open>n\<close> times, and captured values are not ahead of it.\<close>

definition generations_ok :: "nat \<Rightarrow> service \<Rightarrow> bool" where
  "generations_ok n s \<longleftrightarrow> (case s of (h, ths, log) \<Rightarrow>
     \<exists>m \<le> n. hy_generation h = of_nat m \<and> (\<forall>th \<in> set ths. \<forall>g. captured_generation th = Some g \<longrightarrow> (\<exists>j \<le> m. g = of_nat j)))"

lemma thread_step_generation:
  assumes "thread_step sd fl th h = Some (th', h')"
  shows "(hy_generation h' = hy_generation h \<and> (captured_generation th' = None \<or> captured_generation th' = captured_generation th \<or>
      captured_generation th' = Some (hy_generation h))) \<or>
    ((th = Request_generation \<or> th = Forever_generation) \<and> hy_generation h' = hy_generation h + 1 \<and> captured_generation th' = None)"
  using assms
  by (cases th) (auto simp: thread_step_def Let_def split: if_splits option.splits prod.splits ending.splits dest!: after_compaction_thread)

lemma generations_ok_run:
  assumes "service_step sd (Run i fl) (h, ths, log) = Some (h', ths', log')" "generations_ok n (h, ths, log)"
  shows "generations_ok (Suc n) (h', ths', log')"
proof -
  obtain th' where s: "i < length ths" "thread_step sd fl (ths ! i) h = Some (th', h')" "ths' = ths[i := th']"
    using service_stepE [OF assms(1)] by metis
  obtain m where m: "m \<le> n" "hy_generation h = of_nat m"
      "\<And>th g. th \<in> set ths \<Longrightarrow> captured_generation th = Some g \<Longrightarrow> \<exists>j \<le> m. g = of_nat j"
    using assms(2) by (auto simp: generations_ok_def)
  have i: "ths ! i \<in> set ths" using s(1) by simp
  from thread_step_generation [OF s(2)] show ?thesis
  proof
    assume a: "hy_generation h' = hy_generation h \<and> (captured_generation th' = None \<or> captured_generation th' = captured_generation (ths ! i) \<or>
      captured_generation th' = Some (hy_generation h))"
    have "\<exists>j \<le> m. g = of_nat j" if "th \<in> set ths'" "captured_generation th = Some g" for th g
      using a that m(2) m(3) [OF i] m(3) [of th g] set_update_cases [of th ths i th'] unfolding s(3) by auto
    moreover have "hy_generation h' = of_nat m" "m \<le> Suc n" using a m(1,2) by simp_all
    ultimately show ?thesis unfolding generations_ok_def by blast
  next
    assume a: "(ths ! i = Request_generation \<or> ths ! i = Forever_generation) \<and> hy_generation h' = hy_generation h + 1 \<and> captured_generation th' = None"
    have "\<exists>j \<le> Suc m. g = of_nat j" if "th \<in> set ths'" "captured_generation th = Some g" for th g
      using a that m(3) [of th g] set_update_cases [of th ths i th'] unfolding s(3) by (auto intro: le_SucI)
    moreover have "hy_generation h' = of_nat (Suc m)" "Suc m \<le> Suc n" using a m(1,2) by (simp_all add: add.commute)
    ultimately show ?thesis unfolding generations_ok_def by blast
  qed
qed

lemma unat_word_of_nat_64: "unat (of_nat n :: 64 word) = n mod 2 ^ 64"
  by (simp add: unat_of_nat)

lemma generations_fresh:
  assumes "generations_ok n (h, ths, log)" "Suc n < 2 ^ 64" "th \<in> set ths" "captured_generation th = Some g"
  shows "g \<noteq> hy_generation h + 1"
proof
  assume g: "g = hy_generation h + 1"
  obtain m j where m: "m \<le> n" "hy_generation h = of_nat m" "j \<le> m" "g = of_nat j"
    using assms(1,3,4) unfolding generations_ok_def prod.case by blast
  then have "(of_nat j :: 64 word) = of_nat (Suc m)" using g by (simp add: add.commute)
  then have "j mod 2 ^ 64 = Suc m mod 2 ^ 64" by (metis unat_word_of_nat_64)
  moreover have "j < 2 ^ 64" "Suc m < 2 ^ 64" using m(1,3) assms(2) by linarith+
  ultimately show False using m(3) by simp
qed

lemma generation_nonzero:
  assumes "generations_ok n (h, ths, log)" "Suc n < 2 ^ 64"
  shows "hy_generation h + 1 \<noteq> 0"
proof
  assume g: "hy_generation h + 1 = 0"
  obtain m where m: "m \<le> n" "hy_generation h = of_nat m" using assms(1) by (auto simp: generations_ok_def)
  then have "(of_nat (Suc m) :: 64 word) = 0" using g by (simp add: add.commute)
  then have "2 ^ 64 dvd Suc m" by (simp only: word_of_nat_eq_0_iff) simp
  moreover have "Suc m < 2 ^ 64" using m(1) assms(2) by linarith
  ultimately show False by (meson dvd_imp_le not_less zero_less_Suc)
qed

subsection \<open>Requests\<close>

fun forever_section :: "thread \<Rightarrow> bool" where
  "forever_section Forever_generation \<longleftrightarrow> True"
| "forever_section (Forever_control _) \<longleftrightarrow> True"
| "forever_section Forever_pending \<longleftrightarrow> True"
| "forever_section _ \<longleftrightarrow> False"

fun will_request :: "thread \<Rightarrow> bool" where
  "will_request (Retain_prune _ _) \<longleftrightarrow> True"
| "will_request (Request_lock _) \<longleftrightarrow> True"
| "will_request _ \<longleftrightarrow> False"

text \<open>Threads that will set the pending flag unless the retention is lifted first.\<close>

fun promises :: "64 word \<Rightarrow> thread \<Rightarrow> bool" where
  "promises g (Retain_prune _ _) \<longleftrightarrow> True"
| "promises g (Request_lock _) \<longleftrightarrow> True"
| "promises g Request_generation \<longleftrightarrow> True"
| "promises g (Request_control _) \<longleftrightarrow> True"
| "promises g Request_pending \<longleftrightarrow> True"
| "promises g (Worker_recheck cl) \<longleftrightarrow> cl_generation cl \<noteq> g"
| "promises g (Worker_days _) \<longleftrightarrow> True"
| "promises g (Worker_repend _) \<longleftrightarrow> True"
| "promises g _ \<longleftrightarrow> False"

definition captured_ok :: "service \<Rightarrow> bool" where
  "captured_ok s \<longleftrightarrow> (case s of (h, ths, log) \<Rightarrow> \<forall>th \<in> set ths. \<forall>c.
     captured_request th = Some (hy_generation h, c) \<longrightarrow> c = hy_cutoff h \<or> Request_generation \<in> set ths)"

definition log_ok :: "service \<Rightarrow> bool" where
  "log_ok s \<longleftrightarrow> (case s of (h, ths, log) \<Rightarrow> \<forall>th \<in> set ths. \<forall>g c. committed_request th = Some (g, c) \<longrightarrow> (g, c, True) \<in> set log)"

definition forever_ok :: "service \<Rightarrow> bool" where
  "forever_ok s \<longleftrightarrow> (case s of (h, ths, log) \<Rightarrow>
     hy_store h \<noteq> None \<and> 0 < hy_days h \<and> (\<exists>th \<in> set ths. forever_section th) \<longrightarrow> (\<exists>th \<in> set ths. will_request th))"

definition requests_ok :: "service \<Rightarrow> bool" where
  "requests_ok s \<longleftrightarrow> (case s of (h, ths, log) \<Rightarrow> hy_store h \<noteq> None \<longrightarrow>
     hy_days h = 0 \<or> hy_generation h = 0 \<or> hy_pending h \<or> (hy_generation h, hy_cutoff h, True) \<in> set log \<or>
     (\<exists>th \<in> set ths. promises (hy_generation h) th))"

definition service_ok :: "nat \<Rightarrow> service \<Rightarrow> bool" where
  "service_ok n s \<longleftrightarrow> counts_ok s \<and> generations_ok n s \<and> captured_ok s \<and> log_ok s \<and> forever_ok s \<and> requests_ok s"

lemma thread_step_store: "thread_step sd fl th h = Some (th', h') \<Longrightarrow> hy_store h' = None \<longleftrightarrow> hy_store h = None"
  by (cases th) (auto simp: thread_step_def Let_def split: if_splits option.splits prod.splits)

lemma thread_step_effects:
  assumes "thread_step sd fl th h = Some (th', h')"
  shows "hy_days h' = hy_days h \<or> hy_days h' = 0 \<or> (\<exists>d n. th' = Retain_prune d n)"
    and "hy_generation h' \<noteq> hy_generation h \<Longrightarrow> (th = Request_generation \<and> (\<exists>g. th' = Request_control g)) \<or> th = Forever_generation"
    and "hy_pending h \<Longrightarrow> \<not> hy_pending h' \<Longrightarrow> th = Forever_pending \<or> (\<exists>cl. th = Worker_clear cl \<and> th' = Worker_recheck cl)"
    and "hy_cutoff h' \<noteq> hy_cutoff h \<Longrightarrow> th' = Request_generation"
  using assms
  by (cases th; auto simp: thread_step_def Let_def split: if_splits option.splits prod.splits dest!: after_compaction_thread)+

lemma thread_step_promises:
  assumes "thread_step sd fl th h = Some (th', h')"
  shows "promises (hy_generation h) th \<Longrightarrow> hy_store h \<noteq> None \<Longrightarrow> promises (hy_generation h') th' \<or> hy_pending h' \<or> hy_days h' = 0"
    and "will_request th \<Longrightarrow> hy_store h \<noteq> None \<Longrightarrow> will_request th' \<or> th' = Request_generation"
  using assms
  by (cases th; auto simp: thread_step_def Let_def split: if_splits prod.splits)+

lemma committed_install [simp]:
  "committed_request (Worker_install cl r rp d) = (if d then Some (cl_generation cl, cl_cutoff cl) else None)"
  by (cases d) simp_all

lemma thread_step_committed:
  assumes "thread_step sd fl th h = Some (th', h')" "committed_request th' = Some (g, c)"
  shows "committed_request th = Some (g, c) \<or> (g, c, True) \<in> set (commit_of th th')"
proof (cases "\<exists>cl r. th = Worker_compact cl r")
  case True
  then obtain cl r where th: "th = Worker_compact cl r" by blast
  then obtain q sf where "after_compaction cl r q = (th', sf)"
    using assms(1) by (auto simp: thread_step_def split: option.splits prod.splits)
  with assms(2) th show ?thesis by (auto dest!: after_compaction_thread split: if_splits)
next
  case False
  with assms show ?thesis
    by (cases th; simp add: thread_step_def Let_def split: if_splits option.splits prod.splits ending.splits; auto)
qed

lemma thread_classes:
  "will_request th \<Longrightarrow> \<not> in_section th \<and> promises g th" "forever_section th \<Longrightarrow> in_section th"
  by (cases th; simp)+

lemma thread_step_forever:
  assumes "thread_step sd fl th h = Some (th', h')"
  shows "forever_section th' \<Longrightarrow> forever_section th \<or> hy_days h' = 0"
    and "forever_section th \<Longrightarrow> hy_days h' = hy_days h \<and> \<not> will_request th \<and> \<not> promises g th"
    and "th = Worker_clear cl \<Longrightarrow> hy_generation h' = hy_generation h \<and> hy_cutoff h' = hy_cutoff h"
  using assms
  by (cases th; auto simp: thread_step_def Let_def split: if_splits option.splits prod.splits ending.splits dest!: after_compaction_thread)+

lemma thread_step_captured:
  assumes "thread_step sd fl th h = Some (th', h')" "captured_request th' = Some (g, c)"
  shows "hy_generation h' = hy_generation h \<and> hy_cutoff h' = hy_cutoff h \<and> (captured_request th = Some (g, c) \<or> c = hy_cutoff h)"
  using assms
  by (cases th) (auto simp: thread_step_def Let_def split: if_splits option.splits prod.splits ending.splits dest!: after_compaction_thread)

lemma captured_request_generation: "captured_request th = Some (g, c) \<Longrightarrow> captured_generation th = Some g"
  by (cases th) auto

lemma captured_ok_run:
  assumes "service_step sd (Run i fl) (h, ths, log) = Some (h', ths', log')" "captured_ok (h, ths, log)"
    and "generations_ok n (h, ths, log)" "Suc n < 2 ^ 64"
  shows "captured_ok (h', ths', log')"
proof -
  obtain th' where s: "i < length ths" "thread_step sd fl (ths ! i) h = Some (th', h')" "ths' = ths[i := th']"
    using service_stepE [OF assms(1)] by metis
  have i: "ths ! i \<in> set ths" "th' \<in> set ths'" using s(1,3) by (simp_all add: set_update_memI)
  have inv: "c = hy_cutoff h \<or> Request_generation \<in> set ths" if "th \<in> set ths" "captured_request th = Some (hy_generation h, c)" for th c
    using assms(2) that unfolding captured_ok_def prod.case by blast
  have keep: "Request_generation \<in> set ths'" if "Request_generation \<in> set ths" "hy_generation h' = hy_generation h"
  proof -
    have "ths ! i \<noteq> Request_generation" using that(2) s(2) by (auto simp: thread_step_def)
    then show ?thesis unfolding s(3) using set_update_other [OF that(1) s(1)] by simp
  qed
  have "c = hy_cutoff h' \<or> Request_generation \<in> set ths'" if th: "th \<in> set ths'" "captured_request th = Some (hy_generation h', c)" for th c
  proof (cases "th = th'")
    case True
    then have "captured_request th' = Some (hy_generation h', c)" using th(2) by simp
    from thread_step_captured [OF s(2) this]
    have c: "hy_generation h' = hy_generation h" "hy_cutoff h' = hy_cutoff h"
      "captured_request (ths ! i) = Some (hy_generation h, c) \<or> c = hy_cutoff h" by metis+
    from c(3) show ?thesis
    proof
      assume "captured_request (ths ! i) = Some (hy_generation h, c)"
      then have "c = hy_cutoff h \<or> Request_generation \<in> set ths" by (rule inv [OF i(1)])
      then show ?thesis unfolding c(2) using keep [OF _ c(1)] by blast
    qed (simp add: c(2))
  next
    case False
    then have th0: "th \<in> set ths" using set_update_cases [of th ths i th'] th(1) unfolding s(3) by simp
    show ?thesis
    proof (cases "hy_generation h' = hy_generation h")
      case True
      then have "c = hy_cutoff h \<or> Request_generation \<in> set ths" using inv [OF th0] th(2) by simp
      then show ?thesis
      proof
        assume c: "c = hy_cutoff h"
        show ?thesis
        proof (cases "hy_cutoff h' = hy_cutoff h")
          case False
          then have "th' = Request_generation" by (rule thread_step_effects(4) [OF s(2)])
          with i(2) show ?thesis by simp
        qed (use c in simp)
      qed (use True keep in simp)
    next
      case False
      then have "hy_generation h' = hy_generation h + 1" using thread_step_generation [OF s(2)] by blast
      with generations_fresh [OF assms(3,4) th0 captured_request_generation [OF th(2)]] show ?thesis by simp
    qed
  qed
  then show ?thesis unfolding captured_ok_def prod.case by blast
qed

lemma log_ok_run:
  assumes "service_step sd (Run i fl) (h, ths, log) = Some (h', ths', log')" "log_ok (h, ths, log)"
  shows "log_ok (h', ths', log')"
proof -
  obtain th' where s: "i < length ths" "thread_step sd fl (ths ! i) h = Some (th', h')" "ths' = ths[i := th']"
      "log' = log @ commit_of (ths ! i) th'"
    using service_stepE [OF assms(1)] by metis
  have "(g, c, True) \<in> set log'" if "committed_request th' = Some (g, c)" for g c
  proof -
    have "committed_request (ths ! i) = Some (g, c) \<or> (g, c, True) \<in> set (commit_of (ths ! i) th')"
      using thread_step_committed [OF s(2) that] .
    moreover have "ths ! i \<in> set ths" using s(1) by simp
    ultimately show ?thesis using assms(2) s(4) by (auto simp: log_ok_def)
  qed
  moreover have "(g, c, True) \<in> set log'" if "th \<in> set ths" "committed_request th = Some (g, c)" for th g c
    using assms(2) that s(4) by (auto simp: log_ok_def)
  ultimately show ?thesis unfolding log_ok_def s(3) by (auto dest!: set_update_cases)
qed

lemma forever_ok_run:
  assumes "service_step sd (Run i fl) (h, ths, log) = Some (h', ths', log')" "forever_ok (h, ths, log)" "counts_ok (h, ths, log)"
  shows "forever_ok (h', ths', log')"
proof -
  obtain th' where s: "i < length ths" "thread_step sd fl (ths ! i) h = Some (th', h')" "ths' = ths[i := th']"
    using service_stepE [OF assms(1)] by metis
  have i: "ths ! i \<in> set ths" "th' \<in> set ths'" using s(1,3) by (simp_all add: set_update_memI)
  have "\<exists>th \<in> set ths'. will_request th"
    if a: "hy_store h' \<noteq> None" "0 < hy_days h'" "th \<in> set ths'" "forever_section th" for th
  proof -
    have st: "hy_store h \<noteq> None" using a(1) thread_step_store [OF s(2)] by simp
    obtain th0 where th0: "th0 \<in> set ths" "forever_section th0"
      using a(2-4) thread_step_forever(1) [OF s(2)] set_update_cases [of th ths i th'] i(1) unfolding s(3) by auto
    show ?thesis
    proof (cases "\<exists>d n. th' = Retain_prune d n")
      case True
      with i(2) show ?thesis by force
    next
      case False
      then have "0 < hy_days h" using thread_step_effects(1) [OF s(2)] a(2) by auto
      then obtain w where w: "w \<in> set ths" "will_request w" using assms(2) st th0 by (auto simp: forever_ok_def)
      show ?thesis
      proof (cases "w = ths ! i")
        case True
        then have "will_request th' \<or> th' = Request_generation" using thread_step_promises(2) [OF s(2)] w(2) st by simp
        then show ?thesis
        proof
          assume r: "th' = Request_generation"
          have "in_section th0" using th0(2) by (rule thread_classes(2))
          then have "hy_locked h" using th0(1) assms(3) by (cases "hy_locked h") (auto simp: counts_ok_def filter_empty_conv)
          moreover have "\<not> in_section (ths ! i)" using True w(2) thread_classes(1) by blast
          ultimately have False using thread_step_flags(2) [OF s(2)] r by simp
          then show ?thesis ..
        qed (use i(2) in blast)
      next
        case False
        with w s(1) show ?thesis unfolding s(3) by (meson set_update_other)
      qed
    qed
  qed
  then show ?thesis by (auto simp: forever_ok_def)
qed

lemma requests_ok_run:
  assumes "service_step sd (Run i fl) (h, ths, log) = Some (h', ths', log')"
    and "service_ok n (h, ths, log)" "Suc n < 2 ^ 64"
  shows "requests_ok (h', ths', log')"
proof (cases "hy_store h' = None")
  case False
  obtain th' where s: "i < length ths" "thread_step sd fl (ths ! i) h = Some (th', h')" "ths' = ths[i := th']"
      "log' = log @ commit_of (ths ! i) th'"
    using service_stepE [OF assms(1)] by metis
  have i: "ths ! i \<in> set ths" "th' \<in> set ths'" using s(1,3) by (simp_all add: set_update_memI)
  note inv = assms(2) [unfolded service_ok_def]
  have st: "hy_store h \<noteq> None" using False thread_step_store [OF s(2)] by simp
  note e = thread_step_effects [OF s(2)]
  let ?goal = "hy_days h' = 0 \<or> hy_generation h' = 0 \<or> hy_pending h' \<or> (hy_generation h', hy_cutoff h', True) \<in> set log' \<or>
     (\<exists>th \<in> set ths'. promises (hy_generation h') th)"
  have promise: ?goal if w: "w \<in> set ths" "promises (hy_generation h) w" for w
  proof (cases "w = ths ! i")
    case True
    with thread_step_promises(1) [OF s(2)] w(2) st i(2) show ?thesis by blast
  next
    case False
    then have w': "w \<in> set ths'" using w(1) s(1,3) set_update_other by simp
    have "promises (hy_generation h') w"
    proof (cases "hy_generation h' = hy_generation h")
      case False
      then have g: "hy_generation h' = hy_generation h + 1" using thread_step_generation [OF s(2)] by auto
      have "captured_generation w = Some x \<Longrightarrow> x \<noteq> hy_generation h'" for x
        using generations_fresh [OF _ assms(3) w(1)] inv g by auto
      then show ?thesis using w(2) by (cases w) simp_all
    qed (use w(2) in simp)
    with w' show ?thesis by blast
  qed
  have forever: ?goal if fs: "forever_section (ths ! i)"
  proof (cases "hy_days h = 0")
    case True
    with thread_step_forever(2) [OF s(2) fs] show ?thesis by simp
  next
    case False
    moreover have "forever_ok (h, ths, log)" using inv by blast
    ultimately obtain w where w: "w \<in> set ths" "will_request w" using st fs i(1) unfolding forever_ok_def prod.case by blast
    show ?thesis using thread_classes(1) [OF w(2)] by (intro promise [OF w(1)]) blast
  qed
  have new: ?goal if "promises (hy_generation h') th'" using that i(2) by blast
  have raised: ?goal if "hy_generation h' \<noteq> hy_generation h"
    using e(2) [OF that] forever new by (auto simp: forever_section.simps)
  from inv st consider "hy_days h = 0" | "hy_generation h = 0" | "hy_pending h"
    | "(hy_generation h, hy_cutoff h, True) \<in> set log" | w where "w \<in> set ths" "promises (hy_generation h) w"
    by (auto simp: requests_ok_def)
  then have ?goal
  proof cases
    case 1
    with e(1) new show ?thesis by (metis promises.simps(1))
  next
    case 2
    with raised show ?thesis by metis
  next
    case 3
    show ?thesis
    proof (cases "hy_pending h'")
      case False
      from e(3) [OF 3 False] show ?thesis
      proof
        assume "\<exists>cl. ths ! i = Worker_clear cl \<and> th' = Worker_recheck cl"
        then obtain cl where cl: "ths ! i = Worker_clear cl" "th' = Worker_recheck cl" by blast
        with thread_step_forever(3) [OF s(2)] have same: "hy_generation h' = hy_generation h" "hy_cutoff h' = hy_cutoff h" by auto
        show ?thesis
        proof (cases "cl_generation cl = hy_generation h")
          case True
          have "(cl_generation cl, cl_cutoff cl, True) \<in> set log" using inv i(1) cl(1) by (fastforce simp: log_ok_def)
          moreover have "cl_cutoff cl = hy_cutoff h \<or> Request_generation \<in> set ths"
            using inv i(1) cl(1) True by (fastforce simp: captured_ok_def)
          ultimately show ?thesis using promise [of Request_generation] True same s(4) by auto
        qed (use new cl(2) same in simp)
      qed (use forever in simp)
    qed simp
  next
    case 4
    show ?thesis
    proof (cases "hy_generation h' = hy_generation h \<and> hy_cutoff h' = hy_cutoff h")
      case True
      with 4 s(4) show ?thesis by simp
    next
      case False
      then show ?thesis using raised e(4) new by (metis promises.simps(3))
    qed
  next
    case 5
    then show ?thesis by (rule promise)
  qed
  then show ?thesis by (simp add: requests_ok_def)
qed (simp add: requests_ok_def)

subsection \<open>Every run\<close>

lemma call_is_inert:
  "\<not> claimed (thread_of_call c)" "\<not> in_section (thread_of_call c)" "captured_generation (thread_of_call c) = None"
  "captured_request (thread_of_call c) = None" "committed_request (thread_of_call c) = None" "\<not> forever_section (thread_of_call c)"
  by (cases c; simp)+

lemma service_ok_call:
  assumes "service_ok n (h, ths, log)"
  shows "service_ok (Suc n) (h, ths @ [thread_of_call c], log)"
  unfolding service_ok_def
proof (intro conjI)
  note inv = assms [unfolded service_ok_def]
  show "counts_ok (h, ths @ [thread_of_call c], log)" using inv call_is_inert(1,2) by (simp add: counts_ok_def)
  have "generations_ok n (h, ths, log)" using inv by blast
  then show "generations_ok (Suc n) (h, ths @ [thread_of_call c], log)"
    unfolding generations_ok_def prod.case using call_is_inert(3) by (auto intro: le_SucI)
  show "captured_ok (h, ths @ [thread_of_call c], log)" using inv call_is_inert(4) by (auto simp: captured_ok_def)
  show "log_ok (h, ths @ [thread_of_call c], log)" using inv call_is_inert(5) by (auto simp: log_ok_def)
  show "forever_ok (h, ths @ [thread_of_call c], log)" using inv call_is_inert(6) by (auto simp: forever_ok_def)
  show "requests_ok (h, ths @ [thread_of_call c], log)" using inv by (auto simp: requests_ok_def)
qed

lemma service_ok_step:
  assumes "service_step sd a s = Some s'" "service_ok n s" "Suc n < 2 ^ 64"
  shows "service_ok (Suc n) s'"
proof -
  obtain h ths log h' ths' log' where s: "s = (h, ths, log)" "s' = (h', ths', log')" by (metis prod_cases3)
  show ?thesis
  proof (cases a)
    case (Call c)
    with assms(1,2) service_ok_call show ?thesis by (auto simp: s)
  next
    case (Run i fl)
    note st = assms(1) [unfolded s Run] and inv = assms(2) [unfolded s service_ok_def]
    have "counts_ok (h', ths', log')" using counts_ok_run [OF st] inv by blast
    moreover have "generations_ok (Suc n) (h', ths', log')" using generations_ok_run [OF st] inv by blast
    moreover have "captured_ok (h', ths', log')" using captured_ok_run [OF st _ _ assms(3)] inv by blast
    moreover have "log_ok (h', ths', log')" using log_ok_run [OF st] inv by blast
    moreover have "forever_ok (h', ths', log')" using forever_ok_run [OF st] inv by blast
    moreover have "requests_ok (h', ths', log')" using requests_ok_run [OF st _ assms(3)] assms(2) s(1) by blast
    ultimately show ?thesis by (simp add: s(2) service_ok_def)
  qed
qed

lemma service_ok_run:
  "service_run sd as s = Some s' \<Longrightarrow> service_ok n s \<Longrightarrow> n + length as < 2 ^ 64 \<Longrightarrow> service_ok (n + length as) s'"
proof (induction "as" arbitrary: s n)
  case (Cons a "as")
  then obtain s1 where s1: "service_step sd a s = Some s1" "service_run sd as s1 = Some s'" by (auto simp: bind_eq_Some_conv)
  have "service_ok (Suc n) s1" using service_ok_step [OF s1(1) Cons.prems(2)] Cons.prems(3) by simp
  with Cons.IH [OF s1(2), of "Suc n"] Cons.prems(3) show ?case by simp
qed simp

definition fresh_service :: "history \<Rightarrow> service" where
  "fresh_service h = (h, [], [])"

lemma start_service_ok: "service_ok 1 (fresh_service (snd (start_history sd io t days b b' cap disk)))"
proof -
  have "service_ok 1 (fresh_service h)" if "\<not> hy_running h" "\<not> hy_locked h" "hy_generation h = of_bool (hy_pending h)" for h
    using that by (cases "hy_pending h") (auto simp: service_ok_def fresh_service_def counts_ok_def generations_ok_def captured_ok_def
        log_ok_def forever_ok_def requests_ok_def)
  then show ?thesis
    by (auto simp: start_history_def open_history_def in_memory_history_def Let_def split: prod.splits sum.splits option.splits)
qed

text \<open>
  C24: no request to shorten the file is lost. From any start, through any interleaving of appends,
  settings changes and compaction tasks, whatever fails: once all of them have come to rest no task
  is marked as running and no lock is held, and unless the retention is unlimited, the newest request
  is either still pending, for the next append to take up, or its cutoff was compacted durably.
\<close>

theorem requests_are_honoured:
  assumes "service_run sd as (fresh_service (snd (start_history sd io t days b b' cap disk))) = Some (h, ths, log)"
    and "length as < 2 ^ 64 - 1" and "at_rest ths"
  shows "\<not> hy_running h \<and> \<not> hy_locked h \<and>
    (hy_store h = None \<or> hy_days h = 0 \<or> hy_generation h = 0 \<or> hy_pending h \<or> (hy_generation h, hy_cutoff h, True) \<in> set log)"
proof -
  have "service_ok (1 + length as) (h, ths, log)"
    using service_ok_run [OF assms(1) start_service_ok] assms(2) by simp
  then have inv: "counts_ok (h, ths, log)" "requests_ok (h, ths, log)" by (simp_all add: service_ok_def)
  have rest: "th = Finished" if "th \<in> set ths" for th using assms(3) that by (auto simp: at_rest_def list_all_iff)
  have "count_threads claimed ths = 0" "count_threads in_section ths = 0"
    using rest by (force simp: filter_empty_conv)+
  with inv(1) have "\<not> hy_running h" "\<not> hy_locked h" by (simp_all add: counts_ok_def)
  moreover have "\<not> (\<exists>th \<in> set ths. promises (hy_generation h) th)" using rest by fastforce
  ultimately show ?thesis using inv(2) unfolding requests_ok_def prod.case by blast
qed

lemma compact_refused:
  "\<exists>r. compact_if_authorized sd io False c sf = (sf, r) \<and> r \<noteq> Ok Durable \<and> r \<noteq> Ok Committed_sync_pending"
  by (auto simp: compact_if_authorized_def Let_def split: option.splits sum.splits)

lemma compact_kept:
  "compact_if_authorized sd io a c sf = (sf', r) \<Longrightarrow> r \<noteq> Ok Durable \<Longrightarrow> r \<noteq> Ok Committed_sync_pending \<Longrightarrow> sf' = sf"
  by (auto simp: compact_if_authorized_def Let_def split: if_splits option.splits sum.splits)

lemma compact_thread:
  assumes "worker_step sd io (Worker_compact cl r) h = Some (th', h')"
  shows "(h' = h \<and> commit_of (Worker_compact cl r) th' = []) \<or>
    (authorized cl h \<and> \<not> hy_locked h \<and> (\<exists>d. commit_of (Worker_compact cl r) th' = [(cl_generation cl, cl_cutoff cl, d)]))"
proof -
  obtain sf res th sf' where c: "hy_store h = Some sf" "compact_store sd io cl h sf = Some res" "after_compaction cl r res = (th, sf')"
      "th' = th" "h' = h\<lparr>hy_store := Some sf'\<rparr>"
    using assms by (auto split: option.splits prod.splits)
  obtain sf1 q where res: "res = (sf1, q)" by (cases res)
  show ?thesis
  proof (cases "q = Ok Durable \<or> q = Ok Committed_sync_pending")
    case True
    then have a: "\<not> hy_locked h" "authorized cl h"
      using c(2) compact_refused [of sd io "cl_cutoff cl" sf]
      by (cases "authorized cl h"; auto simp: compact_store_def res Let_def split: if_splits)+
    have "commit_of (Worker_compact cl r) th' = [(cl_generation cl, cl_cutoff cl, q = Ok Durable)]"
      using True c(3,4) by (auto simp: res)
    with a show ?thesis by blast
  next
    case False
    obtain a where "compact_if_authorized sd io a (cl_cutoff cl) sf = (sf1, q)"
      using c(2) by (auto simp: compact_store_def res Let_def split: if_splits)
    from compact_kept [OF this] False have "sf1 = sf" by blast
    moreover have "sf' = sf1 \<and> commit_of (Worker_compact cl r) th' = []"
      using c(3,4) False by (cases "(cl, r, res)" rule: after_compaction.cases) (auto simp: res)
    ultimately show ?thesis using c(1,5) by simp
  qed
qed

text \<open>
  C23: a compaction only ever serves the newest request. Whatever the interleaving, each step either
  leaves the store alone, or is an append's write, or replaces the file, and then with the cutoff of
  the newest request, while that request is pending, the retention is limited, no other task holds
  the claim, and nobody is in the middle of filing or cancelling a request.
\<close>

theorem compactions_serve_newest_request:
  assumes "service_run sd as (fresh_service (snd (start_history sd io t days b b' cap disk))) = Some (h, ths, log)"
    and "length as < 2 ^ 64 - 1" and "service_step sd (Run i fl) (h, ths, log) = Some (h', ths', log')"
  shows "(hy_store h' = hy_store h \<and> log' = log) \<or>
    ((\<exists>u d state c. ths ! i = Append_store u d state c) \<and> log' = log) \<or>
    (\<exists>durable. log' = log @ [(hy_generation h, hy_cutoff h, durable)] \<and> hy_pending h \<and> 0 < hy_days h \<and> \<not> hy_locked h \<and>
       hy_control h = hy_generation h \<and> (\<forall>j < length ths. claimed (ths ! j) \<longrightarrow> j = i))"
proof -
  have ok: "service_ok (1 + length as) (h, ths, log)"
    using service_ok_run [OF assms(1) start_service_ok] assms(2) by simp
  then have inv: "counts_ok (h, ths, log)" "captured_ok (h, ths, log)" by (simp_all add: service_ok_def)
  obtain th' where s: "i < length ths" "thread_step sd fl (ths ! i) h = Some (th', h')" "log' = log @ commit_of (ths ! i) th'"
    using service_stepE [OF assms(3)] by metis
  show ?thesis
  proof (cases "\<exists>cl r. ths ! i = Worker_compact cl r")
    case True
    then obtain cl r where th: "ths ! i = Worker_compact cl r" by blast
    have "worker_step sd (fl_compact fl) (Worker_compact cl r) h = Some (th', h')" using s(2) by (simp add: th thread_step_def)
    from compact_thread [OF this] show ?thesis
    proof
      assume "authorized cl h \<and> \<not> hy_locked h \<and> (\<exists>d. commit_of (Worker_compact cl r) th' = [(cl_generation cl, cl_cutoff cl, d)])"
      then obtain d where d: "authorized cl h" "\<not> hy_locked h" "log' = log @ [(cl_generation cl, cl_cutoff cl, d)]" using s(3) th by auto
      have "count_threads in_section ths = 0" using inv(1) d(2) by (simp add: counts_ok_def)
      then have "Request_generation \<notin> set ths" by (auto simp: filter_empty_conv)
      moreover have "captured_request (ths ! i) = Some (hy_generation h, cl_cutoff cl)" using d(1) by (simp add: th authorized_def)
      moreover have "ths ! i \<in> set ths" using s(1) by simp
      ultimately have "cl_cutoff cl = hy_cutoff h" using inv(2) unfolding captured_ok_def prod.case by blast
      moreover have "j = i" if "j < length ths" "claimed (ths ! j)" for j
        using count_one [of claimed ths j i] that s(1) inv(1) by (simp add: counts_ok_def th)
      ultimately show ?thesis using d by (auto simp: authorized_def)
    qed (use s(3) th in simp)
  next
    case False
    then have "log' = log" using s(3) by (cases "ths ! i") simp_all
    moreover have "hy_store h' = hy_store h \<or> (\<exists>u d state c. ths ! i = Append_store u d state c)"
      using s(2) False by (cases "ths ! i") (auto simp: thread_step_def Let_def split: if_splits option.splits prod.splits)
    ultimately show ?thesis by blast
  qed
qed

end
