(* ===== verification/History_Rest.thy ===== *)
theory History_Rest
  imports History_Runs
begin

section \<open>The history service comes to rest\<close>

text \<open>
  While the retention is limited every schedule of the threads ends, and it ends with all of them
  finished. A request that is filed after the retention was lifted breaks this: its task is refused
  and started again for ever.
\<close>

subsection \<open>The control word\<close>

fun control_at :: "history \<Rightarrow> thread \<Rightarrow> bool" where
  "control_at h (Forever_control g) \<longleftrightarrow> g = hy_generation h"
| "control_at h (Request_control g) \<longleftrightarrow> g = hy_generation h"
| "control_at h Forever_pending \<longleftrightarrow> hy_control h = hy_generation h"
| "control_at h Request_pending \<longleftrightarrow> hy_control h = hy_generation h"
| "control_at h _ \<longleftrightarrow> True"

definition control_ok :: "service \<Rightarrow> bool" where
  "control_ok s \<longleftrightarrow> (case s of (h, ths, log) \<Rightarrow>
     (\<not> hy_locked h \<longrightarrow> hy_control h = hy_generation h) \<and> (\<forall>th \<in> set ths. control_at h th))"

lemma control_at_outside: "\<not> in_section th \<Longrightarrow> control_at h th"
  by (cases th) simp_all

lemma thread_step_outside:
  assumes "thread_step sd fl th h = Some (th', h')" "\<not> in_section th"
  shows "hy_control h' = hy_control h \<and> hy_generation h' = hy_generation h \<and> control_at h' th'"
  using assms
  by (cases th; auto simp: thread_step_def Let_def split: if_splits option.splits prod.splits ending.split dest!: after_compaction_thread)

lemma thread_step_section:
  assumes "thread_step sd fl th h = Some (th', h')" "control_at h th" "in_section th" "hy_locked h"
  shows "control_at h' th' \<and> (\<not> hy_locked h' \<longrightarrow> hy_control h' = hy_generation h')"
  using assms by (cases th) (auto simp: thread_step_def)

lemma control_ok_run:
  assumes "service_step sd (Run i fl) (h, ths, log) = Some (h', ths', log')" "control_ok (h, ths, log)" "counts_ok (h, ths, log)"
  shows "control_ok (h', ths', log')"
proof -
  obtain th' where s: "i < length ths" "thread_step sd fl (ths ! i) h = Some (th', h')" "ths' = ths[i := th']"
    using service_stepE [OF assms(1)] by metis
  have at: "control_at h th" if "th \<in> set ths" for th using assms(2) that by (simp add: control_ok_def)
  have i: "ths ! i \<in> set ths" using s(1) by simp
  have others: "control_at h' (ths ! j)" if j: "j < length ths" "j \<noteq> i" for j
  proof (cases "in_section (ths ! i)")
    case True
    then have "\<not> in_section (ths ! j)"
      using count_one [of in_section ths i j] j s(1) assms(3) by (cases "hy_locked h") (auto simp: counts_ok_def)
    then show ?thesis by (rule control_at_outside)
  next
    case False
    from thread_step_outside [OF s(2) False] have "hy_control h' = hy_control h" "hy_generation h' = hy_generation h" by blast+
    moreover have "control_at h (ths ! j)" using at j(1) by simp
    ultimately show ?thesis by (cases "ths ! j") simp_all
  qed
  have locked: "hy_locked h" if "in_section (ths ! i)"
    using assms(3) that i by (cases "hy_locked h") (auto simp: counts_ok_def filter_empty_conv)
  have own: "control_at h' th'" using thread_step_outside [OF s(2)] thread_step_section [OF s(2) at [OF i]] locked by blast
  have "control_at h' th" if m: "th \<in> set ths'" for th
  proof -
    obtain j where j: "j < length ths'" "ths' ! j = th" using m unfolding in_set_conv_nth by blast
    have len: "j < length ths" using j(1) by (simp add: s(3))
    show ?thesis
    proof (cases "j = i")
      case True
      with j(2) s(1) have "th = th'" by (simp add: s(3))
      with own show ?thesis by simp
    next
      case False
      with j(2) have "th = ths ! j" by (simp add: s(3))
      with others [OF len False] show ?thesis by simp
    qed
  qed
  moreover have "hy_control h' = hy_generation h'" if u: "\<not> hy_locked h'"
  proof (cases "in_section (ths ! i)")
    case True
    with thread_step_section [OF s(2) at [OF i] True locked] u show ?thesis by blast
  next
    case False
    have "\<not> hy_locked h" using thread_step_flags(2) [OF s(2)] False u by (cases "in_section th'") auto
    with assms(2) thread_step_outside [OF s(2) False] show ?thesis by (simp add: control_ok_def)
  qed
  ultimately show ?thesis by (simp add: control_ok_def)
qed

subsection \<open>A measure\<close>

text \<open>Threads that may still raise the generation; threads that will set the pending flag; work left.\<close>

fun raises :: "thread \<Rightarrow> nat" where
  "raises (Append_begin _ _ _) = 1"
| "raises (Append_index _ _ _ _) = 1"
| "raises (Append_store _ _ _ _) = 1"
| "raises (Append_pending _ _) = 1"
| "raises (Append_dropped _ _) = 1"
| "raises (Retain_days _ _) = 1"
| "raises (Retain_prune _ _) = 1"
| "raises (Request_lock _) = 1"
| "raises Request_generation = 1"
| "raises _ = 0"

fun sets_pending :: "64 word \<Rightarrow> thread \<Rightarrow> nat" where
  "sets_pending g (Request_control _) = 1"
| "sets_pending g Request_pending = 1"
| "sets_pending g (Worker_clear cl) = of_bool (cl_generation cl \<noteq> g)"
| "sets_pending g (Worker_recheck cl) = of_bool (cl_generation cl \<noteq> g)"
| "sets_pending g (Worker_days _) = 1"
| "sets_pending g (Worker_repend _) = 1"
| "sets_pending g _ = 0"

text \<open>What may follow a task that ends: a further task if the flag is set.\<close>

definition follow_up :: "bool \<Rightarrow> nat" where
  "follow_up flag = (if flag then 21 else 1)"

definition claim_follow_up :: "64 word \<Rightarrow> bool \<Rightarrow> 64 word \<Rightarrow> nat" where
  "claim_follow_up g flag captured = (if captured = g then 1 else follow_up flag)"

definition stale_follow_up :: "64 word \<Rightarrow> bool \<Rightarrow> 64 word \<Rightarrow> nat" where
  "stale_follow_up g flag captured = (if captured = g then 0 else follow_up flag)"

fun work_left :: "64 word \<Rightarrow> bool \<Rightarrow> thread \<Rightarrow> nat" where
  "work_left g p (Append_begin _ _ _) = 7"
| "work_left g p (Append_index _ _ _ _) = 6"
| "work_left g p (Append_store _ _ _ _) = 5"
| "work_left g p (Append_pending _ _) = 4"
| "work_left g p (Append_dropped _ _) = 3"
| "work_left g p (Retain_days _ _) = 4"
| "work_left g p (Retain_prune _ _) = 3"
| "work_left g p (Request_lock _) = 2"
| "work_left g p Request_generation = 1"
| "work_left g p (Request_control _) = 2"
| "work_left g p Request_pending = 1"
| "work_left g p Start_pending = (if p then 20 else 1)"
| "work_left g p Start_claim = 19"
| "work_left g p Start_generation = 18"
| "work_left g p (Start_cutoff c) = 16 + claim_follow_up g p c"
| "work_left g p (Start_dropped c _) = 15 + claim_follow_up g p c"
| "work_left g p (Worker_revision cl) = 14 + claim_follow_up g p (cl_generation cl)"
| "work_left g p (Worker_compact cl _) = 13 + claim_follow_up g p (cl_generation cl)"
| "work_left g p (Worker_install cl _ _ durable) =
     12 + (if durable then claim_follow_up g p (cl_generation cl) else stale_follow_up g p (cl_generation cl))"
| "work_left g p (Worker_dropped cl) = 11 + claim_follow_up g p (cl_generation cl)"
| "work_left g p (Worker_check cl) = 10 + claim_follow_up g p (cl_generation cl)"
| "work_left g p (Worker_clear _) = 10"
| "work_left g p (Worker_recheck _) = 8 + follow_up p"
| "work_left g p (Worker_days _) = 7 + follow_up p"
| "work_left g p (Worker_repend _) = 6 + follow_up p"
| "work_left g p (Worker_release c ending) = 5 +
     (case ending of Ended_other \<Rightarrow> 0 | Ended_sync_pending \<Rightarrow> stale_follow_up g p c | _ \<Rightarrow> follow_up p)"
| "work_left g p (Worker_newer_generation c) = 3 + stale_follow_up g p c"
| "work_left g p Worker_newer_days = 2 + follow_up p"
| "work_left g p Worker_newer_pending = 1 + follow_up p"
| "work_left g p Worker_again = follow_up p"
| "work_left g p _ = 0"

fun lifts_retention :: "thread \<Rightarrow> bool" where
  "lifts_retention Forever_lock \<longleftrightarrow> True"
| "lifts_retention Forever_generation \<longleftrightarrow> True"
| "lifts_retention (Forever_control _) \<longleftrightarrow> True"
| "lifts_retention Forever_pending \<longleftrightarrow> True"
| "lifts_retention (Retain_days days _) \<longleftrightarrow> days = 0"
| "lifts_retention _ \<longleftrightarrow> False"

lemmas follow_ups = follow_up_def claim_follow_up_def stale_follow_up_def

lemma work_left_mono: "(p \<longrightarrow> q) \<Longrightarrow> work_left g p th \<le> work_left g q th"
  by (cases th) (auto simp: follow_ups split: ending.split)

text \<open>The compaction of a fresh claim is refused only when the flag is cleared.\<close>

lemma compact_rank:
  assumes "worker_step sd io (Worker_compact cl r) h = Some (th', h')" "0 < hy_days h"
    and "\<not> hy_locked h \<longrightarrow> hy_control h = hy_generation h"
  shows "hy_generation h' = hy_generation h \<and> hy_pending h' = hy_pending h \<and> raises th' = 0 \<and> sets_pending g th' = 0 \<and>
    work_left (hy_generation h) (hy_pending h) th' < work_left (hy_generation h) (hy_pending h) (Worker_compact cl r)"
proof -
  obtain sf res th sf' where c: "hy_store h = Some sf" "compact_store sd io cl h sf = Some res" "after_compaction cl r res = (th, sf')"
      "th' = th" "h' = h\<lparr>hy_store := Some sf'\<rparr>"
    using assms(1) by (auto split: option.splits prod.splits)
  have fresh: "snd res = Ok Superseded \<Longrightarrow> cl_generation cl = hy_generation h \<Longrightarrow> \<not> hy_pending h"
  proof
    assume a: "snd res = Ok Superseded" "cl_generation cl = hy_generation h" "hy_pending h"
    have "snd (compact_if_authorized sd io True (cl_cutoff cl) sf) \<noteq> Ok Superseded"
      by (auto simp: compact_if_authorized_def Let_def split: option.splits sum.splits)
    moreover have "\<not> hy_locked h \<longrightarrow> authorized cl h" using a(2,3) assms(2,3) by (simp add: authorized_def)
    ultimately show False using c(2) a(1) by (auto simp: compact_store_def Let_def split: if_splits)
  qed
  have "th = Worker_release (cl_generation cl) Ended_superseded \<Longrightarrow> snd res = Ok Superseded"
    using c(3) by (cases "(cl, r, res)" rule: after_compaction.cases) auto
  with fresh after_compaction_thread [OF c(3)] show ?thesis
    by (auto simp: c(4,5) follow_ups)
qed

lemma rank_step:
  assumes "thread_step sd fl th h = Some (th', h')" "0 < hy_days h" "\<not> lifts_retention th"
    and "\<not> hy_locked h \<longrightarrow> hy_control h = hy_generation h"
  shows "raises th' < raises th \<or> raises th' = raises th \<and> hy_generation h' = hy_generation h \<and>
    (sets_pending (hy_generation h) th' < sets_pending (hy_generation h) th \<or>
     sets_pending (hy_generation h) th' = sets_pending (hy_generation h) th \<and> (hy_pending h' \<longrightarrow> hy_pending h) \<and>
     work_left (hy_generation h) (hy_pending h') th' < work_left (hy_generation h) (hy_pending h) th)"
proof (cases "\<exists>cl r. th = Worker_compact cl r")
  case True
  then obtain cl r where th: "th = Worker_compact cl r" by blast
  have "worker_step sd (fl_compact fl) (Worker_compact cl r) h = Some (th', h')" using assms(1) by (simp add: th thread_step_def)
  from compact_rank [OF this assms(2,4), of "hy_generation h"] show ?thesis by (simp add: th)
next
  case False
  with assms(1-3) show ?thesis
    by (cases th; auto simp: thread_step_def Let_def follow_ups split: if_splits option.splits prod.splits ending.splits)
qed

lemma calm_step:
  assumes "thread_step sd fl th h = Some (th', h')" "0 < hy_days h" "\<not> lifts_retention th"
  shows "0 < hy_days h' \<and> \<not> lifts_retention th'"
  using assms
  by (cases th; auto simp: thread_step_def Let_def split: if_splits option.splits prod.splits ending.splits dest!: after_compaction_thread)

subsection \<open>Rest\<close>

definition rank :: "service \<Rightarrow> nat \<times> nat \<times> nat" where
  "rank s = (case s of (h, ths, log) \<Rightarrow>
     (sum_list (map raises ths), sum_list (map (sets_pending (hy_generation h)) ths),
      sum_list (map (work_left (hy_generation h) (hy_pending h)) ths)))"

definition rank_less :: "((nat \<times> nat \<times> nat) \<times> (nat \<times> nat \<times> nat)) set" where
  "rank_less = less_than <*lex*> less_than <*lex*> less_than"

lemma wf_rank_less: "wf rank_less"
  by (simp add: rank_less_def wf_lex_prod)

definition calm :: "service \<Rightarrow> bool" where
  "calm s \<longleftrightarrow> counts_ok s \<and> control_ok s \<and> (case s of (h, ths, log) \<Rightarrow>
     hy_store h \<noteq> None \<and> 0 < hy_days h \<and> list_all (\<lambda>th. \<not> lifts_retention th) ths)"

lemma sum_update:
  fixes f :: "thread \<Rightarrow> nat"
  shows "i < length ths \<Longrightarrow> sum_list (map f (ths[i := th])) + f (ths ! i) = sum_list (map f ths) + f th"
proof (induction ths arbitrary: i)
  case (Cons x ths)
  show ?case
  proof (cases i)
    case (Suc j)
    with Cons.IH [of j] Cons.prems show ?thesis by simp
  qed simp
qed simp

lemma sum_mono_except:
  fixes f g :: "thread \<Rightarrow> nat"
  assumes "\<And>th. f th \<le> g th"
  shows "i < length ths \<Longrightarrow> sum_list (map f ths) + g (ths ! i) \<le> sum_list (map g ths) + f (ths ! i)"
proof (induction ths arbitrary: i)
  case (Cons x ths)
  show ?case
  proof (cases i)
    case 0
    then show ?thesis using sum_list_mono [of ths f g] assms by simp
  next
    case (Suc j)
    with Cons.IH [of j] Cons.prems assms [of x] show ?thesis by simp
  qed
qed simp

lemma calm_run:
  assumes "service_step sd (Run i fl) s = Some s'" "calm s"
  shows "calm s' \<and> (rank s', rank s) \<in> rank_less"
proof -
  obtain h ths log h' ths' log' where eq: "s = (h, ths, log)" "s' = (h', ths', log')" by (metis prod_cases3)
  note st = assms(1) [unfolded eq] and calm = assms(2) [unfolded eq calm_def prod.case]
  obtain th' where s: "i < length ths" "thread_step sd fl (ths ! i) h = Some (th', h')" "ths' = ths[i := th']"
    using service_stepE [OF st] by metis
  have l: "\<not> lifts_retention (ths ! i)" "0 < hy_days h" "\<not> hy_locked h \<longrightarrow> hy_control h = hy_generation h"
    using calm s(1) by (simp_all add: list_all_length control_ok_def)
  have "list_all (\<lambda>th. \<not> lifts_retention th) ths'"
    using calm calm_step [OF s(2) l(2,1)] unfolding s(3) by (auto simp: list_all_iff dest!: set_update_cases)
  moreover have store: "hy_store h' \<noteq> None" using thread_step_store [OF s(2)] calm by metis
  ultimately have c: "calm s'"
    using counts_ok_run [OF st] control_ok_run [OF st] calm calm_step [OF s(2) l(2,1)] store
    unfolding calm_def eq prod.case by blast
  note sum = sum_update [OF s(1), where th = th']
  let ?g = "hy_generation h" and ?p = "hy_pending h" and ?q = "hy_pending h'"
  from rank_step [OF s(2) l(2,1,3)] have "(rank s', rank s) \<in> rank_less"
  proof (elim disjE conjE)
    assume "raises th' < raises (ths ! i)"
    with sum [of raises] show ?thesis by (simp add: eq rank_def rank_less_def s(3))
  next
    assume a: "raises th' = raises (ths ! i)" "hy_generation h' = ?g" "sets_pending ?g th' < sets_pending ?g (ths ! i)"
    with sum [of raises] sum [of "sets_pending ?g"] show ?thesis by (simp add: eq rank_def rank_less_def s(3))
  next
    assume a: "raises th' = raises (ths ! i)" "hy_generation h' = ?g" "sets_pending ?g th' = sets_pending ?g (ths ! i)"
      "?q \<longrightarrow> ?p" "work_left ?g ?q th' < work_left ?g ?p (ths ! i)"
    have "sum_list (map (work_left ?g ?q) ths) + work_left ?g ?p (ths ! i) \<le>
        sum_list (map (work_left ?g ?p) ths) + work_left ?g ?q (ths ! i)"
      using a(4) by (intro sum_mono_except [OF _ s(1)] work_left_mono) blast
    with a sum [of raises] sum [of "sets_pending ?g"] sum [of "work_left ?g ?q"] show ?thesis
      by (simp add: eq rank_def rank_less_def s(3))
  qed
  with c show ?thesis ..
qed

lemma no_endless_run: "calm s \<Longrightarrow> \<not> (\<exists>f. f 0 = s \<and> (\<forall>n. \<exists>i fl. service_step sd (Run i fl) (f n) = Some (f (Suc n))))"
proof
  assume c: "calm s" and "\<exists>f. f 0 = s \<and> (\<forall>n. \<exists>i fl. service_step sd (Run i fl) (f n) = Some (f (Suc n)))"
  then obtain f where f: "f 0 = s" "\<And>n. \<exists>i fl. service_step sd (Run i fl) (f n) = Some (f (Suc n))" by blast
  have "calm (f n)" for n
  proof (induction n)
    case (Suc n)
    with f(2) [of n] calm_run show ?case by blast
  qed (simp add: f(1) c)
  then have "\<forall>n. ((rank \<circ> f) (Suc n), (rank \<circ> f) n) \<in> rank_less" using f(2) calm_run by (metis comp_apply)
  with wf_rank_less show False unfolding wf_iff_no_infinite_down_chain by blast
qed

text \<open>Nothing but the control lock blocks a thread, and who holds it is never blocked.\<close>

lemma compact_enabled: "compact_store sd io cl h sf = None \<Longrightarrow> hy_locked h"
  by (auto simp: compact_store_def Let_def split: if_splits)

lemma enabled_step:
  assumes "th \<noteq> Finished" "hy_store h \<noteq> None" "in_section th \<or> \<not> hy_locked h"
  shows "thread_step sd fl th h \<noteq> None"
proof (cases "\<exists>cl r. th = Worker_compact cl r")
  case True
  then obtain cl r where th: "th = Worker_compact cl r" by blast
  obtain sf where sf: "hy_store h = Some sf" using assms(2) by blast
  have "\<not> hy_locked h" using assms(3) th by simp
  then obtain res where "compact_store sd (fl_compact fl) cl h sf = Some res"
    using compact_enabled [of sd "fl_compact fl" cl h sf] by (cases "compact_store sd (fl_compact fl) cl h sf") auto
  then show ?thesis by (simp add: th sf thread_step_def split: prod.split)
next
  case False
  with assms show ?thesis by (cases th; simp add: thread_step_def Let_def split: prod.split option.split)
qed

lemma stuck_is_rest:
  assumes "calm (h, ths, log)" "\<forall>i fl. service_step sd (Run i fl) (h, ths, log) = None"
  shows "at_rest ths"
proof (rule ccontr)
  assume "\<not> at_rest ths"
  then obtain k where k: "k < length ths" "ths ! k \<noteq> Finished" by (auto simp: at_rest_def list_all_length)
  have st: "hy_store h \<noteq> None" using assms(1) by (simp add: calm_def)
  obtain i where i: "i < length ths" "ths ! i \<noteq> Finished" "in_section (ths ! i) \<or> \<not> hy_locked h"
  proof (cases "hy_locked h")
    case True
    then have "0 < count_threads in_section ths" using assms(1) by (simp add: calm_def counts_ok_def)
    then obtain th where th: "th \<in> set ths" "in_section th" by (auto simp: filter_empty_conv)
    then obtain j where j: "j < length ths" "ths ! j = th" unfolding in_set_conv_nth by blast
    have "th \<noteq> Finished" using th(2) by auto
    then show thesis using th(2) j by (intro that [of j]) simp_all
  next
    case False
    show thesis by (rule that [OF k]) (simp add: False)
  qed
  obtain x where "thread_step sd undefined (ths ! i) h = Some x" using enabled_step [OF i(2) st i(3)] by blast
  then have "service_step sd (Run i undefined) (h, ths, log) \<noteq> None" using i(1) by (cases x) simp
  then show False using assms(2) by simp
qed

lemma control_ok_call: "control_ok (h, ths, log) \<Longrightarrow> control_ok (h, ths @ [thread_of_call c], log)"
  using control_at_outside [OF call_is_inert(2)] by (auto simp: control_ok_def)

lemma control_ok_steps:
  "service_run sd as s = Some s' \<Longrightarrow> counts_ok s \<Longrightarrow> control_ok s \<Longrightarrow> counts_ok s' \<and> control_ok s'"
proof (induction "as" arbitrary: s)
  case (Cons a "as")
  then obtain s1 where s1: "service_step sd a s = Some s1" "service_run sd as s1 = Some s'" by (auto simp: bind_eq_Some_conv)
  obtain h ths log h1 ths1 log1 where eq: "s = (h, ths, log)" "s1 = (h1, ths1, log1)" by (metis prod_cases3)
  have "counts_ok s1 \<and> control_ok s1"
  proof (cases a)
    case (Call c)
    then have "s1 = (h, ths @ [thread_of_call c], log)" using s1(1) by (simp add: eq)
    with Cons.prems(2,3) control_ok_call call_is_inert(1,2) show ?thesis by (simp add: eq counts_ok_def)
  next
    case (Run i fl)
    note st = s1(1) [unfolded eq Run]
    show ?thesis using counts_ok_run [OF st] control_ok_run [OF st] Cons.prems(2,3) by (simp add: eq)
  qed
  with Cons.IH [OF s1(2)] show ?case by blast
qed simp

lemma start_control_ok: "counts_ok (fresh_service (snd (start_history sd io t days b b' cap disk))) \<and>
    control_ok (fresh_service (snd (start_history sd io t days b b' cap disk)))"
  by (auto simp: start_history_def open_history_def in_memory_history_def Let_def fresh_service_def counts_ok_def control_ok_def
      split: prod.splits sum.splits option.splits)

lemma calm_runs:
  "service_run sd as s = Some s' \<Longrightarrow> list_all (\<lambda>a. \<exists>i fl. a = Run i fl) as \<Longrightarrow> calm s \<Longrightarrow> calm s'"
proof (induction "as" arbitrary: s)
  case (Cons a "as")
  then obtain s1 i fl where s1: "a = Run i fl" "service_step sd (Run i fl) s = Some s1" "service_run sd as s1 = Some s'"
    by (auto simp: bind_eq_Some_conv)
  with Cons.IH [OF s1(3)] Cons.prems(2,3) calm_run [OF s1(2)] show ?case by simp
qed simp

text \<open>
  C25: with a limited retention the service always comes to rest. Take any state that a start reaches,
  in which the retention is limited and no call that lifts it is under way. Whatever the scheduler
  picks and whatever fails, the calls under way and the compaction tasks they start make finitely
  many steps; and a state in which no thread can take a step is one in which all have finished, so
  the locks cannot deadlock.
\<close>

theorem service_comes_to_rest:
  assumes "service_run sd as (fresh_service (snd (start_history sd io t days b b' cap disk))) = Some (h, ths, log)"
    and "hy_store h \<noteq> None" and "0 < hy_days h" and "list_all (\<lambda>th. \<not> lifts_retention th) ths"
  shows "\<not> (\<exists>f. f 0 = (h, ths, log) \<and> (\<forall>n. \<exists>i fl. service_step sd (Run i fl) (f n) = Some (f (Suc n)))) \<and>
    (\<forall>bs s'. service_run sd bs (h, ths, log) = Some s' \<longrightarrow> list_all (\<lambda>a. \<exists>i fl. a = Run i fl) bs \<longrightarrow>
       (\<forall>i fl. service_step sd (Run i fl) s' = None) \<longrightarrow> at_rest (fst (snd s')))"
proof -
  have c: "calm (h, ths, log)"
    using control_ok_steps [OF assms(1)] start_control_ok assms(2-4) unfolding calm_def prod.case by blast
  have "at_rest (fst (snd s'))" if r: "service_run sd bs (h, ths, log) = Some s'" "list_all (\<lambda>a. \<exists>i fl. a = Run i fl) bs"
    "\<forall>i fl. service_step sd (Run i fl) s' = None" for bs s'
  proof -
    obtain h' ths' log' where eq: "s' = (h', ths', log')" by (metis prod_cases3)
    have "calm (h', ths', log')" using calm_runs [OF r(1,2) c] by (simp add: eq)
    from stuck_is_rest [OF this] r(3) show ?thesis by (simp add: eq)
  qed
  with no_endless_run [OF c] show ?thesis by blast
qed

subsection \<open>Stale requests\<close>

text \<open>
  The append reads the retention before it writes its record, and files its request after. A settings
  change in between is overtaken: once lifted, the retention makes the task of the late request spin;
  once extended, the late request compacts with the old cutoff.
\<close>

lemma stale_request_is_filed:
  assumes "\<not> hy_locked h" "COMPACT_AFTER_EXPIRED_SAMPLES < hy_dropped h"
  shows "service_run sd (replicate 4 (Run 1 fl) @ replicate 5 (Run 0 fl)) (h, [Append_dropped t days, Forever_lock], log) =
    Some (h\<lparr>hy_days := 0, hy_generation := hy_generation h + 2, hy_control := hy_generation h + 2, hy_pending := True,
      hy_locked := False, hy_cutoff := retention_cutoff t days\<rparr>, [Start_pending, Finished], log)"
  using assms by (simp add: numeral_eq_Suc thread_step_def)

lemma stale_request_spins:
  assumes "hy_days h = 0" "hy_pending h" "\<not> hy_running h" "\<not> hy_locked h" "hy_store h = Some sf"
    and "snd (compact_if_authorized sd io False (hy_cutoff h) sf) = Ok Superseded"
  shows "service_run sd (replicate 9 (Run 0 \<lparr>fl_write = w, fl_compact = io\<rparr>)) (h, [Start_pending], log) = Some (h, [Start_pending], log)"
proof -
  obtain r where r: "compact_if_authorized sd io False (hy_cutoff h) sf = (sf, r)" using compact_refused by blast
  then have "r = Ok Superseded" using assms(6) by simp
  with r assms show ?thesis
    by (simp add: numeral_eq_Suc thread_step_def compact_store_def authorized_def Let_def)
qed

lemma stale_cutoff_wins:
  assumes "\<not> hy_locked h" "COMPACT_AFTER_EXPIRED_SAMPLES < hy_dropped h" "hy_store h \<noteq> None" "0 < longer"
    and "service_run sd (replicate 7 (Run 1 fl) @ replicate 5 (Run 0 fl)) (h, [Append_dropped t days, Retain_days longer now], log) =
      Some (h', ths', log')"
  shows "hy_days h' = longer \<and> hy_pending h' \<and> hy_cutoff h' = retention_cutoff t days \<and> hy_control h' = hy_generation h' \<and>
    \<not> hy_locked h' \<and> ths' ! 0 = Start_pending"
  using assms
  by (auto simp: numeral_eq_Suc thread_step_def Let_def split: prod.splits if_splits)

subsection \<open>The index of every run\<close>

text \<open>
  C26: the index is always fit to be queried. From any start over any file, through any interleaving
  of appends with any clock, settings changes and compaction tasks, with any failures: the points are
  in time order and the available range is that of the first and last point. So the rollup theorems
  hold for every query ever made.
\<close>

theorem index_stays_ordered:
  assumes "serde_typed sd" and "writable sd (Boot \<lparr>bo_timestamp = t, bo_boot_id = b, bo_capacity = canonical_capacity cap\<rparr>)"
    and "service_run sd as (fresh_service (snd (start_history sd io t days b b' cap disk))) = Some (h, ths, log)"
  shows "index_ok (hy_inner h)"
  using assms(3) start_index_ok [OF assms(1,2)] index_order.service_run_keeps unfolding fresh_service_def
  by fastforce

definition demo_capacity_snapshot :: capacity_snapshot where
  "demo_capacity_snapshot = capacity_snapshot_of demo_capacity"

definition demo_history :: history where
  "demo_history = open_history 1 0 demo_store (stream_bytes demo_serde [demo_boot 1 ''a''])"

definition demo_faults :: faults where
  "demo_faults = \<lparr>fl_write = None, fl_compact = \<lparr>ci_temporary = False, ci_write = False, ci_rename = False, ci_directory_sync = False\<rparr>\<rparr>"

lemma demo_canonical_capacity: "canonical_capacity demo_capacity_snapshot = demo_capacity"
  by (simp add: demo_capacity_snapshot_def canonical_capacity_def capacity_snapshot_of_def demo_capacity_def)

lemma demo_starts: "snd (start_history demo_serde demo_open_io 1 0 ''a'' ''z'' demo_capacity_snapshot None) = demo_history"
  using demo_opens by (simp add: start_history_def demo_canonical_capacity demo_boot_record_def demo_history_def)

lemma demo_reaches:
  "service_run sd as (fresh_service demo_history) = Some s \<Longrightarrow>
     service_run sd as (fresh_service (snd (start_history demo_serde demo_open_io 1 0 ''a'' ''z'' demo_capacity_snapshot None))) = Some s"
  by (simp only: demo_starts)

lemma demo_history_fields:
  "hy_days demo_history = 0" "\<not> hy_pending demo_history" "\<not> hy_running demo_history" "\<not> hy_locked demo_history"
  "hy_generation demo_history = 0" "hy_control demo_history = 0" "hy_store demo_history \<noteq> None"
  by (simp_all add: demo_history_def open_history_def in_memory_history_def Let_def take_replay_def)

text \<open>A retention of one day is set: the index is pruned, the request filed, its task deferred since no sample was written yet.\<close>

lemma demo_retention:
  "\<exists>h. service_run demo_serde (Call (Call_retention 1 10) # replicate 14 (Run 0 demo_faults)) (fresh_service demo_history) =
     Some (h, [Finished], []) \<and> hy_days h = 1 \<and> hy_generation h = 1 \<and> hy_store h \<noteq> None"
proof -
  obtain sf where sf: "hy_store demo_history = Some sf" using demo_history_fields(7) by blast
  have "hs_last_state (fst sf) = None"
    using sf by (auto simp: demo_history_def open_history_def Let_def take_replay_def demo_store_def fresh_store_def)
  then have "compact_if_authorized demo_serde io a c sf = (sf, Err ()) \<or> compact_if_authorized demo_serde io a c sf = (sf, Ok Deferred)" for io a c
    by (auto simp: compact_if_authorized_def split: sum.split)
  then obtain r where r: "compact_if_authorized demo_serde (fl_compact demo_faults) False (retention_cutoff 10 1) sf = (sf, r)"
      "r = Err () \<or> r = Ok Deferred" by blast
  obtain inner n where p: "prune_inner (retention_cutoff 10 1) (hy_inner demo_history) = (inner, n)" by (rule prod.exhaust)
  have "replicate 14 x = [x, x, x, x, x, x, x, x, x, x, x, x, x, x]" for x :: history_act by (simp add: numeral_eq_Suc)
  with r(2) demo_history_fields(1-6) show ?thesis
    by (auto simp: thread_step_def fresh_service_def Let_def sf p [simplified] r(1) [simplified] compact_store_def)
qed

lemma index_stays_ordered_witness:
  "\<exists>h ths log. service_run demo_serde [Call (Call_retention 1 10), Run 0 demo_faults, Run 0 demo_faults] (fresh_service demo_history) =
     Some (h, ths, log) \<and> index_ok (hy_inner h)"
proof -
  obtain inner n where p: "prune_inner (retention_cutoff 10 (Suc 0)) (hy_inner demo_history) = (inner, n)" by (rule prod.exhaust)
  have "\<exists>h ths log. service_run demo_serde [Call (Call_retention 1 10), Run 0 demo_faults, Run 0 demo_faults] (fresh_service demo_history) =
      Some (h, ths, log)" by (simp add: fresh_service_def thread_step_def Let_def p)
  moreover have "writable demo_serde (Boot \<lparr>bo_timestamp = 1, bo_boot_id = ''a'', bo_capacity = canonical_capacity demo_capacity_snapshot\<rparr>)"
    using demo_boot_writable(2) by (simp add: demo_canonical_capacity demo_boot_record_def)
  ultimately show ?thesis using index_stays_ordered [OF demo_typed] demo_starts by metis
qed

lemma requests_are_honoured_witness:
  "\<exists>h. service_run demo_serde (Call (Call_retention 1 10) # replicate 14 (Run 0 demo_faults)) (fresh_service demo_history) =
     Some (h, [Finished], []) \<and> hy_pending h"
proof -
  obtain h where h: "service_run demo_serde (Call (Call_retention 1 10) # replicate 14 (Run 0 demo_faults)) (fresh_service demo_history) =
     Some (h, [Finished], [])" "hy_days h = 1" "hy_generation h = 1" "hy_store h \<noteq> None" using demo_retention by blast
  have "at_rest [Finished]" by (simp add: at_rest_def)
  from requests_are_honoured [OF demo_reaches [OF h(1)] _ this] h show ?thesis by simp
qed

lemma compactions_serve_newest_request_witness:
  "\<exists>h' ths' log'. service_step demo_serde (Run 0 demo_faults) (demo_history, [Retain_days 1 10], []) = Some (h', ths', log') \<and>
     hy_store h' = hy_store demo_history \<and> log' = []"
proof -
  have r: "service_run demo_serde [Call (Call_retention 1 10)] (fresh_service demo_history) = Some (demo_history, [Retain_days 1 10], [])"
    by (simp add: fresh_service_def)
  have st: "service_step demo_serde (Run 0 demo_faults) (demo_history, [Retain_days 1 10], []) =
      Some (demo_history\<lparr>hy_days := 1\<rparr>, [Retain_prune 1 10], [])" by (simp add: thread_step_def)
  from compactions_serve_newest_request [OF demo_reaches [OF r] _ st] demo_history_fields st show ?thesis by simp
qed

lemma service_comes_to_rest_witness:
  "\<not> (\<exists>f. f 0 = (demo_history\<lparr>hy_days := 1\<rparr>, [Retain_prune 1 10], []) \<and>
     (\<forall>n. \<exists>i fl. service_step demo_serde (Run i fl) (f n) = Some (f (Suc n))))"
proof -
  have r: "service_run demo_serde [Call (Call_retention 1 10), Run 0 demo_faults] (fresh_service demo_history) =
      Some (demo_history\<lparr>hy_days := 1\<rparr>, [Retain_prune 1 10], [])" by (simp add: fresh_service_def thread_step_def)
  from service_comes_to_rest [OF demo_reaches [OF r]] demo_history_fields show ?thesis by simp
qed

end
