(* ===== verification/History_Restart.thy ===== *)
theory History_Restart
  imports History_Service
begin

section \<open>What a restart restores\<close>

text \<open>
  The index is rebuilt at a start from the records of the file. With no failure in between, the
  rebuilt points are the ones the running process had: checkpoints stand for repeated states, and
  normalization gives the same increments.
\<close>

subsection \<open>Equal values\<close>

text \<open>Values agree up to the sign of zero, which a checkpoint does not keep.\<close>

definition metrics_eq :: "metric_map \<Rightarrow> metric_map \<Rightarrow> bool" where
  "metrics_eq = list_all2 (\<lambda>a b. fst a = fst b \<and> f64_eq (snd a) (snd b))"

definition snapshots_eq :: "parsed_snapshot \<Rightarrow> parsed_snapshot \<Rightarrow> bool" where
  "snapshots_eq p q \<longleftrightarrow> metrics_eq (ps_counters p) (ps_counters q) \<and> metrics_eq (ps_gauges p) (ps_gauges q)"

definition points_eq :: "indexed_point \<Rightarrow> indexed_point \<Rightarrow> bool" where
  "points_eq p q \<longleftrightarrow> ip_t p = ip_t q \<and> metrics_eq (ip_deltas p) (ip_deltas q) \<and> metrics_eq (ip_gauges p) (ip_gauges q) \<and>
     ip_capacity p = ip_capacity q"

definition indexes_eq :: "history_inner \<Rightarrow> history_inner \<Rightarrow> bool" where
  "indexes_eq a b \<longleftrightarrow> list_all2 points_eq (hi_points a) (hi_points b) \<and>
     rel_option snapshots_eq (hi_last_parsed a) (hi_last_parsed b) \<and>
     pred_option snapshot_ok (hi_last_parsed a) \<and> hi_last_sample_boot a = hi_last_sample_boot b"

lemma metrics_eq_simps [simp]:
  "metrics_eq [] m \<longleftrightarrow> m = []"
  "metrics_eq (a # m) n \<longleftrightarrow> (\<exists>b m'. n = b # m' \<and> fst a = fst b \<and> f64_eq (snd a) (snd b) \<and> metrics_eq m m')"
  by (auto simp: metrics_eq_def list_all2_Cons1)

lemma metrics_eq_lookup: "metrics_eq m n \<Longrightarrow> rel_option f64_eq (map_of m k) (map_of n k)"
  by (induction m arbitrary: n) auto

lemma f64_finite_number: "f64_is_finite x \<Longrightarrow> \<not> f64_is_nan x"
  by (simp add: f64_is_finite_def f64_is_nan_def)

lemma metrics_eq_refl: "list_all (\<lambda>(k, v). f64_is_finite v) m \<Longrightarrow> metrics_eq m m"
  by (induction m) (auto simp: f64_eq_refl f64_finite_number)

lemma snapshots_eq_refl: "snapshot_ok p \<Longrightarrow> snapshots_eq p p"
  by (auto simp: snapshots_eq_def snapshot_ok_def metrics_ok_def list_all_iff intro!: metrics_eq_refl)

lemma f64_eq_sym: "f64_eq x y = f64_eq y x"
  by (auto simp: f64_eq_def)

lemma metrics_eq_sym: "metrics_eq m n \<Longrightarrow> metrics_eq n m"
  by (induction m arbitrary: n) (auto simp: f64_eq_sym)

lemma metrics_eq_insert: "metrics_eq m n \<Longrightarrow> f64_eq v w \<Longrightarrow> metrics_eq (bt_insert k v m) (bt_insert k w n)"
  by (induction m arbitrary: n) (auto split: prod.split)

lemma put_entry_eq: "snapshots_eq p q \<Longrightarrow> entry_eq a b \<Longrightarrow> snapshots_eq (put_entry a p) (put_entry b q)"
  by (auto simp: snapshots_eq_def entry_eq_def put_entry_def Let_def metrics_eq_insert split: state_kind.split)

lemma parsed_canonical_state_eq: "state_eq st st' \<Longrightarrow> snapshots_eq (parsed_canonical_state st) (parsed_canonical_state st')"
proof -
  have "state_eq xs ys \<Longrightarrow> snapshots_eq p q \<Longrightarrow> snapshots_eq (fold put_entry xs p) (fold put_entry ys q)" for xs ys p q
  proof (induction xs arbitrary: ys p q)
    case (Cons x xs)
    then show ?case by (auto simp: state_eq_def list_all2_Cons1 put_entry_eq)
  qed (simp add: state_eq_def)
  moreover assume "state_eq st st'"
  ultimately show ?thesis
    by (simp add: parsed_canonical_state_def snapshots_eq_def empty_snapshot_def)
qed

lemma f64_less_cong: "f64_eq x x' \<Longrightarrow> f64_less x y = f64_less x' y" "f64_eq x x' \<Longrightarrow> f64_less_eq y x = f64_less_eq y x'"
  by (auto simp: f64_eq_def f64_less_def f64_less_eq_def)

subsection \<open>Normalization\<close>

lemma lookup_finite: "metrics_ok m \<Longrightarrow> map_of m k = Some v \<Longrightarrow> f64_is_finite v"
  by (auto simp: metrics_ok_def list_all_iff dest!: map_of_SomeD)

lemma counter_drops_eq:
  assumes "snapshots_eq p q" "snapshot_ok p" "f64_eq v w" "f64_is_finite v"
  shows "counter_drops p (k, v) = counter_drops q (k, w)"
proof -
  have l: "rel_option f64_eq (map_of (ps_counters p) k) (map_of (ps_counters q) k)"
    using assms(1) metrics_eq_lookup by (simp add: snapshots_eq_def)
  show ?thesis
  proof (cases "map_of (ps_counters p) k")
    case None
    with l show ?thesis by (simp add: counter_drops_def)
  next
    case (Some a)
    with l obtain b where b: "map_of (ps_counters q) k = Some b" "f64_eq a b" by (auto elim: option.rel_cases)
    have "f64_is_finite a" using lookup_finite [OF _ Some] assms(2) by (simp add: snapshot_ok_def)
    from f64_less_cong(1) [OF f64_sub_cong [OF assms(3) b(2) assms(4) this]] show ?thesis
      by (simp add: counter_drops_def Some b(1))
  qed
qed

lemma counter_delta_eq:
  assumes "rel_option snapshots_eq p q" "pred_option snapshot_ok p" "f64_eq v w" "f64_is_finite v"
  shows "f64_eq (counter_delta r p (k, v)) (counter_delta r q (k, w))"
proof (cases "r \<or> p = None")
  case True
  with assms show ?thesis by (auto simp: counter_delta_def elim: option.rel_cases)
next
  case False
  then obtain p' q' where p: "p = Some p'" "q = Some q'" "snapshots_eq p' q'" "snapshot_ok p'"
    using assms(1,2) by (auto elim: option.rel_cases)
  have l: "rel_option f64_eq (map_of (ps_counters p') k) (map_of (ps_counters q') k)"
    using p(3) metrics_eq_lookup by (simp add: snapshots_eq_def)
  show ?thesis
  proof (cases "map_of (ps_counters p') k")
    case None
    with l assms(3) False p show ?thesis by (simp add: counter_delta_def)
  next
    case (Some a)
    with l obtain b where b: "map_of (ps_counters q') k = Some b" "f64_eq a b" by (auto elim: option.rel_cases)
    have "f64_is_finite a" using lookup_finite [OF _ Some] p(4) by (simp add: snapshot_ok_def)
    from f64_sub_cong [OF assms(3) b(2) assms(4) this] have d: "f64_eq (f64_sub v a) (f64_sub w b)" .
    have "f64_eq 0 0" by (simp add: f64_eq_def f64_is_nan_def f64_magnitude_def f64_infinity_def)
    with d f64_less_cong [OF d] False p show ?thesis by (simp add: counter_delta_def Some b(1) Let_def)
  qed
qed

lemma normalize_eq:
  assumes "rel_option snapshots_eq p q" "pred_option snapshot_ok p" "snapshots_eq c d" "snapshot_ok c"
  shows "metrics_eq (nm_deltas (normalize p c r)) (nm_deltas (normalize q d r)) \<and>
    metrics_eq (nm_gauges (normalize p c r)) (nm_gauges (normalize q d r))"
proof -
  have finite: "list_all (\<lambda>(k, v). f64_is_finite v) (ps_counters c)"
    using assms(4) by (auto simp: snapshot_ok_def metrics_ok_def list_all_iff)
  have drops: "list_ex (counter_drops p') m = list_ex (counter_drops q') n"
    if "snapshots_eq p' q'" "snapshot_ok p'" "metrics_eq m n" "list_all (\<lambda>(k, v). f64_is_finite v) m" for p' q' m n
    using that(3,4)
  proof (induction m arbitrary: n)
    case (Cons a m)
    then obtain b n' where "n = b # n'" "fst a = fst b" "f64_eq (snd a) (snd b)" "metrics_eq m n'" by auto
    with Cons counter_drops_eq [OF that(1,2), of "snd a" "snd b" "fst a"] show ?case by (cases a; cases b) auto
  qed simp
  have inferred: "nm_inferred_reset (normalize p c r) = nm_inferred_reset (normalize q d r)"
    using assms(1,2) drops [OF _ _ _ finite, of _ _ "ps_counters d"] assms(3)
    by (auto simp: normalize_def Let_def snapshots_eq_def elim!: option.rel_cases)
  have deltas: "metrics_eq (map (\<lambda>kv. (fst kv, counter_delta x p kv)) m) (map (\<lambda>kv. (fst kv, counter_delta x q kv)) n)"
    if "metrics_eq m n" "list_all (\<lambda>(k, v). f64_is_finite v) m" for x m n
    using that
  proof (induction m arbitrary: n)
    case (Cons a m)
    then obtain b n' where "n = b # n'" "fst a = fst b" "f64_eq (snd a) (snd b)" "metrics_eq m n'" by auto
    with Cons counter_delta_eq [OF assms(1,2), of "snd a" "snd b" x "fst a"] show ?case by (cases a; cases b) auto
  qed simp
  have shape: "nm_deltas (normalize p c r) = map (\<lambda>kv. (fst kv, counter_delta (r \<or> nm_inferred_reset (normalize p c r)) p kv)) (ps_counters c)"
    for p c by (simp add: normalize_def Let_def)
  show ?thesis
    using deltas [OF _ finite, of "ps_counters d"] assms(3) unfolding shape inferred
    by (simp add: snapshots_eq_def normalize_def Let_def)
qed

subsection \<open>Replaying against appending\<close>

text \<open>A sample the running process took: its time, the metrics text, and the capacity.\<close>

type_synonym sample_call = "nat \<times> string \<times> capacity_snapshot"

definition live_append :: "string \<Rightarrow> sample_call \<Rightarrow> history_inner \<Rightarrow> history_inner" where
  "live_append boot_id s inner = (case s of (t, exposition, cap) \<Rightarrow> fst (append_inner boot_id 0 t (parse_exposition exposition) cap inner))"

definition stored_call :: "sample_call \<Rightarrow> observation_call" where
  "stored_call s = (case s of (t, exposition, cap) \<Rightarrow> (t, canonical_capacity cap, canonical_state (parse_exposition exposition)))"

definition replay_call :: "string \<Rightarrow> observation_call \<Rightarrow> history_inner \<Rightarrow> history_inner" where
  "replay_call boot_id c inner =
     (case c of (t, cap, state) \<Rightarrow> ingest_canonical_sample t boot_id cap (parsed_canonical_state state) None inner)"

lemma capacity_snapshot_back: "capacity_snapshot_of (canonical_capacity c) = c"
  by (simp add: capacity_snapshot_of_def canonical_capacity_def)

lemma replay_append_eq:
  assumes "indexes_eq a b" "same_call c (stored_call s)"
  shows "indexes_eq (live_append boot_id s a) (replay_call boot_id c b)"
proof -
  obtain t exposition cap where s: "s = (t, exposition, cap)" by (cases s)
  obtain st where c: "c = (t, canonical_capacity cap, st)" "state_eq st (canonical_state (parse_exposition exposition))"
    using assms(2) by (cases c) (auto simp: same_call_def stored_call_def s)
  let ?p = "parse_exposition exposition" and ?q = "parsed_canonical_state st"
  have ok: "snapshot_ok ?p" by (simp add: parse_exposition_ok)
  have "snapshots_eq ?q (parsed_canonical_state (canonical_state ?p))" using c(2) by (rule parsed_canonical_state_eq)
  then have "snapshots_eq ?q (?p\<lparr>ps_skipped_lines := 0\<rparr>)" using parsed_canonical [OF ok] by simp
  then have eq: "snapshots_eq ?p ?q" by (auto simp: snapshots_eq_def metrics_eq_sym)
  have f: "foreign_boot boot_id a = foreign_boot boot_id b"
    using assms(1) by (auto simp: foreign_boot_def indexes_eq_def elim!: option.rel_cases)
  note n = normalize_eq [OF _ _ eq ok, of "hi_last_parsed a" "hi_last_parsed b" "foreign_boot boot_id b"]
  show ?thesis
    using assms(1) n eq ok f
    by (simp add: indexes_eq_def live_append_def replay_call_def s c(1) append_inner_def ingest_canonical_sample_def Let_def
        set_available_def points_eq_def capacity_snapshot_back list_all2_appendI)
qed

lemma replay_live_eq:
  "indexes_eq a b \<Longrightarrow> list_all2 (\<lambda>c s. same_call c (stored_call s)) cs ss \<Longrightarrow>
     indexes_eq (fold (live_append boot_id) ss a) (fold (replay_call boot_id) cs b)"
proof (induction ss arbitrary: cs a b)
  case (Cons s ss)
  then obtain c cs' where "cs = c # cs'" "same_call c (stored_call s)" "list_all2 (\<lambda>c s. same_call c (stored_call s)) cs' ss"
    by (auto simp: list_all2_Cons2)
  with Cons replay_append_eq show ?case by simp
qed simp

lemma enrich_observed:
  "list_all (\<lambda>r. \<not> is_boot r \<and> record_boot_id r = b) rs \<Longrightarrow> en_boot x = Some b \<Longrightarrow>
     en_inner (fold (enrich_record None) rs x) = fold (replay_call b) (observed (en_state x) rs) (en_inner x)"
proof (induction rs arbitrary: x)
  case (Cons r rs)
  then show ?case
    by (cases r) (auto simp: enrich_record_def enrich_sample_def replay_call_def Let_def split: option.split)
qed simp

subsection \<open>The rebuilt index\<close>

lemma put_entry_ok:
  "snapshot_ok p \<Longrightarrow> f64_is_finite (se_value e) \<Longrightarrow> bt_wf (se_labels e) \<Longrightarrow> snapshot_ok (put_entry e p)"
  by (simp add: snapshot_ok_def put_entry_def Let_def metrics_ok_insert split: state_kind.split)

lemma parsed_state_ok: "state_ok st \<Longrightarrow> snapshot_ok (parsed_canonical_state st)"
proof -
  have "list_all (\<lambda>e. f64_is_finite (se_value e) \<and> bt_wf (se_labels e)) es \<Longrightarrow> snapshot_ok p \<Longrightarrow> snapshot_ok (fold put_entry es p)" for es p
    by (induction es arbitrary: p) (simp_all add: put_entry_ok)
  moreover have "snapshot_ok empty_snapshot" by (simp add: snapshot_ok_def metrics_ok_def empty_snapshot_def bt_wf_def)
  ultimately show "state_ok st \<Longrightarrow> ?thesis" by (simp add: state_ok_def parsed_canonical_state_def)
qed

text \<open>An index made from well-formed records holds no values that are not numbers, so it agrees with itself.\<close>

lemma ingest_self:
  assumes "indexes_eq a a" "snapshot_ok cur"
  shows "indexes_eq (ingest_canonical_sample t b cap cur cutoff a) (ingest_canonical_sample t b cap cur cutoff a)"
  using assms normalize_eq [OF _ _ snapshots_eq_refl [OF assms(2)] assms(2), of "hi_last_parsed a" "hi_last_parsed a" "foreign_boot b a"]
  by (simp add: indexes_eq_def ingest_canonical_sample_def Let_def points_eq_def snapshots_eq_refl list_all2_appendI)

definition enrich_ok :: "enrich_state \<Rightarrow> bool" where
  "enrich_ok x \<longleftrightarrow> indexes_eq (en_inner x) (en_inner x) \<and> pred_option state_ok (en_state x)"

lemma enrich_record_ok: "enrich_ok x \<Longrightarrow> record_ok r \<Longrightarrow> enrich_ok (enrich_record cutoff r x)"
  using ingest_self parsed_state_ok
  by (cases r) (auto simp: enrich_ok_def enrich_record_def enrich_sample_def Let_def split: option.split)

lemma enrich_records_ok: "enrich_ok x \<Longrightarrow> list_all record_ok rs \<Longrightarrow> enrich_ok (fold (enrich_record cutoff) rs x)"
  by (induction rs arbitrary: x) (simp_all add: enrich_record_ok)

definition enrich_start :: enrich_state where
  "enrich_start = \<lparr>en_inner = empty_inner, en_boot = None, en_state = None, en_resets = []\<rparr>"

definition index_view :: "history_inner \<Rightarrow> indexed_point list \<times> parsed_snapshot option \<times> string option" where
  "index_view a = (hi_points a, hi_last_parsed a, hi_last_sample_boot a)"

lemma open_inner_view:
  "index_view (open_inner rp cutoff) = index_view (en_inner (fold (enrich_record cutoff) (rp_records rp) enrich_start))"
  by (simp add: index_view_def open_inner_def enrich_canonical_replay_def Let_def set_available_def enrich_start_def)

lemma indexes_eq_view:
  "index_view a = index_view a' \<Longrightarrow> index_view b = index_view b' \<Longrightarrow> indexes_eq a b = indexes_eq a' b'"
  by (simp add: indexes_eq_def index_view_def)

lemma live_append_view:
  "index_view (live_append c (t, exposition, cap) a) =
     (hi_points a @ [\<lparr>ip_t = t, ip_deltas = nm_deltas (normalize (hi_last_parsed a) (parse_exposition exposition) (foreign_boot c a)),
        ip_gauges = nm_gauges (normalize (hi_last_parsed a) (parse_exposition exposition) (foreign_boot c a)), ip_capacity = Some cap\<rparr>],
      Some (parse_exposition exposition), Some c)"
  by (simp add: index_view_def live_append_def append_inner_def Let_def set_available_def)

lemma live_view:
  "index_view a = index_view b \<Longrightarrow> index_view (fold (live_append c) ss a) = index_view (fold (live_append c) ss b)"
proof (induction ss arbitrary: a b)
  case (Cons s ss)
  have step: "index_view (live_append c s a) = index_view (live_append c s b)"
  proof (cases s)
    case (fields t exposition cap)
    have "hi_points a = hi_points b" "hi_last_parsed a = hi_last_parsed b" "foreign_boot c a = foreign_boot c b"
      using Cons.prems by (simp_all add: index_view_def foreign_boot_def)
    then show ?thesis unfolding fields live_append_view by (simp only:)
  qed
  from Cons.IH [OF step] show ?case by (simp only: fold_simps)
qed simp


definition demo_text_snapshot :: parsed_snapshot where
  "demo_text_snapshot = \<lparr>ps_counters = [(Metric_key ''requests_total'' [(''model'', ''m'')], 0)], ps_gauges = [], ps_skipped_lines = 0\<rparr>"

definition demo_sample_call :: sample_call where
  "demo_sample_call = (2, exposition_text (\<lambda>v. ''0'') demo_text_snapshot, capacity_snapshot_of demo_capacity)"

lemma demo_parsed: "parse_exposition (exposition_text (\<lambda>v. ''0'') demo_text_snapshot) = demo_text_snapshot"
proof (rule parse_rendered)
  have one: "bit_length 0 = 0" by (simp add: bit_length.simps)
  have "parse_f64 ''0'' = Some 0"
    by (simp add: parse_f64_def parse_unsigned_def to_ascii_lower_def to_lower_char_def ascii_defs parse_exponent_def
        digits_value_def decimal_magnitude_def round_magnitude_def Let_def one f64_infinity_def f64_make_def)
  then have v: "value_text_ok ''0'' 0"
    by (simp add: value_text_ok_def graphic_def byte_of_def f64_is_finite_def f64_magnitude_def f64_infinity_def)
  have names: "valid_metric_name ''requests_total''" "valid_label_name ''model''"
    by (simp_all add: name_start_def name_char_def ascii_defs)
  show "snapshot_ok demo_text_snapshot" "ps_skipped_lines demo_text_snapshot = 0"
    using v by (simp_all add: demo_text_snapshot_def snapshot_ok_def metrics_ok_def bt_wf_def value_text_ok_def)
  show "list_all (\<lambda>kv. key_ok (fst kv) \<and> value_text_ok ''0'' (snd kv)) (ps_counters demo_text_snapshot @ ps_gauges demo_text_snapshot)"
    using v names by (simp add: demo_text_snapshot_def key_ok_def bt_wf_def del: valid_metric_name.simps valid_label_name.simps)
  show "length (ps_counters demo_text_snapshot) + length (ps_gauges demo_text_snapshot) \<le> MAX_EXPOSITION_SERIES"
    "lines_short (exposition_lines (\<lambda>v. ''0'') demo_text_snapshot)"
    by (simp_all add: demo_text_snapshot_def MAX_EXPOSITION_SERIES_def lines_short_def exposition_lines_def render_series_def
        render_key_def render_label_def MAX_EXPOSITION_LINE_BYTES_def)
qed

lemma demo_stored_call: "sample_op (stored_call demo_sample_call) = demo_op None 2"
  by (simp add: demo_sample_call_def stored_call_def sample_op_def demo_op_def demo_parsed canonical_capacity_def capacity_snapshot_of_def
      demo_capacity_def) (simp add: demo_text_snapshot_def canonical_state_def entry_of_def demo_entry_def)

definition demo_next_boot :: boot_record where
  "demo_next_boot = \<lparr>bo_timestamp = 5, bo_boot_id = ''b'', bo_capacity = demo_capacity\<rparr>"

lemma demo_reopens:
  "\<exists>content hs. open_existing demo_serde demo_open_io demo_next_boot (stream_bytes demo_serde [demo_boot 1 ''a'', demo_sample 2 ''a'' 0]) =
     (content, Ok hs)"
proof -
  let ?rs = "[demo_boot 1 ''a'', demo_sample 2 ''a'' 0]"
  have w: "written demo_serde ?rs" by (rule demo_written) (auto simp: demo_table_def demo_epoch_def)
  have "stream_ok ?rs" using w by (simp add: stream_ok_def demo_records in_order_def)
  with validate_stream [OF this _ w] obtain rp where "validate_canonical demo_serde (stream_bytes demo_serde ?rs) = Ok rp"
      "rp_bound rp = Some 2" "\<not> rp_needs_separator rp" by (auto simp: demo_sample_def)
  moreover have "writable demo_serde (Boot demo_next_boot)"
    using demo_writable [of "demo_boot 5 ''b''"] by (simp add: demo_table_def demo_next_epoch_def demo_boot_def demo_next_boot_def)
  ultimately show ?thesis
    using append_record_ok [of demo_serde "Boot demo_next_boot"]
    by (simp add: open_existing_def ensure_open_timestamp_def regresses_def demo_next_boot_def fail_if_def demo_open_io_def
        append_recovery_separator_def)
qed

lemma demo_sample_runs:
  "store_run demo_serde (map (sample_op \<circ> stored_call) [demo_sample_call]) (demo_store, stream_bytes demo_serde [demo_boot 1 ''a'']) =
     (demo_sampled, stream_bytes demo_serde [demo_boot 1 ''a'', demo_sample 2 ''a'' 0])"
proof -
  have "map (sample_op \<circ> stored_call) [demo_sample_call] = [demo_op None 2]" by (simp only: list.map comp_def demo_stored_call)
  then show ?thesis using demo_runs by (simp only:)
qed

lemma demo_samples:
  "list_all (\<lambda>s. op_writable demo_serde (bo_boot_id demo_boot_record) (sample_op (stored_call s))) [demo_sample_call]"
  "sorted (map fst [demo_sample_call])" "\<forall>s \<in> set [demo_sample_call]. bo_timestamp demo_boot_record \<le> fst s"
  using demo_op_writable(1) [of None]
  by (simp_all only: list.pred_inject demo_stored_call simp_thms)
    (simp_all add: demo_sample_call_def demo_boot_record_def)


end
