(* ===== verification/History_Gaps.thy ===== *)
theory History_Gaps
  imports History_Runs
begin

section \<open>Gaps over whole runs\<close>

text \<open>
  What a start had to throw away stays known. The gap over an excluded epoch stays in the file and in
  the index, through every interleaving of appends, settings changes and compactions, until a
  compaction with a cutoff behind it replaces the file.
\<close>

subsection \<open>A gap outlives the scan\<close>

definition gapped :: "nat \<Rightarrow> replay \<Rightarrow> bool" where
  "gapped x rp \<longleftrightarrow> in_gap (rp_gaps rp) x \<and> x \<le> reached rp"

lemma gapped_note [simp]: "gapped x (note_event at d rp) = gapped x rp"
  by (simp add: gapped_def)

lemma gapped_exclude_record [simp]: "gapped x (exclude_record at rp) = gapped x rp"
  by (simp add: gapped_def)

lemma gapped_separator [simp]: "gapped x (rp\<lparr>rp_needs_separator := b\<rparr>) = gapped x rp"
  by (simp add: gapped_def)

lemma gapped_commit [simp]: "gapped x (commit_epoch e rp) = gapped x rp"
  by (simp add: gapped_def)

lemma gapped_open: "gapped x rp \<Longrightarrow> gapped x (open_gap t rp)"
  by (simp add: gapped_def in_gap_open_gap)

lemma gapped_close: "gapped x rp \<Longrightarrow> reached rp \<le> t \<Longrightarrow> gapped x (close_open_gap t rp)"
  by (simp add: gapped_def in_gap_closed)

lemma gapped_exclude_epoch: "gapped x rp \<Longrightarrow> gapped x (exclude_epoch e dam rp)"
  by (simp add: gapped_def exclude_epoch_gaps in_gap_open_gap)

lemma gapped_advance: "gapped x rp \<Longrightarrow> gapped x (advance_ordering_bound t rp)"
  by (auto simp: gapped_def reached_def advance_ordering_bound_def split: option.splits)

lemma gapped_bound_with: "gapped x rp \<Longrightarrow> gapped x (bound_with at rp)"
  by (cases at) (simp_all add: bound_with_def gapped_advance)

lemma gapped_invalidate: "gapped x (snd s) \<Longrightarrow> gapped x (snd (invalidate at s))"
  by (cases "fst s") (simp_all add: invalidate_def gapped_open gapped_exclude_epoch)

lemma gapped_finish: "gapped x (snd s) \<Longrightarrow> gapped x (finish_scan s)"
  by (cases "fst s") (simp_all add: finish_scan_def gapped_exclude_epoch)

lemma gapped_ingest: "gapped x (snd s) \<Longrightarrow> gapped x (snd (ingest_record r s))"
  unfolding ingest_record_def Let_def
  by (auto simp: gapped_open gapped_exclude_epoch split: scanner.split history_record.split)

lemma gapped_accept:
  assumes "gapped x (snd s)"
  shows "gapped x (snd (accept_record r s))"
proof (cases "case rp_bound (snd s) of None \<Rightarrow> False | Some bound \<Rightarrow> record_timestamp r < bound")
  case True
  then show ?thesis using gapped_invalidate [OF assms] by (simp add: accept_record_def)
next
  case False
  let ?s = "apsnd (advance_ordering_bound (record_timestamp r)) s"
  have g: "gapped x (snd ?s)" using gapped_advance [OF assms] by (cases s) simp
  have eq: "accept_record r s = (case r of Boot b \<Rightarrow> start_boot b ?s | _ \<Rightarrow> ingest_record r ?s)"
    using False by (simp add: accept_record_def Let_def)
  show ?thesis
  proof (cases r)
    case (Boot b)
    have "rp_bound (snd ?s) = Some (bo_timestamp b)"
      using False Boot by (cases s) (auto simp: advance_ordering_bound_def split: option.splits)
    then have "rp_bound (finish_scan ?s) = Some (bo_timestamp b)" by (cases "fst ?s") (simp_all add: finish_scan_def)
    then have "reached (finish_scan ?s) = bo_timestamp b" by (simp add: reached_def)
    then show ?thesis unfolding eq using Boot gapped_close [OF gapped_finish [OF g], of "bo_timestamp b"]
      by (simp add: start_boot_finish)
  qed (use gapped_ingest [OF g] in \<open>unfold eq, simp_all\<close>)
qed

lemma gapped_steps: "scan_steps sd s s' \<Longrightarrow> gapped x (snd s) \<Longrightarrow> gapped x (snd s')"
proof (induction rule: rtranclp_induct)
  case (step s1 s2)
  from step.hyps(2) show ?case
    using step.IH [OF step.prems] by cases (auto simp: gapped_accept damaged_line_def Let_def gapped_invalidate gapped_bound_with)
qed

subsection \<open>A gap stays in the file\<close>

definition gap_on_file :: "serde \<Rightarrow> nat \<Rightarrow> bytes \<Rightarrow> bool" where
  "gap_on_file sd x content \<longleftrightarrow> (\<exists>front rest s. content = front @ rest \<and> scanned sd front s \<and> gapped x (snd s))"

lemma gap_on_file_append: "gap_on_file sd x content \<Longrightarrow> gap_on_file sd x (content @ extra)"
  unfolding gap_on_file_def by (metis append.assoc)

lemma gap_on_file_reported:
  assumes "gap_on_file sd x content" "validate_canonical sd content = Ok rp"
  shows "in_gap (rp_gaps rp) x"
proof -
  obtain front rest s where c: "content = front @ rest" and f: "ends_line front"
      "scan sd 0 False front (Await_boot, empty_replay) = Ok (True, s)" and g: "gapped x (snd s)"
    using assms(1) by (auto simp: gap_on_file_def scanned_def)
  obtain n where "scan sd 0 False content (Await_boot, empty_replay) = scan sd n True rest s"
    using scan_append [OF f, of rest] c by auto
  moreover obtain saw s' where s': "scan sd 0 False content (Await_boot, empty_replay) = Ok (saw, s')" "rp = finish_scan s'"
    using assms(2) by (auto simp: validate_canonical_def bind_result_Ok_iff split: if_splits)
  ultimately have "scan_steps sd s s'" using scan_steps by metis
  from gapped_finish [OF gapped_steps [OF this g]] show ?thesis by (simp add: s'(2) gapped_def)
qed

text \<open>Appends only ever lengthen the file, even when they fail.\<close>

lemma append_record_lengthens: "\<exists>extra. fst (append_record sd fault r content) = content @ extra"
  by (auto simp: append_record_def write_bytes_def split: sum.split option.split)

lemma put_record_lengthens: "\<exists>extra. snd (fst (put_record sd fault r s)) = snd s @ extra"
  using append_record_lengthens [of sd fault r "snd s"]
  by (auto simp: put_record_def split: sum.splits prod.splits)

lemma append_sample_lengthens: "\<exists>extra. snd (fst (append_sample sd fault t cap state s)) = snd s @ extra"
proof -
  have "snd (fst (append_sample sd fault t cap state s)) = snd s \<or>
      (\<exists>r. snd (fst (append_sample sd fault t cap state s)) = snd (fst (put_record sd fault r s)))"
    unfolding append_sample_def checkpoint_inner_def
    by (auto split: sum.splits prod.splits) (metis fst_conv snd_conv)+
  then show ?thesis using put_record_lengthens [of sd fault _ s] by (metis append_Nil2)
qed

text \<open>A compaction goes ahead only if its cutoff lies behind every gap.\<close>

lemma compaction_retires:
  assumes "gap_on_file sd x (snd sf)" "compact_if_authorized sd io allowed cutoff sf = (sf', Ok outcome)"
    and "outcome \<noteq> Deferred" "outcome \<noteq> Superseded"
  shows "x \<le> cutoff"
proof -
  obtain rp where rp: "validate_canonical sd (snd sf) = Ok rp" "\<not> list_ex (\<lambda>g. cutoff < gp_to g) (rp_gaps rp)"
    using assms(2-4) unfolding compact_if_authorized_def by (auto split: sum.splits if_splits)
  from gap_on_file_reported [OF assms(1) rp(1)] rp(2) show ?thesis
    by (auto simp: in_gap_def list_ex_iff)
qed

subsection \<open>A gap stays with the service\<close>

definition retired :: "nat \<Rightarrow> commit list \<Rightarrow> bool" where
  "retired x log \<longleftrightarrow> (\<exists>(g, cutoff, durable) \<in> set log. x \<le> cutoff)"

definition gap_kept :: "nat \<Rightarrow> serde \<Rightarrow> history \<Rightarrow> commit list \<Rightarrow> bool" where
  "gap_kept x sd h log \<longleftrightarrow> retired x log \<or>
     in_gap (hi_recovery_gaps (hy_inner h)) x \<and> (\<forall>sf. hy_store h = Some sf \<longrightarrow> gap_on_file sd x (snd sf))"

text \<open>A task that is about to replace the gaps has made its commit.\<close>

fun installs_retired :: "nat \<Rightarrow> commit list \<Rightarrow> thread \<Rightarrow> bool" where
  "installs_retired x log (Worker_install cl revision rp durable) \<longleftrightarrow> retired x log"
| "installs_retired x log _ \<longleftrightarrow> True"

lemma retired_append [simp]: "retired x (log @ log') \<longleftrightarrow> retired x log \<or> retired x log'"
  by (auto simp: retired_def)

lemma installs_retired_mono: "installs_retired x log th \<Longrightarrow> installs_retired x (log @ log') th"
  by (cases th) auto

lemma installs_retired_if: "retired x log \<Longrightarrow> installs_retired x log th"
  by (cases th) auto

lemma append_inner_gaps [simp]: "hi_recovery_gaps (fst (append_inner b days t cur cap inner)) = hi_recovery_gaps inner"
  by (simp add: append_inner_def Let_def set_available_def retain_from_def)

lemma prune_inner_gaps [simp]: "hi_recovery_gaps (fst (prune_inner cutoff inner)) = hi_recovery_gaps inner"
  by (simp add: prune_inner_def Let_def set_available_def retain_from_def)

lemma compact_step_gap:
  assumes "gap_on_file sd x (snd sf)" "compact_store sd io cl h sf = Some r" "after_compaction cl revision r = (th, sf')"
  shows "retired x (commit_of (Worker_compact cl revision) th) \<or> gap_on_file sd x (snd sf') \<and> installs_retired x [] th"
proof -
  obtain allowed where c: "compact_if_authorized sd io allowed (cl_cutoff cl) sf = r"
    using assms(2) unfolding compact_store_def Let_def by (auto split: if_splits)
  obtain sf1 res where r: "r = (sf1, res)" by (cases r)
  have same: "res = Err e \<or> res = Ok Deferred \<or> res = Ok Superseded \<Longrightarrow> sf1 = sf" for e
    using c unfolding r compact_if_authorized_def Let_def by (auto split: sum.splits if_splits option.splits)
  show ?thesis
  proof (cases res)
    case (Inl e)
    then show ?thesis using same assms(1,3) by (auto simp: r)
  next
    case (Inr outcome)
    then have "outcome \<noteq> Deferred \<Longrightarrow> outcome \<noteq> Superseded \<Longrightarrow> x \<le> cl_cutoff cl"
      using compaction_retires [OF assms(1), of io allowed "cl_cutoff cl"] c r by metis
    then show ?thesis using same [of "()"] Inr assms(1,3) by (cases outcome) (auto simp: r retired_def)
  qed
qed

lemma append_step_gap:
  assumes "append_step sd fault th h = Some (th', h')"
  shows "hi_recovery_gaps (hy_inner h') = hi_recovery_gaps (hy_inner h) \<and> installs_retired x log th' \<and>
    (\<forall>sf'. hy_store h' = Some sf' \<longrightarrow> (\<exists>sf extra. hy_store h = Some sf \<and> snd sf' = snd sf @ extra))"
proof (cases th)
  case (Append_store t days state cap)
  then show ?thesis using assms by (auto split: option.splits) (metis append_sample_lengthens snd_conv)
qed (use assms in \<open>auto simp: Let_def split: prod.splits option.splits if_splits, (metis append_inner_gaps fst_conv)?\<close>)

lemma settings_step_gap:
  assumes "retention_step th h = Some (th', h') \<or> request_step th h = Some (th', h')"
  shows "hi_recovery_gaps (hy_inner h') = hi_recovery_gaps (hy_inner h) \<and> hy_store h' = hy_store h \<and> installs_retired x log th'"
  using assms
  by (cases th) (auto simp: Let_def split: prod.splits option.splits if_splits, (metis prune_inner_gaps fst_conv)+)

lemma worker_step_gap:
  assumes "worker_step sd io th h = Some (th', h')" "gap_kept x sd h log" "installs_retired x log th"
  shows "gap_kept x sd h' (log @ commit_of th th') \<and> installs_retired x (log @ commit_of th th') th'"
proof (cases "retired x log")
  case True
  then show ?thesis by (simp add: gap_kept_def installs_retired_if)
next
  case False
  show ?thesis
  proof (cases th)
    case (Worker_compact cl revision)
    then obtain sf r sf' where w: "hy_store h = Some sf" "compact_store sd io cl h sf = Some r"
        "after_compaction cl revision r = (th', sf')" "h' = h\<lparr>hy_store := Some sf'\<rparr>"
      using assms(1) by (auto split: option.splits prod.splits)
    have "gap_on_file sd x (snd sf)" using assms(2) False w(1) by (simp add: gap_kept_def)
    from compact_step_gap [OF this w(2,3)] show ?thesis
      using assms(2) False Worker_compact w(4) by (cases th') (auto simp: gap_kept_def retired_def)
  qed (use assms False in \<open>auto simp: gap_kept_def split: if_splits ending.splits\<close>)
qed

lemma thread_step_gap:
  assumes "thread_step sd fl th h = Some (th', h')" "gap_kept x sd h log" "installs_retired x log th"
  shows "gap_kept x sd h' (log @ commit_of th th') \<and> installs_retired x (log @ commit_of th th') th'"
proof -
  from assms(1) consider "append_step sd (fl_write fl) th h = Some (th', h')"
    | "retention_step th h = Some (th', h') \<or> request_step th h = Some (th', h')"
    | "worker_step sd (fl_compact fl) th h = Some (th', h')"
    by (auto simp: thread_step_def split: option.splits)
  then show ?thesis
  proof cases
    case 1
    from append_step_gap [OF this] show ?thesis
      using assms(2) gap_on_file_append by (fastforce simp: gap_kept_def)
  next
    case 2
    from settings_step_gap [OF this] show ?thesis using assms(2) by (simp add: gap_kept_def) blast
  next
    case 3
    from worker_step_gap [OF this assms(2,3)] show ?thesis .
  qed
qed

interpretation gap_report: service_contract "gap_kept x" "installs_retired x" for x
proof unfold_locales
  show "installs_retired x log (thread_of_call c)" for log c by (cases c) simp_all
qed (auto simp: installs_retired_mono dest: thread_step_gap)

subsection \<open>What a start finds\<close>

lemma close_open_gap_events [simp]: "rp_events (close_open_gap t rp) = rp_events rp"
  by (simp add: close_open_gap_def split: option.split)

lemma close_open_gap_gaps_cong: "rp_gaps rp = rp_gaps rp' \<Longrightarrow> rp_gaps (close_open_gap t rp) = rp_gaps (close_open_gap t rp')"
  by (cases "rposition gap_open (rp_gaps rp')") (simp_all add: close_open_gap_def del: rposition_None)

lemma open_existing_gaps:
  assumes "serde_typed sd" "open_existing sd io boot content = (content', Ok hs)" "writable sd (Boot boot)" "torn_or_whole sd content"
    and "ev \<in> set (rp_events (hs_replay hs))" "hd_excluded_epochs (ev_diagnostics ev) \<noteq> 0"
  shows "gap_on_file sd (ev_at ev) content' \<and> in_gap (rp_gaps (hs_replay hs)) (ev_at ev)"
proof -
  let ?t = "bo_timestamp boot"
  obtain rp where rp: "validate_canonical sd content = Ok rp" "bound_at_most rp ?t"
    "content' = content @ separator rp @ record_line sd (Boot boot) @ [CHR 0x0A]"
    "hs = fresh_store (bo_boot_id boot) (close_open_gap ?t (rp\<lparr>rp_records := rp_records rp @ [Boot boot]\<rparr>))"
    using open_existing_Ok [OF assms(2,3)] .
  obtain s where s: "scanned sd (content @ separator rp) s" "finish_scan s = rp\<lparr>rp_needs_separator := False\<rparr>"
    using scanned_restart [OF rp(1) assms(4)] by blast
  have "rp_bound (snd s) = rp_bound rp" using rp_bound_flag [of rp s] s(2) by simp
  then have b: "bound_at_most (snd s) ?t" using rp(2) by (simp add: bound_at_most_def)
  have sc: "scanned sd content' (accept_record (Boot boot) s)"
    using scanned_append [OF s(1), of "Boot boot"] assms(3) by (simp add: rp(3) writable_def)
  have "accept_record (Boot boot) s = start_boot boot (fst s, advance_ordering_bound ?t (snd s))"
    using b by (cases s) (simp add: accept_in_order)
  then have q: "snd (accept_record (Boot boot) s) = close_open_gap ?t (advance_ordering_bound ?t (finish_scan s))"
    by (simp add: start_boot_finish finish_scan_advance)
  then have g: "rp_gaps (snd (accept_record (Boot boot) s)) = rp_gaps (close_open_gap ?t rp)"
    unfolding q by (intro close_open_gap_gaps_cong) (simp add: s(2) advance_ordering_bound_def)
  have hs: "hs_replay hs = close_open_gap ?t (rp\<lparr>rp_records := rp_records rp @ [Boot boot]\<rparr>)"
    by (simp add: rp(4))
  have g': "rp_gaps (hs_replay hs) = rp_gaps (close_open_gap ?t rp)"
    unfolding hs by (intro close_open_gap_gaps_cong) simp
  have "bound_at_most (finish_scan s) ?t" using rp(2) by (simp add: s(2) bound_at_most_def)
  from advance_at_most [OF this] have r: "reached (snd (accept_record (Boot boot) s)) = ?t"
    unfolding q reached_simps by (simp add: reached_def)
  obtain s0 where "scan_steps sd (Await_boot, empty_replay) s0" "rp = finish_scan s0" using validate_steps [OF rp(1)] .
  then have "covered rp" using scan_steps_covering [OF assms(1)] covering_finish by blast
  moreover have le: "reached rp \<le> ?t" using rp(2) by (auto simp: reached_def bound_at_most_def split: option.splits)
  ultimately have "covered (close_open_gap ?t rp)" by (rule covered_close)
  moreover have "ev \<in> set (rp_events (close_open_gap ?t rp))" using assms(5) unfolding hs by simp
  ultimately have "in_gap (rp_gaps (close_open_gap ?t rp)) (ev_at ev)" "ev_at ev \<le> reached rp"
    using assms(6) unfolding covered_def reached_simps by blast+
  then have "gapped (ev_at ev) (snd (accept_record (Boot boot) s))" "in_gap (rp_gaps (hs_replay hs)) (ev_at ev)"
    unfolding gapped_def g g' r using le by simp_all
  with sc show ?thesis unfolding gap_on_file_def by (metis append_Nil2)
qed

lemma open_store_gaps:
  assumes "serde_typed sd" "open_store sd io boot disk = (Some content, Ok hs)" "writable sd (Boot boot)"
    and "\<forall>c. disk = Some c \<or> oi_publish io = Already_exists c \<longrightarrow> torn_or_whole sd c"
    and "ev \<in> set (rp_events (hs_replay hs))" "hd_excluded_epochs (ev_diagnostics ev) \<noteq> 0"
  shows "gap_on_file sd (ev_at ev) content \<and> in_gap (rp_gaps (hs_replay hs)) (ev_at ev)"
  using assms(2,3)
proof (cases rule: open_store_Ok)
  case (continued c c')
  then show ?thesis using open_existing_gaps [OF assms(1) _ assms(3) _ assms(5,6)] assms(4) by auto
next
  case published
  then show ?thesis using assms(5) by (simp add: fresh_store_def empty_replay_def)
qed

lemma push_resets_gaps: "rp_gaps (fold push_reset resets rp) = rp_gaps rp"
  by (induction resets arbitrary: rp) (simp_all add: push_reset_def Let_def)

lemma open_inner_gaps [simp]: "hi_recovery_gaps (open_inner rp cutoff) = rp_gaps rp"
  by (simp add: open_inner_def enrich_canonical_replay_def Let_def push_resets_gaps)

lemma open_history_gap_kept:
  assumes "gap_on_file sd x content" "in_gap (rp_gaps (hs_replay hs)) x"
  shows "gap_kept x sd (open_history t days hs content) []"
  using assms by (auto simp: gap_kept_def open_history_def take_replay_def Let_def in_memory_history_def)

text \<open>So a complete window has no excluded epoch in it, unless a compaction went past the epoch.\<close>

lemma window_inside: "window_complete since until inner \<Longrightarrow> in_gap (hi_recovery_gaps inner) x \<Longrightarrow> \<not> (since < x \<and> x < until)"
  by (fastforce simp: window_complete_def in_gap_def list_ex_iff)

lemma complete_window_retired:
  assumes "serde_typed sd" "open_store sd io boot disk = (Some content, Ok hs)" "writable sd (Boot boot)"
    and "\<forall>c. disk = Some c \<or> oi_publish io = Already_exists c \<longrightarrow> torn_or_whole sd c"
    and "service_run sd as (fresh_service (open_history t days hs content)) = Some (h, ths, log)"
    and "ev \<in> set (rp_events (hs_replay hs))" "hd_excluded_epochs (ev_diagnostics ev) \<noteq> 0"
    and "window_complete since until (hy_inner h)" "since < ev_at ev" "ev_at ev < until"
  shows "retired (ev_at ev) log"
proof -
  have "gap_kept (ev_at ev) sd (open_history t days hs content) []"
    using open_store_gaps [OF assms(1-4,6,7)] by (intro open_history_gap_kept) simp_all
  then have "gap_kept (ev_at ev) sd h log"
    using gap_report.service_run_keeps [OF assms(5) [unfolded fresh_service_def]] by simp
  then show ?thesis using window_inside [OF assms(8)] assms(9,10) by (auto simp: gap_kept_def)
qed

end
