(* ===== verification/Dashboard.thy ===== *)
theory Dashboard
  imports History_Gaps Settings_Commit
begin

section \<open>The dashboard's data (src/lib.rs, src/api.rs)\<close>

text \<open>
  \<open>GET /api/dashboard\<close> and \<open>GET /api/dashboard/now\<close>: what they take from the stored configuration,
  the pool and the history, and the responses they make of it. Each takes its parts at different
  moments: the configuration first, the history after it; so both are arguments. The rendering of
  the responses as JSON is derived and not modelled.
\<close>

subsection \<open>Requests and responses\<close>

record dashboard_query =
  dq_from :: "nat option"
  dq_to :: "nat option"
  dq_points :: "nat option"

record api_error =
  ae_status :: nat
  ae_code :: string
  ae_message :: string
  ae_kind :: string

record dashboard_window =
  dw_available_from :: "nat option"
  dw_available_to :: "nat option"
  dw_complete :: bool
  dw_default_window_days :: nat
  dw_effective_from :: "nat option"
  dw_effective_to :: "nat option"
  dw_following_now :: bool
  dw_requested_from :: nat
  dw_requested_to :: nat
  dw_retention_days :: nat

record dashboard_response =
  dr_config_revision :: "64 word"
  dr_diagnostics :: history_diagnostics
  dr_history_revision :: "64 word"
  dr_latest :: "metric_value list"
  dr_points :: "rollup_point list"
  dr_totals :: "metric_value list"
  dr_window :: dashboard_window

record dashboard_now_response =
  dn_auth :: bool
  dn_available_from :: "nat option"
  dn_available_to :: "nat option"
  dn_capacity_rpm :: nat
  dn_config_revision :: "64 word"
  dn_default_window_days :: nat
  dn_history_revision :: "64 word"
  dn_lanes :: nat
  dn_metrics :: "metric_value list"
  dn_retention_days :: nat
  dn_rpms :: "nat list"
  dn_sampled_at :: nat
  dn_slo_target_percent :: f64
  dn_started :: nat
  dn_tail :: metrics_tail
  dn_version :: string

subsection \<open>Handlers\<close>

definition pool_capacity_snapshot :: "pool \<Rightarrow> capacity_snapshot" where
  "pool_capacity_snapshot p =
     \<lparr>cs_enabled_lanes = pool_len p, cs_rpms = rpms p, cs_capacity_rpm = capacity_rpm p\<rparr>"

record dashboard_config =
  ds_auth :: bool
  ds_config_revision :: "64 word"
  ds_default_window_days :: nat
  ds_retention_days :: nat
  ds_slo_target_percent :: f64

definition dashboard_config_snapshot :: "app_state \<Rightarrow> dashboard_config" where
  "dashboard_config_snapshot st =
     (let stored = ap_store st in
      \<lparr>ds_auth = (ca_mode (sc_client_auth stored) = Keyed), ds_config_revision = ap_revision st,
        ds_default_window_days = dc_default_window_days (sc_dashboard stored), ds_retention_days = sc_history_days stored,
        ds_slo_target_percent = dc_slo_target_percent (sc_dashboard stored)\<rparr>)"

definition api_dashboard ::
  "dashboard_config \<Rightarrow> nat \<Rightarrow> dashboard_query \<Rightarrow> history \<Rightarrow> api_error + dashboard_response" where
  "api_dashboard config now query h =
     (let requested_from = (case dq_from query of Some t \<Rightarrow> t
            | None \<Rightarrow> now - sat_mul64 (ds_default_window_days config) 86400);
          requested_to = (case dq_to query of Some t \<Rightarrow> t | None \<Rightarrow> now)
      in if requested_to \<le> requested_from
      then Err \<lparr>ae_status = 400, ae_code = ''invalid_time_window'', ae_message = ''from must be less than to'',
        ae_kind = ''proxy_error''\<rparr>
      else
        let points = (case dq_points query of Some n \<Rightarrow> n | None \<Rightarrow> 288);
            r = rollup_window requested_from requested_to (min (max points 2) 1000) (hy_inner h)
        in Ok \<lparr>dr_config_revision = ds_config_revision config, dr_diagnostics = hw_diagnostics r,
             dr_history_revision = rl_history_revision (hw_data r), dr_latest = rl_latest (hw_data r),
             dr_points = rl_points (hw_data r), dr_totals = rl_totals (hw_data r),
             dr_window = \<lparr>dw_available_from = rl_available_from (hw_data r), dw_available_to = rl_available_to (hw_data r),
               dw_complete = hw_complete r, dw_default_window_days = ds_default_window_days config,
               dw_effective_from = rl_effective_from (hw_data r), dw_effective_to = rl_effective_to (hw_data r),
               dw_following_now = (dq_to query = None), dw_requested_from = requested_from, dw_requested_to = requested_to,
               dw_retention_days = ds_retention_days config\<rparr>\<rparr>)"

text \<open>The live values: \<open>exposition\<close> is what the registry renders, under the lock of the history.\<close>

definition api_dashboard_now ::
  "string \<Rightarrow> nat \<Rightarrow> dashboard_config \<Rightarrow> pool \<Rightarrow> nat \<Rightarrow> string \<Rightarrow> history \<Rightarrow> dashboard_now_response" where
  "api_dashboard_now version started config p now exposition h =
     (let current = current_window (hy_boot_id h) now exposition (hy_inner h) in
      \<lparr>dn_auth = ds_auth config, dn_available_from = cm_available_from current, dn_available_to = cm_available_to current,
        dn_capacity_rpm = capacity_rpm p, dn_config_revision = ds_config_revision config,
        dn_default_window_days = ds_default_window_days config,
        dn_history_revision = tl_base_history_revision (cm_tail current), dn_lanes = pool_len p,
        dn_metrics = cm_metrics current, dn_retention_days = ds_retention_days config, dn_rpms = rpms p,
        dn_sampled_at = now, dn_slo_target_percent = ds_slo_target_percent config, dn_started = started,
        dn_tail = cm_tail current, dn_version = version\<rparr>)"

subsection \<open>A window marked complete\<close>

lemma api_dashboard_Ok:
  assumes "api_dashboard config now query h = Ok page"
  shows "dw_requested_from (dr_window page) < dw_requested_to (dr_window page)"
    and "dw_complete (dr_window page) \<Longrightarrow>
      window_complete (dw_requested_from (dr_window page)) (dw_requested_to (dr_window page)) (hy_inner h)"
  using assms by (auto simp: api_dashboard_def Let_def rollup_window_def empty_window_def split: if_splits)

text \<open>
  C21: the dashboard does not hide lost history. Start on any file; whatever the scanner had to throw
  away is noted as an excluded epoch. Then let appends, settings changes and compactions interleave
  in any order, with any failures. As long as no compaction has replaced the file with a cutoff at or
  behind the start of that epoch, no answer of the dashboard marks a window as complete that has this
  start strictly inside.
\<close>

theorem lost_history_is_shown:
  assumes "serde_typed sd" and "open_store sd io boot disk = (Some content, Ok hs)" and "writable sd (Boot boot)"
    and "\<forall>c. disk = Some c \<or> oi_publish io = Already_exists c \<longrightarrow> torn_or_whole sd c"
    and "ev \<in> set (rp_events (hs_replay hs))" and "hd_excluded_epochs (ev_diagnostics ev) \<noteq> 0"
    and "service_run sd as (fresh_service (open_history t days hs content)) = Some (h, ths, log)"
    and "\<forall>(generation, cutoff, durable) \<in> set log. cutoff < ev_at ev"
    and "api_dashboard config now query h = Ok page"
    and "dw_requested_from (dr_window page) < ev_at ev" and "ev_at ev < dw_requested_to (dr_window page)"
  shows "\<not> dw_complete (dr_window page)"
proof
  assume "dw_complete (dr_window page)"
  from complete_window_retired [OF assms(1-4,7,5,6) api_dashboard_Ok(2) [OF assms(9) this] assms(10,11)]
  show False using assms(8) by (fastforce simp: retired_def)
qed

definition demo_restart_boot :: boot_record where
  "demo_restart_boot = \<lparr>bo_timestamp = 5, bo_boot_id = ''b'', bo_capacity = demo_capacity\<rparr>"

definition demo_lost :: bytes where
  "demo_lost = stream_bytes demo_serde [demo_boot 1 ''a'', demo_sample 2 ''a'' 0, demo_boot 5 ''b'']"

lemma demo_lost_scanned:
  "scanned demo_serde demo_lost (fold accept_record [demo_boot 1 ''a'', demo_sample 2 ''a'' 0, demo_boot 5 ''b''] (Await_boot, empty_replay))"
proof -
  let ?rs = "[demo_boot 1 ''a'', demo_sample 2 ''a'' 0, demo_boot 5 ''b'']"
  have w: "written demo_serde ?rs" by (rule demo_written) (auto simp: demo_table_def demo_epoch_def demo_next_epoch_def)
  then show ?thesis
    using scan_written [OF w, of 0 False "[]" "(Await_boot, empty_replay)"]
    by (auto simp: scanned_def demo_lost_def ends_line_def)
qed

text \<open>A file whose last boot never wrote a sample, taken up again: the start excludes that boot's epoch.\<close>

lemma demo_lost_opens:
  "\<exists>content hs. open_store demo_serde demo_open_io demo_restart_boot (Some demo_lost) = (Some content, Ok hs) \<and>
     \<lparr>ev_at = 5, ev_diagnostics = no_diagnostics\<lparr>hd_excluded_epochs := 1\<rparr>\<rparr> \<in> set (rp_events (hs_replay hs))"
proof -
  let ?rp = "finish_scan (fold accept_record [demo_boot 1 ''a'', demo_sample 2 ''a'' 0, demo_boot 5 ''b''] (Await_boot, empty_replay))"
  have "rp_bound ?rp = Some 5" "\<not> rp_needs_separator ?rp"
      "\<lparr>ev_at = 5, ev_diagnostics = no_diagnostics\<lparr>hd_excluded_epochs := 1\<rparr>\<rparr> \<in> set (rp_events ?rp)"
    by (simp_all add: demo_records accept_record_def start_boot_def ingest_record_def Let_def finish_scan_def
        advance_ordering_bound_def empty_replay_def exclude_epoch_def new_epoch_def exclude_record_def note_event_def)
  moreover have "writable demo_serde (Boot demo_restart_boot)"
    using demo_writable [of "demo_boot 5 ''b''"] by (simp add: demo_table_def demo_next_epoch_def demo_boot_def demo_restart_boot_def)
  ultimately show ?thesis
    using scanned_validate [OF demo_lost_scanned] append_record_ok [of demo_serde "Boot demo_restart_boot"]
    by (simp add: open_store_def open_existing_def ensure_open_timestamp_def regresses_def demo_restart_boot_def fail_if_def
        demo_open_io_def append_recovery_separator_def fresh_store_def del: fold_simps)
qed

definition demo_dashboard :: dashboard_config where
  "demo_dashboard = \<lparr>ds_auth = True, ds_config_revision = 1, ds_default_window_days = 7, ds_retention_days = 30,
     ds_slo_target_percent = 0\<rparr>"

lemma lost_history_is_shown_witness:
  "\<exists>content hs page. open_store demo_serde demo_open_io demo_restart_boot (Some demo_lost) = (Some content, Ok hs) \<and>
     api_dashboard demo_dashboard 10 \<lparr>dq_from = Some 0, dq_to = None, dq_points = None\<rparr> (open_history 5 0 hs content) = Ok page \<and>
     \<not> dw_complete (dr_window page)"
proof -
  obtain content hs where o: "open_store demo_serde demo_open_io demo_restart_boot (Some demo_lost) = (Some content, Ok hs)"
      "\<lparr>ev_at = 5, ev_diagnostics = no_diagnostics\<lparr>hd_excluded_epochs := 1\<rparr>\<rparr> \<in> set (rp_events (hs_replay hs))"
    using demo_lost_opens by blast
  have w: "writable demo_serde (Boot demo_restart_boot)"
    using demo_writable [of "demo_boot 5 ''b''"] by (simp add: demo_table_def demo_next_epoch_def demo_boot_def demo_restart_boot_def)
  have whole: "\<forall>c. Some demo_lost = Some c \<or> oi_publish demo_open_io = Already_exists c \<longrightarrow> torn_or_whole demo_serde c"
    using scanned_torn_or_whole [OF demo_lost_scanned] by (simp add: demo_open_io_def)
  let ?q = "\<lparr>dq_from = Some 0, dq_to = None, dq_points = None\<rparr>" and ?h = "open_history 5 0 hs content"
  obtain page where p: "api_dashboard demo_dashboard 10 ?q ?h = Ok page" "dw_requested_from (dr_window page) = 0"
      "dw_requested_to (dr_window page) = 10"
    by (simp add: api_dashboard_def Let_def)
  have "service_run demo_serde [] (fresh_service ?h) = Some (?h, [], [])" by (simp add: fresh_service_def)
  from lost_history_is_shown [OF demo_typed o(1) w whole o(2) _ this _ p(1)] p(2,3) have "\<not> dw_complete (dr_window page)" by simp
  with o(1) p(1) show ?thesis by blast
qed

end
